(* ===== verification/Prelude.thy ===== *)
theory Prelude imports Main "HOL-Library.Word" begin

text \<open>
  Shared ground of the development: the machine integers of the Go code, its byte order
  helpers (encoding/binary), its instants and durations (package time), its ordered and
  duplicate-free lists, and the generic facts about them that several components use.
\<close>

unbundle bit_operations_syntax



section \<open>Machine integers and bytes\<close>

type_synonym byte = "8 word"
type_synonym u16 = "16 word"
type_synonym u32 = "32 word"
type_synonym u64 = "64 word"
type_synonym bytes = "byte list"

text \<open>
  The big-endian form of a word in \<open>n\<close> bytes (PutUint16, PutUint32, PutUint64,
  AppendUint16 ...), the little-endian form, and the readers.
\<close>

fun be_bytes :: "nat \<Rightarrow> 'a::len word \<Rightarrow> bytes" where
  "be_bytes 0 w = []"
| "be_bytes (Suc n) w = be_bytes n (drop_bit 8 w) @ [ucast w]"

definition le_bytes :: "nat \<Rightarrow> 'a::len word \<Rightarrow> bytes" where
  "le_bytes n w = rev (be_bytes n w)"

definition rd_be :: "bytes \<Rightarrow> 'a::len word" where
  "rd_be bs = foldl (\<lambda>acc b. push_bit 8 acc OR ucast b) 0 bs"

definition rd_le :: "bytes \<Rightarrow> 'a::len word" where
  "rd_le bs = rd_be (rev bs)"

lemma length_be_bytes [simp]: "length (be_bytes n w) = n"
  by (induction n arbitrary: w) auto

lemma length_le_bytes [simp]: "length (le_bytes n w) = n"
  by (simp add: le_bytes_def)

lemma rd_be_Nil [simp]: "rd_be [] = 0"
  by (simp add: rd_be_def)

lemma rd_be_snoc [simp]: "rd_be (bs @ [b]) = (push_bit 8 (rd_be bs) OR ucast b)"
  by (simp add: rd_be_def)

lemma rd_be_be_bytes_take_bit:
  "rd_be (be_bytes n (w :: 'a::len word)) = take_bit (8 * n) w"
proof (induction n arbitrary: w)
  case 0
  then show ?case by simp
next
  case (Suc n)
  have "push_bit 8 (take_bit (8 * n) (drop_bit 8 w)) OR ucast (ucast w :: byte)
      = take_bit (8 * Suc n) w"
    by (rule bit_word_eqI)
      (auto simp: bit_simps not_le not_less le_diff_conv2 intro: Suc_leI)
  with Suc show ?case by simp
qed

lemma rd_be_be_bytes [simp]:
  "LENGTH('a) \<le> 8 * n \<Longrightarrow> rd_be (be_bytes n (w :: 'a::len word)) = w"
  by (simp add: rd_be_be_bytes_take_bit take_bit_word_eq_self)

lemma rd_le_le_bytes [simp]:
  "LENGTH('a) \<le> 8 * n \<Longrightarrow> rd_le (le_bytes n (w :: 'a::len word)) = w"
  by (simp add: rd_le_def le_bytes_def)

lemma bit_rd_be: "bit (rd_be bs :: 'a::len word) n \<Longrightarrow> n < 8 * length bs"
proof (induction bs arbitrary: n rule: rev_induct)
  case (snoc b bs)
  then show ?case
    using snoc.IH [of "n - 8"] by (fastforce simp: bit_simps dest: bit_imp_le_length)
qed simp

lemma be_bytes_rd_be:
  "n = length bs \<Longrightarrow> 8 * n \<le> LENGTH('a) \<Longrightarrow> be_bytes n (rd_be bs :: 'a::len word) = bs"
proof (induction bs arbitrary: n rule: rev_induct)
  case (snoc b bs)
  let ?w = "push_bit 8 (rd_be bs :: 'a word) OR ucast b"
  have l: "8 * length bs + 8 \<le> LENGTH('a)"
    using snoc.prems by simp
  have "drop_bit 8 ?w = rd_be bs"
  proof (rule bit_word_eqI)
    fix m
    assume "m < LENGTH('a)"
    have "8 + m < LENGTH('a)" if "bit (rd_be bs :: 'a word) m"
      using bit_rd_be [OF that] l by linarith
    then show "bit (drop_bit 8 ?w) m \<longleftrightarrow> bit (rd_be bs :: 'a word) m"
      by (auto simp: bit_simps dest: bit_imp_le_length)
  qed
  moreover have "ucast ?w = b"
    by (rule bit_word_eqI) (use l in \<open>auto simp: bit_simps\<close>)
  ultimately show ?case
    using snoc by simp
qed simp

text \<open>Numerals for the widths in use: what the readers see at the front of a packet.\<close>

lemma take_be_bytes [simp]: "n \<le> m \<Longrightarrow> take m (be_bytes n w @ xs) = be_bytes n w @ take (m - n) xs"
  by simp

section \<open>Instants and durations\<close>

text \<open>
  A time.Time is the number of nanoseconds since the zero Time (year 1, UTC), so that
  IsZero is \<open>t = 0\<close>; a time.Duration is a number of nanoseconds. Sub saturates at the
  ends of int64, as Go's does.
\<close>

type_synonym instant = int
type_synonym duration = int

definition max_duration :: duration where
  "max_duration = 2 ^ 63 - 1"

definition min_duration :: duration where
  "min_duration = - (2 ^ 63)"

definition time_sub :: "instant \<Rightarrow> instant \<Rightarrow> duration" where
  "time_sub a b = max min_duration (min max_duration (a - b))"

abbreviation (input) is_zero :: "instant \<Rightarrow> bool" where
  "is_zero t \<equiv> t = 0"

abbreviation second :: duration where
  "second \<equiv> 1000000000"

lemma time_sub_less_iff:
  "min_duration < d \<Longrightarrow> d \<le> max_duration \<Longrightarrow> time_sub a b < d \<longleftrightarrow> a - b < d"
  by (auto simp: time_sub_def)

lemma time_sub_ge_iff:
  "min_duration < d \<Longrightarrow> d \<le> max_duration \<Longrightarrow> d \<le> time_sub a b \<longleftrightarrow> d \<le> a - b"
  by (auto simp: time_sub_def)

lemma time_sub_gt_iff:
  "min_duration \<le> d \<Longrightarrow> d < max_duration \<Longrightarrow> d < time_sub a b \<longleftrightarrow> d < a - b"
  by (auto simp: time_sub_def)

lemma time_sub_same [simp]: "time_sub a a = 0"
  by (simp add: time_sub_def max_duration_def min_duration_def)

text \<open>int64 arithmetic wraps.\<close>

definition wrap64 :: "int \<Rightarrow> int" where
  "wrap64 v = (v + 2 ^ 63) mod 2 ^ 64 - 2 ^ 63"

section \<open>Strings\<close>

text \<open>
  Go strings are byte strings; the ones modelled here are ASCII, a char per byte.
  strings.TrimSpace on ASCII text cuts the six ASCII space characters off both ends.
\<close>

definition go_space :: "char \<Rightarrow> bool" where
  "go_space c \<longleftrightarrow> of_char c \<in> {9, 10, 11, 12, 13, 32 :: nat}"

definition trim_space :: "string \<Rightarrow> string" where
  "trim_space s = rev (dropWhile go_space (rev (dropWhile go_space s)))"

text \<open>Runs of characters, and the letters and digits of ASCII.\<close>

definition char_range :: "char \<Rightarrow> char \<Rightarrow> char \<Rightarrow> bool" where
  "char_range a z c \<longleftrightarrow> of_char a \<le> (of_char c :: nat) \<and> (of_char c :: nat) \<le> of_char z"

definition is_alnum :: "char \<Rightarrow> bool" where
  "is_alnum c \<longleftrightarrow> (\<exists>(a, z) \<in> {(CHR ''a'', CHR ''z''), (CHR ''A'', CHR ''Z''), (CHR ''0'', CHR ''9'')}. char_range a z c)"

lemma trim_space_Nil [simp]: "trim_space [] = []"
  by (simp add: trim_space_def)

lemma dropWhile_id: "\<forall>c \<in> set s. \<not> P c \<Longrightarrow> dropWhile P s = s"
  by (cases s) auto

lemma trim_space_id: "list_all (\<lambda>c. \<not> go_space c) s \<Longrightarrow> trim_space s = s"
  by (simp add: trim_space_def list_all_iff dropWhile_id)

section \<open>Decimal numerals\<close>

text \<open>strconv.FormatUint(n, 10), and the value of a run of digits.\<close>

definition digit_char :: "nat \<Rightarrow> char" where
  "digit_char d = char_of (48 + d)"

definition is_digit :: "char \<Rightarrow> bool" where
  "is_digit c \<longleftrightarrow> 48 \<le> (of_char c :: nat) \<and> (of_char c :: nat) \<le> 57"

definition digit_val :: "char \<Rightarrow> nat" where
  "digit_val c = of_char c - 48"

fun dec :: "nat \<Rightarrow> string" where
  "dec n = (if n < 10 then [digit_char n] else dec (n div 10) @ [digit_char (n mod 10)])"

declare dec.simps [simp del]

definition undec :: "string \<Rightarrow> nat" where
  "undec s = foldl (\<lambda>v c. v * 10 + digit_val c) 0 s"

lemma is_digit_char [simp]: "d < 10 \<Longrightarrow> is_digit (digit_char d)"
  by (simp add: is_digit_def digit_char_def)

lemma digit_val_char [simp]: "d < 10 \<Longrightarrow> digit_val (digit_char d) = d"
  by (simp add: digit_val_def digit_char_def)

lemma digit_char_val: "is_digit c \<Longrightarrow> digit_char (digit_val c) = c"
  by (simp add: is_digit_def digit_val_def digit_char_def)

lemma digit_val_less: "is_digit c \<Longrightarrow> digit_val c < 10"
  unfolding is_digit_def digit_val_def by linarith

lemma undec_snoc [simp]: "undec (s @ [c]) = undec s * 10 + digit_val c" "undec [] = 0"
  by (simp_all add: undec_def)

lemma undec_dec [simp]: "undec (dec n) = n"
proof (induction n rule: dec.induct)
  case (1 n)
  show ?case
    by (subst dec.simps) (use 1 in \<open>auto simp: undec_def\<close>)
qed

lemma dec_digits: "list_all is_digit (dec n)"
proof (induction n rule: dec.induct)
  case (1 n)
  show ?case
    by (subst dec.simps) (use 1 in auto)
qed

lemma dec_nonempty [simp]: "dec n \<noteq> []"
  by (subst dec.simps) simp

lemma dec_hd: "0 < n \<Longrightarrow> hd (dec n) \<noteq> CHR ''0''"
proof (induction n rule: dec.induct)
  case (1 n)
  have "digit_char n \<noteq> CHR ''0''" if "n < 10"
    using 1(2) that digit_val_char [OF that] by (auto simp: digit_val_def)
  then show ?case
    by (subst dec.simps) (use 1 in auto)
qed

lemma dec_length: "n < 10 ^ k \<Longrightarrow> 0 < k \<Longrightarrow> length (dec n) \<le> k"
proof (induction n arbitrary: k rule: dec.induct)
  case (1 n)
  show ?case
  proof (cases "n < 10")
    case True
    with 1(3) show ?thesis by (subst dec.simps) simp
  next
    case False
    then have "k \<noteq> 1" using 1(2) by auto
    with 1(3) obtain j where j: "k = Suc j" "0 < j" by (cases k) auto
    with 1(2) have "n div 10 < 10 ^ j" by auto
    from 1(1) [OF False this j(2)] False j(1) show ?thesis by (subst dec.simps) simp
  qed
qed

lemma digit_char_0: "digit_char 0 = CHR ''0''"
  by code_simp

lemma undec_pos: "list_all is_digit s \<Longrightarrow> s \<noteq> [] \<Longrightarrow> hd s \<noteq> CHR ''0'' \<Longrightarrow> 0 < undec s"
proof (induction s rule: rev_induct)
  case (snoc c s)
  show ?case
  proof (cases s)
    case Nil
    with snoc.prems have "is_digit c" "c \<noteq> CHR ''0''"
      by simp_all
    then have "digit_val c \<noteq> 0"
      using digit_char_val [of c] digit_char_0 by metis
    with Nil show ?thesis by (simp add: undec_def)
  next
    case (Cons d t)
    with snoc have "0 < undec s" by simp
    then show ?thesis by simp
  qed
qed simp

lemma dec_undec:
  "list_all is_digit s \<Longrightarrow> s \<noteq> [] \<Longrightarrow> hd s \<noteq> CHR ''0'' \<or> length s = 1 \<Longrightarrow> dec (undec s) = s"
proof (induction s rule: rev_induct)
  case (snoc c s)
  then have d: "is_digit c" by simp
  show ?case
  proof (cases "s = []")
    case True
    then show ?thesis
      using d digit_val_less [of c] by (subst dec.simps) (simp add: digit_char_val undec_def)
  next
    case False
    with snoc have h: "hd s \<noteq> CHR ''0''" "list_all is_digit s" by auto
    then have p: "0 < undec s" using undec_pos False by simp
    have "dec (undec s) = s" using snoc.IH h False by simp
    with p show ?thesis
      using d digit_val_less [of c] by (subst dec.simps) (simp add: digit_char_val)
  qed
qed simp

lemma undec_bound: "list_all is_digit s \<Longrightarrow> undec s < 10 ^ length s"
proof (induction s rule: rev_induct)
  case (snoc c s)
  then show ?case using digit_val_less [of c] by simp
qed simp

section \<open>Lists\<close>

text \<open>The first occurrence of each element, in order: what a loop over a seen-map keeps.\<close>

fun firsts :: "'a set \<Rightarrow> 'a list \<Rightarrow> 'a list" where
  "firsts seen [] = []"
| "firsts seen (x # xs) =
     (if x \<in> seen then firsts seen xs else x # firsts (insert x seen) xs)"

lemma set_firsts [simp]: "set (firsts seen xs) = set xs - seen"
  by (induction seen xs rule: firsts.induct) auto

lemma distinct_firsts [simp]: "distinct (firsts seen xs)"
  by (induction seen xs rule: firsts.induct) auto

lemma firsts_id: "distinct xs \<Longrightarrow> set xs \<inter> seen = {} \<Longrightarrow> firsts seen xs = xs"
  by (induction xs arbitrary: seen) auto

lemma firsts_cong: "seen \<inter> set xs = seen' \<inter> set xs \<Longrightarrow> firsts seen xs = firsts seen' xs"
proof (induction xs arbitrary: seen seen')
  case Nil
  then show ?case by simp
next
  case (Cons x xs)
  have mem: "x \<in> seen \<longleftrightarrow> x \<in> seen'"
    using Cons.prems by auto
  have eqs: "seen \<inter> set xs = seen' \<inter> set xs" "insert x seen \<inter> set xs = insert x seen' \<inter> set xs"
    using Cons.prems by auto
  show ?case
    using Cons.IH [OF eqs(1)] Cons.IH [OF eqs(2)] mem by (simp del: Int_insert_left)
qed

lemma remove1_map_inj:
  "inj_on f (insert x (set xs)) \<Longrightarrow> remove1 (f x) (map f xs) = map f (remove1 x xs)"
proof (induction xs)
  case (Cons y xs)
  have "f y = f x \<longleftrightarrow> y = x"
    using inj_on_eq_iff [OF Cons.prems, of y x] by simp
  moreover have "inj_on f (insert x (set xs))"
    by (rule inj_on_subset [OF Cons.prems]) auto
  ultimately show ?case
    using Cons.IH by auto
qed simp

section \<open>Addresses\<close>

text \<open>netip.Addr: the zero Addr, an IPv4 or an IPv6 address. As4 panics where this gives None.\<close>

datatype ip_addr = NoIP | IP4 bytes | IP6 bytes

definition ip_is4 :: "ip_addr \<Rightarrow> bool" where
  "ip_is4 a = (case a of IP4 b \<Rightarrow> True | _ \<Rightarrow> False)"

definition as4 :: "ip_addr \<Rightarrow> bytes option" where
  "as4 a = (case a of NoIP \<Rightarrow> None | IP4 b \<Rightarrow> Some b
     | IP6 b \<Rightarrow> if take 12 b = replicate 10 0 @ [0xFF, 0xFF] then Some (drop 12 b) else None)"

text \<open>Unmap: an IPv4 address mapped into IPv6 as the IPv4 address. The text of an IPv4 address.\<close>

definition ip_unmap :: "ip_addr \<Rightarrow> ip_addr" where
  "ip_unmap a = (case as4 a of None \<Rightarrow> a | Some b \<Rightarrow> IP4 b)"

definition ip4_text :: "bytes \<Rightarrow> string" where
  "ip4_text b = concat (map (\<lambda>(i, x). (if i = 0 then [] else ''.'') @ dec (unat x)) (zip [0..<length b] b))"

lemma map_of_filter_Some: "map_of xs k = Some v \<Longrightarrow> P (k, v) \<Longrightarrow> map_of (filter P xs) k = Some v"
  by (induction xs) (auto split: if_splits)

end
