(* ===== verification/IdSet.thy ===== *)
theory IdSet imports Prelude "HOL-Library.Multiset" begin

text \<open>
  Lists of row ids (internal/idset/idset.go) and lists stored in one field
  (internal/listfield/listfield.go). A Go \<open>map[uint]bool\<close> whose values are only ever
  looked up is the set of keys that map to true; a \<open>map[uint]int\<close> of counters is a
  total function together with the list of keys that were touched.
\<close>

type_synonym id = nat

section \<open>idset\<close>

fun unique_loop :: "id set \<Rightarrow> id list \<Rightarrow> id list" where
  "unique_loop seen [] = []"
| "unique_loop seen (i # ids) =
     (if i = 0 \<or> i \<in> seen then unique_loop seen ids
      else i # unique_loop (insert i seen) ids)"

definition idset_unique :: "id list \<Rightarrow> id list" where
  "idset_unique ids = unique_loop {} ids"

text \<open>Combine: the second and third loops share the map, clearing each key they emit.\<close>

fun emit_in :: "id set \<Rightarrow> id list \<Rightarrow> id list \<times> id set" where
  "emit_in inn [] = ([], inn)"
| "emit_in inn (i # ids) =
     (if i \<in> inn then (let (out, rest) = emit_in (inn - {i}) ids in (i # out, rest))
      else emit_in inn ids)"

fun apply_change :: "bool \<Rightarrow> id set \<Rightarrow> id list \<Rightarrow> id set" where
  "apply_change add inn [] = inn"
| "apply_change add inn (i # ids) =
     apply_change add (if add then insert i inn else inn - {i}) ids"

definition idset_combine :: "id list \<Rightarrow> id list \<Rightarrow> bool \<Rightarrow> id list" where
  "idset_combine held change add =
     (let inn = apply_change add (set held) change;
          (out1, inn1) = emit_in inn held;
          (out2, inn2) = emit_in inn1 change
      in out1 @ out2)"

fun bump_all :: "int \<Rightarrow> (id \<Rightarrow> int) \<Rightarrow> id list \<Rightarrow> (id \<Rightarrow> int)" where
  "bump_all d seen [] = seen"
| "bump_all d seen (i # ids) = bump_all d (seen(i := seen i + d)) ids"

definition idset_same :: "id list \<Rightarrow> id list \<Rightarrow> bool" where
  "idset_same a b =
     (if length a \<noteq> length b then False
      else let seen = bump_all (-1) (bump_all 1 (\<lambda>_. 0) a) b
           in list_all (\<lambda>i. seen i = 0) (a @ b))"

lemma unique_loop_firsts: "unique_loop seen ids = firsts seen (filter (\<lambda>i. i \<noteq> 0) ids)"
  by (induction seen ids rule: unique_loop.induct) auto

lemma set_apply_change:
  "apply_change add inn ids = (if add then inn \<union> set ids else inn - set ids)"
  by (induction add inn ids rule: apply_change.induct) auto

lemma emit_in_spec:
  "fst (emit_in inn ids) = firsts (- inn) ids \<and> snd (emit_in inn ids) = inn - set ids"
proof (induction ids arbitrary: inn)
  case (Cons i ids)
  have "insert i (- inn) = - (inn - {i})"
    by auto
  then show ?case
    using Cons [of inn] Cons [of "inn - {i}"]
    by (cases "i \<in> inn") (simp_all add: case_prod_unfold Let_def insert_Diff_if Diff_insert2 [symmetric])
qed simp

lemma firsts_append:
  "firsts seen (xs @ ys) = firsts seen xs @ firsts (seen \<union> set xs) ys"
  by (induction seen xs rule: firsts.induct) (auto simp: insert_absorb)

lemma idset_combine_firsts:
  "idset_combine held change add =
     firsts (if add then {} else set change) (held @ change)"
proof -
  let ?inn = "apply_change add (set held) change"
  have e: "idset_combine held change add = firsts (- ?inn) held @ firsts (- (?inn - set held)) change"
    using emit_in_spec [of ?inn held] emit_in_spec [of "?inn - set held" change]
    by (auto simp: idset_combine_def Let_def case_prod_unfold)
  have e1: "firsts (- ?inn) held = firsts (if add then {} else set change) held"
    by (rule firsts_cong) (auto simp: set_apply_change)
  have e2: "firsts (- (?inn - set held)) change = firsts ((if add then {} else set change) \<union> set held) change"
    by (rule firsts_cong) (auto simp: set_apply_change)
  show ?thesis
    by (simp only: e e1 e2 firsts_append)
qed

lemma bump_all_count: "bump_all d seen ids i = seen i + d * int (count_list ids i)"
proof (induction ids arbitrary: seen)
  case (Cons j ids)
  show ?case
    unfolding bump_all.simps Cons.IH by (simp add: distrib_left)
qed simp

lemma count_list_mset: "count_list xs x = count (mset xs) x"
  by (induction xs) auto

text \<open>
  Same answers true exactly for two lists that hold the same ids as many times each,
  in any order: it decides equality of the lists as multisets.
\<close>

lemma idset_same_mset: "idset_same a b \<longleftrightarrow> mset a = mset b"
proof -
  have counts: "bump_all (-1) (bump_all 1 (\<lambda>_. 0) a) b i = int (count (mset a) i) - int (count (mset b) i)" for i
    by (simp add: bump_all_count count_list_mset)
  have "idset_same a b \<longleftrightarrow> length a = length b \<and> (\<forall>i \<in> set a \<union> set b. count (mset a) i = count (mset b) i)"
    by (auto simp: idset_same_def counts list_all_iff)
  also have "\<dots> \<longleftrightarrow> mset a = mset b"
    by (auto simp: multiset_eq_iff dest: mset_eq_length)
      (metis Un_iff count_mset_0_iff mset_eq_length multiset_eq_iff)+
  finally show ?thesis .
qed

text \<open>
  Combine returns the ids of \<open>held\<close> with the change added or taken away, each once,
  and it keeps the order of the inputs: the result is the subsequence of first occurrences.
\<close>

lemma idset_combine_correct:
  "set (idset_combine held change add)
     = (if add then set held \<union> set change else set held - set change)
   \<and> distinct (idset_combine held change add)
   \<and> idset_combine held change add
     = firsts {} (if add then held @ change else filter (\<lambda>i. i \<notin> set change) held)"
proof -
  have "firsts s xs = firsts {} (filter (\<lambda>i. i \<notin> s) xs)" for s :: "id set" and xs
  proof -
    have "firsts (s \<union> t) xs = firsts t (filter (\<lambda>i. i \<notin> s) xs)" for t
    proof (induction xs arbitrary: t)
      case (Cons x xs)
      from Cons [of t] Cons [of "insert x t"] show ?case
        by simp
    qed simp
    from this [of "{}"] show ?thesis by simp
  qed
  from this [of "set change"] show ?thesis
    by (auto simp: idset_combine_firsts)
qed

text \<open>Unique: no zero, each id once, the order of first occurrences; and it is idempotent.\<close>

lemma idset_unique_set [simp]: "set (idset_unique ids) = set ids - {0}"
  by (auto simp: idset_unique_def unique_loop_firsts)

lemma idset_unique_distinct [simp]: "distinct (idset_unique ids)"
  by (simp add: idset_unique_def unique_loop_firsts)

lemma idset_unique_idem: "idset_unique (idset_unique ids) = idset_unique ids"
  unfolding idset_unique_def [of "idset_unique ids"] unique_loop_firsts
  by (subst filter_True) (auto intro: firsts_id)

end
