(* ===== verification/Bitset.thy ===== *)
theory Bitset imports Prelude begin

text \<open>
  The bit vector behind an address pool (internal/ipam/bitset.go), and the contract of a
  pool of numbered slots that it implements. Indices are Go uint32 values; they are
  modelled as naturals, because the pools are at most \<open>2 ^ 22\<close> long and every index the
  scan computes is at most 64 past the end (lemma \<open>scan_jump_bound\<close>), so nothing wraps.
  The 64-bit words are words.
\<close>

section \<open>The code\<close>

record bitset =
  words :: "u64 list"
  size_n :: nat
  used_count :: int

definition new_bitset :: "nat \<Rightarrow> bitset" where
  "new_bitset n = \<lparr>words = replicate ((n + 63) div 64) 0, size_n = n, used_count = 0\<rparr>"

definition bs_test :: "bitset \<Rightarrow> nat \<Rightarrow> bool" where
  "bs_test b i = (if i \<ge> size_n b then False
     else (words b ! (i div 64)) AND push_bit (i mod 64) 1 \<noteq> 0)"

definition bs_set :: "bitset \<Rightarrow> nat \<Rightarrow> bool \<times> bitset" where
  "bs_set b i = (if i \<ge> size_n b \<or> bs_test b i then (False, b)
     else (True, b\<lparr>words := (words b)[i div 64 := words b ! (i div 64) OR push_bit (i mod 64) 1],
                  used_count := used_count b + 1\<rparr>))"

definition bs_clear :: "bitset \<Rightarrow> nat \<Rightarrow> bool \<times> bitset" where
  "bs_clear b i = (if i \<ge> size_n b \<or> \<not> bs_test b i then (False, b)
     else (True, b\<lparr>words := (words b)[i div 64 := words b ! (i div 64) AND NOT (push_bit (i mod 64) 1)],
                  used_count := used_count b - 1\<rparr>))"

text \<open>math/bits.TrailingZeros64.\<close>

definition trailing_zeros64 :: "u64 \<Rightarrow> nat" where
  "trailing_zeros64 w = hd (filter (bit w) [0..<64] @ [64])"

function bs_scan :: "bitset \<Rightarrow> nat \<Rightarrow> nat \<Rightarrow> nat option" where
  "bs_scan b i to =
     (if i < to then
        (let w = i div 64; word = words b ! w in
         if word = NOT 0 then bs_scan b ((w + 1) * 64) to
         else (let masked = word OR (push_bit (i mod 64) 1 - 1) in
           if masked \<noteq> NOT 0 then
             (let cand = w * 64 + trailing_zeros64 (NOT masked) in
              if cand \<ge> to then None else Some cand)
           else bs_scan b ((w + 1) * 64) to))
      else None)"
  by pat_completeness auto

lemma next_word_gt: "(i::nat) < (i div 64 + 1) * 64"
  using div_mult_mod_eq [of i 64] mod_less_divisor [of 64 i] by simp

termination bs_scan
proof (relation "measure (\<lambda>(b, i, to). to - i)", goal_cases)
  case (2 b i to)
  then show ?case using next_word_gt [of i] by auto
next
  case (3 b i to)
  then show ?case using next_word_gt [of i] by auto
qed simp

declare bs_scan.simps [simp del]

definition bs_next_free :: "bitset \<Rightarrow> nat \<Rightarrow> nat option" where
  "bs_next_free b start =
     (if used_count b \<ge> int (size_n b) then None
      else let start = (if start \<ge> size_n b then 0 else start) in
        case bs_scan b start (size_n b) of
          Some i \<Rightarrow> Some i
        | None \<Rightarrow> bs_scan b 0 start)"

lemma scan_jump_bound: "(i::nat) < to \<Longrightarrow> (i div 64 + 1) * 64 \<le> to + 63"
  using div_mult_mod_eq [of i 64] by simp

section \<open>The contract of a pool of slots\<close>

text \<open>
  What the address allocator relies on: a pool of \<open>cap\<close> numbered slots, of which
  \<open>members\<close> are taken. Taking and freeing report whether they changed anything, and
  the search returns the first free slot at or after a start, wrapping round once.
\<close>

locale slot_pool =
  fixes members :: "'s \<Rightarrow> nat set"
    and cap :: "'s \<Rightarrow> nat"
    and taken :: "'s \<Rightarrow> int"
    and inv :: "'s \<Rightarrow> bool"
    and ins :: "'s \<Rightarrow> nat \<Rightarrow> bool \<times> 's"
    and del :: "'s \<Rightarrow> nat \<Rightarrow> bool \<times> 's"
    and nextf :: "'s \<Rightarrow> nat \<Rightarrow> nat option"
  assumes members_bound: "inv s \<Longrightarrow> members s \<subseteq> {..<cap s}"
    and taken_card: "inv s \<Longrightarrow> taken s = int (card (members s))"
    and ins_ok: "inv s \<Longrightarrow> fst (ins s i) \<longleftrightarrow> i < cap s \<and> i \<notin> members s"
    and ins_members: "inv s \<Longrightarrow> members (snd (ins s i)) = (if i < cap s then insert i (members s) else members s)"
    and ins_inv: "inv s \<Longrightarrow> inv (snd (ins s i))"
    and ins_size: "cap (snd (ins s i)) = cap s"
    and del_ok: "inv s \<Longrightarrow> fst (del s i) \<longleftrightarrow> i \<in> members s"
    and del_members: "inv s \<Longrightarrow> members (snd (del s i)) = members s - {i}"
    and del_inv: "inv s \<Longrightarrow> inv (snd (del s i))"
    and del_size: "cap (snd (del s i)) = cap s"
    and next_None: "inv s \<Longrightarrow> nextf s st = None \<longleftrightarrow> members s = {..<cap s}"
    and next_free: "inv s \<Longrightarrow> nextf s st = Some i \<Longrightarrow> i < cap s \<and> i \<notin> members s"
    and next_first: "inv s \<Longrightarrow> nextf s st = Some i \<Longrightarrow> st < cap s \<Longrightarrow>
      (if st \<le> i then {st..<i} \<subseteq> members s else {st..<cap s} \<union> {..<i} \<subseteq> members s)"
begin

lemmas slot_laws = ins_ok ins_members ins_inv ins_size del_ok del_members del_inv del_size

lemma members_finite: "inv s \<Longrightarrow> finite (members s)"
  using members_bound finite_subset by blast

lemma taken_bounds: "inv s \<Longrightarrow> 0 \<le> taken s \<and> taken s \<le> int (cap s)"
proof -
  assume i: "inv s"
  have "card (members s) \<le> card {..<cap s}"
    by (rule card_mono) (simp_all add: i members_bound)
  with i show ?thesis
    by (simp add: taken_card)
qed

lemma taken_full: "inv s \<Longrightarrow> taken s = int (cap s) \<longleftrightarrow> members s = {..<cap s}"
proof -
  assume i: "inv s"
  have eq: "taken s = int (card (members s))"
    using i by (rule taken_card)
  show ?thesis
  proof
    assume "taken s = int (cap s)"
    with eq have "card (members s) = card {..<cap s}"
      by simp
    then show "members s = {..<cap s}"
      by (rule card_subset_eq [rotated 2]) (simp_all add: i members_bound)
  next
    assume "members s = {..<cap s}"
    with eq show "taken s = int (cap s)"
      by (metis card_lessThan)
  qed
qed

lemma taken_ins: "inv s \<Longrightarrow> fst (ins s i) \<Longrightarrow> taken (snd (ins s i)) = taken s + 1"
  by (simp add: taken_card slot_laws members_finite)

lemma taken_del: "inv s \<Longrightarrow> fst (del s i) \<Longrightarrow> taken (snd (del s i)) = taken s - 1"
proof -
  assume i: "inv s" and "fst (del s i)"
  then have m: "i \<in> members s" by (simp add: del_ok)
  then have "card (members s) > 0"
    using members_finite [OF i] by (auto simp: card_gt_0_iff)
  with i m show ?thesis
    by (simp add: taken_card slot_laws members_finite)
qed

text \<open>
  A freed slot is found again only when the search has nothing before it: it is the last
  resort of a search that starts just past it.
\<close>

lemma next_avoids:
  assumes "inv s" "nextf s (Suc i) = Some i" "Suc i < cap s"
  shows "members s = {..<cap s} - {i}"
proof -
  have "{Suc i..<cap s} \<union> {..<i} \<subseteq> members s" "i \<notin> members s"
    using next_first [OF assms] next_free [OF assms(1,2)] by auto
  moreover have "members s \<subseteq> {..<cap s}"
    using assms(1) by (rule members_bound)
  ultimately show ?thesis
    using assms(3) by (auto simp: subset_eq)
qed

end

section \<open>The bit vector implements it\<close>

definition bit_at :: "bitset \<Rightarrow> nat \<Rightarrow> bool" where
  "bit_at b i = bit (words b ! (i div 64)) (i mod 64)"

definition bs_members :: "bitset \<Rightarrow> nat set" where
  "bs_members b = {i. i < size_n b \<and> bit_at b i}"

definition bs_inv :: "bitset \<Rightarrow> bool" where
  "bs_inv b \<longleftrightarrow> length (words b) = (size_n b + 63) div 64
     \<and> used_count b = int (card (bs_members b))"

lemma bs_test_iff: "bs_test b i \<longleftrightarrow> i \<in> bs_members b"
  by (auto simp: bs_test_def bs_members_def bit_at_def bit_iff_and_push_bit_not_eq_0)

lemma finite_bs_members [simp]: "finite (bs_members b)"
  by (rule finite_subset [of _ "{..<size_n b}"]) (auto simp: bs_members_def)

lemma word_index_bound: "bs_inv b \<Longrightarrow> i < size_n b \<Longrightarrow> i div 64 < length (words b)"
  by (simp add: bs_inv_def div_less_iff_less_mult)

lemma bit_at_update:
  assumes "i div 64 < length (words b)"
    and "\<And>k. k < 64 \<Longrightarrow> bit w k = (if k = i mod 64 then v else bit (words b ! (i div 64)) k)"
  shows "bit_at (b\<lparr>words := (words b)[i div 64 := w], used_count := c\<rparr>) j = (if j = i then v else bit_at b j)"
proof (cases "j div 64 = i div 64")
  case True
  then have "j = i \<longleftrightarrow> j mod 64 = i mod 64"
    by (metis div_mult_mod_eq)
  with True assms show ?thesis
    by (simp add: bit_at_def)
next
  case False
  with assms(1) show ?thesis
    by (auto simp: bit_at_def)
qed

lemma bs_set_members:
  assumes "bs_inv b"
  shows "bs_members (snd (bs_set b i)) = (if i < size_n b then insert i (bs_members b) else bs_members b)"
proof (cases "i < size_n b \<and> i \<notin> bs_members b")
  case True
  with assms have "i div 64 < length (words b)"
    by (simp add: word_index_bound)
  then have "bit_at (b\<lparr>words := (words b)[i div 64 := words b ! (i div 64) OR push_bit (i mod 64) 1],
      used_count := used_count b + 1\<rparr>) j = (if j = i then True else bit_at b j)" for j
    by (rule bit_at_update) (auto simp: bit_simps)
  with True show ?thesis
    by (auto simp: bs_set_def bs_test_iff) (auto simp: bs_members_def split: if_splits)
next
  case False
  then show ?thesis by (auto simp: bs_set_def bs_test_iff)
qed

lemma bs_clear_members:
  assumes "bs_inv b"
  shows "bs_members (snd (bs_clear b i)) = bs_members b - {i}"
proof (cases "i \<in> bs_members b")
  case True
  with assms have "i div 64 < length (words b)"
    by (simp add: word_index_bound bs_members_def)
  then have "bit_at (b\<lparr>words := (words b)[i div 64 := words b ! (i div 64) AND NOT (push_bit (i mod 64) 1)],
      used_count := used_count b - 1\<rparr>) j = (if j = i then False else bit_at b j)" for j
    by (rule bit_at_update) (auto simp: bit_simps)
  with True show ?thesis
    by (auto simp: bs_clear_def bs_test_iff) (auto simp: bs_members_def split: if_splits)
next
  case False
  then show ?thesis by (auto simp: bs_clear_def bs_test_iff)
qed

lemma bs_set_size [simp]: "size_n (snd (bs_set b i)) = size_n b"
  by (simp add: bs_set_def)

lemma bs_clear_size [simp]: "size_n (snd (bs_clear b i)) = size_n b"
  by (simp add: bs_clear_def)

lemma bs_set_ok: "fst (bs_set b i) \<longleftrightarrow> i < size_n b \<and> i \<notin> bs_members b"
  by (auto simp: bs_set_def bs_test_iff)

lemma bs_clear_ok: "fst (bs_clear b i) \<longleftrightarrow> i \<in> bs_members b"
  by (auto simp: bs_clear_def bs_test_iff bs_members_def)

lemma bs_set_inv: "bs_inv b \<Longrightarrow> bs_inv (snd (bs_set b i))"
proof (cases "fst (bs_set b i)")
  case True
  assume i: "bs_inv b"
  from True have new: "i < size_n b" "i \<notin> bs_members b"
    by (simp_all add: bs_set_ok)
  with bs_set_members [OF i, of i] have "card (bs_members (snd (bs_set b i))) = Suc (card (bs_members b))"
    by simp
  with i new show ?thesis
    by (simp add: bs_inv_def) (simp add: bs_set_def bs_test_iff)
qed (auto simp: bs_set_def split: if_splits)

lemma bs_clear_inv: "bs_inv b \<Longrightarrow> bs_inv (snd (bs_clear b i))"
proof (cases "fst (bs_clear b i)")
  case True
  assume i: "bs_inv b"
  from True have old: "i \<in> bs_members b"
    by (simp add: bs_clear_ok)
  then have "card (bs_members b) = Suc (card (bs_members b - {i}))"
    by (simp only: card_Suc_Diff1 finite_bs_members)
  with bs_clear_members [OF i, of i] have "card (bs_members b) = Suc (card (bs_members (snd (bs_clear b i))))"
    by simp
  with i old show ?thesis
    by (simp add: bs_inv_def) (simp add: bs_clear_def bs_test_iff bs_members_def)
qed (auto simp: bs_clear_def split: if_splits)

lemma new_bitset_spec [simp]:
  "bs_inv (new_bitset n)" "bs_members (new_bitset n) = {}" "size_n (new_bitset n) = n"
proof -
  have "bit_at (new_bitset n) i = False" if "i < n" for i
  proof -
    have "i div 64 < (n + 63) div 64"
      using that by (simp add: div_less_iff_less_mult)
    then show ?thesis
      by (simp add: bit_at_def new_bitset_def)
  qed
  then show "bs_members (new_bitset n) = {}"
    by (auto simp: bs_members_def new_bitset_def)
  then show "bs_inv (new_bitset n)"
    by (simp add: bs_inv_def) (simp add: new_bitset_def)
qed (simp add: new_bitset_def)

subsection \<open>The scan\<close>

lemma trailing_zeros64_spec:
  assumes "w \<noteq> 0"
  shows "trailing_zeros64 w < 64 \<and> bit w (trailing_zeros64 w) \<and> (\<forall>j < trailing_zeros64 w. \<not> bit w j)"
proof -
  have "\<exists>k < 64. bit w k"
  proof (rule ccontr)
    assume "\<not> (\<exists>k < 64. bit w k)"
    then have "w = 0"
      by (auto intro!: bit_word_eqI)
    with assms show False by simp
  qed
  then obtain y ys where xs: "filter (bit w) [0..<64] = y # ys"
    by (cases "filter (bit w) [0..<64]") (auto simp: filter_empty_conv)
  have "sorted (y # ys)"
    by (simp only: xs [symmetric] sorted_wrt_filter sorted_upt)
  then have least: "\<forall>j \<in> set (y # ys). y \<le> j"
    by auto
  have mem: "j \<in> set (y # ys) \<longleftrightarrow> j < 64 \<and> bit w j" for j
    by (auto simp only: xs [symmetric] set_filter set_upt atLeastLessThan_iff)
  have "trailing_zeros64 w = y"
    by (simp add: trailing_zeros64_def xs)
  moreover have "y < 64 \<and> bit w y"
    using mem [of y] by simp
  moreover have "\<not> bit w j" if "j < y" for j
    using that mem [of j] least \<open>y < 64 \<and> bit w y\<close> by force
  ultimately show ?thesis by simp
qed

lemma bit_NOT64: "j < 64 \<Longrightarrow> bit (NOT (m :: u64)) j \<longleftrightarrow> \<not> bit m j"
  by (simp add: bit_not_iff)

lemma trailing_zeros64_masked:
  assumes "k < 64" "word OR (push_bit k 1 - 1) \<noteq> (NOT 0 :: u64)"
  defines "z \<equiv> trailing_zeros64 (NOT (word OR (push_bit k 1 - 1)))"
  shows "k \<le> z \<and> z < 64 \<and> \<not> bit word z \<and> (\<forall>j. k \<le> j \<longrightarrow> j < z \<longrightarrow> bit word j)"
proof -
  let ?m = "word OR (push_bit k 1 - 1)"
  have "(push_bit k 1 - 1 :: u64) = mask k"
    by (simp add: mask_eq_exp_minus_1 push_bit_eq_mult)
  then have m: "bit ?m j \<longleftrightarrow> bit word j \<or> j < k" if "j < 64" for j
    using that by (auto simp: bit_simps)
  have "NOT ?m \<noteq> 0"
    using assms(2) by (metis bit.double_compl)
  from trailing_zeros64_spec [OF this]
  have z: "z < 64" "bit (NOT ?m) z" "\<forall>j < z. \<not> bit (NOT ?m) j"
    unfolding z_def by blast+
  then have n: "\<not> bit ?m z" "\<And>j. j < z \<Longrightarrow> bit ?m j"
    using bit_NOT64 less_trans by blast+
  have "k \<le> z" "\<not> bit word z"
    using m [OF z(1)] n(1) by (meson not_le)+
  moreover have "bit word j" if "k \<le> j" "j < z" for j
    using m [of j] n(2) [of j] that z(1) by simp
  ultimately show ?thesis
    using z(1) by blast
qed

lemma masked_full:
  assumes "k < 64" "word OR (push_bit k 1 - 1) = (NOT 0 :: u64)" "k \<le> j" "j < 64"
  shows "bit word j"
proof -
  have "(push_bit k 1 - 1 :: u64) = mask k"
    by (simp add: mask_eq_exp_minus_1 push_bit_eq_mult)
  then have "bit (word OR (push_bit k 1 - 1)) j \<longleftrightarrow> bit word j \<or> j < k"
    using assms(4) by (auto simp: bit_simps)
  with assms show ?thesis
    by (simp add: bit_not_iff)
qed

lemma in_same_word: "i div 64 * 64 + k < (i div 64 + 1) * 64 \<Longrightarrow> (i div 64 * 64 + k) div 64 = (i :: nat) div 64"
  by (simp add: div_nat_eqI)

text \<open>The positions from \<open>i\<close> to the end of its word are those of one word.\<close>

lemma word_rest:
  assumes "\<And>k. i mod 64 \<le> k \<Longrightarrow> k < 64 \<Longrightarrow> bit (words b ! (i div 64)) k"
    and "i \<le> j" "j < (i div 64 + 1) * 64"
  shows "bit_at b j"
proof -
  have "j div 64 = i div 64"
    using assms(2,3) by (metis div_le_mono div_less_iff_less_mult le_antisym less_Suc_eq_le Suc_eq_plus1 zero_less_numeral)
  moreover from this assms(2) have "i mod 64 \<le> j mod 64"
    by (metis add_le_cancel_left div_mult_mod_eq)
  ultimately show ?thesis
    using assms(1) [of "j mod 64"] by (simp add: bit_at_def)
qed

lemma extend_range:
  "(\<forall>j. i \<le> j \<longrightarrow> j < m \<longrightarrow> P j) \<Longrightarrow> (\<forall>j. m \<le> j \<longrightarrow> j < t \<longrightarrow> P j) \<Longrightarrow> (\<forall>j. i \<le> j \<longrightarrow> j < t \<longrightarrow> P (j::nat))"
  by (metis not_le)

lemma bs_scan_spec:
  "case bs_scan b i to of
     None \<Rightarrow> \<forall>j. i \<le> j \<longrightarrow> j < to \<longrightarrow> bit_at b j
   | Some c \<Rightarrow> i \<le> c \<and> c < to \<and> \<not> bit_at b c \<and> (\<forall>j. i \<le> j \<longrightarrow> j < c \<longrightarrow> bit_at b j)"
proof (induction b i to rule: bs_scan.induct)
  case (1 b i to)
  let ?w = "i div 64" and ?word = "words b ! (i div 64)"
  let ?m = "?word OR (push_bit (i mod 64) 1 - 1)"
  have lt: "i mod 64 < 64" by simp
  show ?case
  proof (cases "i < to")
    case False
    then show ?thesis by (simp add: bs_scan.simps)
  next
    case i: True
    have jump: ?thesis if eq: "bs_scan b i to = bs_scan b ((?w + 1) * 64) to"
      and rest: "\<And>k. i mod 64 \<le> k \<Longrightarrow> k < 64 \<Longrightarrow> bit ?word k"
      and IH: "case bs_scan b ((?w + 1) * 64) to of
          None \<Rightarrow> \<forall>j. (?w + 1) * 64 \<le> j \<longrightarrow> j < to \<longrightarrow> bit_at b j
        | Some c \<Rightarrow> (?w + 1) * 64 \<le> c \<and> c < to \<and> \<not> bit_at b c \<and> (\<forall>j. (?w + 1) * 64 \<le> j \<longrightarrow> j < c \<longrightarrow> bit_at b j)"
    proof -
      have here: "\<forall>j. i \<le> j \<longrightarrow> j < (?w + 1) * 64 \<longrightarrow> bit_at b j"
        using word_rest [of i b, OF rest] by blast
      show ?thesis
        using IH extend_range [OF here] next_word_gt [of i]
        unfolding eq by (cases "bs_scan b ((?w + 1) * 64) to") (force simp del: add_mult_distrib)+
    qed
    consider (full) "?word = NOT 0" | (masked) "?word \<noteq> NOT 0" "?m = NOT 0"
      | (found) "?word \<noteq> NOT 0" "?m \<noteq> NOT 0"
      by blast
    then show ?thesis
    proof cases
      case full
      show ?thesis
        using "1.IH"(1) [OF i refl refl full] i full
        by (intro jump) (simp_all add: bs_scan.simps [of b i to] bit_not_iff)
    next
      case masked
      show ?thesis
        using "1.IH"(2) [OF i refl refl masked(1) refl] i masked masked_full [OF lt masked(2)]
        by (intro jump) (simp_all add: bs_scan.simps [of b i to])
    next
      case found
      define z where "z = trailing_zeros64 (NOT ?m)"
      have z: "i mod 64 \<le> z" "z < 64" "\<not> bit ?word z" "\<forall>j. i mod 64 \<le> j \<longrightarrow> j < z \<longrightarrow> bit ?word j"
        using trailing_zeros64_masked [OF lt found(2)] by (simp_all add: z_def)
      have zd: "(?w * 64 + z) div 64 = ?w" "(?w * 64 + z) mod 64 = z"
        using z(2) by simp_all
      then have notz: "\<not> bit_at b (?w * 64 + z)"
        using z(3) by (simp add: bit_at_def)
      have le: "i \<le> ?w * 64 + z"
        using z(1) div_mult_mod_eq [of i 64] by linarith
      have below: "bit_at b j" if "i \<le> j" "j < ?w * 64 + z" for j
      proof -
        have "j div 64 = ?w"
          using that z(2) by (intro div_nat_eqI) (use div_mult_mod_eq [of i 64] in simp_all)
        moreover from this have "i mod 64 \<le> j mod 64" "j mod 64 < z"
          using that div_mult_mod_eq [of i 64] div_mult_mod_eq [of j 64] by linarith+
        ultimately show ?thesis
          using z(4) by (simp add: bit_at_def)
      qed
      have eq: "bs_scan b i to = (if ?w * 64 + z \<ge> to then None else Some (?w * 64 + z))"
        using i found by (simp add: bs_scan.simps [of b i to] Let_def z_def)
      show ?thesis
        using notz le below by (auto simp: eq)
    qed
  qed
qed

lemma bs_scan_members:
  assumes "to \<le> size_n b"
  shows "case bs_scan b i to of
     None \<Rightarrow> {i..<to} \<subseteq> bs_members b
   | Some c \<Rightarrow> i \<le> c \<and> c < to \<and> c \<notin> bs_members b \<and> {i..<c} \<subseteq> bs_members b"
  using bs_scan_spec [where b = b and i = i and to = to] assms
  by (auto simp: bs_members_def split: option.splits)

lemma bs_next_free_spec:
  fixes b :: bitset and start :: nat
  assumes "bs_inv b"
  defines "st \<equiv> if start \<ge> size_n b then 0 else start"
  shows "case bs_next_free b start of
     None \<Rightarrow> bs_members b = {..<size_n b}
   | Some i \<Rightarrow> i < size_n b \<and> i \<notin> bs_members b \<and>
       (if st \<le> i then {st..<i} \<subseteq> bs_members b else {st..<size_n b} \<union> {..<i} \<subseteq> bs_members b)"
proof -
  have sub: "bs_members b \<subseteq> {..<size_n b}"
    by (auto simp: bs_members_def)
  show ?thesis
  proof (cases "used_count b \<ge> int (size_n b)")
    case True
    with assms(1) have "card (bs_members b) = card {..<size_n b}"
      using card_mono [OF _ sub] by (simp add: bs_inv_def)
    then have "bs_members b = {..<size_n b}"
      by (rule card_subset_eq [OF _ sub, rotated]) simp
    with True show ?thesis
      by (simp add: bs_next_free_def)
  next
    case False
    have st: "st \<le> size_n b"
      by (simp add: st_def)
    have eq: "bs_next_free b start = (case bs_scan b st (size_n b) of Some i \<Rightarrow> Some i | None \<Rightarrow> bs_scan b 0 st)"
      using False unfolding bs_next_free_def st_def Let_def by (auto split: option.splits)
    show ?thesis
    proof (cases "bs_scan b st (size_n b)")
      case (Some i)
      with bs_scan_members [where b = b and to = "size_n b" and i = st] show ?thesis
        by (simp add: eq)
    next
      case None
      with bs_scan_members [where b = b and to = "size_n b" and i = st] have hi: "{st..<size_n b} \<subseteq> bs_members b"
        by simp
      show ?thesis
      proof (cases "bs_scan b 0 st")
        case n: None
        with bs_scan_members [where b = b and to = st and i = 0] st have "{0..<st} \<subseteq> bs_members b"
          by simp
        moreover have "{..<size_n b} \<subseteq> {0..<st} \<union> {st..<size_n b}"
          by auto
        ultimately have "bs_members b = {..<size_n b}"
          using hi sub by blast
        with None n show ?thesis
          by (simp add: eq)
      next
        case (Some i)
        with bs_scan_members [where b = b and to = st and i = 0] st hi None show ?thesis
          by (auto simp: eq)
      qed
    qed
  qed
qed

interpretation bs: slot_pool bs_members size_n used_count bs_inv bs_set bs_clear bs_next_free
proof unfold_locales
  fix s st i
  assume inv: "bs_inv s"
  show "bs_members s \<subseteq> {..<size_n s}"
    by (auto simp: bs_members_def)
  show "used_count s = int (card (bs_members s))"
    using inv by (simp add: bs_inv_def)
  show "bs_next_free s st = None \<longleftrightarrow> bs_members s = {..<size_n s}"
    using bs_next_free_spec [OF inv, of st] by (auto split: option.splits)
  show "bs_next_free s st = Some i \<Longrightarrow> i < size_n s \<and> i \<notin> bs_members s"
    using bs_next_free_spec [OF inv, of st] by auto
  show "bs_next_free s st = Some i \<Longrightarrow> st < size_n s \<Longrightarrow>
      (if st \<le> i then {st..<i} \<subseteq> bs_members s else {st..<size_n s} \<union> {..<i} \<subseteq> bs_members s)"
    using bs_next_free_spec [OF inv, of st] by (auto split: if_splits)
qed (simp_all add: bs_set_ok bs_set_members bs_set_inv bs_clear_ok bs_clear_members bs_clear_inv)

end
