(* ===== verification/Allocator.thy ===== *)
theory Allocator imports Bitset begin

text \<open>
  The address allocator of an interface's subnet and the set of allocators, one per
  interface (internal/ipam/allocator.go and pools.go), with the part of net/netip they use.
  An IPv6 zone is not modelled. A mutex only serialises the operations, so each is one
  step on the state.
\<close>

section \<open>Addresses and prefixes (net/netip)\<close>

datatype addr = NoAddr | V4 u32 | V6 "128 word"

record prefix =
  p_addr :: addr
  p_bits :: int

definition no_prefix :: prefix where
  "no_prefix = \<lparr>p_addr = NoAddr, p_bits = -1\<rparr>"

fun unmap :: "addr \<Rightarrow> addr" where
  "unmap (V6 w) = (if drop_bit 32 w = 0xFFFF then V4 (ucast w) else V6 w)"
| "unmap a = a"

fun is4 :: "addr \<Rightarrow> bool" where
  "is4 (V4 _) = True"
| "is4 _ = False"

definition masked :: "prefix \<Rightarrow> prefix" where
  "masked p = (case p_addr p of
      V4 a \<Rightarrow> if 0 \<le> p_bits p \<and> p_bits p \<le> 32
        then p\<lparr>p_addr := V4 (a AND NOT (mask (32 - nat (p_bits p))))\<rparr> else no_prefix
    | V6 a \<Rightarrow> if 0 \<le> p_bits p \<and> p_bits p \<le> 128
        then p\<lparr>p_addr := V6 (a AND NOT (mask (128 - nat (p_bits p))))\<rparr> else no_prefix
    | NoAddr \<Rightarrow> no_prefix)"

fun contains :: "prefix \<Rightarrow> addr \<Rightarrow> bool" where
  "contains p a =
     (if p_bits p < 0 then False
      else case (p_addr p, a) of
        (V4 n, V4 x) \<Rightarrow> drop_bit (32 - nat (p_bits p)) (x XOR n) = 0
      | (V6 n, V6 x) \<Rightarrow> drop_bit (128 - nat (p_bits p)) (x XOR n) = 0
      | _ \<Rightarrow> False)"

section \<open>The allocator\<close>

datatype ipam_error =
    ErrPoolFull | ErrOutOfRange | ErrAlreadyInUse | ErrNotAllocated | ErrPrefixTooWide
  | NotIPv4 | TooSmall | BadPrefix | BadAddress | NoPool nat

definition max_pool_bits :: int where
  "max_pool_bits = 22"

record allocator =
  a_prefix :: prefix
  a_base :: u32
  a_size :: nat
  a_used :: bitset
  a_cursor :: nat

definition addr_to_u32 :: "addr \<Rightarrow> u32" where
  "addr_to_u32 a = (case a of V4 w \<Rightarrow> w | V6 w \<Rightarrow> ucast w | NoAddr \<Rightarrow> 0)"

definition u32_to_addr :: "u32 \<Rightarrow> addr" where
  "u32_to_addr v = V4 v"

definition new_allocator :: "prefix \<Rightarrow> nat list \<Rightarrow> ipam_error + allocator" where
  "new_allocator prefix0 extra_reserved =
     (let prefix = masked prefix0; addr = unmap (p_addr prefix) in
      if \<not> is4 addr then Inl NotIPv4
      else let host_bits = 32 - p_bits prefix in
      if host_bits > max_pool_bits then Inl ErrPrefixTooWide
      else if host_bits < 2 then Inl TooSmall
      else let size = 2 ^ nat host_bits;
               used = snd (bs_set (snd (bs_set (snd (bs_set (new_bitset size) 0)) 1)) (size - 1))
           in Inr \<lparr>a_prefix = prefix, a_base = addr_to_u32 addr, a_size = size,
                a_used = foldl (\<lambda>u off. snd (bs_set u off)) used extra_reserved,
                a_cursor = 2\<rparr>)"

definition gateway :: "allocator \<Rightarrow> addr" where
  "gateway a = u32_to_addr (a_base a + 1)"

definition capacity :: "allocator \<Rightarrow> int" where
  "capacity a = int (a_size a) - 3"

definition in_use :: "allocator \<Rightarrow> int" where
  "in_use a = used_count (a_used a) - 3"

definition allocate :: "allocator \<Rightarrow> (ipam_error + addr) \<times> allocator" where
  "allocate a =
     (case bs_next_free (a_used a) (a_cursor a) of
        None \<Rightarrow> (Inl ErrPoolFull, a)
      | Some off \<Rightarrow>
          (let used = snd (bs_set (a_used a) off);
               cursor = off + 1;
               cursor = (if cursor \<ge> a_size a then 2 else cursor)
           in (Inr (u32_to_addr (a_base a + of_nat off)), a\<lparr>a_used := used, a_cursor := cursor\<rparr>)))"

definition offset :: "allocator \<Rightarrow> addr \<Rightarrow> ipam_error + nat" where
  "offset a addr0 =
     (let addr = unmap addr0 in
      if \<not> is4 addr then Inl ErrOutOfRange
      else if \<not> contains (a_prefix a) addr then Inl ErrOutOfRange
      else Inr (unat (addr_to_u32 addr - a_base a)))"

definition reserve :: "allocator \<Rightarrow> addr \<Rightarrow> ipam_error option \<times> allocator" where
  "reserve a addr =
     (case offset a addr of
        Inl e \<Rightarrow> (Some e, a)
      | Inr off \<Rightarrow>
          (let (ok, used) = bs_set (a_used a) off in
           if \<not> ok then (Some ErrAlreadyInUse, a)
           else (None, a\<lparr>a_used := used,
              a_cursor := (if off \<ge> a_cursor a
                 then (if off + 1 \<ge> a_size a then 2 else off + 1) else a_cursor a)\<rparr>)))"

definition release :: "allocator \<Rightarrow> addr \<Rightarrow> ipam_error option \<times> allocator" where
  "release a addr =
     (case offset a addr of
        Inl e \<Rightarrow> (Some e, a)
      | Inr off \<Rightarrow>
          if off = 0 \<or> off = 1 \<or> off = a_size a - 1 then (Some ErrOutOfRange, a)
          else (let (ok, used) = bs_clear (a_used a) off in
            if \<not> ok then (Some ErrNotAllocated, a) else (None, a\<lparr>a_used := used\<rparr>)))"

definition holds :: "allocator \<Rightarrow> addr \<Rightarrow> bool" where
  "holds a addr = (case offset a addr of Inl _ \<Rightarrow> False | Inr off \<Rightarrow> bs_test (a_used a) off)"

section \<open>The pools\<close>

text \<open>
  Pools maps interface ids to allocators. netip.ParsePrefix and netip.ParseAddr are
  parameters of Add and Replay: the text forms of addresses are not modelled.
\<close>

type_synonym pools = "nat \<rightharpoonup> allocator"

definition new_pools :: pools where
  "new_pools = Map.empty"

definition pools_add :: "(string \<Rightarrow> prefix option) \<Rightarrow> pools \<Rightarrow> nat \<Rightarrow> string \<Rightarrow> (ipam_error + allocator) \<times> pools" where
  "pools_add parse_prefix p interface_id cidr =
     (case parse_prefix cidr of
        None \<Rightarrow> (Inl BadPrefix, p)
      | Some prefix \<Rightarrow>
          (case new_allocator prefix [] of
             Inl e \<Rightarrow> (Inl e, p)
           | Inr a \<Rightarrow> (Inr a, p(interface_id \<mapsto> a))))"

definition pools_get :: "pools \<Rightarrow> nat \<Rightarrow> ipam_error + allocator" where
  "pools_get p interface_id =
     (case p interface_id of None \<Rightarrow> Inl (NoPool interface_id) | Some a \<Rightarrow> Inr a)"

text \<open>The allocator is shared by reference in Go: Reserve changes it in place in the map.\<close>

definition pools_replay :: "(string \<Rightarrow> addr option) \<Rightarrow> pools \<Rightarrow> nat \<Rightarrow> string \<Rightarrow> ipam_error option \<times> pools" where
  "pools_replay parse_addr p interface_id addr =
     (case pools_get p interface_id of
        Inl e \<Rightarrow> (Some e, p)
      | Inr a \<Rightarrow>
          (case parse_addr addr of
             None \<Rightarrow> (Some BadAddress, p)
           | Some parsed \<Rightarrow>
               (case reserve a parsed of
                  (Some e, _) \<Rightarrow> (Some e, p)
                | (None, a') \<Rightarrow> (None, p(interface_id \<mapsto> a')))))"

definition pools_len :: "pools \<Rightarrow> nat" where
  "pools_len p = card (dom p)"

definition pools_remove :: "pools \<Rightarrow> nat \<Rightarrow> pools" where
  "pools_remove p interface_id = p(interface_id := None)"

section \<open>The invariant\<close>

definition reserved_offsets :: "allocator \<Rightarrow> nat set" where
  "reserved_offsets a = {0, 1, a_size a - 1}"

definition alloc_inv_h :: "nat \<Rightarrow> allocator \<Rightarrow> bool" where
  "alloc_inv_h h a \<longleftrightarrow> 2 \<le> h \<and> h \<le> 22
     \<and> a_prefix a = \<lparr>p_addr = V4 (a_base a), p_bits = 32 - int h\<rparr>
     \<and> a_size a = 2 ^ h \<and> take_bit h (a_base a) = 0
     \<and> bs_inv (a_used a) \<and> size_n (a_used a) = a_size a
     \<and> reserved_offsets a \<subseteq> bs_members (a_used a)
     \<and> 2 \<le> a_cursor a \<and> a_cursor a < a_size a"

definition alloc_inv :: "allocator \<Rightarrow> bool" where
  "alloc_inv a \<longleftrightarrow> (\<exists>h. alloc_inv_h h a)"

text \<open>An IPv4 address of the pool is its base plus its offset, both ways round.\<close>

lemma xor_zero_iff: "x XOR y = 0 \<longleftrightarrow> x = (y :: 'a::len word)"
  by (auto simp: bit_eq_iff bit_simps)

lemma word_same_block:
  fixes x b :: u32
  assumes "take_bit h b = 0" "drop_bit h (x XOR b) = 0"
  shows "x - b = take_bit h x"
proof -
  have "drop_bit h x = drop_bit h b"
    using assms(2) by (simp add: drop_bit_xor xor_zero_iff)
  then have "push_bit h (drop_bit h x) = b"
    using bits_ident [of h b] assms(1) by simp
  then show ?thesis
    using bits_ident [of h x] by (simp add: algebra_simps)
qed

lemma word_block_add:
  fixes b :: u32
  assumes "take_bit h b = 0" "h < 32" "off < 2 ^ h"
  shows "drop_bit h ((b + of_nat off) XOR b) = 0"
proof -
  let ?o = "of_nat off :: u32"
  have o: "take_bit h ?o = ?o"
    using assms(3) by (simp add: take_bit_of_nat take_bit_nat_eq_self)
  have lo: "\<not> bit b i" if "i < h" for i
    using assms(1) that by (metis bit_take_bit_iff bit_0_eq bot_apply bot_bool_def)
  have hi: "\<not> bit ?o i" if "h \<le> i" for i
    using o that by (metis bit_take_bit_iff not_le)
  have "b AND ?o = 0"
    using lo hi by (auto intro!: bit_word_eqI simp: bit_simps) (metis not_le)
  then have "b + ?o = b OR ?o"
    by (rule disjunctive_add_eq_or)
  moreover have "drop_bit h ?o = 0"
    using hi by (auto intro!: bit_word_eqI simp: bit_simps)
  ultimately show ?thesis
    by (simp add: drop_bit_xor drop_bit_or)
qed

lemma contains_V4:
  assumes "alloc_inv_h h a"
  shows "contains (a_prefix a) (V4 x) \<longleftrightarrow> drop_bit h (x XOR a_base a) = 0"
  using assms by (simp add: alloc_inv_h_def nat_diff_distrib)

lemma offset_ok:
  assumes "alloc_inv_h h a" "offset a x = Inr off"
  shows "unmap x = V4 (a_base a + of_nat off) \<and> off < a_size a \<and> contains (a_prefix a) (unmap x)"
proof -
  from assms(2) obtain w where w: "unmap x = V4 w"
    by (cases "unmap x") (auto simp: offset_def Let_def)
  with assms have c: "drop_bit h (w XOR a_base a) = 0" and off: "off = unat (w - a_base a)"
    by (auto simp: offset_def Let_def addr_to_u32_def contains_V4 simp del: contains.simps split: if_splits)
  have "off = unat (take_bit h w)"
    using word_same_block [OF _ c] assms(1) off by (simp add: alloc_inv_h_def)
  then have "off < 2 ^ h"
    by (simp add: unsigned_take_bit_eq)
  with assms(1) c off w show ?thesis
    by (simp add: contains_V4 del: contains.simps) (simp add: alloc_inv_h_def)
qed

lemma offset_pool:
  assumes "alloc_inv_h h a" "off < a_size a"
  shows "offset a (V4 (a_base a + of_nat off)) = Inr off"
proof -
  from assms have h: "take_bit h (a_base a) = 0" "h < 32" "off < 2 ^ h" "h \<le> 22"
    by (simp_all add: alloc_inv_h_def)
  have "2 ^ h \<le> (2 :: nat) ^ 22"
    using h(4) by (rule power_increasing) simp
  with h(3) have "off < 2 ^ 32" by simp
  then have "unat (of_nat off :: u32) = off"
    by (simp add: unat_of_nat take_bit_nat_eq_self)
  then show ?thesis
    using word_block_add [OF h(1-3)] assms(1)
    by (simp add: offset_def contains_V4 addr_to_u32_def del: contains.simps)
qed

lemma offset_cong:
  assumes "alloc_inv_h h a" "offset a x = Inr off"
  shows "offset a y = Inr off \<longleftrightarrow> unmap y = unmap x"
proof
  assume "offset a y = Inr off"
  with assms show "unmap y = unmap x"
    using offset_ok [of h a x off] offset_ok [of h a y off] by simp
next
  assume "unmap y = unmap x"
  with assms(2) show "offset a y = Inr off"
    unfolding offset_def by simp
qed

lemma holds_iff:
  assumes "alloc_inv_h h a"
  shows "holds a x \<longleftrightarrow> (\<exists>off \<in> bs_members (a_used a). offset a x = Inr off)"
  by (auto simp: holds_def bs_test_iff split: sum.splits)

lemma offset_fields:
  "a_prefix a' = a_prefix a \<Longrightarrow> a_base a' = a_base a \<Longrightarrow> offset a' x = offset a x"
  by (simp add: offset_def Let_def)

lemma offset_exists: "contains (a_prefix a) (unmap y) \<Longrightarrow> is4 (unmap y) \<Longrightarrow> \<exists>off. offset a y = Inr off"
  by (simp add: offset_def del: contains.simps)

text \<open>Replacing the bit vector by one that still has the reserved offsets keeps the invariant.\<close>

lemma alloc_inv_update:
  assumes "alloc_inv_h h a" "bs_inv u" "size_n u = a_size a" "reserved_offsets a \<subseteq> bs_members u"
    and "2 \<le> c" "c < a_size a"
  shows "alloc_inv_h h (a\<lparr>a_used := u, a_cursor := c\<rparr>)"
  using assms by (simp add: alloc_inv_h_def reserved_offsets_def)

lemma size_bounds: "alloc_inv_h h a \<Longrightarrow> 4 \<le> a_size a \<and> a_size a \<le> 2 ^ 22"
  unfolding alloc_inv_h_def
  using power_increasing [of 2 h "2::nat"] power_increasing [of h 22 "2::nat"] by simp

lemma new_allocator_inv:
  assumes "new_allocator p extra = Inr a"
  shows "alloc_inv a"
proof -
  let ?p = "masked p"
  from assms obtain b where b: "unmap (p_addr ?p) = V4 b"
    by (cases "unmap (p_addr ?p)") (auto simp: new_allocator_def Let_def)
  define h where "h = nat (32 - p_bits ?p)"
  from assms b have h: "2 \<le> h" "h \<le> 22" "p_bits ?p = 32 - int h"
    by (auto simp: new_allocator_def Let_def max_pool_bits_def h_def split: if_splits)
  have v4: "p_addr ?p = V4 b" "take_bit h b = 0"
  proof -
    have "p_addr ?p = V4 b \<and> take_bit h b = 0"
    proof (cases "p_addr p")
      case (V4 x)
      with b h have "p_bits p = 32 - int h"
        by (auto simp: masked_def no_prefix_def split: if_splits)
      with V4 h have eq: "p_addr ?p = V4 (x AND NOT (mask h))"
        by (simp add: masked_def nat_diff_distrib)
      have tb: "take_bit h (x AND NOT (mask h)) = 0"
        by (rule bit_word_eqI) (simp add: bit_simps)
      from eq b have xb: "x AND NOT (mask h) = b"
        by simp
      from eq tb show ?thesis
        unfolding xb by blast
    next
      case (V6 x)
      let ?w = "x AND NOT (mask (128 - nat (p_bits p)))"
      from V6 b h have bits: "p_bits p = 32 - int h" and m: "drop_bit 32 ?w = 0xFFFF"
        by (auto simp: masked_def no_prefix_def split: if_splits)
      from m have "bit (drop_bit 32 ?w) 0"
        by simp
      then show ?thesis
        using bits h(2) by (simp add: bit_simps nat_diff_distrib)
    next
      case NoAddr
      with b show ?thesis
        by (simp add: masked_def no_prefix_def)
    qed
    then show "p_addr ?p = V4 b" "take_bit h b = 0" by simp_all
  qed
  let ?n = "(2 :: nat) ^ h"
  have n: "4 \<le> ?n"
    using power_increasing [of 2 h "2::nat"] h by simp
  have fold: "bs_inv (foldl (\<lambda>u off. snd (bs_set u off)) u extra)
      \<and> size_n (foldl (\<lambda>u off. snd (bs_set u off)) u extra) = size_n u
      \<and> bs_members u \<subseteq> bs_members (foldl (\<lambda>u off. snd (bs_set u off)) u extra)"
    if "bs_inv u" for u
    using that
  proof (induction extra arbitrary: u)
    case (Cons i extra)
    from Cons.IH [OF bs.ins_inv [OF Cons.prems, of i]] show ?case
      using bs.ins_members [OF Cons.prems, of i] by (auto split: if_splits)
  qed simp
  define u0 where "u0 = snd (bs_set (snd (bs_set (snd (bs_set (new_bitset ?n) 0)) 1)) (?n - 1))"
  have u0: "bs_inv u0" "size_n u0 = ?n" "{0, 1, ?n - 1} \<subseteq> bs_members u0"
    using n by (simp_all add: u0_def bs.slot_laws)
  have "a = \<lparr>a_prefix = ?p, a_base = b, a_size = ?n,
      a_used = foldl (\<lambda>u off. snd (bs_set u off)) u0 extra, a_cursor = 2\<rparr>"
    using assms b h by (simp add: new_allocator_def Let_def addr_to_u32_def u0_def max_pool_bits_def)
  moreover have "?p = \<lparr>p_addr = V4 b, p_bits = 32 - int h\<rparr>"
    using v4(1) h(3) by (cases ?p) simp
  ultimately have "alloc_inv_h h a"
    using h v4(2) fold [OF u0(1)] u0 n by (auto simp: alloc_inv_h_def reserved_offsets_def)
  then show ?thesis
    by (auto simp: alloc_inv_def)
qed

lemma allocate_cases:
  assumes "alloc_inv_h h a"
  obtains (full) "allocate a = (Inl ErrPoolFull, a)" "bs_members (a_used a) = {..<a_size a}"
  | (free) off c where "bs_next_free (a_used a) (a_cursor a) = Some off" "off < a_size a" "off \<notin> bs_members (a_used a)"
      "c = (if off + 1 \<ge> a_size a then 2 else off + 1)"
      "allocate a = (Inr (V4 (a_base a + of_nat off)), a\<lparr>a_used := snd (bs_set (a_used a) off), a_cursor := c\<rparr>)"
proof (cases "bs_next_free (a_used a) (a_cursor a)")
  case None
  then show ?thesis
    using assms full bs.next_None [of "a_used a" "a_cursor a"]
    by (simp add: allocate_def alloc_inv_h_def)
next
  case (Some off)
  then show ?thesis
    using assms free [of off] bs.next_free [of "a_used a" "a_cursor a" off]
    by (simp add: allocate_def alloc_inv_h_def u32_to_addr_def Let_def)
qed

lemma allocate_free_inv:
  assumes "alloc_inv_h h a" "off < a_size a" "off \<notin> bs_members (a_used a)"
    and "c = (if off + 1 \<ge> a_size a then 2 else off + 1)"
  shows "alloc_inv_h h (a\<lparr>a_used := snd (bs_set (a_used a) off), a_cursor := c\<rparr>)"
proof -
  have "2 \<le> off"
    using assms by (cases "off = 0 \<or> off = 1") (auto simp: alloc_inv_h_def reserved_offsets_def)
  then show ?thesis
    using assms size_bounds [OF assms(1)]
    by (intro alloc_inv_update) (auto simp: bs.slot_laws alloc_inv_h_def)
qed

lemma allocate_inv: "alloc_inv a \<Longrightarrow> alloc_inv (snd (allocate a))"
proof -
  assume "alloc_inv a"
  then obtain h where h: "alloc_inv_h h a"
    by (auto simp: alloc_inv_def)
  from h show ?thesis
  proof (cases rule: allocate_cases)
    case (free off c)
    with allocate_free_inv [OF h free(2-4)] show ?thesis
      by (auto simp: alloc_inv_def)
  qed (use h in \<open>auto simp: alloc_inv_def\<close>)
qed

lemma reserve_cases:
  assumes "alloc_inv_h h a"
  obtains (bad) e where "offset a x = Inl e" "reserve a x = (Some e, a)"
  | (taken) off where "offset a x = Inr off" "off \<in> bs_members (a_used a)" "reserve a x = (Some ErrAlreadyInUse, a)"
  | (new) off c where "offset a x = Inr off" "off < a_size a" "off \<notin> bs_members (a_used a)"
      "2 \<le> c" "c < a_size a" "reserve a x = (None, a\<lparr>a_used := snd (bs_set (a_used a) off), a_cursor := c\<rparr>)"
proof (cases "offset a x")
  case (Inl e)
  then show ?thesis using bad by (simp add: reserve_def)
next
  case (Inr off)
  note o = offset_ok [OF assms Inr]
  show ?thesis
  proof (cases "off \<in> bs_members (a_used a)")
    case True
    then have "bs_set (a_used a) off = (False, a_used a)"
      by (simp add: bs_set_def bs_test_iff)
    with True Inr show ?thesis
      using taken by (simp add: reserve_def)
  next
    case False
    then have "fst (bs_set (a_used a) off)"
      using o assms by (simp add: bs.ins_ok alloc_inv_h_def)
    with False Inr o show ?thesis
      using new [of off "if off \<ge> a_cursor a then (if off + 1 \<ge> a_size a then 2 else off + 1) else a_cursor a"]
        assms size_bounds [OF assms]
      by (auto simp: reserve_def case_prod_unfold alloc_inv_h_def)
  qed
qed

lemma reserve_inv: "alloc_inv a \<Longrightarrow> alloc_inv (snd (reserve a x))"
proof -
  assume "alloc_inv a"
  then obtain h where h: "alloc_inv_h h a"
    by (auto simp: alloc_inv_def)
  from h show ?thesis
  proof (cases rule: reserve_cases [where x = x])
    case (new off c)
    have "alloc_inv_h h (a\<lparr>a_used := snd (bs_set (a_used a) off), a_cursor := c\<rparr>)"
      using h new by (intro alloc_inv_update) (auto simp: bs.slot_laws alloc_inv_h_def)
    with new have "alloc_inv_h h (snd (reserve a x))"
      by simp
    then show ?thesis by (auto simp: alloc_inv_def)
  qed (use h in \<open>auto simp: alloc_inv_def\<close>)
qed

lemma release_cases:
  assumes "alloc_inv_h h a"
  obtains (bad) e where "offset a x = Inl e" "release a x = (Some e, a)"
  | (reserved) off where "offset a x = Inr off" "off \<in> reserved_offsets a" "release a x = (Some ErrOutOfRange, a)"
  | (free) off where "offset a x = Inr off" "off \<notin> bs_members (a_used a)" "release a x = (Some ErrNotAllocated, a)"
  | (held) off where "offset a x = Inr off" "off \<in> bs_members (a_used a)" "off \<notin> reserved_offsets a"
      "release a x = (None, a\<lparr>a_used := snd (bs_clear (a_used a) off)\<rparr>)"
proof (cases "offset a x")
  case (Inl e)
  then show ?thesis using bad by (simp add: release_def)
next
  case (Inr off)
  have i: "bs_inv (a_used a)" "reserved_offsets a \<subseteq> bs_members (a_used a)"
    using assms by (simp_all add: alloc_inv_h_def)
  consider "off \<in> reserved_offsets a" | "off \<notin> bs_members (a_used a)"
    | "off \<in> bs_members (a_used a)" "off \<notin> reserved_offsets a"
    by blast
  then show ?thesis
  proof cases
    case 1
    with Inr show ?thesis
      using reserved by (auto simp: release_def reserved_offsets_def)
  next
    case 2
    then have "bs_clear (a_used a) off = (False, a_used a)"
      by (simp add: bs_clear_def bs_test_iff)
    moreover from 2 i(2) have "off \<notin> reserved_offsets a"
      by blast
    ultimately show ?thesis
      using free [OF Inr 2] Inr by (simp add: release_def reserved_offsets_def)
  next
    case 3
    with i have "fst (bs_clear (a_used a) off)"
      by (simp add: bs.del_ok)
    with 3 Inr show ?thesis
      using held by (simp add: release_def reserved_offsets_def case_prod_unfold)
  qed
qed

lemma release_inv: "alloc_inv a \<Longrightarrow> alloc_inv (snd (release a x))"
proof -
  assume "alloc_inv a"
  then obtain h where h: "alloc_inv_h h a"
    by (auto simp: alloc_inv_def)
  from h show ?thesis
  proof (cases rule: release_cases [where x = x])
    case (held off)
    have "alloc_inv_h h (snd (release a x))"
      using h held by (auto simp: alloc_inv_h_def reserved_offsets_def bs.slot_laws)
    then show ?thesis by (auto simp: alloc_inv_def)
  qed (use h in \<open>auto simp: alloc_inv_def\<close>)
qed

section \<open>What the allocator promises\<close>

lemma in_use_bounds:
  assumes "alloc_inv_h h a"
  shows "0 \<le> in_use a \<and> in_use a \<le> capacity a"
    and "in_use a = capacity a \<longleftrightarrow> bs_members (a_used a) = {..<a_size a}"
    and "in_use a = int (card (bs_members (a_used a) - reserved_offsets a))"
proof -
  have i: "bs_inv (a_used a)" "size_n (a_used a) = a_size a" "reserved_offsets a \<subseteq> bs_members (a_used a)"
    using assms by (simp_all add: alloc_inv_h_def)
  have r: "card (reserved_offsets a) = 3"
    using size_bounds [OF assms] by (auto simp: reserved_offsets_def card_insert_if)
  have "card (bs_members (a_used a) - reserved_offsets a) = card (bs_members (a_used a)) - 3"
    using card_Diff_subset [OF _ i(3)] r by (simp add: reserved_offsets_def)
  moreover have "3 \<le> card (bs_members (a_used a))"
    using card_mono [OF _ i(3)] r by simp
  ultimately show "in_use a = int (card (bs_members (a_used a) - reserved_offsets a))"
    by (simp add: in_use_def bs.taken_card [OF i(1)])
  then show "0 \<le> in_use a \<and> in_use a \<le> capacity a"
    using bs.taken_bounds [OF i(1)] i(2) by (simp add: in_use_def capacity_def)
  show "in_use a = capacity a \<longleftrightarrow> bs_members (a_used a) = {..<a_size a}"
    using bs.taken_full [OF i(1)] i(2) by (simp add: in_use_def capacity_def)
qed

lemma gateway_held: "alloc_inv_h h a \<Longrightarrow> holds a (gateway a)"
  using offset_pool [of h a 1] size_bounds [of h a]
  by (auto simp: holds_iff gateway_def u32_to_addr_def alloc_inv_h_def reserved_offsets_def)

lemma holds_insert:
  assumes "alloc_inv_h h a" "off < a_size a" "a_prefix a' = a_prefix a" "a_base a' = a_base a"
    and "alloc_inv_h h a'" "bs_members (a_used a') = insert off (bs_members (a_used a))"
  shows "holds a' y \<longleftrightarrow> holds a y \<or> unmap y = V4 (a_base a + of_nat off)"
  using offset_cong [OF assms(1) offset_pool [OF assms(1,2)], of y] assms
  by (auto simp: holds_iff offset_fields [OF assms(3,4)])

text \<open>
  A successful Allocate hands out an address of the pool that nobody held and that is not
  the server's own, marks exactly that address as held, and keeps the allocator's invariant.
\<close>

lemma allocate_fresh:
  assumes "alloc_inv a" "allocate a = (Inr x, a')"
  shows "\<not> holds a x \<and> contains (a_prefix a) x \<and> x \<noteq> gateway a \<and> alloc_inv a'
    \<and> (\<forall>y. holds a' y \<longleftrightarrow> holds a y \<or> unmap y = x)"
proof -
  from assms(1) obtain h where h: "alloc_inv_h h a"
    by (auto simp: alloc_inv_def)
  from h show ?thesis
  proof (cases rule: allocate_cases)
    case full
    with assms(2) show ?thesis by simp
  next
    case (free off c)
    then have x: "x = V4 (a_base a + of_nat off)"
      and a': "a' = a\<lparr>a_used := snd (bs_set (a_used a) off), a_cursor := c\<rparr>"
      using assms(2) by simp_all
    have inv': "alloc_inv_h h a'"
      using allocate_free_inv [OF h free(2-4)] by (simp add: a')
    have m: "bs_members (a_used a') = insert off (bs_members (a_used a))"
      using h free(2) by (simp add: a' bs.slot_laws alloc_inv_h_def)
    have o: "offset a x = Inr off"
      using offset_pool [OF h free(2)] by (simp add: x)
    have "\<not> holds a x"
      using free(3) o by (simp add: holds_iff [OF h])
    moreover from this have "x \<noteq> gateway a"
      using gateway_held [OF h] by auto
    moreover have "contains (a_prefix a) x"
      using offset_ok [OF h o] by (simp add: x del: contains.simps)
    moreover have "alloc_inv a'"
      using inv' by (auto simp: alloc_inv_def)
    ultimately show ?thesis
      using holds_insert [OF h free(2) _ _ inv' m] by (simp add: x a' del: contains.simps)
  qed
qed

lemma full_iff_all_held:
  assumes h: "alloc_inv_h h a"
  shows "bs_members (a_used a) = {..<a_size a} \<longleftrightarrow>
    (\<forall>y. contains (a_prefix a) (unmap y) \<longrightarrow> is4 (unmap y) \<longrightarrow> holds a y)"
proof
  assume full: "bs_members (a_used a) = {..<a_size a}"
  show "\<forall>y. contains (a_prefix a) (unmap y) \<longrightarrow> is4 (unmap y) \<longrightarrow> holds a y"
  proof (intro allI impI)
    fix y
    assume "contains (a_prefix a) (unmap y)" "is4 (unmap y)"
    then obtain off where "offset a y = Inr off"
      by (simp add: offset_def del: contains.simps)
    with full offset_ok [OF h this] show "holds a y"
      by (simp add: holds_iff [OF h])
  qed
next
  assume all: "\<forall>y. contains (a_prefix a) (unmap y) \<longrightarrow> is4 (unmap y) \<longrightarrow> holds a y"
  have "off \<in> bs_members (a_used a)" if "off < a_size a" for off
  proof -
    let ?y = "V4 (a_base a + of_nat off)"
    have o: "offset a ?y = Inr off"
      using offset_pool [OF h that] .
    have "holds a ?y"
      using all offset_ok [OF h o] by (metis unmap.simps(2) is4.simps(1))
    with o show ?thesis
      by (simp add: holds_iff [OF h])
  qed
  with h show "bs_members (a_used a) = {..<a_size a}"
    by (auto simp: alloc_inv_h_def bs_members_def)
qed

text \<open>
  C33. Allocate fails exactly when the pool is full: in use equals capacity, and every address
  of the subnet is held; the allocator is then as it was, the cursor included. In use never
  exceeds capacity.
\<close>

theorem allocate_full_iff:
  assumes "alloc_inv a"
  shows "(fst (allocate a) = Inl ErrPoolFull \<longleftrightarrow> in_use a = capacity a)
    \<and> (case allocate a of (Inl _, b) \<Rightarrow> b = a | (Inr _, b) \<Rightarrow> in_use b = in_use a + 1)
    \<and> (in_use a = capacity a \<longleftrightarrow> (\<forall>y. contains (a_prefix a) (unmap y) \<longrightarrow> is4 (unmap y) \<longrightarrow> holds a y))
    \<and> 0 \<le> in_use a \<and> in_use a \<le> capacity a"
proof -
  from assms obtain h where h: "alloc_inv_h h a"
    by (auto simp: alloc_inv_def)
  note full = in_use_bounds(2) [OF h]
  from h have "fst (allocate a) = Inl ErrPoolFull \<longleftrightarrow> in_use a = capacity a"
    by (cases rule: allocate_cases) (auto simp: full)
  moreover from h have "case allocate a of (Inl _, b) \<Rightarrow> b = a | (Inr _, b) \<Rightarrow> in_use b = in_use a + 1"
  proof (cases rule: allocate_cases)
    case (free off c)
    have i: "bs_inv (a_used a)" using h by (simp add: alloc_inv_h_def)
    show ?thesis using bs.taken_ins [OF i, of off] free(2,3) h unfolding free(5) by (simp add: in_use_def alloc_inv_h_def bs.ins_ok [OF i])
  qed simp
  ultimately show ?thesis
    using full in_use_bounds(1) [OF h] full_iff_all_held [OF h] by blast
qed

text \<open>
  Release undoes exactly one allocation: it succeeds for a held address other than the
  network, the gateway and the broadcast address, frees that address and no other, and
  changes nothing when it fails.
\<close>

lemma release_exact:
  assumes "alloc_inv a"
  shows "case release a x of
      (None, a') \<Rightarrow> holds a x \<and> \<not> holds a' x \<and> in_use a' = in_use a - 1 \<and> alloc_inv a'
        \<and> (\<forall>y. holds a' y \<longleftrightarrow> holds a y \<and> unmap y \<noteq> unmap x)
    | (Some e, a') \<Rightarrow> a' = a \<and> (e = ErrNotAllocated \<longrightarrow> \<not> holds a x)
        \<and> (e \<noteq> ErrNotAllocated \<longrightarrow> e = ErrOutOfRange)"
proof -
  from assms obtain h where h: "alloc_inv_h h a"
    by (auto simp: alloc_inv_def)
  have oe: "offset a x = Inl e \<Longrightarrow> e = ErrOutOfRange" for e
    by (auto simp: offset_def Let_def simp del: contains.simps split: if_splits)
  have inv': "alloc_inv (snd (release a x))"
    using assms by (rule release_inv)
  from h show ?thesis
  proof (cases rule: release_cases [where x = x])
    case (held off)
    let ?a' = "a\<lparr>a_used := snd (bs_clear (a_used a) off)\<rparr>"
    have i: "bs_inv (a_used a)"
      using h by (simp add: alloc_inv_h_def)
    have h': "alloc_inv_h h ?a'"
      using h held by (auto simp: alloc_inv_h_def reserved_offsets_def bs.slot_laws)
    have o: "offset ?a' y = offset a y" for y
      by (rule offset_fields) simp_all
    have "holds ?a' y \<longleftrightarrow> holds a y \<and> unmap y \<noteq> unmap x" for y
      using offset_cong [OF h held(1), of y]
      by (auto simp: holds_iff [OF h] holds_iff [OF h'] o bs.del_members [OF i])
    moreover have "in_use ?a' = in_use a - 1"
      using bs.taken_del [OF i, of off] held(2) by (simp add: in_use_def bs.del_ok [OF i])
    moreover have "holds a x"
      using held by (auto simp: holds_iff [OF h])
    ultimately show ?thesis
      using held(4) inv' by simp
  qed (auto simp: holds_iff [OF h] dest: oe)
qed

text \<open>
  An address just released is not handed out again at once: if the next Allocate returns
  it, every other address of the subnet was in use.
\<close>

lemma no_immediate_reuse:
  assumes "alloc_inv a" "allocate a = (Inr x, a1)" "release a1 x = (None, a2)"
    and "allocate a2 = (Inr x, a3)"
  shows "\<forall>y. contains (a_prefix a) (unmap y) \<longrightarrow> is4 (unmap y) \<longrightarrow> unmap y \<noteq> x \<longrightarrow> holds a2 y"
proof -
  from assms(1) obtain h where h: "alloc_inv_h h a"
    by (auto simp: alloc_inv_def)
  from h assms(2) obtain off c where off: "off < a_size a" "off \<notin> bs_members (a_used a)"
      "c = (if off + 1 \<ge> a_size a then 2 else off + 1)" "x = V4 (a_base a + of_nat off)"
    and a1: "a1 = a\<lparr>a_used := snd (bs_set (a_used a) off), a_cursor := c\<rparr>"
    by (auto elim!: allocate_cases)
  have h1: "alloc_inv_h h a1"
    using allocate_free_inv [OF h off(1-3)] by (simp add: a1)
  have x: "unmap x = x" "offset a1 x = Inr off"
    using off(1) offset_pool [OF h1, of off] by (simp_all add: off(4) a1)
  from h1 x assms(3) have a2: "a2 = a1\<lparr>a_used := snd (bs_clear (a_used a1) off)\<rparr>"
    by (auto elim!: release_cases [where x = x])
  have h2: "alloc_inv_h h a2"
    using release_inv [of a1 x] assms(3) h1 by (auto simp: alloc_inv_def alloc_inv_h_def a2 a1)
  have x2: "offset a2 x = Inr off"
    using x(2) offset_fields [of a2 a1 x] by (simp add: a2)
  have "off \<noteq> a_size a - 1"
    using off(2) h by (auto simp: alloc_inv_h_def reserved_offsets_def)
  with off(1,3) have cur: "c = Suc off" "Suc off < a_size a"
    by auto
  from h2 assms(4) obtain off' where "bs_next_free (a_used a2) (a_cursor a2) = Some off'" "off' < a_size a2"
      "x = V4 (a_base a2 + of_nat off')"
    by (auto elim!: allocate_cases)
  moreover from this have "off' = off"
    using x2 offset_pool [OF h2, of off'] by simp
  ultimately have "bs_next_free (a_used a2) (Suc off) = Some off"
    by (simp add: a2 a1 cur)
  then have m: "bs_members (a_used a2) = {..<a_size a} - {off}"
    using bs.next_avoids [of "a_used a2" off] h2 cur(2) by (simp add: alloc_inv_h_def a2 a1)
  show ?thesis
  proof (intro allI impI)
    fix y
    assume y: "contains (a_prefix a) (unmap y)" "is4 (unmap y)" "unmap y \<noteq> x"
    have "a_prefix a2 = a_prefix a"
      by (simp add: a2 a1)
    with y(1,2) obtain o' where o': "offset a2 y = Inr o'"
      using offset_exists [of a2 y] by auto
    with y(3) have "o' \<noteq> off"
      using offset_cong [OF h2 x2, of y] x(1) by auto
    with m o' offset_ok [OF h2 o'] show "holds a2 y"
      by (simp add: holds_iff [OF h2]) (simp add: a2 a1)
  qed
qed

subsection \<open>Every sequence of operations\<close>

text \<open>
  The states an allocator reaches from New by successful and failed operations, with the
  addresses handed out or replayed and not yet released.
\<close>

inductive alloc_reach :: "prefix \<Rightarrow> nat list \<Rightarrow> allocator \<Rightarrow> addr list \<Rightarrow> bool" for p extra where
  start: "new_allocator p extra = Inr a \<Longrightarrow> alloc_reach p extra a []"
| alloc: "alloc_reach p extra a live \<Longrightarrow> allocate a = (Inr x, a') \<Longrightarrow> alloc_reach p extra a' (x # live)"
| reserved: "alloc_reach p extra a live \<Longrightarrow> reserve a x = (None, a') \<Longrightarrow> alloc_reach p extra a' (unmap x # live)"
| released: "alloc_reach p extra a live \<Longrightarrow> release a x = (None, a') \<Longrightarrow>
    alloc_reach p extra a' (remove1 (unmap x) live)"
| alloc_failed: "alloc_reach p extra a live \<Longrightarrow> allocate a = (Inl e, a') \<Longrightarrow> alloc_reach p extra a' live"
| reserve_failed: "alloc_reach p extra a live \<Longrightarrow> reserve a x = (Some e, a') \<Longrightarrow> alloc_reach p extra a' live"
| release_failed: "alloc_reach p extra a live \<Longrightarrow> release a x = (Some e, a') \<Longrightarrow> alloc_reach p extra a' live"

definition live_inv :: "nat \<Rightarrow> allocator \<Rightarrow> addr list \<Rightarrow> bool" where
  "live_inv h a live \<longleftrightarrow> alloc_inv_h h a \<and> (\<exists>offs. live = map (\<lambda>off. V4 (a_base a + of_nat off)) offs
     \<and> distinct offs \<and> set offs \<subseteq> bs_members (a_used a) - reserved_offsets a)"

lemma pool_addr_inj:
  assumes "alloc_inv_h h a" "i < a_size a" "j < a_size a"
    and "V4 (a_base a + of_nat i) = V4 (a_base a + of_nat j)"
  shows "i = j"
proof -
  have "offset a (V4 (a_base a + of_nat i)) = offset a (V4 (a_base a + of_nat j))"
    by (simp only: assms(4))
  then show ?thesis
    by (simp only: offset_pool [OF assms(1,2)] offset_pool [OF assms(1,3)] sum.inject)
qed

lemma reserved_members: "alloc_inv_h h a \<Longrightarrow> reserved_offsets a \<subseteq> bs_members (a_used a)"
  by (simp add: alloc_inv_h_def)

lemma live_inv_add:
  assumes "live_inv h a live" "off < a_size a" "off \<notin> bs_members (a_used a)"
    and "alloc_inv_h h a'" "a_base a' = a_base a" "a_size a' = a_size a"
    and "bs_members (a_used a') = insert off (bs_members (a_used a))"
  shows "live_inv h a' (V4 (a_base a + of_nat off) # live)"
proof -
  from assms(1) obtain offs where o: "live = map (\<lambda>off. V4 (a_base a + of_nat off)) offs"
      "distinct offs" "set offs \<subseteq> bs_members (a_used a) - reserved_offsets a"
      and h: "alloc_inv_h h a"
    by (auto simp: live_inv_def)
  have r: "reserved_offsets a' = reserved_offsets a"
    by (simp add: reserved_offsets_def assms(6))
  have "off \<notin> reserved_offsets a"
    using reserved_members [OF h] assms(3) by blast
  have "distinct (off # offs)" "set (off # offs) \<subseteq> bs_members (a_used a') - reserved_offsets a'"
    using o(2,3) assms(3) r \<open>off \<notin> reserved_offsets a\<close> by (auto simp: assms(7))
  then show ?thesis
    unfolding live_inv_def o(1) assms(5)
    by (intro conjI exI [of _ "off # offs"] assms(4)) simp_all
qed

lemma live_inv_remove:
  assumes "live_inv h a live" "off < a_size a" "off \<in> bs_members (a_used a)"
    and "alloc_inv_h h a'" "a_base a' = a_base a" "a_size a' = a_size a"
    and "bs_members (a_used a') = bs_members (a_used a) - {off}"
  shows "live_inv h a' (remove1 (V4 (a_base a + of_nat off)) live)"
proof -
  let ?f = "\<lambda>off. V4 (a_base a + of_nat off)"
  from assms(1) obtain offs where o: "live = map ?f offs"
      "distinct offs" "set offs \<subseteq> bs_members (a_used a) - reserved_offsets a"
      and h: "alloc_inv_h h a"
    by (auto simp: live_inv_def)
  have b: "bs_members (a_used a) \<subseteq> {..<a_size a}"
    using h by (auto simp: alloc_inv_h_def bs_members_def)
  have "inj_on ?f (insert off (set offs))"
    using pool_addr_inj [OF h] o(3) b assms(2) by (intro inj_onI) blast
  then have eq: "remove1 (?f off) live = map ?f (remove1 off offs)"
    unfolding o(1) by (rule remove1_map_inj)
  have "reserved_offsets a' = reserved_offsets a"
    by (simp add: reserved_offsets_def assms(6))
  then have "distinct (remove1 off offs)" "set (remove1 off offs) \<subseteq> bs_members (a_used a') - reserved_offsets a'"
    using o(2,3) by (auto simp: assms(7))
  then show ?thesis
    unfolding live_inv_def eq assms(5)
    by (intro conjI exI [of _ "remove1 off offs"] assms(4)) simp_all
qed

lemma alloc_reach_inv: "alloc_reach p extra a live \<Longrightarrow> \<exists>h. live_inv h a live"
proof (induction rule: alloc_reach.induct)
  case (start a)
  then show ?case
    using new_allocator_inv [OF start] by (auto simp: live_inv_def alloc_inv_def)
next
  case (alloc a live x a')
  then obtain h where l: "live_inv h a live" by blast
  then have h: "alloc_inv_h h a" by (simp add: live_inv_def)
  from h alloc(2) obtain off c where off: "off < a_size a" "off \<notin> bs_members (a_used a)"
      "c = (if off + 1 \<ge> a_size a then 2 else off + 1)" "x = V4 (a_base a + of_nat off)"
    and a': "a' = a\<lparr>a_used := snd (bs_set (a_used a) off), a_cursor := c\<rparr>"
    by (auto elim!: allocate_cases)
  have "bs_members (a_used a') = insert off (bs_members (a_used a))"
    using h off(1) by (simp add: a' bs.ins_members alloc_inv_h_def)
  with live_inv_add [OF l off(1,2), of a'] allocate_free_inv [OF h off(1-3)] show ?case
    by (auto simp: off(4) a')
next
  case (reserved a live x a')
  then obtain h where l: "live_inv h a live" by blast
  then have h: "alloc_inv_h h a" by (simp add: live_inv_def)
  from h reserved(2) obtain off c where off: "offset a x = Inr off" "off < a_size a" "off \<notin> bs_members (a_used a)"
    and a': "a' = a\<lparr>a_used := snd (bs_set (a_used a) off), a_cursor := c\<rparr>" "2 \<le> c" "c < a_size a"
    by (auto elim!: reserve_cases [where x = x])
  have i: "bs_inv (a_used a)" "size_n (a_used a) = a_size a"
    using h by (simp_all add: alloc_inv_h_def)
  have m: "bs_members (a_used a') = insert off (bs_members (a_used a))"
    using i off(2) by (simp add: a' bs.ins_members)
  have "alloc_inv_h h a'"
    unfolding a'(1) using reserved_members [OF h] off(2) a'(2,3) i
    by (intro alloc_inv_update h) (auto simp: bs.ins_inv bs.ins_members bs.ins_size)
  with live_inv_add [OF l off(2,3) _ _ _ m] offset_ok [OF h off(1)] show ?case
    by (auto simp: a'(1))
next
  case (released a live x a')
  then obtain h where l: "live_inv h a live" by blast
  then have h: "alloc_inv_h h a" by (simp add: live_inv_def)
  from h released(2) obtain off where off: "offset a x = Inr off" "off \<in> bs_members (a_used a)" "off \<notin> reserved_offsets a"
    and a': "a' = a\<lparr>a_used := snd (bs_clear (a_used a) off)\<rparr>"
    by (auto elim!: release_cases [where x = x])
  have i: "bs_inv (a_used a)" "reserved_offsets a \<subseteq> bs_members (a_used a)"
    using h by (simp_all add: alloc_inv_h_def)
  have m: "bs_members (a_used a') = bs_members (a_used a) - {off}"
    by (simp add: a' bs.del_members i)
  have "alloc_inv_h h a'"
    using h off(3) unfolding alloc_inv_h_def a'
    by (auto simp: reserved_offsets_def bs.del_members bs.del_inv bs.del_size)
  with live_inv_remove [OF l _ off(2) _ _ _ m] offset_ok [OF h off(1)] show ?case
    by (auto simp: a')
next
  case (alloc_failed a live e a')
  then obtain h where l: "live_inv h a live" by blast
  then have h: "alloc_inv_h h a" by (simp add: live_inv_def)
  from h have "a' = a"
    by (cases rule: allocate_cases) (use alloc_failed(2) in simp_all)
  with l show ?case by blast
next
  case (reserve_failed a live x e a')
  then obtain h where l: "live_inv h a live" by blast
  then have h: "alloc_inv_h h a" by (simp add: live_inv_def)
  from h have "a' = a"
    by (cases rule: reserve_cases [where x = x]) (use reserve_failed(2) in simp_all)
  with l show ?case by blast
next
  case (release_failed a live x e a')
  then obtain h where l: "live_inv h a live" by blast
  then have h: "alloc_inv_h h a" by (simp add: live_inv_def)
  from h have "a' = a"
    by (cases rule: release_cases [where x = x]) (use release_failed(2) in simp_all)
  with l show ?case by blast
qed

text \<open>
  C32. In every sequence of operations from New, the addresses handed out or replayed and not
  yet released are all different, all held, and never more than the pool's capacity: no two
  customers share an address.
\<close>

theorem live_addresses_distinct:
  assumes "alloc_reach p extra a live"
  shows "distinct live \<and> (\<forall>x \<in> set live. holds a x) \<and> int (length live) \<le> in_use a
    \<and> in_use a \<le> capacity a \<and> alloc_inv a"
proof -
  from alloc_reach_inv [OF assms] obtain h offs where h: "alloc_inv_h h a"
      and o: "live = map (\<lambda>off. V4 (a_base a + of_nat off)) offs" "distinct offs"
        "set offs \<subseteq> bs_members (a_used a) - reserved_offsets a"
    by (auto simp: live_inv_def)
  have b: "off < a_size a" if "off \<in> set offs" for off
    using that o(3) h by (auto simp: alloc_inv_h_def bs_members_def)
  have "inj_on (\<lambda>off. V4 (a_base a + of_nat off)) (set offs)"
    using pool_addr_inj [OF h] b by (intro inj_onI) blast
  then have "distinct live"
    using o by (simp add: distinct_map)
  moreover have "\<forall>x \<in> set live. holds a x"
    using o(3) b offset_pool [OF h] by (auto simp: o(1) holds_iff [OF h])
  moreover have "length offs \<le> card (bs_members (a_used a) - reserved_offsets a)"
    using card_mono [OF _ o(3)] distinct_card [OF o(2)] by simp
  ultimately show ?thesis
    using in_use_bounds [OF h] h by (auto simp: o(1) alloc_inv_def)
qed

section \<open>Witnesses\<close>

text \<open>The pool of 10.66.0.0/29: eight addresses, five of them for customers.\<close>

definition demo_pool :: allocator where
  "demo_pool = projr (new_allocator \<lparr>p_addr = V4 0x0A420003, p_bits = 29\<rparr> [])"

definition demo_step :: "allocator \<Rightarrow> allocator" where
  "demo_step a = snd (allocate a)"

lemma demo_pool_inv: "alloc_inv demo_pool"
proof -
  have "new_allocator \<lparr>p_addr = V4 0x0A420003, p_bits = 29\<rparr> [] = Inr demo_pool"
    unfolding demo_pool_def by code_simp
  then show ?thesis
    by (rule new_allocator_inv)
qed

theorem allocate_full_witness:
  "fst (allocate demo_pool) \<noteq> Inl ErrPoolFull \<and> in_use demo_pool < capacity demo_pool"
proof -
  have "in_use demo_pool = 0" "capacity demo_pool = 5"
    by code_simp+
  with allocate_full_iff [OF demo_pool_inv] show ?thesis
    by simp
qed

text \<open>A pool of one customer address left: .2 to .5 replayed, so .6 comes back at once.\<close>

definition full_but_one :: allocator where
  "full_but_one = demo_step (demo_step (demo_step (demo_step demo_pool)))"

theorem live_addresses_witness:
  "distinct [V4 0x0A420003, V4 0x0A420002] \<and> holds (demo_step (demo_step demo_pool)) (V4 0x0A420002)"
proof -
  let ?p = "\<lparr>p_addr = V4 0x0A420003, p_bits = 29\<rparr>"
  have "new_allocator ?p [] = Inr demo_pool"
    "allocate demo_pool = (Inr (V4 0x0A420002), demo_step demo_pool)"
    "allocate (demo_step demo_pool) = (Inr (V4 0x0A420003), demo_step (demo_step demo_pool))"
    unfolding demo_pool_def by code_simp+
  then have "alloc_reach ?p [] (demo_step (demo_step demo_pool)) [V4 0x0A420003, V4 0x0A420002]"
    by (blast intro: alloc_reach.intros)
  from live_addresses_distinct [OF this] show ?thesis
    by simp
qed

end
