(* ===== verification/Chunk.thy ===== *)
theory Chunk imports Prelude begin

text \<open>
  The chunk every stealth transport moves: internal/stealth/chunk.go (the framing of
  datagrams inside a plaintext, the sealer and the opener of a stream), padding.go (how much
  padding a chunk draws) and stream.go (the two directions of a stream session).

  ChaCha20-Poly1305 is golang.org/x/crypto: an AEAD under a fixed key is a record of its two
  operations, and what the code relies on is \<open>aead_laws\<close>. crypto/rand is a function that
  gives a number below its bound.
\<close>

section \<open>The framing of a plaintext\<close>

datatype chunk_error = DatagramSize nat | ChunkFull | ErrChunk | ChunkTooLong
  | StreamExhausted | StreamKeyError | ChunkPanic

abbreviation (input) MinDatagram :: nat where "MinDatagram \<equiv> 32"
abbreviation (input) MaxDatagram :: nat where "MaxDatagram \<equiv> 1600"
abbreviation (input) MaxPlain :: nat where "MaxPlain \<equiv> 16000"
abbreviation (input) Overhead :: nat where "Overhead \<equiv> 16"
abbreviation (input) MaxSealed :: nat where "MaxSealed \<equiv> MaxPlain + Overhead"

definition append_item :: "bytes \<Rightarrow> bytes \<Rightarrow> chunk_error option \<times> bytes" where
  "append_item plain datagram =
     (if length datagram < MinDatagram \<or> length datagram > MaxDatagram
      then (Some (DatagramSize (length datagram)), plain)
      else if length plain + 2 + length datagram > MaxPlain then (Some ChunkFull, plain)
      else (None, (plain @ be_bytes 2 (of_nat (length datagram) :: u16)) @ datagram))"

definition fits :: "nat \<Rightarrow> nat \<Rightarrow> bool" where
  "fits used n \<longleftrightarrow> used + 2 + n \<le> MaxPlain"

definition append_padding :: "bytes \<Rightarrow> int \<Rightarrow> bytes" where
  "append_padding plain n =
     (let room = int MaxPlain - int (length plain); n = (if n > room then room else n)
      in plain @ replicate (nat n) 0)"

definition item_len :: "bytes \<Rightarrow> nat" where
  "item_len p = unat (rd_be (take 2 p) :: u16)"

text \<open>itemsEnd, from index \<open>i\<close> on: the loop over the items, then the check of the padding.\<close>

function items_end_from :: "bytes \<Rightarrow> nat \<Rightarrow> chunk_error + nat" where
  "items_end_from plain i =
     (let padding = (if list_all (\<lambda>b. b = 0) (drop i plain) then Inr i else Inl ErrChunk) in
      if i + 2 \<le> length plain then
        let n = item_len (drop i plain) in
        if n = 0 then padding
        else if n < MinDatagram \<or> n > MaxDatagram \<or> i + 2 + n > length plain then Inl ErrChunk
        else items_end_from plain (i + (2 + n))
      else padding)"
  by pat_completeness auto
termination by (relation "measure (\<lambda>(plain, i). length plain - i)") auto

definition items_end :: "bytes \<Rightarrow> chunk_error + nat" where
  "items_end plain = items_end_from plain 0"

text \<open>
  The loop of Items over what itemsEnd let through; \<open>None\<close> is the panic of Uint16 or of the
  slice expression on a plaintext that is too short.
\<close>

function split_items :: "bytes \<Rightarrow> bytes list option" where
  "split_items p =
     (if p = [] then Some []
      else if length p < 2 then None
      else let n = item_len p in
        if 2 + n > length p then None
        else map_option (\<lambda>ds. take n (drop 2 p) # ds) (split_items (drop (2 + n) p)))"
  by pat_completeness auto
termination by (relation "measure length") auto

declare items_end_from.simps [simp del] split_items.simps [simp del]

text \<open>Items gives the datagrams \<open>fn\<close> sees, in order.\<close>

definition items :: "bytes \<Rightarrow> chunk_error + bytes list" where
  "items plain =
     (if length plain > MaxPlain then Inl ErrChunk
      else case items_end plain of
        Inl e \<Rightarrow> Inl e
      | Inr e \<Rightarrow> (case split_items (take e plain) of None \<Rightarrow> Inl ChunkPanic | Some ds \<Rightarrow> Inr ds))"

text \<open>What a well-formed plaintext is: frames of datagrams in bounds, then zeros.\<close>

definition datagram_ok :: "bytes \<Rightarrow> bool" where
  "datagram_ok d \<longleftrightarrow> MinDatagram \<le> length d \<and> length d \<le> MaxDatagram"

definition frames :: "bytes list \<Rightarrow> bytes" where
  "frames ds = concat (map (\<lambda>d. be_bytes 2 (of_nat (length d) :: u16) @ d) ds)"

lemma frames_simps [simp]:
  "frames [] = []"
  "frames (d # ds) = be_bytes 2 (of_nat (length d) :: u16) @ d @ frames ds"
  "frames (ds @ es) = frames ds @ frames es"
  by (simp_all add: frames_def)

lemma item_len_frame [simp]:
  "length d < 2 ^ 16 \<Longrightarrow> item_len (be_bytes 2 (of_nat (length d) :: u16) @ xs) = length d"
  by (simp add: item_len_def unat_of_nat)

lemma be_bytes_item_len:
  assumes "2 \<le> length p"
  shows "be_bytes 2 (of_nat (item_len p) :: u16) = take 2 p"
proof -
  from assms obtain a b q where p: "p = a # b # q"
    by (metis One_nat_def Suc_1 Suc_le_length_iff)
  have "(push_bit 8 (ucast a :: u16) OR ucast b) = rd_be (take 2 p)"
    by (simp add: p rd_be_def numeral_2_eq_2)
  moreover have "ucast (drop_bit 8 (push_bit 8 (ucast a :: u16) OR ucast b)) = a"
    by (rule bit_word_eqI) (auto simp: bit_simps dest: bit_imp_le_length)
  moreover have "ucast (push_bit 8 (ucast a :: u16) OR ucast b) = b"
    by (rule bit_word_eqI) (auto simp: bit_simps)
  ultimately show ?thesis
    by (simp add: item_len_def numeral_2_eq_2 p)
qed

lemma items_end_stop:
  "\<not> (i + 2 \<le> length p \<and> item_len (drop i p) \<noteq> 0) \<Longrightarrow>
   items_end_from p i = (if list_all (\<lambda>b. b = 0) (drop i p) then Inr i else Inl ErrChunk)"
  by (subst items_end_from.simps) (auto simp: Let_def)

lemma items_end_item:
  "i + 2 \<le> length p \<Longrightarrow> n = item_len (drop i p) \<Longrightarrow> n \<noteq> 0 \<Longrightarrow>
   items_end_from p i = (if n < MinDatagram \<or> n > MaxDatagram \<or> i + 2 + n > length p then Inl ErrChunk
     else items_end_from p (i + (2 + n)))"
  by (subst items_end_from.simps) (simp add: Let_def)

lemma rd_be_zeros [simp]: "rd_be (replicate k 0) = 0"
  by (induction k) (simp_all add: rd_be_def)

lemma items_end_zeros:
  "drop i p = replicate k 0 \<Longrightarrow> items_end_from p i = Inr i"
  by (subst items_end_stop) (simp_all add: item_len_def list_all_iff)

lemma items_end_frames:
  assumes "list_all datagram_ok ds" "drop i p = frames ds @ replicate k 0"
  shows "items_end_from p i = Inr (i + length (frames ds))"
  using assms
proof (induction ds arbitrary: i)
  case Nil
  then show ?case using items_end_zeros by simp
next
  case (Cons d ds)
  then have d: "32 \<le> length d" "length d \<le> 1600" and ds: "list_all datagram_ok ds"
    by (simp_all add: datagram_ok_def [of d])
  have len: "length p = i + 2 + length d + length (frames ds) + k"
    using arg_cong [OF Cons.prems(2), of length] d by simp
  have "drop (i + (2 + length d)) p = drop (2 + length d) (drop i p)"
    by (simp add: add.commute)
  also have "\<dots> = frames ds @ replicate k 0"
    by (simp add: Cons.prems(2))
  finally have "items_end_from p (i + (2 + length d)) = Inr (i + (2 + length d) + length (frames ds))"
    by (rule Cons.IH [OF ds])
  then show ?case
    using d len by (subst items_end_item [of _ _ "length d"]) (auto simp: Cons.prems(2))
qed

lemma take_drop_2: "xs = take m xs @ take n (drop m xs) @ drop (m + n) xs"
  by (metis append_take_drop_id drop_drop add.commute)

lemma items_end_framesD:
  assumes "items_end_from p i = Inr e" "i \<le> length p"
  shows "\<exists>ds k. drop i p = frames ds @ replicate k 0 \<and> list_all datagram_ok ds
    \<and> e = i + length (frames ds)"
  using assms
proof (induction p i rule: items_end_from.induct)
  case (1 p i)
  let ?n = "item_len (drop i p)"
  show ?case
  proof (cases "i + 2 \<le> length p \<and> ?n \<noteq> 0")
    case False
    then have z: "\<forall>b \<in> set (drop i p). b = 0" "e = i"
      using 1(2) items_end_stop [OF False] by (auto simp: list_all_iff split: if_splits)
    then have "drop i p = replicate (length (drop i p)) 0"
      by (metis replicate_eqI)
    with z(2) show ?thesis
      by (intro exI [of _ "[]"] exI [of _ "length (drop i p)"]) simp
  next
    case True
    with 1(2) have n: "32 \<le> ?n" "?n \<le> 1600" "i + 2 + ?n \<le> length p"
      and rec: "items_end_from p (i + (2 + ?n)) = Inr e"
      using items_end_item [of i p ?n] by (auto split: if_splits)
    have "\<exists>ds k. drop (i + (2 + ?n)) p = frames ds @ replicate k 0 \<and> list_all datagram_ok ds
        \<and> e = i + (2 + ?n) + length (frames ds)"
      using True n rec by (intro 1(1)) auto
    then obtain ds k where ds: "drop (i + (2 + ?n)) p = frames ds @ replicate k 0"
        "list_all datagram_ok ds" "e = i + (2 + ?n) + length (frames ds)"
      by blast
    define d where "d = take ?n (drop (i + 2) p)"
    have ld: "length d = ?n"
      using n(3) by (simp add: d_def)
    have "drop i p = take 2 (drop i p) @ d @ drop (i + (2 + ?n)) p"
      using take_drop_2 [of "drop i p" "2" ?n] by (simp add: d_def ac_simps)
    also have "take 2 (drop i p) = be_bytes 2 (of_nat (length d) :: u16)"
      using be_bytes_item_len [of "drop i p"] True ld by (simp add: le_diff_conv2)
    finally have "drop i p = frames (d # ds) @ replicate k 0"
      by (simp only: ds(1) frames_simps append_assoc)
    moreover have "datagram_ok d"
      using n(1,2) ld by (simp add: datagram_ok_def)
    ultimately show ?thesis
      using ds(2,3) ld by (intro exI [of _ "d # ds"] exI [of _ k]) simp
  qed
qed

lemma split_items_frames: "list_all datagram_ok ds \<Longrightarrow> split_items (frames ds) = Some ds"
proof (induction ds)
  case Nil
  show ?case by (simp add: split_items.simps)
next
  case (Cons d ds)
  then have d: "32 \<le> length d" "length d \<le> 1600" and ds: "list_all datagram_ok ds"
    by (simp_all add: datagram_ok_def [of d])
  have n: "item_len (frames (d # ds)) = length d"
    using d by simp
  have "drop (2 + length d) (frames (d # ds)) = frames ds"
    by simp
  with Cons.IH [OF ds] show ?case
    using d by (subst split_items.simps) (simp add: Let_def n del: frames_simps, use d in auto)
qed

lemma items_frames:
  assumes "list_all datagram_ok ds" "length (frames ds) + k \<le> MaxPlain"
  shows "items (frames ds @ replicate k 0) = Inr ds"
  using assms items_end_frames [of ds 0 "frames ds @ replicate k 0" k] split_items_frames
  by (simp add: items_def items_end_def)

text \<open>
  The framing of a plaintext. A plaintext parses, to exactly the datagrams fn is called
  with, when and only when it is at most MaxPlain bytes and is the frames of those datagrams,
  each within bounds, followed by zeros only; anything else is ErrChunk, and no plaintext makes
  the reader panic.
\<close>

lemma items_characterised:
  "(items plain = Inr ds \<longleftrightarrow> length plain \<le> MaxPlain \<and> list_all datagram_ok ds
      \<and> (\<exists>k. plain = frames ds @ replicate k 0))
   \<and> items plain \<in> {Inl ErrChunk} \<union> range Inr"
proof (intro conjI iffI)
  assume a: "items plain = Inr ds"
  then obtain e where e: "length plain \<le> MaxPlain" "items_end_from plain 0 = Inr e"
      "split_items (take e plain) = Some ds"
    by (auto simp: items_def items_end_def split: if_splits sum.splits option.splits)
  from items_end_framesD [OF e(2)] obtain es k where "plain = frames es @ replicate k 0"
      "list_all datagram_ok es" "e = length (frames es)"
    by auto
  with e(3) split_items_frames [of es]
  show "length plain \<le> MaxPlain" "list_all datagram_ok ds" "\<exists>k. plain = frames ds @ replicate k 0"
    using e(1) by auto
next
  assume "length plain \<le> MaxPlain \<and> list_all datagram_ok ds \<and> (\<exists>k. plain = frames ds @ replicate k 0)"
  then show "items plain = Inr ds"
    using items_frames by auto
next
  have "items_end_from p i = Inl e \<Longrightarrow> e = ErrChunk" for p i e
    by (induction p i rule: items_end_from.induct)
      (subst (asm) (2) items_end_from.simps, auto simp: Let_def split: if_splits)
  moreover have "split_items (take n plain) \<noteq> None" if "items_end_from plain 0 = Inr n" for n
    using items_end_framesD [OF that] split_items_frames by auto
  ultimately show "items plain \<in> {Inl ErrChunk} \<union> range Inr"
    by (auto simp: items_def items_end_def split: sum.splits option.splits)
qed

section \<open>Padding\<close>

text \<open>A draw of crypto/rand: \<open>rnd m\<close> is the number rand.Int gives for the bound \<open>m\<close>.\<close>

type_synonym rand_draw = "int \<Rightarrow> int"

definition rand_ok :: "rand_draw \<Rightarrow> bool" where
  "rand_ok rnd \<longleftrightarrow> (\<forall>m > 0. 0 \<le> rnd m \<and> rnd m < m)"

record padder =
  pd_base :: int
  pd_wide :: int
  pd_normal :: int
  pd_sent :: int

definition clamp_or :: "int \<Rightarrow> int \<Rightarrow> int \<Rightarrow> int" where
  "clamp_or v lo hi = (if v = 0 \<or> v > hi then hi else if v < lo then lo else v)"

definition uniform :: "rand_draw \<Rightarrow> int \<Rightarrow> int \<Rightarrow> int" where
  "uniform rnd lo hi = (if hi \<le> lo then lo else lo + rnd (hi - lo + 1))"

abbreviation (input) baseMax :: int where "baseMax \<equiv> 63"
abbreviation (input) WideMin :: int where "WideMin \<equiv> 512"
abbreviation (input) WideMax :: int where "WideMax \<equiv> 1023"
abbreviation (input) NormalMin :: int where "NormalMin \<equiv> 64"
abbreviation (input) NormalMax :: int where "NormalMax \<equiv> 255"
abbreviation (input) wideChunks :: int where "wideChunks \<equiv> 16"

definition new_padder :: "rand_draw \<Rightarrow> int \<Rightarrow> int \<Rightarrow> padder" where
  "new_padder rnd wide normal =
     \<lparr>pd_base = uniform rnd 0 baseMax, pd_wide = clamp_or wide WideMin WideMax,
      pd_normal = clamp_or normal NormalMin NormalMax, pd_sent = 0\<rparr>"

definition padder_next :: "rand_draw \<Rightarrow> padder \<Rightarrow> bool \<Rightarrow> int \<times> padder" where
  "padder_next rnd p handshake =
     (let wide = handshake \<or> pd_sent p < wideChunks; p' = p\<lparr>pd_sent := pd_sent p + 1\<rparr> in
      if wide then (uniform rnd (pd_base p) (pd_wide p), p')
      else (uniform rnd (min (pd_base p) (pd_normal p)) (pd_normal p), p'))"

definition draw_within :: "rand_draw \<Rightarrow> padder \<Rightarrow> bool \<Rightarrow> int \<Rightarrow> int \<Rightarrow> int \<times> padder" where
  "draw_within rnd p handshake used room =
     (let (pad, p') = padder_next rnd p handshake;
          pad = (if used + pad > room then room - used else pad)
      in (if pad < 0 then 0 else pad, p'))"

definition padder_wide :: "rand_draw \<Rightarrow> padder \<Rightarrow> int" where
  "padder_wide rnd p = uniform rnd (pd_base p) (pd_wide p)"

definition is_handshake :: "bytes \<Rightarrow> bool" where
  "is_handshake d \<longleftrightarrow> d \<noteq> [] \<and> 1 \<le> d ! 0 \<and> d ! 0 \<le> 3"

text \<open>What NewPadder establishes and every draw keeps.\<close>

definition padder_ok :: "padder \<Rightarrow> bool" where
  "padder_ok p \<longleftrightarrow> 0 \<le> pd_base p \<and> pd_base p \<le> baseMax \<and> WideMin \<le> pd_wide p \<and> pd_wide p \<le> WideMax
     \<and> NormalMin \<le> pd_normal p \<and> pd_normal p \<le> NormalMax \<and> 0 \<le> pd_sent p"

lemma uniform_bounds: "rand_ok rnd \<Longrightarrow> lo \<le> hi \<Longrightarrow> lo \<le> uniform rnd lo hi \<and> uniform rnd lo hi \<le> hi"
  using spec [where P = "\<lambda>m. m > 0 \<longrightarrow> 0 \<le> rnd m \<and> rnd m < m" and x = "hi - lo + 1"]
  by (simp add: uniform_def rand_ok_def)

lemma clamp_or_bounds: "lo \<le> hi \<Longrightarrow> lo \<le> clamp_or v lo hi \<and> clamp_or v lo hi \<le> hi"
  by (simp add: clamp_or_def)

lemma new_padder_ok: "rand_ok rnd \<Longrightarrow> padder_ok (new_padder rnd wide normal)"
  using uniform_bounds [of rnd 0 63] clamp_or_bounds [of 512 1023 wide] clamp_or_bounds [of 64 255 normal]
  by (simp add: padder_ok_def new_padder_def)

lemma padder_next_ok: "padder_ok p \<Longrightarrow> padder_ok (snd (padder_next rnd p hs))"
  by (simp add: padder_next_def padder_ok_def Let_def)

lemma padder_next_bounds:
  assumes "rand_ok rnd" "padder_ok p"
  shows "pd_base p \<le> fst (padder_next rnd p hs)"
    and "fst (padder_next rnd p hs) \<le> (if hs \<or> pd_sent p < wideChunks then pd_wide p else pd_normal p)"
    and "0 \<le> fst (padder_next rnd p hs)"
  using uniform_bounds [OF assms(1), of "pd_base p" "pd_wide p"]
    uniform_bounds [OF assms(1), of "pd_base p" "pd_normal p"] assms(2)
  by (auto simp: padder_next_def padder_ok_def Let_def min_def)

text \<open>
  Every draw of a direction's padder lies between the session's floor and the ceiling in
  force, which is the wide one for a handshake and for the first sixteen chunks and the normal
  one after; a draw within what is left of a request never goes past the room, and is cut only
  where the room would not hold it; and the padder stays within its ranges and counts the chunk.
\<close>

lemma padding_bounds:
  assumes "rand_ok rnd" "padder_ok p" "used \<le> room" "draw_within rnd p hs used room = (pad, p')"
  shows "0 \<le> pad \<and> used + pad \<le> room
    \<and> pad \<le> (if hs \<or> pd_sent p < wideChunks then pd_wide p else pd_normal p)
    \<and> (pad < pd_base p \<longrightarrow> used + pad = room)
    \<and> padder_ok p' \<and> pd_sent p' = pd_sent p + 1"
proof -
  obtain n q where n: "padder_next rnd p hs = (n, q)"
    by fastforce
  have b: "pd_base p \<le> n" "n \<le> (if hs \<or> pd_sent p < wideChunks then pd_wide p else pd_normal p)" "0 \<le> n"
    using padder_next_bounds [OF assms(1,2), of hs] n by simp_all
  have q: "padder_ok q" "pd_sent q = pd_sent p + 1"
    using padder_next_ok [OF assms(2), of rnd hs] n by (auto simp: padder_next_def Let_def split: if_splits)
  have d: "pad = (if used + n > room then room - used else n)" "p' = q"
    using assms(3,4) b(3) by (auto simp: draw_within_def n split: if_splits)
  show ?thesis
    using b q d assms(3) by (auto simp: padder_ok_def split: if_splits)
qed

section \<open>Sealing and opening a stream\<close>

text \<open>
  A cipher.AEAD under its key: Seal and Open with a nonce and no associated data. The laws the
  code relies on: opening is the inverse of sealing under the same nonce and of nothing else,
  and sealing adds Overhead bytes.
\<close>

record aead =
  aead_seal :: "bytes \<Rightarrow> bytes \<Rightarrow> bytes"
  aead_open :: "bytes \<Rightarrow> bytes \<Rightarrow> bytes option"

definition aead_laws :: "aead \<Rightarrow> bool" where
  "aead_laws a \<longleftrightarrow> (\<forall>n c p. aead_open a n c = Some p \<longleftrightarrow> c = aead_seal a n p)
     \<and> (\<forall>n p. length (aead_seal a n p) = length p + Overhead)"

definition maxCounter :: u64 where "maxCounter = 2 ^ 60"

definition stream_nonce :: "u64 \<Rightarrow> bytes" where
  "stream_nonce n = replicate 4 0 @ le_bytes 8 n"

record sealer =
  sl_aead :: aead
  sl_n :: u64

text \<open>\<open>aead_new key\<close> is chacha20poly1305.New: it fails on a key that is not 32 bytes.\<close>

definition new_sealer :: "(bytes \<Rightarrow> aead option) \<Rightarrow> bytes \<Rightarrow> chunk_error + sealer" where
  "new_sealer aead_new key =
     (case aead_new key of None \<Rightarrow> Inl StreamKeyError | Some a \<Rightarrow> Inr \<lparr>sl_aead = a, sl_n = 0\<rparr>)"

definition sealer_seal :: "sealer \<Rightarrow> bytes \<Rightarrow> bytes \<Rightarrow> chunk_error option \<times> bytes \<times> sealer" where
  "sealer_seal s dst plain =
     (if length plain > MaxPlain then (Some ChunkTooLong, dst, s)
      else if sl_n s \<ge> maxCounter then (Some StreamExhausted, dst, s)
      else (None, dst @ aead_seal (sl_aead s) (stream_nonce (sl_n s)) plain, s\<lparr>sl_n := sl_n s + 1\<rparr>))"

record opener =
  op_aead :: aead
  op_n :: u64
  op_broken :: bool

definition new_opener :: "(bytes \<Rightarrow> aead option) \<Rightarrow> bytes \<Rightarrow> chunk_error + opener" where
  "new_opener aead_new key =
     (case aead_new key of None \<Rightarrow> Inl StreamKeyError
      | Some a \<Rightarrow> Inr \<lparr>op_aead = a, op_n = 0, op_broken = False\<rparr>)"

definition opener_open :: "opener \<Rightarrow> bytes \<Rightarrow> bytes \<Rightarrow> chunk_error option \<times> bytes \<times> opener" where
  "opener_open r dst sealed =
     (if op_broken r \<or> length sealed < Overhead \<or> length sealed > MaxSealed \<or> op_n r \<ge> maxCounter
      then (Some ErrChunk, dst, r\<lparr>op_broken := True\<rparr>)
      else case aead_open (op_aead r) (stream_nonce (op_n r)) sealed of
        None \<Rightarrow> (Some ErrChunk, dst, r\<lparr>op_broken := True\<rparr>)
      | Some plain \<Rightarrow>
          (case items_end plain of
             Inl _ \<Rightarrow> (Some ErrChunk, dst, r\<lparr>op_broken := True\<rparr>)
           | Inr _ \<Rightarrow> (None, dst @ plain, r\<lparr>op_n := op_n r + 1\<rparr>)))"

lemma stream_nonce_length [simp]: "length (stream_nonce n) = 12"
  by (simp add: stream_nonce_def)

lemma stream_nonce_inj: "stream_nonce m = stream_nonce n \<longleftrightarrow> m = n"
proof -
  have "rd_le (le_bytes 8 m) = m" "rd_le (le_bytes 8 n) = n"
    by (rule rd_le_le_bytes, simp)+
  then have "le_bytes 8 m = le_bytes 8 n \<longleftrightarrow> m = n"
    by metis
  then show ?thesis
    by (simp add: stream_nonce_def)
qed

lemma items_end_ok_items: "length plain \<le> MaxPlain \<Longrightarrow>
    (\<exists>e. items_end plain = Inr e) \<longleftrightarrow> (\<exists>ds. items plain = Inr ds)"
proof
  assume l: "length plain \<le> MaxPlain" "\<exists>e. items_end plain = Inr e"
  then obtain e where "items_end_from plain 0 = Inr e"
    by (auto simp: items_end_def)
  from items_end_framesD [OF this] obtain ds k where "plain = frames ds @ replicate k 0"
      "list_all datagram_ok ds"
    by auto
  with items_frames [of ds k] l(1) show "\<exists>ds. items plain = Inr ds"
    by auto
qed (auto simp: items_def split: sum.splits)

section \<open>The two directions of a stream session\<close>

text \<open>
  The senders and receivers keep their buffers (\<open>plain\<close>) only to reuse the memory: every call
  cuts them to length zero first, so they are not part of the state.
\<close>

record stream_sender =
  ss_sealer :: sealer
  ss_pad :: padder

definition new_stream_sender :: "(bytes \<Rightarrow> aead option) \<Rightarrow> bytes \<Rightarrow> padder \<Rightarrow> chunk_error + stream_sender" where
  "new_stream_sender aead_new key pad =
     (case new_sealer aead_new key of Inl e \<Rightarrow> Inl e | Inr s \<Rightarrow> Inr \<lparr>ss_sealer = s, ss_pad = pad\<rparr>)"

fun append_items :: "bytes \<Rightarrow> bool \<Rightarrow> bytes list \<Rightarrow> chunk_error + bytes \<times> bool" where
  "append_items plain handshake [] = Inr (plain, handshake)"
| "append_items plain handshake (d # ds) =
     (case append_item plain d of
        (Some e, _) \<Rightarrow> Inl e
      | (None, plain') \<Rightarrow> append_items plain' (handshake \<or> is_handshake d) ds)"

definition stream_seal ::
    "stream_sender \<Rightarrow> rand_draw \<Rightarrow> bytes \<Rightarrow> bytes list \<Rightarrow> chunk_error option \<times> bytes \<times> stream_sender" where
  "stream_seal s rnd dst datagrams =
     (case append_items [] False datagrams of
        Inl e \<Rightarrow> (Some e, dst, s)
      | Inr (plain, handshake) \<Rightarrow>
          let (n, pad) = padder_next rnd (ss_pad s) handshake;
              (err, out, sl) = sealer_seal (ss_sealer s) dst (append_padding plain n)
          in (err, out, s\<lparr>ss_sealer := sl, ss_pad := pad\<rparr>))"

fun stream_fits_from :: "nat \<Rightarrow> nat \<Rightarrow> bytes list \<Rightarrow> nat" where
  "stream_fits_from i used [] = i"
| "stream_fits_from i used (d # ds) =
     (if \<not> fits used (length d) then i else stream_fits_from (i + 1) (used + (2 + length d)) ds)"

definition stream_fits :: "bytes list \<Rightarrow> nat" where
  "stream_fits ds = stream_fits_from 0 0 ds"

record stream_receiver =
  sr_opener :: opener

definition new_stream_receiver :: "(bytes \<Rightarrow> aead option) \<Rightarrow> bytes \<Rightarrow> chunk_error + stream_receiver" where
  "new_stream_receiver aead_new key =
     (case new_opener aead_new key of Inl e \<Rightarrow> Inl e | Inr r \<Rightarrow> Inr \<lparr>sr_opener = r\<rparr>)"

definition stream_open :: "stream_receiver \<Rightarrow> bytes \<Rightarrow> (chunk_error + bytes list) \<times> stream_receiver" where
  "stream_open r sealed =
     (case opener_open (sr_opener r) [] sealed of
        (Some e, _, o') \<Rightarrow> (Inl e, r\<lparr>sr_opener := o'\<rparr>)
      | (None, plain, o') \<Rightarrow> (items plain, r\<lparr>sr_opener := o'\<rparr>))"

text \<open>A run of either side over a list of chunks.\<close>

fun stream_seal_all :: "stream_sender \<Rightarrow> (rand_draw \<times> bytes list) list \<Rightarrow> bytes list option" where
  "stream_seal_all s [] = Some []"
| "stream_seal_all s ((rnd, ds) # bs) =
     (case stream_seal s rnd [] ds of
        (Some _, _, _) \<Rightarrow> None
      | (None, c, s') \<Rightarrow> map_option ((#) c) (stream_seal_all s' bs))"

fun stream_open_all :: "stream_receiver \<Rightarrow> bytes list \<Rightarrow> (chunk_error + bytes list) list" where
  "stream_open_all r [] = []"
| "stream_open_all r (c # cs) = (let (res, r') = stream_open r c in res # stream_open_all r' cs)"

subsection \<open>What one chunk does\<close>

lemma append_item_ok:
  "append_item plain d = (None, plain') \<longleftrightarrow>
     datagram_ok d \<and> fits (length plain) (length d) \<and> plain' = plain @ frames [d]"
  by (auto simp: append_item_def datagram_ok_def fits_def)

lemma append_items_ok:
  "append_items plain hs ds = Inr (q, hs') \<longleftrightarrow>
     list_all datagram_ok ds \<and> (ds = [] \<or> length plain + length (frames ds) \<le> MaxPlain)
     \<and> q = plain @ frames ds \<and> hs' = (hs \<or> list_ex is_handshake ds)"
proof (induction ds arbitrary: plain hs)
  case Nil
  then show ?case by auto
next
  case (Cons d ds)
  show ?case
  proof (cases "append_item plain d")
    case (Pair err plain')
    show ?thesis
    proof (cases err)
      case None
      with Pair have "append_item plain d = (None, plain')" by simp
      moreover from this have "datagram_ok d" "fits (length plain) (length d)" "plain' = plain @ frames [d]"
        by (simp_all only: append_item_ok)
      ultimately show ?thesis
        by (auto simp: Cons.IH fits_def)
    next
      case (Some e)
      with Pair have "append_item plain d \<noteq> (None, plain @ frames [d])" by simp
      then have "\<not> (datagram_ok d \<and> fits (length plain) (length d))"
        unfolding append_item_ok by blast
      then show ?thesis
        using Some Pair by (auto simp: fits_def)
    qed
  qed
qed

lemma append_padding_frames: "\<exists>k. append_padding p n = p @ replicate k 0"
  unfolding append_padding_def Let_def by blast

lemma append_padding_length:
  "length p \<le> MaxPlain \<Longrightarrow> length (append_padding p n) \<le> MaxPlain"
  by (auto simp: append_padding_def Let_def)

lemma stream_seal_ok:
  assumes "stream_seal s rnd dst ds = (None, out, s')"
  obtains plain where "items plain = Inr ds" "length plain \<le> MaxPlain"
    "out = dst @ aead_seal (sl_aead (ss_sealer s)) (stream_nonce (sl_n (ss_sealer s))) plain"
    "sl_n (ss_sealer s) < maxCounter" "sl_aead (ss_sealer s') = sl_aead (ss_sealer s)"
    "sl_n (ss_sealer s') = sl_n (ss_sealer s) + 1"
proof -
  from assms obtain plain hs n pad where a: "append_items [] False ds = Inr (plain, hs)"
      "padder_next rnd (ss_pad s) hs = (n, pad)"
      "sealer_seal (ss_sealer s) dst (append_padding plain n) = (None, out, ss_sealer s')"
    by (auto simp: stream_seal_def Let_def split: sum.splits prod.splits)
  let ?p = "append_padding plain n"
  have f: "list_all datagram_ok ds" "plain = frames ds" "length plain \<le> MaxPlain"
    using a(1) by (auto simp: append_items_ok)
  then have l: "length ?p \<le> MaxPlain"
    by (simp add: append_padding_length)
  obtain k where "?p = frames ds @ replicate k 0"
    using append_padding_frames [of plain n] f(2) by auto
  then have "items ?p = Inr ds"
    using items_frames [OF f(1), of k] l by simp
  moreover from a(3) have "sl_n (ss_sealer s) < maxCounter"
      "ss_sealer s' = ss_sealer s\<lparr>sl_n := sl_n (ss_sealer s) + 1\<rparr>"
      "out = dst @ aead_seal (sl_aead (ss_sealer s)) (stream_nonce (sl_n (ss_sealer s))) ?p"
    by (auto simp: sealer_seal_def split: if_splits)
  ultimately show ?thesis
    using that [of ?p] l by simp
qed

lemma opener_open_sealed:
  assumes "aead_laws (op_aead r)" "\<not> op_broken r" "op_n r < maxCounter"
    and "length plain \<le> MaxPlain" "items plain = Inr ds"
  shows "opener_open r dst (aead_seal (op_aead r) (stream_nonce (op_n r)) plain)
    = (None, dst @ plain, r\<lparr>op_n := op_n r + 1\<rparr>)"
proof -
  from assms(4,5) items_end_ok_items [OF assms(4)] obtain e where "items_end plain = Inr e"
    by blast
  moreover have "aead_open (op_aead r) (stream_nonce (op_n r)) (aead_seal (op_aead r) (stream_nonce (op_n r)) plain)
      = Some plain"
      "length (aead_seal (op_aead r) (stream_nonce (op_n r)) plain) = length plain + 16"
    using assms(1) by (simp_all add: aead_laws_def)
  ultimately show ?thesis
    using assms(2-4) by (simp add: opener_open_def)
qed

lemma opener_open_cases:
  assumes "aead_laws (op_aead r)"
  obtains (ok) plain ds where "opener_open r dst c = (None, dst @ plain, r\<lparr>op_n := op_n r + 1\<rparr>)"
      "c = aead_seal (op_aead r) (stream_nonce (op_n r)) plain" "items plain = Inr ds"
      "op_n r < maxCounter" "\<not> op_broken r"
  | (bad) "opener_open r dst c = (Some ErrChunk, dst, r\<lparr>op_broken := True\<rparr>)"
proof (cases "fst (opener_open r dst c) = None")
  case True
  then obtain plain e where p: "aead_open (op_aead r) (stream_nonce (op_n r)) c = Some plain"
      "items_end plain = Inr e" "op_n r < maxCounter" "\<not> op_broken r"  "length c \<le> MaxSealed"
      "opener_open r dst c = (None, dst @ plain, r\<lparr>op_n := op_n r + 1\<rparr>)"
    by (auto simp: opener_open_def split: if_splits option.splits sum.splits)
  then have "c = aead_seal (op_aead r) (stream_nonce (op_n r)) plain" "length plain \<le> MaxPlain"
    using assms by (auto simp: aead_laws_def)
  with p items_end_ok_items [of plain] ok show ?thesis by blast
next
  case False
  then have "opener_open r dst c = (Some ErrChunk, dst, r\<lparr>op_broken := True\<rparr>)"
    by (auto simp: opener_open_def split: if_splits option.splits sum.splits)
  then show ?thesis by (rule bad)
qed

section \<open>What the stream promises\<close>

lemma stream_lockstep:
  assumes "aead_laws (op_aead (sr_opener r))" "\<not> op_broken (sr_opener r)"
    and "sl_aead (ss_sealer s) = op_aead (sr_opener r)" "sl_n (ss_sealer s) = op_n (sr_opener r)"
    and "stream_seal_all s batches = Some cs"
  shows "stream_open_all r cs = map (\<lambda>(rnd, ds). Inr ds) batches"
  using assms
proof (induction s batches arbitrary: r cs rule: stream_seal_all.induct)
  case (2 s rnd ds bs)
  then obtain c s' cs' where c: "stream_seal s rnd [] ds = (None, c, s')"
      "stream_seal_all s' bs = Some cs'" "cs = c # cs'"
    by (auto split: prod.splits option.splits)
  from stream_seal_ok [OF c(1)] obtain plain where p: "items plain = Inr ds" "length plain \<le> MaxPlain"
      "c = aead_seal (sl_aead (ss_sealer s)) (stream_nonce (sl_n (ss_sealer s))) plain"
      "sl_n (ss_sealer s) < maxCounter" "sl_aead (ss_sealer s') = sl_aead (ss_sealer s)"
      "sl_n (ss_sealer s') = sl_n (ss_sealer s) + 1"
    by auto
  let ?r' = "r\<lparr>sr_opener := (sr_opener r)\<lparr>op_n := op_n (sr_opener r) + 1\<rparr>\<rparr>"
  have "stream_open r c = (Inr ds, ?r')"
    using opener_open_sealed [of "sr_opener r" plain ds "[]"] 2(2-5) p
    by (simp add: stream_open_def)
  moreover have "stream_open_all ?r' cs' = map (\<lambda>(rnd, ds). Inr ds) bs"
    by (rule 2(1) [OF c(1) [symmetric] refl refl]) (use 2(2-5) p(5,6) c(2) in simp_all)
  ultimately show ?case
    using c(3) by simp
qed simp

text \<open>
  C1. A stream session round trips: whatever a sender sealed, batch after batch, from the
  number its receiver stands at and under the same key, the receiver opens to the same batches
  of datagrams in the same order, whatever padding was drawn.
\<close>

theorem stream_roundtrip:
  assumes "aead_laws a" "aead_new key = Some a"
    and "new_stream_sender aead_new key pad = Inr s" "new_stream_receiver aead_new key = Inr r"
    and "stream_seal_all s batches = Some cs"
  shows "stream_open_all r cs = map (\<lambda>(rnd, ds). Inr ds) batches"
  using assms
  by (intro stream_lockstep [OF _ _ _ _ assms(5)])
    (auto simp: new_stream_sender_def new_sealer_def new_stream_receiver_def new_opener_def)

lemma opener_broken_run:
  assumes "op_broken (sr_opener r)"
  shows "stream_open_all r cs = replicate (length cs) (Inl ErrChunk)"
  using assms
proof (induction cs arbitrary: r)
  case (Cons c cs)
  then show ?case
    by (simp add: stream_open_def opener_open_def)
qed simp

lemma u64_numbers:
  fixes n :: u64
  assumes "n < maxCounter"
  shows "unat (n + 1) = Suc (unat n)"
  using assms by (simp add: maxCounter_def unat_word_ariths word_less_nat_alt)

lemma stream_in_order:
  assumes "aead_laws (op_aead (sr_opener r))"
  shows "\<exists>pss. length pss \<le> length cs
    \<and> stream_open_all r cs = map (\<lambda>p. items p) pss @ replicate (length cs - length pss) (Inl ErrChunk)
    \<and> (\<forall>i < length pss. (\<exists>ds. items (pss ! i) = Inr ds)
        \<and> cs ! i = aead_seal (op_aead (sr_opener r)) (stream_nonce (op_n (sr_opener r) + of_nat i)) (pss ! i))"
  using assms
proof (induction cs arbitrary: r)
  case Nil
  then show ?case by (intro exI [of _ "[]"]) simp
next
  case (Cons c cs)
  from Cons.prems show ?case
  proof (cases rule: opener_open_cases [where dst = "[]" and c = c])
    case (ok plain ds)
    let ?r' = "r\<lparr>sr_opener := (sr_opener r)\<lparr>op_n := op_n (sr_opener r) + 1\<rparr>\<rparr>"
    from Cons.IH [of ?r'] Cons.prems obtain pss where pss: "length pss \<le> length cs"
        "stream_open_all ?r' cs = map (\<lambda>p. items p) pss @ replicate (length cs - length pss) (Inl ErrChunk)"
        "\<forall>i < length pss. (\<exists>ds. items (pss ! i) = Inr ds)
        \<and> cs ! i = aead_seal (op_aead (sr_opener r)) (stream_nonce (op_n (sr_opener r) + 1 + of_nat i)) (pss ! i)"
      by auto
    have o: "stream_open r c = (items plain, ?r')"
      using ok(1) by (simp add: stream_open_def)
    show ?thesis
      using pss ok(2,3) o
      by (intro exI [of _ "plain # pss"]) (auto simp: less_Suc_eq_0_disj add.assoc)
  next
    case bad
    then have "stream_open r c = (Inl ErrChunk, r\<lparr>sr_opener := (sr_opener r)\<lparr>op_broken := True\<rparr>\<rparr>)"
      by (simp add: stream_open_def)
    then show ?thesis
      by (intro exI [of _ "[]"]) (simp add: opener_broken_run)
  qed
qed

text \<open>
  A stream takes chunks in its own order only: of any chunks that arrive, a first part is
  taken and every one after it is refused; each chunk taken is the sealing, under the number of
  its own place in the stream, of a plaintext that parses. A chunk that is lost, doubled,
  reordered or forged ends the stream, and the datagrams before it stand.
\<close>

lemma stream_only_in_order:
  assumes "aead_laws a" "aead_new key = Some a" "new_stream_receiver aead_new key = Inr r"
  shows "\<exists>pss. length pss \<le> length cs
    \<and> stream_open_all r cs = map items pss @ replicate (length cs - length pss) (Inl ErrChunk)
    \<and> (\<forall>i < length pss. (\<exists>ds. items (pss ! i) = Inr ds)
        \<and> cs ! i = aead_seal a (stream_nonce (of_nat i)) (pss ! i))"
proof -
  have "op_aead (sr_opener r) = a" "op_n (sr_opener r) = 0"
    using assms(2,3) by (auto simp: new_stream_receiver_def new_opener_def)
  with stream_in_order [of r cs] assms(1) show ?thesis
    by simp
qed

lemma stream_fits_from_le: "stream_fits_from i used ds \<le> i + length ds \<and> i \<le> stream_fits_from i used ds"
proof (induction i used ds rule: stream_fits_from.induct)
  case (2 i used d ds)
  then show ?case by auto
qed simp

lemma stream_fits_from_spec:
  assumes "used \<le> MaxPlain" "stream_fits_from i used ds = i + m"
  shows "used + length (frames (take m ds)) \<le> MaxPlain
    \<and> (m < length ds \<longrightarrow> MaxPlain < used + length (frames (take (Suc m) ds)))"
  using assms
proof (induction i used ds arbitrary: m rule: stream_fits_from.induct)
  case (2 i used d ds)
  show ?case
  proof (cases "fits used (length d)")
    case True
    with 2(3) stream_fits_from_le [of "i + 1" "used + (2 + length d)" ds]
    obtain m' where m: "m = Suc m'" "stream_fits_from (i + 1) (used + (2 + length d)) ds = i + 1 + m'"
      by (cases m) auto
    from 2(1) [OF _ _ m(2)] True m(1) show ?thesis
      by (simp add: fits_def add.assoc)
  next
    case False
    with 2(2,3) show ?thesis by (simp add: fits_def)
  qed
qed simp

text \<open>
  StreamFits is exactly what one chunk holds: for datagrams within bounds, sealing the
  first StreamFits of them succeeds on a stream that is not exhausted, and one more would be
  refused with the stream as it was.
\<close>

lemma stream_fits_exact:
  assumes "list_all datagram_ok ds" "sl_n (ss_sealer s) < maxCounter"
  shows "fst (stream_seal s rnd dst (take (stream_fits ds) ds)) = None
    \<and> (stream_fits ds < length ds \<longrightarrow>
        stream_seal s rnd dst (take (Suc (stream_fits ds)) ds) = (Some ChunkFull, dst, s))"
proof (intro conjI impI)
  let ?m = "stream_fits ds"
  have sp: "length (frames (take ?m ds)) \<le> MaxPlain"
    "?m < length ds \<Longrightarrow> MaxPlain < length (frames (take (Suc ?m) ds))"
    using stream_fits_from_spec [of 0 0 ds ?m] by (auto simp: stream_fits_def)
  have ok: "list_all datagram_ok (take k ds)" for k
    using assms(1) by (metis append_take_drop_id list_all_append)
  have "append_items [] False (take ?m ds) = Inr (frames (take ?m ds), list_ex is_handshake (take ?m ds))"
    using append_items_ok [of "[]" False "take ?m ds"] ok sp(1) by simp
  then show "fst (stream_seal s rnd dst (take ?m ds)) = None"
    using assms(2) append_padding_length [OF sp(1), THEN leD]
    by (auto simp: stream_seal_def sealer_seal_def Let_def split: prod.splits if_splits)
  assume l: "?m < length ds"
  have split: "take (Suc ?m) ds = take ?m ds @ [ds ! ?m]"
    using l by (rule take_Suc_conv_app_nth)
  have step: "append_items p hs (es @ [d]) = Inl ChunkFull"
    if "append_items p hs es = Inr (q, h)" "\<not> fits (length q) (length d)" "datagram_ok d" for p hs es d q h
    using that
  proof (induction es arbitrary: p hs)
    case Nil
    then show ?case by (auto simp: append_item_def fits_def datagram_ok_def)
  next
    case (Cons e es)
    then show ?case by (auto split: prod.splits option.splits)
  qed
  have "append_items [] False (take (Suc ?m) ds) = Inl ChunkFull"
    unfolding split
    by (rule step [OF \<open>append_items [] False (take ?m ds) = _\<close>])
      (use sp(2) [OF l] assms(1) l in \<open>auto simp: split fits_def list_all_length\<close>)
  then show "stream_seal s rnd dst (take (Suc ?m) ds) = (Some ChunkFull, dst, s)"
    by (simp add: stream_seal_def)
qed

section \<open>Witnesses\<close>

text \<open>An AEAD with the laws: the plaintext, then the nonce as its tag.\<close>

definition tag_of :: "bytes \<Rightarrow> bytes" where
  "tag_of n = take 16 (n @ replicate 16 0)"

definition demo_aead :: aead where
  "demo_aead = \<lparr>aead_seal = (\<lambda>n p. p @ tag_of n),
     aead_open = (\<lambda>n c. if 16 \<le> length c \<and> drop (length c - 16) c = tag_of n
       then Some (take (length c - 16) c) else None)\<rparr>"

lemma demo_aead_laws: "aead_laws demo_aead"
proof -
  have t: "length (tag_of n) = 16" for n
    by (simp add: tag_of_def)
  have "c = take (length c - 16) c @ tag_of n" if "drop (length c - 16) c = tag_of n" for c n
    using that by (metis append_take_drop_id)
  then show ?thesis
    by (auto simp: aead_laws_def demo_aead_def t)
qed

definition demo_datagram :: "byte \<Rightarrow> bytes" where
  "demo_datagram b = b # replicate 31 7"

definition demo_sender :: stream_sender where
  "demo_sender = \<lparr>ss_sealer = \<lparr>sl_aead = demo_aead, sl_n = 0\<rparr>, ss_pad = new_padder (\<lambda>_. 0) 0 0\<rparr>"

definition demo_receiver :: stream_receiver where
  "demo_receiver = \<lparr>sr_opener = \<lparr>op_aead = demo_aead, op_n = 0, op_broken = False\<rparr>\<rparr>"

definition demo_batches :: "(rand_draw \<times> bytes list) list" where
  "demo_batches = [((\<lambda>_. 0), [demo_datagram 1, demo_datagram 4]), ((\<lambda>_. 3), [])]"

lemma demo_rand_ok: "rand_ok (\<lambda>_. 0)"
  by (simp add: rand_ok_def)

lemma demo_sender_new: "new_stream_sender (\<lambda>_. Some demo_aead) [] (new_padder (\<lambda>_. 0) 0 0) = Inr demo_sender"
  by (simp add: new_stream_sender_def new_sealer_def demo_sender_def)

lemma demo_receiver_new: "new_stream_receiver (\<lambda>_. Some demo_aead) [] = Inr demo_receiver"
  by (simp add: new_stream_receiver_def new_opener_def demo_receiver_def)

theorem stream_roundtrip_witness:
  "stream_open_all demo_receiver (the (stream_seal_all demo_sender demo_batches))
   = [Inr [demo_datagram 1, demo_datagram 4], Inr []]"
proof -
  have "stream_seal_all demo_sender demo_batches \<noteq> None"
    by (simp add: demo_batches_def demo_sender_def stream_seal_def sealer_seal_def append_item_def
      demo_datagram_def padder_next_def new_padder_def append_padding_def uniform_def clamp_or_def
      maxCounter_def word_le_nat_alt Let_def split: prod.splits)
  then have "stream_seal_all demo_sender demo_batches = Some (the (stream_seal_all demo_sender demo_batches))"
    by simp
  from stream_roundtrip [OF demo_aead_laws refl demo_sender_new demo_receiver_new this] show ?thesis
    by (simp add: demo_batches_def)
qed

end
