(* ===== verification/Poll.thy ===== *)
theory Poll imports Chunk begin

text \<open>
  The relay requests of internal/stealth/poll.go: the query that names a session and a request
  number, the bodies of sealed chunks, and the receiver that takes a body whole or not at all.
  base64.RawURLEncoding.Strict() and strconv of the standard library are modelled.
\<close>

section \<open>base64url without padding\<close>

definition b64_alphabet :: string where
  "b64_alphabet = ''ABCDEFGHIJKLMNOPQRSTUVWXYZabcdefghijklmnopqrstuvwxyz0123456789-_''"

definition b64_char :: "nat \<Rightarrow> char" where
  "b64_char v = b64_alphabet ! v"

definition b64_val :: "char \<Rightarrow> nat option" where
  "b64_val c = (if c \<in> set b64_alphabet
     then Some (length (takeWhile (\<lambda>d. d \<noteq> c) b64_alphabet)) else None)"

text \<open>EncodeToString: each three bytes are four characters; a rest of one or two, two or three.\<close>

fun b64_encode :: "bytes \<Rightarrow> string" where
  "b64_encode (x # y # z # bs) =
     b64_char (unat x div 4) # b64_char (unat x mod 4 * 16 + unat y div 16)
     # b64_char (unat y mod 16 * 4 + unat z div 64) # b64_char (unat z mod 64) # b64_encode bs"
| "b64_encode [x, y] =
     [b64_char (unat x div 4), b64_char (unat x mod 4 * 16 + unat y div 16), b64_char (unat y mod 16 * 4)]"
| "b64_encode [x] = [b64_char (unat x div 4), b64_char (unat x mod 4 * 16)]"
| "b64_encode [] = []"

text \<open>
  DecodeString of the strict encoding: a rest of one character is an error, and so are unused
  bits of the last character that are not zero. The decoder skips line ends.
\<close>

fun b64_quanta :: "nat list \<Rightarrow> bytes option" where
  "b64_quanta (a # b # c # d # vs) =
     map_option ((@) [of_nat (a * 4 + b div 16), of_nat (b mod 16 * 16 + c div 4), of_nat (c mod 4 * 64 + d)])
       (b64_quanta vs)"
| "b64_quanta [a, b, c] =
     (if c mod 4 \<noteq> 0 then None else Some [of_nat (a * 4 + b div 16), of_nat (b mod 16 * 16 + c div 4)])"
| "b64_quanta [a, b] = (if b mod 16 \<noteq> 0 then None else Some [of_nat (a * 4 + b div 16)])"
| "b64_quanta [a] = None"
| "b64_quanta [] = Some []"

definition b64_decode :: "string \<Rightarrow> bytes option" where
  "b64_decode s = (let cs = filter (\<lambda>c. c \<noteq> char_of (10 :: nat) \<and> c \<noteq> char_of (13 :: nat)) s in
     if list_all (\<lambda>c. b64_val c \<noteq> None) cs then b64_quanta (map (\<lambda>c. the (b64_val c)) cs) else None)"

lemma b64_val_char: "v < 64 \<Longrightarrow> b64_val (b64_char v) = Some v"
proof -
  have "\<forall>v \<in> set [0..<64]. b64_val (b64_char v) = Some v"
    by code_simp
  then show "v < 64 \<Longrightarrow> ?thesis" by simp
qed

lemma b64_val_SomeD: "b64_val c = Some v \<Longrightarrow> v < 64 \<and> b64_char v = c"
proof -
  have "\<forall>c \<in> set b64_alphabet. b64_char (the (b64_val c)) = c \<and> the (b64_val c) < 64"
    by code_simp
  then show "b64_val c = Some v \<Longrightarrow> ?thesis"
    by (auto simp: b64_val_def split: if_splits)
qed

lemma b64_char_line: "v < 64 \<Longrightarrow> b64_char v \<noteq> char_of (10 :: nat) \<and> b64_char v \<noteq> char_of (13 :: nat)"
proof -
  have "\<forall>v \<in> set [0..<64]. b64_char v \<noteq> char_of (10 :: nat) \<and> b64_char v \<noteq> char_of (13 :: nat)"
    by code_simp
  then show "v < 64 \<Longrightarrow> ?thesis" by simp
qed

lemma byte_parts:
  "a < 64 \<Longrightarrow> b < 64 \<Longrightarrow> unat (of_nat (a * 4 + b div 16) :: byte) = a * 4 + b div 16"
  "c < 64 \<Longrightarrow> unat (of_nat (b mod 16 * 16 + c div 4) :: byte) = b mod 16 * 16 + c div 4"
  "d < 64 \<Longrightarrow> unat (of_nat (c mod 4 * 64 + d) :: byte) = c mod 4 * 64 + d"
proof -
  have m: "k < 256 \<Longrightarrow> unat (of_nat k :: byte) = k" for k
    by (simp add: unat_of_nat)
  have "b < 64 \<Longrightarrow> b div 16 < 4" "c < 64 \<Longrightarrow> c div 4 < 16" "b mod 16 < 16" "c mod 4 < 4"
    by (simp_all add: less_mult_imp_div_less)
  then show "a < 64 \<Longrightarrow> b < 64 \<Longrightarrow> unat (of_nat (a * 4 + b div 16) :: byte) = a * 4 + b div 16"
    "c < 64 \<Longrightarrow> unat (of_nat (b mod 16 * 16 + c div 4) :: byte) = b mod 16 * 16 + c div 4"
    "d < 64 \<Longrightarrow> unat (of_nat (c mod 4 * 64 + d) :: byte) = c mod 4 * 64 + d"
    by (intro m; linarith)+
qed

lemma six_bits:
  "b < 64 \<Longrightarrow> (a * 4 + b div 16) div 4 = a" "b < 64 \<Longrightarrow> (a * 4 + b div 16) mod 4 = b div 16"
  "c < 64 \<Longrightarrow> (b mod 16 * 16 + c div 4) div 16 = b mod 16" "c < 64 \<Longrightarrow> (b mod 16 * 16 + c div 4) mod 16 = c div 4"
  "d < 64 \<Longrightarrow> (c mod 4 * 64 + d) div 64 = c mod 4" "d < 64 \<Longrightarrow> (c mod 4 * 64 + d) mod 64 = d"
  for a b c d :: nat
  by (simp_all add: less_mult_imp_div_less)

lemma div_mod_back: "b div 16 * 16 + b mod 16 = b" "c div 4 * 4 + c mod 4 = c" for b c :: nat
  by simp_all

lemma b64_quanta_encode:
  "b64_quanta vs = Some bs \<Longrightarrow> list_all (\<lambda>v. v < 64) vs \<Longrightarrow> b64_encode bs = map b64_char vs"
proof (induction vs arbitrary: bs rule: b64_quanta.induct)
  case (1 a b c d vs)
  then show ?case by (auto simp: byte_parts six_bits div_mod_back simp del: of_nat_add of_nat_mult)
next
  case (2 a b c)
  then have "c div 4 * 4 = c" by (auto split: if_splits)
  with 2 show ?case by (auto simp: byte_parts six_bits div_mod_back simp del: of_nat_add of_nat_mult split: if_splits)
next
  case (3 a b)
  then have "b div 16 * 16 = b" by (auto split: if_splits)
  with 3 show ?case by (auto simp: byte_parts six_bits div_mod_back simp del: of_nat_add of_nat_mult split: if_splits)
qed auto

lemma b64_quanta_length: "b64_quanta vs = Some bs \<Longrightarrow> length bs = length vs * 3 div 4"
  by (induction vs arbitrary: bs rule: b64_quanta.induct) (auto split: if_splits)

fun b64_vals :: "bytes \<Rightarrow> nat list" where
  "b64_vals (x # y # z # bs) =
     (unat x div 4) # (unat x mod 4 * 16 + unat y div 16) # (unat y mod 16 * 4 + unat z div 64)
     # (unat z mod 64) # b64_vals bs"
| "b64_vals [x, y] = [unat x div 4, unat x mod 4 * 16 + unat y div 16, unat y mod 16 * 4]"
| "b64_vals [x] = [unat x div 4, unat x mod 4 * 16]"
| "b64_vals [] = []"

lemma b64_encode_vals: "b64_encode bs = map b64_char (b64_vals bs)"
  by (induction bs rule: b64_encode.induct) auto

lemma byte_less: "unat (x :: byte) < 256"
  using unsigned_less [of x] by simp

lemma nibble_bounds:
  "unat (x :: byte) div 4 < 64" "unat x mod 4 * 16 + unat (y :: byte) div 16 < 64"
  "unat y mod 16 * 4 + unat (z :: byte) div 64 < 64" "unat x mod 4 * 16 < 64" "unat y mod 16 * 4 < 64"
proof -
  have "unat x div 4 < 64" "unat y div 16 < 16" "unat z div 64 < 4" "unat x mod 4 < 4" "unat y mod 16 < 16"
    using byte_less [of x] byte_less [of y] byte_less [of z] by (simp_all add: less_mult_imp_div_less)
  then show "unat x div 4 < 64" "unat x mod 4 * 16 + unat y div 16 < 64"
      "unat y mod 16 * 4 + unat z div 64 < 64" "unat x mod 4 * 16 < 64" "unat y mod 16 * 4 < 64"
    by linarith+
qed

lemma b64_vals_less: "list_all (\<lambda>v. v < 64) (b64_vals bs)"
  by (induction bs rule: b64_vals.induct) (simp_all add: nibble_bounds)

lemma b64_vals_back:
  "unat x div 4 * 4 + (unat x mod 4 * 16 + unat y div 16) div 16 = unat x"
  "(unat x mod 4 * 16 + unat y div 16) mod 16 * 16 + (unat y mod 16 * 4 + unat z div 64) div 4 = unat y"
  "(unat y mod 16 * 4 + unat z div 64) mod 4 * 64 + unat z mod 64 = unat z"
  for x y z :: byte
proof -
  have b: "unat y div 16 < 16" "unat z div 64 < 4"
    using byte_less [of y] byte_less [of z] by (simp_all add: less_mult_imp_div_less)
  then show "unat x div 4 * 4 + (unat x mod 4 * 16 + unat y div 16) div 16 = unat x"
    "(unat y mod 16 * 4 + unat z div 64) mod 4 * 64 + unat z mod 64 = unat z"
    by simp_all
  have "(unat x mod 4 * 16 + unat y div 16) mod 16 = unat y div 16"
    using b by simp
  moreover have "(unat y mod 16 * 4 + unat z div 64) div 4 = unat y mod 16"
    using b by simp
  ultimately show "(unat x mod 4 * 16 + unat y div 16) mod 16 * 16 + (unat y mod 16 * 4 + unat z div 64) div 4 = unat y"
    by simp
qed

lemma b64_quanta_vals: "b64_quanta (b64_vals bs) = Some bs"
proof (induction bs rule: b64_vals.induct)
  case (1 x y z bs)
  then show ?case
    by (simp only: b64_vals.simps b64_quanta.simps b64_vals_back) simp
next
  case (2 x y)
  show ?case
    using b64_vals_back(1) [of x y] b64_vals_back(2) [of x y 0]
    by (simp only: b64_vals.simps b64_quanta.simps) simp
next
  case (3 x)
  show ?case
    using b64_vals_back(1) [of x 0] by (simp only: b64_vals.simps b64_quanta.simps) simp
qed simp

lemma b64_decode_encode: "b64_decode (b64_encode bs) = Some bs"
proof -
  have v: "\<forall>v \<in> set (b64_vals bs). v < 64"
    using b64_vals_less [of bs] by (simp add: list_all_iff)
  then have "filter (\<lambda>c. c \<noteq> char_of (10 :: nat) \<and> c \<noteq> char_of (13 :: nat)) (b64_encode bs) = b64_encode bs"
    unfolding b64_encode_vals by (intro filter_True) (use b64_char_line in auto)
  moreover have "list_all (\<lambda>c. b64_val c \<noteq> None) (b64_encode bs)"
    using v b64_val_char by (auto simp: b64_encode_vals list_all_iff)
  moreover have "map (\<lambda>c. the (b64_val c)) (b64_encode bs) = b64_vals bs"
    unfolding b64_encode_vals map_map by (rule map_idI) (use v b64_val_char in simp)
  ultimately show ?thesis
    by (simp add: b64_decode_def b64_quanta_vals)
qed

lemma same_quantum: "a * 3 div 4 = c * 3 div 4 \<Longrightarrow> c \<le> a \<Longrightarrow> a mod 4 \<noteq> 1 \<Longrightarrow> c = a" for a c :: nat
proof (rule ccontr)
  assume a: "a * 3 div 4 = c * 3 div 4" "c \<le> a" "a mod 4 \<noteq> 1" "c \<noteq> a"
  define y where "y = c * 3 div 4"
  have "4 * y \<le> c * 3" "c * 3 < 4 * y + 4" "4 * y \<le> a * 3" "a * 3 < 4 * y + 4"
    using a(1) unfolding y_def by linarith+
  with a(2,4) have "a = c + 1" "c * 3 = 4 * y"
    by linarith+
  then have "4 dvd c * 3"
    by simp
  moreover have "coprime (4 :: nat) 3"
    by code_simp
  ultimately have "4 dvd c"
    by (simp add: coprime_dvd_mult_left_iff)
  then show False
    using a(3) \<open>a = c + 1\<close> by (auto simp: dvd_def)
qed

lemma b64_decodeD:
  assumes "b64_decode s = Some bs"
  shows "length bs \<le> length s * 3 div 4"
    and "length bs = length s * 3 div 4 \<Longrightarrow> length s mod 4 \<noteq> 1 \<Longrightarrow> s = b64_encode bs"
proof -
  define cs where "cs = filter (\<lambda>c. c \<noteq> char_of (10 :: nat) \<and> c \<noteq> char_of (13 :: nat)) s"
  define vs where "vs = map (\<lambda>c. the (b64_val c)) cs"
  from assms have a: "list_all (\<lambda>c. b64_val c \<noteq> None) cs" "b64_quanta vs = Some bs"
    by (auto simp: b64_decode_def cs_def vs_def Let_def split: if_splits)
  have l: "length bs = length cs * 3 div 4" "length cs \<le> length s"
    using b64_quanta_length [OF a(2)] by (simp_all add: vs_def cs_def)
  then show "length bs \<le> length s * 3 div 4"
    by (simp add: div_le_mono)
  assume h: "length bs = length s * 3 div 4" "length s mod 4 \<noteq> 1"
  have "length cs = length s"
    using same_quantum [of "length s" "length cs"] h l by simp
  then have "cs = s"
    unfolding cs_def by (metis length_filter_less filter_id_conv less_irrefl)
  have "v < 64" if "v \<in> set vs" for v
    using that a(1) b64_val_SomeD by (auto simp: vs_def list_all_iff)
  then have "b64_encode bs = map b64_char vs"
    by (intro b64_quanta_encode [OF a(2)]) (simp add: list_all_iff)
  also have "\<dots> = cs"
    unfolding vs_def map_map by (rule map_idI) (use a(1) b64_val_SomeD in \<open>auto simp: list_all_iff\<close>)
  finally show "s = b64_encode bs"
    using \<open>cs = s\<close> by simp
qed

section \<open>The query of a later request\<close>

abbreviation (input) PollIDLen :: nat where "PollIDLen \<equiv> 16"
abbreviation (input) pollIDText :: nat where "pollIDText \<equiv> 22"
abbreviation (input) PollRequestMax :: u64 where "PollRequestMax \<equiv> 0xFFFFFFFF"

definition poll_query :: "bytes \<Rightarrow> u32 \<Rightarrow> string" where
  "poll_query sid n = b64_encode sid @ ''.'' @ dec (unat n)"

fun query_digits :: "u64 \<Rightarrow> string \<Rightarrow> u64 option" where
  "query_digits v [] = Some v"
| "query_digits v (c # cs) =
     (if \<not> is_digit c then None else query_digits (v * 10 + of_nat (digit_val c)) cs)"

definition parse_poll_query :: "string \<Rightarrow> (bytes \<times> u32) option" where
  "parse_poll_query q =
     (if length q < pollIDText + 2 \<or> length q > pollIDText + 11 \<or> q ! pollIDText \<noteq> CHR ''.'' then None
      else let text = take pollIDText q; digits = drop (pollIDText + 1) q in
        case b64_decode text of
          None \<Rightarrow> None
        | Some raw \<Rightarrow>
            if length raw \<noteq> PollIDLen then None
            else if digits ! 0 = CHR ''0'' then None
            else case query_digits 0 digits of
                None \<Rightarrow> None
              | Some v \<Rightarrow> if v > PollRequestMax then None else Some (raw, ucast v))"

lemma query_digits_eq:
  "query_digits (of_nat m) s =
     (if list_all is_digit s then Some (of_nat (foldl (\<lambda>v c. v * 10 + digit_val c) m s)) else None)"
proof (induction s arbitrary: m)
  case (Cons c s)
  have "of_nat m * 10 + of_nat (digit_val c) = (of_nat (m * 10 + digit_val c) :: u64)"
    by simp
  then show ?case
    by (simp only: query_digits.simps Cons.IH foldl.simps) simp
qed simp

lemma query_digits_0: "query_digits 0 s = (if list_all is_digit s then Some (of_nat (undec s)) else None)"
  using query_digits_eq [of 0 s] by (simp add: undec_def)

lemma b64_encode_16: "length bs = 16 \<Longrightarrow> length (b64_encode bs) = 22"
proof -
  have "length (b64_encode bs) = (length bs * 4 + 2) div 3"
    by (induction bs rule: b64_encode.induct) auto
  then show "length bs = 16 \<Longrightarrow> ?thesis" by simp
qed

text \<open>
  A later request's query is read exactly when it is the text PollQuery writes for a
  16-byte id and a number from 1 to PollRequestMax: every other spelling of the same id or
  number (other base64 forms, line ends, leading zeros, signs, longer numbers) is refused.
\<close>

lemma poll_query_exact:
  "parse_poll_query q = Some (sid, n) \<longleftrightarrow> length sid = PollIDLen \<and> 1 \<le> n \<and> q = poll_query sid n"
proof
  assume "parse_poll_query q = Some (sid, n)"
  then obtain v where q: "pollIDText + 2 \<le> length q" "length q \<le> pollIDText + 11" "q ! pollIDText = CHR ''.''"
      and sd: "b64_decode (take pollIDText q) = Some sid" "length sid = PollIDLen"
      and d: "drop (pollIDText + 1) q ! 0 \<noteq> CHR ''0''" "query_digits 0 (drop (pollIDText + 1) q) = Some v"
      and v: "v \<le> PollRequestMax" "n = ucast v"
    by (auto simp: parse_poll_query_def Let_def not_less split: if_splits option.splits)
  let ?d = "drop (pollIDText + 1) q"
  have dg: "list_all is_digit ?d" "v = of_nat (undec ?d)"
    using d(2) by (auto simp: query_digits_0 split: if_splits)
  have ne: "?d \<noteq> []" "hd ?d \<noteq> CHR ''0''" "length ?d \<le> 10"
    using q(1,2) d(1) by (auto simp: hd_conv_nth)
  have "undec ?d < 10 ^ 10"
    using undec_bound [OF dg(1)] power_increasing [OF ne(3), of "10 :: nat"] by linarith
  then have u: "unat v = undec ?d"
    by (simp add: dg(2) unat_of_nat)
  then have le: "undec ?d < 2 ^ 32"
    using v(1) by (simp add: word_le_nat_alt)
  then have n: "unat n = undec ?d"
    by (simp add: v(2) unsigned_ucast_eq take_bit_nat_eq_self u)
  have "0 < undec ?d"
    using undec_pos [OF dg(1) ne(1,2)] .
  then have "1 \<le> n"
    using n by (simp add: word_le_nat_alt)
  moreover have "take pollIDText q = b64_encode sid"
    using q(1) sd by (intro b64_decodeD(2)) auto
  moreover have "dec (unat n) = ?d"
    using dec_undec [OF dg(1) ne(1)] ne(2) n by simp
  moreover have "q = take pollIDText q @ (q ! pollIDText) # ?d"
    using id_take_nth_drop [of pollIDText q] q(1) by simp
  ultimately show "length sid = PollIDLen \<and> 1 \<le> n \<and> q = poll_query sid n"
    using sd(2) q(3) by (simp add: poll_query_def)
next
  assume a: "length sid = PollIDLen \<and> 1 \<le> n \<and> q = poll_query sid n"
  have e: "length (b64_encode sid) = pollIDText"
    using a b64_encode_16 by simp
  have nn: "0 < unat n" "unat n < 2 ^ 32"
    using a unsigned_less [of n] by (simp_all add: word_le_nat_alt)
  have l: "1 \<le> length (dec (unat n))" "length (dec (unat n)) \<le> 10"
    using dec_length [of "unat n" 10] nn(2) by (simp_all add: Suc_leI)
  have z: "dec (unat n) ! 0 \<noteq> CHR ''0''"
    using dec_hd [OF nn(1)] by (simp add: hd_conv_nth)
  have "ucast (of_nat (unat n) :: u64) = n"
    by (simp add: unsigned_ucast_eq take_bit_word_eq_self)
  moreover have "\<not> (of_nat (unat n) :: u64) > PollRequestMax"
    using nn(2) by (simp add: word_less_nat_alt unat_of_nat not_less unsigned_ucast_eq take_bit_nat_eq_self)
  ultimately show "parse_poll_query q = Some (sid, n)"
    using a e l z by (simp add: parse_poll_query_def poll_query_def nth_append b64_decode_encode query_digits_0 dec_digits)
qed

section \<open>Bodies\<close>

datatype poll_error = ErrBodyFull | ErrBodyRefused | ErrBodyEnded | SealError chunk_error | PollKeyError

abbreviation (input) PollBodyMin :: nat where "PollBodyMin \<equiv> 2 + Overhead"
abbreviation (input) PollBodyMax :: int where "PollBodyMax \<equiv> 65536"

text \<open>AppendBodyWithin: the error, the body and the sender after it.\<close>

definition append_body_within ::
    "stream_sender \<Rightarrow> rand_draw \<Rightarrow> bytes \<Rightarrow> int \<Rightarrow> bytes list \<Rightarrow> poll_error option \<times> bytes \<times> stream_sender" where
  "append_body_within s rnd body limit datagrams =
     (let used = foldl (\<lambda>u d. u + (2 + int (length d))) 0 datagrams in
      if int (length body) + 2 + min (used + pd_wide (ss_pad s)) (int MaxPlain) + int Overhead
           > min limit PollBodyMax
      then (Some ErrBodyFull, body, s)
      else let start = length body;
               (err, body', s') = stream_seal s rnd (body @ [0, 0]) datagrams
        in case err of
             Some e \<Rightarrow> (Some (SealError e), take start body', s')
           | None \<Rightarrow>
               let n = be_bytes 2 (of_nat (length body' - start - 2) :: u16)
               in (None, body'[start := n ! 0, start + 1 := n ! 1], s'))"

definition append_body ::
    "stream_sender \<Rightarrow> rand_draw \<Rightarrow> bytes \<Rightarrow> bytes list \<Rightarrow> poll_error option \<times> bytes \<times> stream_sender" where
  "append_body s rnd body datagrams = append_body_within s rnd body PollBodyMax datagrams"

record poll_receiver =
  pr_aead :: aead
  pr_n :: u64
  pr_ended :: bool

definition new_poll_receiver :: "(bytes \<Rightarrow> aead option) \<Rightarrow> bytes \<Rightarrow> poll_error + poll_receiver" where
  "new_poll_receiver aead_new key =
     (case aead_new key of None \<Rightarrow> Inl PollKeyError
      | Some a \<Rightarrow> Inr \<lparr>pr_aead = a, pr_n = 0, pr_ended = False\<rparr>)"

text \<open>A body that opened and parsed; its receiver is an argument of Commit.\<close>

record poll_body =
  pb_next :: u64
  pb_chunks :: "bytes list list"

text \<open>The first loop of Open: every chunk opened at its number, or the body refused.\<close>

function open_chunks :: "aead \<Rightarrow> u64 \<Rightarrow> bytes \<Rightarrow> (bytes list \<times> u64) option" where
  "open_chunks a n p =
     (if p = [] then Some ([], n)
      else if length p < 2 then None
      else let size = item_len p in
        if size < Overhead \<or> size > MaxSealed \<or> 2 + size > length p \<or> n \<ge> maxCounter then None
        else case aead_open a (stream_nonce n) (take size (drop 2 p)) of
            None \<Rightarrow> None
          | Some plain \<Rightarrow> map_option (\<lambda>(ps, m). (plain # ps, m)) (open_chunks a (n + 1) (drop (2 + size) p)))"
  by pat_completeness auto
termination by (relation "measure (\<lambda>(a, n, p). length p)") auto

declare open_chunks.simps [simp del]

text \<open>The second loop: the items of every chunk, or the end of the session.\<close>

fun parse_chunks :: "bytes list \<Rightarrow> bytes list list option" where
  "parse_chunks [] = Some []"
| "parse_chunks (p # ps) =
     (case items p of Inl _ \<Rightarrow> None | Inr ds \<Rightarrow> map_option ((#) ds) (parse_chunks ps))"

definition poll_open :: "poll_receiver \<Rightarrow> bytes \<Rightarrow> (poll_error + poll_body) \<times> poll_receiver" where
  "poll_open r body =
     (if pr_ended r then (Inl ErrBodyEnded, r)
      else if length body < PollBodyMin \<or> int (length body) > PollBodyMax then (Inl ErrBodyRefused, r)
      else case open_chunks (pr_aead r) (pr_n r) body of
          None \<Rightarrow> (Inl ErrBodyRefused, r)
        | Some (plains, n) \<Rightarrow>
            (case parse_chunks plains of
               None \<Rightarrow> (Inl ErrBodyEnded, r\<lparr>pr_ended := True\<rparr>)
             | Some css \<Rightarrow> (Inr \<lparr>pb_next = n, pb_chunks = css\<rparr>, r)))"

definition poll_commit :: "poll_body \<Rightarrow> poll_receiver \<Rightarrow> poll_receiver" where
  "poll_commit b r = r\<lparr>pr_n := pb_next b\<rparr>"

definition poll_datagrams :: "poll_body \<Rightarrow> bytes list" where
  "poll_datagrams b = concat (pb_chunks b)"

subsection \<open>What a body is made of\<close>

text \<open>The bodies of a direction's plaintexts from number \<open>n\<close> on.\<close>

fun sealed_body :: "aead \<Rightarrow> u64 \<Rightarrow> bytes list \<Rightarrow> bytes" where
  "sealed_body a n [] = []"
| "sealed_body a n (p # ps) =
     (let c = aead_seal a (stream_nonce n) p
      in be_bytes 2 (of_nat (length c) :: u16) @ c @ sealed_body a (n + 1) ps)"

lemma sealed_body_append:
  "sealed_body a n (ps @ qs) = sealed_body a n ps @ sealed_body a (n + of_nat (length ps)) qs"
  by (induction ps arbitrary: n) (simp_all add: Let_def algebra_simps)

lemma open_chunks_iff:
  assumes "aead_laws a" "unat n + length ps \<le> 2 ^ 60"
  shows "open_chunks a n p = Some (ps, m) \<longleftrightarrow>
    p = sealed_body a n ps \<and> list_all (\<lambda>q. length q \<le> MaxPlain) ps \<and> m = n + of_nat (length ps)"
  using assms(2)
proof (induction ps arbitrary: n p)
  case Nil
  show ?case
    by (subst open_chunks.simps) (auto simp: Let_def split: option.splits)
next
  case (Cons q ps)
  let ?c = "aead_seal a (stream_nonce n) q"
  have l: "length ?c = length q + 16" "\<And>c. aead_open a (stream_nonce n) c = Some q \<longleftrightarrow> c = ?c"
    using assms(1) by (simp_all add: aead_laws_def)
  have n: "n < maxCounter" "unat (n + 1) + length ps \<le> 2 ^ 60"
    using Cons.prems u64_numbers [of n] by (auto simp: maxCounter_def word_less_nat_alt)
  note IH = Cons.IH [OF n(2)]
  show ?case
  proof
    assume "open_chunks a n p = Some (q # ps, m)"
    then have o: "2 \<le> length p" "2 + item_len p \<le> length p" "item_len p \<le> 16016"
        "take (item_len p) (drop 2 p) = ?c"
        "open_chunks a (n + 1) (drop (2 + item_len p) p) = Some (ps, m)"
      using l(2) by (subst (asm) open_chunks.simps; auto simp: Let_def split: if_splits option.splits)+
    have il: "item_len p = length ?c"
      using arg_cong [OF o(4), of length] o(2) by simp
    have "p = take 2 p @ ?c @ drop (2 + item_len p) p"
      using take_drop_2 [of p 2 "item_len p"] o(4) by simp
    moreover have "take 2 p = be_bytes 2 (of_nat (length ?c) :: u16)"
      using be_bytes_item_len [OF o(1)] il by simp
    ultimately have "p = sealed_body a n (q # ps)"
      using IH [of "drop (2 + item_len p) p"] o(5) by (simp add: Let_def)
    then show "p = sealed_body a n (q # ps) \<and> list_all (\<lambda>q. length q \<le> MaxPlain) (q # ps) \<and>
        m = n + of_nat (length (q # ps))"
      using IH [of "drop (2 + item_len p) p"] o(3,5) il l(1) by (simp add: algebra_simps)
  next
    assume a: "p = sealed_body a n (q # ps) \<and> list_all (\<lambda>q. length q \<le> MaxPlain) (q # ps) \<and>
        m = n + of_nat (length (q # ps))"
    then have p: "p = be_bytes 2 (of_nat (length ?c) :: u16) @ ?c @ sealed_body a (n + 1) ps"
      and q: "length q \<le> MaxPlain"
      by (simp_all add: Let_def)
    have il: "item_len p = length ?c"
      unfolding p using q l(1) by (intro item_len_frame) simp
    have "open_chunks a (n + 1) (sealed_body a (n + 1) ps) = Some (ps, m)"
      using IH [of "sealed_body a (n + 1) ps"] a by (simp add: algebra_simps)
    moreover have t: "take (item_len p) (drop 2 p) = ?c" "drop (2 + item_len p) p = sealed_body a (n + 1) ps"
      unfolding il by (simp_all add: p)
    moreover have "length p = 2 + length ?c + length (sealed_body a (n + 1) ps)"
      by (simp add: p)
    moreover from this have "p \<noteq> []" "\<not> length p < 2" "\<not> 2 + length ?c > length p" by auto
    moreover have "aead_open a (stream_nonce n) ?c = Some q" "\<not> maxCounter \<le> n"
      using l(2) n(1) by auto
    ultimately show "open_chunks a n p = Some (q # ps, m)"
      using q l(1) il by (subst open_chunks.simps) (simp add: Let_def)
  qed
qed

lemma used_frames: "foldl (\<lambda>u d. u + (2 + int (length d))) k ds = k + int (length (frames ds))"
  by (induction ds arbitrary: k) simp_all

lemma stream_seal_length:
  assumes "stream_seal s rnd dst ds = (None, out, s')"
    and "aead_laws (sl_aead (ss_sealer s))" "rand_ok rnd" "padder_ok (ss_pad s)"
  shows "int (length out) \<le> int (length dst) + min (int (length (frames ds)) + pd_wide (ss_pad s)) (int MaxPlain) + int Overhead
    \<and> padder_ok (ss_pad s') \<and> pd_wide (ss_pad s') = pd_wide (ss_pad s)"
proof -
  from assms(1) obtain plain hs n pad where a: "append_items [] False ds = Inr (plain, hs)"
      "padder_next rnd (ss_pad s) hs = (n, pad)" "ss_pad s' = pad"
      "sealer_seal (ss_sealer s) dst (append_padding plain n) = (None, out, ss_sealer s')"
    by (auto simp: stream_seal_def Let_def split: sum.splits prod.splits)
  have p: "plain = frames ds" "length plain \<le> MaxPlain"
    using a(1) by (auto simp: append_items_ok)
  have n: "0 \<le> n" "n \<le> pd_wide (ss_pad s)"
    using padder_next_bounds [OF assms(3,4), of hs] a(2) assms(4)
    by (auto simp: padder_ok_def split: if_splits)
  have "int (length (append_padding plain n)) \<le> min (int (length (frames ds)) + n) (int MaxPlain)"
    using p n(1) by (auto simp: append_padding_def Let_def)
  moreover have "length out = length dst + (length (append_padding plain n) + 16)"
    using a(4) assms(2) by (auto simp: sealer_seal_def aead_laws_def split: if_splits)
  moreover have "padder_ok pad" "pd_wide pad = pd_wide (ss_pad s)"
    using padder_next_ok [OF assms(4), of rnd hs] a(2) by (auto simp: padder_next_def Let_def split: if_splits)
  ultimately show ?thesis
    using n(2) a(3) by auto
qed

lemma append_body_ok:
  assumes "append_body_within s rnd body limit ds = (None, body', s')" "aead_laws (sl_aead (ss_sealer s))"
  obtains plain where "items plain = Inr ds" "length plain \<le> MaxPlain"
    "body' = body @ sealed_body (sl_aead (ss_sealer s)) (sl_n (ss_sealer s)) [plain]"
    "sl_n (ss_sealer s) < maxCounter" "sl_aead (ss_sealer s') = sl_aead (ss_sealer s)"
    "sl_n (ss_sealer s') = sl_n (ss_sealer s) + 1"
proof -
  from assms(1) obtain out where o: "stream_seal s rnd (body @ [0, 0]) ds = (None, out, s')"
      "body' = out[length body := be_bytes 2 (of_nat (length out - length body - 2) :: u16) ! 0,
         length body + 1 := be_bytes 2 (of_nat (length out - length body - 2) :: u16) ! 1]"
    by (auto simp: append_body_within_def Let_def split: if_splits prod.splits option.splits)
  from stream_seal_ok [OF o(1)] obtain plain where p: "items plain = Inr ds" "length plain \<le> MaxPlain"
    "out = (body @ [0, 0]) @ aead_seal (sl_aead (ss_sealer s)) (stream_nonce (sl_n (ss_sealer s))) plain"
    "sl_n (ss_sealer s) < maxCounter" "sl_aead (ss_sealer s') = sl_aead (ss_sealer s)"
    "sl_n (ss_sealer s') = sl_n (ss_sealer s) + 1"
    by blast
  obtain x y where xy: "be_bytes 2 (of_nat (length out - length body - 2) :: u16) = [x, y]"
    by (simp add: numeral_2_eq_2)
  have "body' = body @ sealed_body (sl_aead (ss_sealer s)) (sl_n (ss_sealer s)) [plain]"
    using o(2) xy by (simp add: p(3) list_update_append Let_def)
  with that p show ?thesis by blast
qed

fun append_bodies :: "stream_sender \<Rightarrow> bytes \<Rightarrow> (rand_draw \<times> bytes list) list \<Rightarrow> (bytes \<times> stream_sender) option" where
  "append_bodies s body [] = Some (body, s)"
| "append_bodies s body ((rnd, ds) # bs) =
     (case append_body s rnd body ds of
        (Some _, _, _) \<Rightarrow> None
      | (None, body', s') \<Rightarrow> append_bodies s' body' bs)"

lemma append_bodies_sealed:
  assumes "append_bodies s body bs = Some (body', s')" "aead_laws (sl_aead (ss_sealer s))"
  shows "\<exists>ps. map items ps = map (\<lambda>(rnd, ds). Inr ds) bs \<and> list_all (\<lambda>p. length p \<le> MaxPlain) ps
    \<and> body' = body @ sealed_body (sl_aead (ss_sealer s)) (sl_n (ss_sealer s)) ps
    \<and> sl_n (ss_sealer s') = sl_n (ss_sealer s) + of_nat (length ps)
    \<and> (ps \<noteq> [] \<longrightarrow> unat (sl_n (ss_sealer s)) + length ps \<le> 2 ^ 60)"
  using assms
proof (induction s body bs rule: append_bodies.induct)
  case (1 s body)
  then show ?case by (intro exI [of _ "[]"]) simp
next
  case (2 s body rnd ds bs)
  then obtain body1 s1 where b: "append_body s rnd body ds = (None, body1, s1)"
      "append_bodies s1 body1 bs = Some (body', s')"
    by (auto split: prod.splits option.splits)
  from append_body_ok [OF b(1) [unfolded append_body_def] 2(3)] obtain p where p: "items p = Inr ds" "length p \<le> MaxPlain"
    "body1 = body @ sealed_body (sl_aead (ss_sealer s)) (sl_n (ss_sealer s)) [p]"
    "sl_n (ss_sealer s) < maxCounter" "sl_aead (ss_sealer s1) = sl_aead (ss_sealer s)"
    "sl_n (ss_sealer s1) = sl_n (ss_sealer s) + 1"
    by blast
  from 2(1) [OF b(1) [symmetric] refl refl b(2)] 2(3) p(5) obtain ps where ps:
    "map items ps = map (\<lambda>(rnd, ds). Inr ds) bs" "list_all (\<lambda>p. length p \<le> MaxPlain) ps"
    "body' = body1 @ sealed_body (sl_aead (ss_sealer s)) (sl_n (ss_sealer s1)) ps"
    "sl_n (ss_sealer s') = sl_n (ss_sealer s1) + of_nat (length ps)"
    "ps \<noteq> [] \<longrightarrow> unat (sl_n (ss_sealer s1)) + length ps \<le> 2 ^ 60"
    by auto
  have "unat (sl_n (ss_sealer s)) + 1 \<le> 2 ^ 60"
    using p(4) by (simp add: maxCounter_def word_less_nat_alt)
  then show ?case
    using p ps u64_numbers [OF p(4)]
    by (intro exI [of _ "p # ps"]) (auto simp: Let_def)
qed

lemma parse_chunks_items:
  "parse_chunks ps = Some css \<longleftrightarrow> map items ps = map Inr css"
proof (induction ps arbitrary: css)
  case (Cons p ps)
  then show ?case by (cases css) (auto split: sum.splits)
qed auto

lemma append_body_within_length:
  assumes "append_body_within s rnd body limit ds = (err, body', s')"
    and "aead_laws (sl_aead (ss_sealer s))" "rand_ok rnd" "padder_ok (ss_pad s)"
    and "int (length body) \<le> min limit PollBodyMax"
  shows "int (length body') \<le> min limit PollBodyMax"
    and "err = None \<Longrightarrow> padder_ok (ss_pad s') \<and> pd_wide (ss_pad s') = pd_wide (ss_pad s)"
    and "err \<noteq> None \<Longrightarrow> body' = body \<and> ss_sealer s' = ss_sealer s"
    and "err = Some ErrBodyFull \<Longrightarrow> s' = s"
proof -
  have err: "stream_seal s rnd dst ds = (Some e, out, s2) \<Longrightarrow> out = dst \<and> ss_sealer s2 = ss_sealer s" for e out dst s2
    by (auto simp: stream_seal_def sealer_seal_def Let_def split: sum.splits prod.splits if_splits)
  note defs = append_body_within_def Let_def
  show "err \<noteq> None \<Longrightarrow> body' = body \<and> ss_sealer s' = ss_sealer s"
    using assms(1) err [of "body @ [0, 0]"]
    by (auto simp: defs split: if_splits prod.splits option.splits)
  show "err = Some ErrBodyFull \<Longrightarrow> s' = s"
    using assms(1) by (auto simp: defs split: if_splits prod.splits option.splits)
  have ok: "int (length body') \<le> min limit PollBodyMax
      \<and> padder_ok (ss_pad s') \<and> pd_wide (ss_pad s') = pd_wide (ss_pad s)" if "err = None"
  proof -
    from that assms(1) obtain out where o: "stream_seal s rnd (body @ [0, 0]) ds = (None, out, s')"
        "length body' = length out"
        "int (length body) + 2 + min (int (length (frames ds)) + pd_wide (ss_pad s)) (int MaxPlain) + int Overhead
           \<le> min limit PollBodyMax"
      by (auto simp: defs used_frames not_less split: if_splits prod.splits option.splits)
    from stream_seal_length [OF o(1) assms(2-4)] o(2,3) show ?thesis by auto
  qed
  then show "err = None \<Longrightarrow> padder_ok (ss_pad s') \<and> pd_wide (ss_pad s') = pd_wide (ss_pad s)" by simp
  show "int (length body') \<le> min limit PollBodyMax"
    using ok \<open>err \<noteq> None \<Longrightarrow> body' = body \<and> ss_sealer s' = ss_sealer s\<close> assms(5) by (cases "err = None") auto
qed

lemma append_bodies_length:
  assumes "append_bodies s body bs = Some (body', s')"
    and "aead_laws (sl_aead (ss_sealer s))" "\<forall>(rnd, ds) \<in> set bs. rand_ok rnd" "padder_ok (ss_pad s)"
    and "int (length body) \<le> PollBodyMax"
  shows "int (length body') \<le> PollBodyMax"
  using assms
proof (induction s body bs rule: append_bodies.induct)
  case (2 s body rnd ds bs)
  then obtain body1 s1 where b: "append_body s rnd body ds = (None, body1, s1)"
      "append_bodies s1 body1 bs = Some (body', s')"
    by (auto split: prod.splits option.splits)
  note w = append_body_within_length [OF b(1) [unfolded append_body_def] 2(3) _ 2(5)]
  have r: "rand_ok rnd" using 2(4) by auto
  from append_body_ok [OF b(1) [unfolded append_body_def] 2(3)] have "sl_aead (ss_sealer s1) = sl_aead (ss_sealer s)"
    by metis
  with 2(1) [OF b(1) [symmetric] refl refl b(2)] 2(3-6) w [OF r] show ?case
    by auto
qed simp

lemma open_chunks_Cons:
  "open_chunks a n p = Some (q # ps, m) \<Longrightarrow> n < maxCounter \<and> (\<exists>p'. open_chunks a (n + 1) p' = Some (ps, m))"
  by (subst (asm) open_chunks.simps) (auto simp: Let_def not_le split: if_splits option.splits)

lemma open_chunks_bound:
  "open_chunks a n p = Some (ps, m) \<Longrightarrow> ps \<noteq> [] \<Longrightarrow> unat n + length ps \<le> 2 ^ 60"
proof (induction ps arbitrary: n p)
  case (Cons q ps)
  from open_chunks_Cons [OF Cons.prems(1)] obtain p' where n: "n < maxCounter"
    and o: "open_chunks a (n + 1) p' = Some (ps, m)"
    by blast
  have "unat n + 1 \<le> 2 ^ 60"
    using n by (simp add: maxCounter_def word_less_nat_alt)
  with Cons.IH [OF o] u64_numbers [OF n] show ?case
    by (cases "ps = []") simp_all
qed simp

section \<open>What relay promises\<close>

text \<open>
  C9. A relay body round trips. A body that a sender built chunk by chunk, starting at the
  number its receiver stands at, opens to exactly the datagrams of each chunk, leaves the
  receiver as it was until it is committed, and committing it moves the receiver to the number
  the sender stands at, so the next body round trips too.
\<close>

theorem poll_roundtrip:
  assumes "aead_laws (pr_aead r)" "sl_aead (ss_sealer s) = pr_aead r" "sl_n (ss_sealer s) = pr_n r"
    and "\<not> pr_ended r" "padder_ok (ss_pad s)" "\<forall>(rnd, ds) \<in> set bs. rand_ok rnd"
    and "append_bodies s [] bs = Some (body, s')" "bs \<noteq> []"
  shows "\<exists>b. poll_open r body = (Inr b, r) \<and> pb_chunks b = map snd bs
    \<and> pr_n (poll_commit b r) = sl_n (ss_sealer s') \<and> pr_aead (poll_commit b r) = pr_aead r
    \<and> \<not> pr_ended (poll_commit b r)"
proof -
  from append_bodies_sealed [OF assms(7)] assms(1,2) obtain ps where ps:
    "map items ps = map (\<lambda>(rnd, ds). Inr ds) bs" "list_all (\<lambda>p. length p \<le> MaxPlain) ps"
    "body = sealed_body (pr_aead r) (pr_n r) ps" "sl_n (ss_sealer s') = pr_n r + of_nat (length ps)"
    "ps \<noteq> [] \<longrightarrow> unat (pr_n r) + length ps \<le> 2 ^ 60"
    by (auto simp: assms(3))
  have ne: "ps \<noteq> []"
    using ps(1) assms(8) by auto
  then obtain p ps' where "ps = p # ps'"
    by (cases ps) auto
  then have "PollBodyMin \<le> length body"
    using assms(1) ps(3) by (simp add: Let_def aead_laws_def)
  moreover have "int (length body) \<le> PollBodyMax"
    using append_bodies_length [OF assms(7)] assms(1,2,5,6) by simp
  moreover have "open_chunks (pr_aead r) (pr_n r) body = Some (ps, pr_n r + of_nat (length ps))"
    using open_chunks_iff [OF assms(1)] ps ne by blast
  moreover have "parse_chunks ps = Some (map snd bs)"
    using ps(1) by (simp add: parse_chunks_items case_prod_unfold)
  ultimately show ?thesis
    using assms(4) ps(4) by (simp add: poll_open_def poll_commit_def)
qed

text \<open>
  C8. Opening a body never moves the numbers, and whoever does not hold the key changes
  nothing: the receiver differs after Open only where the whole body was sealed under the
  session's key at the next numbers and one of its plaintexts does not parse, and then the
  session is ended; a body that is taken is exactly the sealings of its chunks at the next
  numbers; and once ended the session refuses everything.
\<close>

theorem poll_open_inert:
  assumes "aead_laws (pr_aead r)" "poll_open r body = (res, r')"
  shows "r' = (if r' = r then r else r\<lparr>pr_ended := True\<rparr>)
    \<and> (r' \<noteq> r \<longrightarrow> res = Inl ErrBodyEnded
        \<and> (\<exists>ps p. body = sealed_body (pr_aead r) (pr_n r) ps \<and> p \<in> set ps \<and> (\<exists>e. items p = Inl e)))
    \<and> (\<forall>b. res = Inr b \<longrightarrow> r' = r \<and> \<not> pr_ended r \<and> (\<exists>ps. body = sealed_body (pr_aead r) (pr_n r) ps
        \<and> map items ps = map Inr (pb_chunks b) \<and> pb_next b = pr_n r + of_nat (length ps)))
    \<and> (pr_ended r \<longrightarrow> res = Inl ErrBodyEnded)"
proof -
  have sealed: "body = sealed_body (pr_aead r) (pr_n r) ps \<and> m = pr_n r + of_nat (length ps)"
    if o: "open_chunks (pr_aead r) (pr_n r) body = Some (ps, m)" for ps m
  proof (cases "ps = []")
    case True
    with o show ?thesis by (subst (asm) open_chunks.simps) (auto simp: Let_def split: if_splits option.splits)
  next
    case False
    with o open_chunks_bound [OF o] open_chunks_iff [OF assms(1)] show ?thesis by blast
  qed
  have bad: "\<exists>p \<in> set ps. \<exists>e. items p = Inl e" if "parse_chunks ps = None" for ps
    using that by (induction ps) (auto split: sum.splits)
  show ?thesis
    using assms(2) sealed parse_chunks_items
    by (auto simp: poll_open_def split: if_splits option.splits prod.splits; use bad in blast)
qed

text \<open>
  A body never outgrows its limit: after every AppendBodyWithin the body is within the
  limit and PollBodyMax; and a call that fails, full or not, leaves the body as it was and uses
  no number of the stream.
\<close>

lemma poll_body_limit:
  assumes "append_body_within s rnd body limit ds = (err, body', s')"
    and "aead_laws (sl_aead (ss_sealer s))" "rand_ok rnd" "padder_ok (ss_pad s)"
    and "int (length body) \<le> min limit PollBodyMax"
  shows "int (length body') \<le> min limit PollBodyMax
    \<and> (err \<noteq> None \<longrightarrow> body' = body \<and> ss_sealer s' = ss_sealer s)
    \<and> (err = Some ErrBodyFull \<longrightarrow> s' = s)
    \<and> (err = None \<longrightarrow> sl_n (ss_sealer s') = sl_n (ss_sealer s) + 1)"
  using append_body_within_length [OF assms]
  by (cases err) (use append_body_ok [OF _ assms(2)] assms(1) in \<open>auto, blast\<close>)

section \<open>Witnesses\<close>

definition demo_poll_receiver :: poll_receiver where
  "demo_poll_receiver = \<lparr>pr_aead = demo_aead, pr_n = 0, pr_ended = False\<rparr>"

lemma demo_append:
  "fst (append_body demo_sender (\<lambda>_. 0) [] [demo_datagram 1]) = None"
  by (simp add: append_body_def append_body_within_def demo_sender_def stream_seal_def sealer_seal_def
      append_item_def demo_datagram_def padder_next_def new_padder_def append_padding_def uniform_def
      clamp_or_def maxCounter_def word_le_nat_alt Let_def split: prod.splits)

lemma demo_bodies:
  "\<exists>body s'. append_bodies demo_sender [] [(\<lambda>_. 0, [demo_datagram 1])] = Some (body, s')"
  using demo_append by (auto split: prod.splits option.splits)

lemma demo_poll_state:
  "aead_laws (pr_aead demo_poll_receiver)" "sl_aead (ss_sealer demo_sender) = pr_aead demo_poll_receiver"
  "sl_n (ss_sealer demo_sender) = pr_n demo_poll_receiver" "\<not> pr_ended demo_poll_receiver"
  "padder_ok (ss_pad demo_sender)"
  using demo_aead_laws new_padder_ok [OF demo_rand_ok]
  by (simp_all add: demo_poll_receiver_def demo_sender_def)

theorem poll_roundtrip_witness:
  "\<exists>body s' b. append_bodies demo_sender [] [(\<lambda>_. 0, [demo_datagram 1])] = Some (body, s')
    \<and> poll_open demo_poll_receiver body = (Inr b, demo_poll_receiver) \<and> pb_chunks b = [[demo_datagram 1]]"
proof -
  obtain body s' where b: "append_bodies demo_sender [] [(\<lambda>_. 0, [demo_datagram 1])] = Some (body, s')"
    using demo_bodies by blast
  have "\<forall>(rnd, ds) \<in> set [((\<lambda>_. 0) :: rand_draw, [demo_datagram 1])]. rand_ok rnd"
    using demo_rand_ok by simp
  from poll_roundtrip [OF demo_poll_state this b] b show ?thesis
    by auto
qed

theorem poll_open_inert_witness:
  "snd (poll_open demo_poll_receiver (replicate 20 0)) = demo_poll_receiver"
proof -
  have o: "poll_open demo_poll_receiver (replicate 20 0) = (Inl ErrBodyRefused, demo_poll_receiver)"
    by (simp add: poll_open_def demo_poll_receiver_def open_chunks.simps item_len_def Let_def
      del: replicate_Suc)
  from poll_open_inert [OF demo_poll_state(1) o] show ?thesis
    by (simp add: o)
qed

end
