(* ===== verification/Incremental.thy ===== *)
theory Incremental imports Prelude begin

text \<open>
  Readers that take the bytes of a connection as they arrive (the request line scanner, the
  reader of a stream answer, the HDLC deframer). A call of \<open>feed\<close> gives what the bytes
  completed, the status the call returns and the reader after it; \<open>view\<close> is the part of a
  reader that later calls can see. The contract is that feeding a piece and then another is
  feeding both at once; what follows is that no cutting of the bytes changes anything.
\<close>

text \<open>The pieces one after the other; no pieces at all are one empty piece.\<close>

fun feed_all :: "('s \<Rightarrow> 'b list \<Rightarrow> 'e list \<times> 'r \<times> 's) \<Rightarrow> 's \<Rightarrow> 'b list list \<Rightarrow> 'e list \<times> 'r \<times> 's" where
  "feed_all feed s [] = feed s []"
| "feed_all feed s [p] = feed s p"
| "feed_all feed s (p # q # ps) =
     (let (e1, r1, s1) = feed s p; (e2, r2, s2) = feed_all feed s1 (q # ps) in (e1 @ e2, r2, s2))"

locale incremental_reader =
  fixes feed :: "'s \<Rightarrow> 'b list \<Rightarrow> 'e list \<times> 'r \<times> 's"
    and view :: "'s \<Rightarrow> 'v"
  assumes feed_cong: "view s = view t \<Longrightarrow> feed s xs = (e, r, s') \<Longrightarrow>
      \<exists>t'. feed t xs = (e, r, t') \<and> view t' = view s'"
    and feed_append: "feed s xs = (e1, r1, s1) \<Longrightarrow> feed s1 ys = (e2, r2, s2) \<Longrightarrow>
      \<exists>s'. feed s (xs @ ys) = (e1 @ e2, r2, s') \<and> view s' = view s2"
begin

lemma feed_all_concat:
  "feed_all feed s ps = (e, r, t) \<Longrightarrow> \<exists>t'. feed s (concat ps) = (e, r, t') \<and> view t' = view t"
proof (induction ps arbitrary: s e r t rule: induct_list012)
  case (3 p q ps)
  then obtain e1 r1 s1 e2 where 1: "feed s p = (e1, r1, s1)"
      and 2: "feed_all feed s1 (q # ps) = (e2, r, t)" "e = e1 @ e2"
    by (auto split: prod.splits)
  from "3.IH"(2) [OF 2(1)] obtain t1 where 3: "feed s1 (concat (q # ps)) = (e2, r, t1)" "view t1 = view t"
    by auto
  from feed_append [OF 1 3(1)] 2(2) 3(2) show ?case
    by auto
qed auto

lemma cut_anywhere:
  assumes "concat ps = concat qs"
    and "feed_all feed s ps = (e, r, s')" "feed_all feed s qs = (e2, r2, t')"
  shows "e2 = e \<and> r2 = r \<and> view t' = view s'"
  using feed_all_concat [OF assms(2)] feed_all_concat [OF assms(3)] by (auto simp: assms(1))

end

end
