(* ===== verification/LineScan.thy ===== *)
theory LineScan imports Incremental "HOL-Library.Sublist" begin

text \<open>
  How an anchor server reads a request line from raw bytes (internal/stealth/request.go), and
  how a bare server reads its cookie (internal/stealth/cookie.go). Bytes are characters here,
  one each.
\<close>

section \<open>The request line\<close>

abbreviation (input) LineMax :: nat where "LineMax \<equiv> 4096"

definition line_prefix :: string where
  "line_prefix = ''GET /''"

definition line_end :: string where
  "line_end = '' HTTP/1.1'' @ [char_of (13 :: nat), char_of (10 :: nat)]"

datatype line_scan = LineMore | LineStranger | LineDone

record line_scanner =
  ls_read :: nat
  ls_end :: nat
  ls_scan :: line_scan
  ls_total :: nat

definition line_scanner_zero :: line_scanner where
  "line_scanner_zero = \<lparr>ls_read = 0, ls_end = 0, ls_scan = LineMore, ls_total = 0\<rparr>"

definition target_byte :: "char \<Rightarrow> bool" where
  "target_byte c \<longleftrightarrow> is_alnum c \<or> c \<in> set ''-._~!$&'' \<or> c = char_of (39 :: nat)
     \<or> c \<in> set ''()*+,;=:@/?%''"

text \<open>The body of the loop of Feed, for a scanner that is still at LineMore.\<close>

definition line_step :: "line_scanner \<Rightarrow> char \<Rightarrow> line_scanner" where
  "line_step s c =
     (let fits = (if ls_read s < length line_prefix then c = line_prefix ! ls_read s
                  else if ls_end s > 0 then c = line_end ! ls_end s
                  else c = CHR '' '' \<or> target_byte c);
          e = (if ls_read s \<ge> length line_prefix \<and> (ls_end s > 0 \<or> c = CHR '' '') then ls_end s + 1 else ls_end s);
          s = s\<lparr>ls_end := e, ls_read := ls_read s + 1\<rparr>
      in if \<not> fits then s\<lparr>ls_scan := LineStranger\<rparr>
         else if ls_end s = length line_end then s\<lparr>ls_scan := LineDone, ls_total := ls_read s\<rparr>
         else if ls_read s \<ge> LineMax then s\<lparr>ls_scan := LineStranger\<rparr>
         else s)"

fun line_run :: "line_scanner \<Rightarrow> string \<Rightarrow> line_scanner" where
  "line_run s [] = s"
| "line_run s (c # b) = (if ls_scan s \<noteq> LineMore then s else line_run (line_step s c) b)"

definition line_feed :: "line_scanner \<Rightarrow> string \<Rightarrow> line_scan \<times> line_scanner" where
  "line_feed s b = (let s' = line_run s b in (ls_scan s', s'))"

record request_line =
  rl_path :: string
  rl_query :: string

text \<open>bytes.Cut at the first question mark; the query is empty where there is none.\<close>

definition parse_line :: "string \<Rightarrow> request_line option" where
  "parse_line line =
     (let (sc, s) = line_feed line_scanner_zero line in
      if sc \<noteq> LineDone \<or> ls_total s \<noteq> length line then None
      else let target = take (length line - length line_end - length ''GET '') (drop (length ''GET '') line)
        in Some \<lparr>rl_path = takeWhile (\<lambda>c. c \<noteq> CHR ''?'') target,
                 rl_query = drop 1 (dropWhile (\<lambda>c. c \<noteq> CHR ''?'') target)\<rparr>)"

definition path_is :: "request_line \<Rightarrow> string \<Rightarrow> bool" where
  "path_is l path \<longleftrightarrow> rl_path l = path"

subsection \<open>The grammar of the line\<close>

definition line_shape :: "string \<Rightarrow> bool" where
  "line_shape l \<longleftrightarrow> (\<exists>t. list_all target_byte t \<and> l = line_prefix @ t @ line_end)"

definition line_rep :: "string \<Rightarrow> nat \<Rightarrow> bool" where
  "line_rep b e \<longleftrightarrow>
     (if length b < 5 then b = take (length b) line_prefix \<and> e = 0
      else \<exists>t. list_all target_byte t \<and> b = line_prefix @ t @ take e line_end \<and> e < 11)"

lemma line_lengths [simp]: "length line_prefix = 5" "length line_end = 11"
  by (simp_all add: line_prefix_def line_end_def)

lemma line_end_0 [simp]: "line_end ! 0 = CHR '' ''"
  by (simp add: line_end_def)

lemma space_not_target: "\<not> target_byte CHR '' ''"
  by code_simp

lemma line_run_append: "line_run s (a @ b) = line_run (line_run s a) b"
proof (induction a arbitrary: s)
  case (Cons c a)
  have "ls_scan s \<noteq> LineMore \<Longrightarrow> line_run s b = s"
    by (cases b) auto
  with Cons show ?case by auto
qed simp

lemma line_run_final: "ls_scan s \<noteq> LineMore \<Longrightarrow> line_run s b = s"
  by (cases b) auto

lemma line_run_snoc:
  "line_run s (b @ [c]) = (let s' = line_run s b in if ls_scan s' \<noteq> LineMore then s' else line_step s' c)"
  by (simp add: line_run_append Let_def)

lemma line_rep_snocI:
  assumes "line_rep b e"
  shows "length b < 5 \<Longrightarrow> c = line_prefix ! length b \<Longrightarrow> line_rep (b @ [c]) 0"
    and "5 \<le> length b \<Longrightarrow> e = 0 \<Longrightarrow> target_byte c \<Longrightarrow> line_rep (b @ [c]) 0"
    and "5 \<le> length b \<Longrightarrow> c = line_end ! e \<Longrightarrow> e < 10 \<Longrightarrow> line_rep (b @ [c]) (Suc e)"
proof -
  assume l: "length b < 5" "c = line_prefix ! length b"
  then have "b @ [c] = take (Suc (length b)) line_prefix"
    using assms by (simp add: line_rep_def take_Suc_conv_app_nth)
  moreover from this have "length b = 4 \<Longrightarrow> b @ [c] = line_prefix"
    by simp
  ultimately show "line_rep (b @ [c]) 0"
    using l(1) by (auto simp: line_rep_def intro: exI [of _ "[]"])
next
  assume l: "5 \<le> length b" "e = 0" "target_byte c"
  then obtain t where "list_all target_byte t" "b = line_prefix @ t"
    using assms by (auto simp: line_rep_def)
  with l(3) show "line_rep (b @ [c]) 0"
    by (auto simp: line_rep_def intro: exI [of _ "t @ [c]"])
next
  assume l: "5 \<le> length b" "c = line_end ! e" "e < 10"
  then obtain t where "list_all target_byte t" "b = line_prefix @ t @ take e line_end"
    using assms by (auto simp: line_rep_def)
  with l(2,3) show "line_rep (b @ [c]) (Suc e)"
    by (auto simp: line_rep_def take_Suc_conv_app_nth)
qed

lemma line_rep_snocE:
  assumes "line_rep (b @ [c]) e"
  obtains (prefix) "line_rep b 0" "length b < 5" "c = line_prefix ! length b" "e = 0"
  | (target) "line_rep b 0" "5 \<le> length b" "target_byte c" "e = 0"
  | (ending) d where "line_rep b d" "5 \<le> length b" "c = line_end ! d" "e = Suc d" "d < 10"
proof (cases "length b < 5")
  case True
  have "b @ [c] = take (Suc (length b)) line_prefix \<and> e = 0"
  proof (cases "length b < 4")
    case False
    with True obtain t where t: "list_all target_byte t" "b @ [c] = line_prefix @ t @ take e line_end" "e < 11"
      using assms by (auto simp: line_rep_def)
    have "length (b @ [c]) = 5 + length t + e"
      unfolding t(2) using t(3) by simp
    with True have "t = []" "e = 0" "length b = 4"
      by auto
    with t(2) show ?thesis by simp
  qed (use assms in \<open>auto simp: line_rep_def\<close>)
  with True show ?thesis
    by (intro prefix) (auto simp: line_rep_def take_Suc_conv_app_nth)
next
  case False
  then obtain t where t: "list_all target_byte t" "b @ [c] = line_prefix @ t @ take e line_end" "e < 11"
    using assms by (auto simp: line_rep_def)
  show ?thesis
  proof (cases e)
    case 0
    show ?thesis
    proof (cases t rule: rev_cases)
      case Nil
      have "length (b @ [c]) = 5"
        unfolding t(2) using Nil 0 by simp
      with False show ?thesis by simp
    next
      case (snoc u d)
      with 0 t(1,2) False have "line_rep b 0" "target_byte c"
        by (auto simp: line_rep_def)
      with False 0 show ?thesis by (intro target) auto
    qed
  next
    case (Suc d)
    with t have "b = line_prefix @ t @ take d line_end" "c = line_end ! d"
      by (simp_all add: take_Suc_conv_app_nth flip: append_assoc)
    with t Suc False show ?thesis
      by (intro ending [of d]) (auto simp: line_rep_def)
  qed
qed

definition line_state :: "string \<Rightarrow> nat \<Rightarrow> line_scanner" where
  "line_state b e = \<lparr>ls_read = length b, ls_end = e, ls_scan = LineMore, ls_total = 0\<rparr>"

lemma line_rep_Nil: "line_rep [] 0"
  by (simp add: line_rep_def)

lemma line_step_state:
  "length b < 5 \<Longrightarrow> c = line_prefix ! length b \<Longrightarrow> line_step (line_state b 0) c = line_state (b @ [c]) 0"
  "5 \<le> length b \<Longrightarrow> length b < LineMax - 1 \<Longrightarrow> target_byte c \<Longrightarrow>
     line_step (line_state b 0) c = line_state (b @ [c]) 0"
  "5 \<le> length b \<Longrightarrow> length b < LineMax - 1 \<Longrightarrow> d < 10 \<Longrightarrow> c = line_end ! d \<Longrightarrow>
     line_step (line_state b d) c = line_state (b @ [c]) (Suc d)"
  using space_not_target by (auto simp: line_step_def line_state_def Let_def)

lemma line_run_rep:
  "line_rep b e \<Longrightarrow> length b < LineMax \<Longrightarrow> line_run line_scanner_zero b = line_state b e"
proof (induction b arbitrary: e rule: rev_induct)
  case Nil
  then show ?case
    by (simp add: line_scanner_zero_def line_state_def line_rep_def)
next
  case (snoc c b)
  then have l: "length b < LineMax - 1" by simp
  from snoc.prems(1) show ?case
  proof (cases rule: line_rep_snocE)
    case prefix
    with snoc.IH [of 0] l line_step_state(1) [OF prefix(2,3)] show ?thesis
      by (simp add: line_run_snoc line_state_def Let_def)
  next
    case target
    with snoc.IH [of 0] l line_step_state(2) [OF target(2) l target(3)] show ?thesis
      by (simp add: line_run_snoc line_state_def Let_def)
  next
    case (ending d)
    with snoc.IH [of d] l line_step_state(3) [OF ending(2) l ending(5,3)] show ?thesis
      by (simp add: line_run_snoc line_state_def Let_def)
  qed
qed

lemma line_step_more:
  assumes "line_rep b d" "length b < LineMax" "ls_scan (line_step (line_state b d) c) = LineMore"
  shows "line_rep (b @ [c]) (ls_end (line_step (line_state b d) c)) \<and> length (b @ [c]) < LineMax"
proof -
  consider "length b < 5" | "5 \<le> length b" "d = 0" | "5 \<le> length b" "0 < d"
    by linarith
  then show ?thesis
  proof cases
    case 1
    then have "d = 0" using assms(1) by (simp add: line_rep_def)
    with 1 assms line_rep_snocI(1) [OF assms(1) 1, of c] show ?thesis
      by (auto simp: line_step_def line_state_def Let_def split: if_splits)
  next
    case 2
    with assms(3) have "c = CHR '' '' \<or> target_byte c" "length (b @ [c]) < LineMax"
      by (auto simp: line_step_def line_state_def Let_def split: if_splits)
    with 2 assms(1) line_rep_snocI(2,3) [OF assms(1), of c] show ?thesis
      using space_not_target by (auto simp: line_step_def line_state_def Let_def)
  next
    case 3
    with assms(3) have "c = line_end ! d" "length (b @ [c]) < LineMax" "Suc d \<noteq> 11"
      by (auto simp: line_step_def line_state_def Let_def split: if_splits)
    moreover have "d < 11"
      using assms(1) 3 by (auto simp: line_rep_def)
    ultimately show ?thesis
      using 3 line_rep_snocI(3) [OF assms(1), of c] by (auto simp: line_step_def line_state_def Let_def)
  qed
qed

lemma line_run_moreD:
  "ls_scan (line_run line_scanner_zero b) = LineMore \<Longrightarrow> length b < LineMax \<and> (\<exists>e. line_rep b e)"
proof (induction b rule: rev_induct)
  case Nil
  show ?case using line_rep_Nil by auto
next
  case (snoc c b)
  then have "ls_scan (line_run line_scanner_zero b) = LineMore"
    by (auto simp: line_run_snoc Let_def split: if_splits)
  with snoc.IH obtain e where e: "length b < LineMax" "line_rep b e"
    by blast
  with snoc.prems line_run_rep [OF e(2,1)] have "ls_scan (line_step (line_state b e) c) = LineMore"
    by (simp add: line_run_snoc Let_def line_state_def split: if_splits)
  from line_step_more [OF e(2,1) this] show ?case by blast
qed

lemma line_run_doneD:
  "ls_scan (line_run line_scanner_zero b) = LineDone \<Longrightarrow>
   ls_total (line_run line_scanner_zero b) \<le> length b \<and> ls_total (line_run line_scanner_zero b) \<le> LineMax
   \<and> line_shape (take (ls_total (line_run line_scanner_zero b)) b)"
proof (induction b rule: rev_induct)
  case Nil
  then show ?case by (simp add: line_scanner_zero_def)
next
  case (snoc c b)
  show ?case
  proof (cases "ls_scan (line_run line_scanner_zero b) = LineMore")
    case False
    with snoc show ?thesis by (auto simp: line_run_snoc)
  next
    case True
    from line_run_moreD [OF this] obtain e where e: "length b < LineMax" "line_rep b e"
      by blast
    have r: "line_run line_scanner_zero (b @ [c]) = line_step (line_state b e) c"
      using line_run_rep [OF e(2,1)] by (simp add: line_run_snoc line_state_def)
    from snoc.prems have d: "5 \<le> length b" "e = 10" "c = line_end ! 10" "ls_total (line_run line_scanner_zero (b @ [c])) = Suc (length b)"
      using e(2) unfolding r
      by (auto simp: line_step_def line_state_def line_rep_def Let_def split: if_splits)
    from d(1,2) e(2) obtain t where t: "list_all target_byte t" "b = line_prefix @ t @ take 10 line_end"
      by (auto simp: line_rep_def)
    have "take 10 line_end @ [line_end ! 10] = line_end"
      by (simp add: line_end_def)
    with t d(3) have "line_shape (b @ [c])"
      by (auto simp: line_shape_def)
    then show ?thesis
      using d(4) e(1) by simp
  qed
qed

lemma line_run_done:
  assumes "line_shape l" "length l \<le> LineMax"
  shows "ls_scan (line_run line_scanner_zero (l @ r)) = LineDone \<and> ls_total (line_run line_scanner_zero (l @ r)) = length l"
proof -
  from assms(1) obtain t where t: "list_all target_byte t" "l = line_prefix @ t @ line_end"
    by (auto simp: line_shape_def)
  define b where "b = line_prefix @ t @ take 10 line_end"
  have l: "l = b @ [line_end ! 10]"
    by (simp add: b_def t(2) line_end_def)
  have "line_rep b 10" "length b < LineMax" "5 \<le> length b"
    using t(1) assms(2) l by (auto simp: b_def line_rep_def)
  then have "ls_scan (line_run line_scanner_zero l) = LineDone" "ls_total (line_run line_scanner_zero l) = length l"
    using line_run_rep [of b 10] by (simp_all add: l line_run_snoc line_state_def line_step_def)
  then show ?thesis
    by (simp add: line_run_append line_run_final)
qed

lemma line_rep_prefix:
  "(\<exists>e. line_rep b e) \<longleftrightarrow> (\<exists>l. line_shape l \<and> strict_prefix b l)"
proof
  assume "\<exists>e. line_rep b e"
  then obtain e where e: "line_rep b e" ..
  have l11: "take e line_end \<noteq> line_end" if "e < 11" for e
    using that arg_cong [of "take e line_end" line_end length] by auto
  show "\<exists>l. line_shape l \<and> strict_prefix b l"
  proof (cases "length b < 5")
    case True
    with e have "b = take (length b) line_prefix"
      by (simp add: line_rep_def)
    then have "prefix b line_prefix"
      by (metis take_is_prefix)
    moreover have "b \<noteq> line_prefix @ line_end"
      using True by auto
    ultimately have "strict_prefix b (line_prefix @ line_end)"
      by (simp add: strict_prefix_def)
    moreover have "line_shape (line_prefix @ line_end)"
      unfolding line_shape_def by (intro exI [of _ "[]"]) simp
    ultimately show ?thesis by blast
  next
    case False
    with e obtain t where t: "list_all target_byte t" "b = line_prefix @ t @ take e line_end" "e < 11"
      by (auto simp: line_rep_def)
    then have "strict_prefix b (line_prefix @ t @ line_end)"
      using l11 by (auto simp: strict_prefix_def take_is_prefix)
    then show ?thesis
      using t(1) by (auto simp: line_shape_def)
  qed
next
  assume "\<exists>l. line_shape l \<and> strict_prefix b l"
  then obtain t where t: "list_all target_byte t" "strict_prefix b (line_prefix @ t @ line_end)"
    by (auto simp: line_shape_def)
  from t(2) obtain zs where zs: "line_prefix @ t @ line_end = b @ zs" "zs \<noteq> []"
    by (auto simp: strict_prefix_def prefix_def)
  define k where "k = length b"
  have k: "b = take k (line_prefix @ t @ line_end)" "k < 16 + length t"
  proof -
    have "16 + length t = length b + length zs"
      using arg_cong [OF zs(1), of length] by simp
    moreover have "0 < length zs"
      using zs(2) by simp
    ultimately show "k < 16 + length t"
      unfolding k_def by linarith
  qed (simp add: zs(1) k_def)
  show "\<exists>e. line_rep b e"
  proof (cases "k < 5 + length t")
    case True
    then have "line_rep b 0"
      using k(1) t(1) by (auto simp: line_rep_def list_all_iff dest: in_set_takeD intro!: exI [of _ "take (k - 5) t"])
    then show ?thesis ..
  next
    case False
    with k t(1) have "line_rep b (k - 5 - length t)"
      by (auto simp: line_rep_def)
    then show ?thesis ..
  qed
qed

text \<open>A scanner is an incremental reader that completes nothing but its status.\<close>

definition line_reader :: "line_scanner \<Rightarrow> string \<Rightarrow> unit list \<times> line_scan \<times> line_scanner" where
  "line_reader s b = ([], line_feed s b)"

interpretation line: incremental_reader line_reader "\<lambda>s. s"
  by unfold_locales (auto simp: line_reader_def line_feed_def line_run_append Let_def)

lemma line_reader_pieces:
  "fst (snd (feed_all line_reader s ps)) = ls_scan (line_run s (concat ps))"
proof -
  obtain e r t where f: "feed_all line_reader s ps = (e, r, t)"
    by (metis prod_cases3)
  from line.feed_all_concat [OF f] show ?thesis
    by (auto simp: f line_reader_def line_feed_def Let_def)
qed

text \<open>
  C39. However the bytes of a connection are cut into reads, the scanner says LineDone exactly
  when they begin with a line GET, a target of RFC 3986 characters that starts with a slash,
  and HTTP/1.1, of at most LineMax bytes; it says LineMore exactly while they are fewer than
  LineMax and a proper beginning of a line of that form, of whatever length; and anything else is
  a stranger.
\<close>

theorem line_scan_exact:
  "(fst (snd (feed_all line_reader line_scanner_zero ps)) = LineDone \<longleftrightarrow>
      (\<exists>l r. concat ps = l @ r \<and> line_shape l \<and> length l \<le> LineMax))
   \<and> (fst (snd (feed_all line_reader line_scanner_zero ps)) = LineMore \<longleftrightarrow>
      length (concat ps) < LineMax \<and> (\<exists>l. line_shape l \<and> strict_prefix (concat ps) l))"
proof (intro conjI iffI)
  assume "fst (snd (feed_all line_reader line_scanner_zero ps)) = LineDone"
  then have "ls_scan (line_run line_scanner_zero (concat ps)) = LineDone"
    by (simp add: line_reader_pieces)
  from line_run_doneD [OF this] show "\<exists>l r. concat ps = l @ r \<and> line_shape l \<and> length l \<le> LineMax"
    by (metis append_take_drop_id length_take min.absorb2)
next
  assume "\<exists>l r. concat ps = l @ r \<and> line_shape l \<and> length l \<le> LineMax"
  then show "fst (snd (feed_all line_reader line_scanner_zero ps)) = LineDone"
    using line_run_done by (auto simp: line_reader_pieces)
next
  assume "fst (snd (feed_all line_reader line_scanner_zero ps)) = LineMore"
  then have "ls_scan (line_run line_scanner_zero (concat ps)) = LineMore"
    by (simp add: line_reader_pieces)
  from line_run_moreD [OF this]
  show "length (concat ps) < LineMax" "\<exists>l. line_shape l \<and> strict_prefix (concat ps) l"
    using line_rep_prefix by blast+
next
  assume "length (concat ps) < LineMax \<and> (\<exists>l. line_shape l \<and> strict_prefix (concat ps) l)"
  then obtain e where "line_rep (concat ps) e" "length (concat ps) < LineMax"
    using line_rep_prefix by blast
  then show "fst (snd (feed_all line_reader line_scanner_zero ps)) = LineMore"
    using line_run_rep by (simp add: line_reader_pieces line_state_def)
qed

text \<open>
  ParseLine reads exactly the lines of that shape within LineMax, whole: the path is the
  target up to its first question mark and the query what follows it.
\<close>

lemma parse_line_exact:
  "parse_line line = Some l \<longleftrightarrow> length line \<le> LineMax \<and> (\<exists>t. list_all target_byte t
     \<and> line = line_prefix @ t @ line_end \<and> rl_path l = CHR ''/'' # takeWhile (\<lambda>c. c \<noteq> CHR ''?'') t
     \<and> rl_query l = drop 1 (dropWhile (\<lambda>c. c \<noteq> CHR ''?'') t))"
proof
  assume "parse_line line = Some l"
  then have r: "ls_scan (line_run line_scanner_zero line) = LineDone" "ls_total (line_run line_scanner_zero line) = length line"
    and l: "l = (let target = take (length line - length line_end - length ''GET '') (drop (length ''GET '') line)
        in \<lparr>rl_path = takeWhile (\<lambda>c. c \<noteq> CHR ''?'') target, rl_query = drop 1 (dropWhile (\<lambda>c. c \<noteq> CHR ''?'') target)\<rparr>)"
    by (auto simp: parse_line_def line_feed_def Let_def split: if_splits)
  from line_run_doneD [OF r(1)] r(2) obtain t where t: "length line \<le> LineMax" "list_all target_byte t"
      "line = line_prefix @ t @ line_end"
    by (auto simp: line_shape_def)
  then have "take (length line - length line_end - length ''GET '') (drop (length ''GET '') line) = CHR ''/'' # t"
    by (simp add: line_prefix_def)
  with l t show "length line \<le> LineMax \<and> (\<exists>t. list_all target_byte t
     \<and> line = line_prefix @ t @ line_end \<and> rl_path l = CHR ''/'' # takeWhile (\<lambda>c. c \<noteq> CHR ''?'') t
     \<and> rl_query l = drop 1 (dropWhile (\<lambda>c. c \<noteq> CHR ''?'') t))"
    by (auto simp: Let_def)
next
  assume "length line \<le> LineMax \<and> (\<exists>t. list_all target_byte t
     \<and> line = line_prefix @ t @ line_end \<and> rl_path l = CHR ''/'' # takeWhile (\<lambda>c. c \<noteq> CHR ''?'') t
     \<and> rl_query l = drop 1 (dropWhile (\<lambda>c. c \<noteq> CHR ''?'') t))"
  then obtain t where t: "length line \<le> LineMax" "list_all target_byte t" "line = line_prefix @ t @ line_end"
     "rl_path l = CHR ''/'' # takeWhile (\<lambda>c. c \<noteq> CHR ''?'') t"
     "rl_query l = drop 1 (dropWhile (\<lambda>c. c \<noteq> CHR ''?'') t)"
    by blast
  then have "line_shape line" by (auto simp: line_shape_def)
  from line_run_done [OF this t(1), of "[]"]
  have "ls_scan (line_run line_scanner_zero line) = LineDone" "ls_total (line_run line_scanner_zero line) = length line"
    by simp_all
  moreover have "take (length line - length line_end - length ''GET '') (drop (length ''GET '') line) = CHR ''/'' # t"
    using t(3) by (simp add: line_prefix_def)
  ultimately show "parse_line line = Some l"
    using t(4,5) by (cases l) (simp add: parse_line_def line_feed_def Let_def)
qed

section \<open>The cookie of bare\<close>

abbreviation (input) CookieMax :: nat where "CookieMax \<equiv> 32"

text \<open>
  Ranging over a Go string gives runes; a byte outside ASCII gives a rune that neither test
  lets through, so the tests are per byte here.
\<close>

definition not_token_char :: "char \<Rightarrow> bool" where
  "not_token_char c \<longleftrightarrow> \<not> (is_alnum c \<or> c = CHR ''-'' \<or> c = CHR ''_'')"

definition cookie_name :: "string \<Rightarrow> bool" where
  "cookie_name name \<longleftrightarrow> name \<noteq> '''' \<and> length name \<le> CookieMax \<and> \<not> list_ex not_token_char name"

definition http_token :: "string \<Rightarrow> bool" where
  "http_token s \<longleftrightarrow> s \<noteq> '''' \<and> list_all (\<lambda>c. is_alnum c \<or> c \<in> set ''!#$%&*+-.^_|~'' \<or> c = char_of (39 :: nat) \<or> c = char_of (96 :: nat)) s"

text \<open>strings.Split with the separator semicolon, space; strings.Cut at the first equals sign.\<close>

fun split_semi :: "string \<Rightarrow> string list" where
  "split_semi (a # b # s) =
     (if a = CHR '';'' \<and> b = CHR '' '' then [] # split_semi s
      else (case split_semi (b # s) of [] \<Rightarrow> [[a]] | p # ps \<Rightarrow> (a # p) # ps))"
| "split_semi s = [s]"

definition cut_eq :: "string \<Rightarrow> string \<times> string \<times> bool" where
  "cut_eq s = (takeWhile (\<lambda>c. c \<noteq> CHR ''='') s, drop 1 (dropWhile (\<lambda>c. c \<noteq> CHR ''='') s), CHR ''='' \<in> set s)"

text \<open>The loop over the pairs: \<open>None\<close> is the early return, else the value once it was seen.\<close>

fun cookie_pairs :: "string \<Rightarrow> string option \<Rightarrow> string list \<Rightarrow> string option option" where
  "cookie_pairs name seen [] = Some seen"
| "cookie_pairs name seen (pair # ps) =
     (let (k, v, ok) = cut_eq pair in
      if \<not> ok \<or> \<not> http_token k then None
      else if k = name then (if seen \<noteq> None then None else cookie_pairs name (Some v) ps)
      else cookie_pairs name seen ps)"

definition cookie_token :: "string list \<Rightarrow> string \<Rightarrow> string option" where
  "cookie_token fs name =
     (if length fs \<noteq> 1 then None
      else case cookie_pairs name None (split_semi (fs ! 0)) of
          Some (Some value) \<Rightarrow> if value = '''' \<or> list_ex not_token_char value then None else Some value
        | _ \<Rightarrow> None)"

text \<open>The one reading of a field: pairs joined by the separator, which no value holds.\<close>

fun join_semi :: "string list \<Rightarrow> string" where
  "join_semi [] = []"
| "join_semi [p] = p"
| "join_semi (p # q # ps) = p @ ''; '' @ join_semi (q # ps)"

fun no_semi :: "string \<Rightarrow> bool" where
  "no_semi (a # b # s) = (\<not> (a = CHR '';'' \<and> b = CHR '' '') \<and> no_semi (b # s))"
| "no_semi s = True"

lemma split_semi_ne [simp]: "split_semi s \<noteq> []"
  by (induction s rule: split_semi.induct) (auto split: list.splits)

lemma join_split: "join_semi (split_semi s) = s"
proof (induction s rule: split_semi.induct)
  case (1 a b s)
  show ?case
  proof (cases "a = CHR '';'' \<and> b = CHR '' ''")
    case True
    with 1 show ?thesis by (cases "split_semi s") auto
  next
    case False
    with 1 obtain p ps where "split_semi (b # s) = p # ps" "join_semi (p # ps) = b # s"
      by (cases "split_semi (b # s)") auto
    with False show ?thesis by (cases ps) auto
  qed
qed auto

lemma split_semi_hd: "split_semi (b # s) = p # ps \<Longrightarrow> p = [] \<or> hd p = b"
  by (cases s) (auto split: list.splits if_splits)

lemma no_semi_Cons: "no_semi (a # p) \<longleftrightarrow> no_semi p \<and> \<not> (a = CHR '';'' \<and> p \<noteq> [] \<and> hd p = CHR '' '')"
  by (cases p) auto

lemma split_no_semi: "list_all no_semi (split_semi s)"
proof (induction s rule: split_semi.induct)
  case (1 a b s)
  show ?case
  proof (cases "a = CHR '';'' \<and> b = CHR '' ''")
    case True
    with 1 show ?thesis by simp
  next
    case False
    obtain p ps where p: "split_semi (b # s) = p # ps"
      by (cases "split_semi (b # s)") auto
    with 1(2) [OF False] have "list_all no_semi (p # ps)"
      by simp
    with split_semi_hd [OF p] False show ?thesis
      by (auto simp: p no_semi_Cons)
  qed
qed auto

lemma split_piece: "no_semi p \<Longrightarrow> split_semi (p @ ''; '' @ s) = p # split_semi s"
proof (induction p)
  case (Cons a p)
  then have "split_semi (p @ ''; '' @ s) = p # split_semi s"
    by (simp add: no_semi_Cons)
  with Cons.prems show ?case
    by (cases p) auto
qed simp

lemma split_last: "no_semi p \<Longrightarrow> split_semi p = [p]"
  by (induction p rule: no_semi.induct) auto

lemma split_join: "ps \<noteq> [] \<Longrightarrow> list_all no_semi ps \<Longrightarrow> split_semi (join_semi ps) = ps"
  by (induction ps rule: join_semi.induct) (use split_piece split_last in auto)

lemma cut_eq_join: "CHR ''='' \<notin> set k \<Longrightarrow> cut_eq (k @ ''='' @ v) = (k, v, True)"
proof -
  assume "CHR ''='' \<notin> set k"
  then have "takeWhile (\<lambda>c. c \<noteq> CHR ''='') (k @ CHR ''='' # v) = k"
      "dropWhile (\<lambda>c. c \<noteq> CHR ''='') (k @ CHR ''='' # v) = CHR ''='' # v"
    by (auto simp: takeWhile_append dropWhile_append)
  then show ?thesis
    by (simp add: cut_eq_def)
qed

lemma cut_eqD: "cut_eq p = (k, v, True) \<Longrightarrow> p = k @ ''='' @ v \<and> CHR ''='' \<notin> set k"
proof -
  assume a: "cut_eq p = (k, v, True)"
  then have m: "CHR ''='' \<in> set p"
    and k: "k = takeWhile (\<lambda>c. c \<noteq> CHR ''='') p" and v: "v = drop 1 (dropWhile (\<lambda>c. c \<noteq> CHR ''='') p)"
    by (auto simp: cut_eq_def)
  have "dropWhile (\<lambda>c. c \<noteq> CHR ''='') p = CHR ''='' # v"
    using m unfolding v by (induction p) auto
  then show ?thesis
    using takeWhile_dropWhile_id [of "\<lambda>c. c \<noteq> CHR ''=''" p] k by (auto dest: set_takeWhileD)
qed

lemma http_token_plain: "http_token k \<Longrightarrow> CHR ''='' \<notin> set k \<and> CHR '';'' \<notin> set k"
proof -
  have "\<not> http_token [CHR ''='']" "\<not> http_token [CHR '';'']"
    by code_simp+
  then show "http_token k \<Longrightarrow> ?thesis"
    by (auto simp: http_token_def list_all_iff)
qed

definition pair_text :: "string \<times> string \<Rightarrow> string" where
  "pair_text kv = fst kv @ ''='' @ snd kv"

lemma no_semi_pair: "http_token k \<Longrightarrow> no_semi (k @ ''='' @ v) \<longleftrightarrow> no_semi v"
proof -
  assume "http_token k"
  then have "CHR '';'' \<notin> set k" using http_token_plain by blast
  then have "no_semi (k @ s) \<longleftrightarrow> no_semi s" for s
    by (induction k) (auto simp: no_semi_Cons)
  then show ?thesis
    by (simp add: no_semi_Cons)
qed

lemma cookie_pairs_Some:
  "cookie_pairs name seen ps = Some r \<longleftrightarrow>
     (\<exists>kvs. ps = map pair_text kvs \<and> list_all (\<lambda>kv. http_token (fst kv)) kvs
       \<and> (filter (\<lambda>kv. fst kv = name) kvs = [] \<and> r = seen
          \<or> seen = None \<and> (\<exists>w. filter (\<lambda>kv. fst kv = name) kvs = [(name, w)] \<and> r = Some w)))"
proof (induction name seen ps rule: cookie_pairs.induct)
  case (1 name seen)
  show ?case by auto
next
  case (2 name seen pair ps)
  obtain k v ok where c: "cut_eq pair = (k, v, ok)"
    by (metis prod_cases3)
  have pt: "cut_eq (pair_text kv) = (fst kv, snd kv, True)" if "http_token (fst kv)" for kv
    using cut_eq_join [of "fst kv"] http_token_plain [OF that] by (simp add: pair_text_def)
  show ?case
  proof (cases "ok \<and> http_token k")
    case False
    then have "\<not> (pair = pair_text kv \<and> http_token (fst kv))" for kv
      using c pt [of kv] by auto
    with False c show ?thesis
      by (auto simp: Cons_eq_map_conv)
  next
    case True
    have kv: "pair = pair_text kv \<and> http_token (fst kv) \<longleftrightarrow> kv = (k, v)" for kv
    proof
      assume "pair = pair_text kv \<and> http_token (fst kv)"
      with c pt [of kv] have "(fst kv, snd kv, True) = (k, v, ok)" by metis
      then show "kv = (k, v)" by (cases kv) simp
    next
      assume "kv = (k, v)"
      with True cut_eqD [of pair k v] c show "pair = pair_text kv \<and> http_token (fst kv)"
        by (simp add: pair_text_def)
    qed
    have rhs: "(\<exists>kvs. pair # ps = map pair_text kvs \<and> list_all (\<lambda>kv. http_token (fst kv)) kvs \<and> P kvs)
        \<longleftrightarrow> (\<exists>kvs. ps = map pair_text kvs \<and> list_all (\<lambda>kv. http_token (fst kv)) kvs \<and> P ((k, v) # kvs))" for P
    proof
      assume "\<exists>kvs. pair # ps = map pair_text kvs \<and> list_all (\<lambda>kv. http_token (fst kv)) kvs \<and> P kvs"
      then obtain kv kvs where h: "pair = pair_text kv" "ps = map pair_text kvs" "http_token (fst kv)"
          "list_all (\<lambda>kv. http_token (fst kv)) kvs" "P (kv # kvs)"
        by (auto simp: Cons_eq_map_conv)
      then have "kv = (k, v)" using kv [of kv] by blast
      with h(2,4,5) show "\<exists>kvs. ps = map pair_text kvs \<and> list_all (\<lambda>kv. http_token (fst kv)) kvs \<and> P ((k, v) # kvs)"
        by blast
    next
      assume "\<exists>kvs. ps = map pair_text kvs \<and> list_all (\<lambda>kv. http_token (fst kv)) kvs \<and> P ((k, v) # kvs)"
      then obtain kvs where h: "ps = map pair_text kvs" "list_all (\<lambda>kv. http_token (fst kv)) kvs" "P ((k, v) # kvs)"
        by blast
      have "pair = pair_text (k, v)" "http_token k"
        using kv [of "(k, v)"] by simp_all
      with h show "\<exists>kvs. pair # ps = map pair_text kvs \<and> list_all (\<lambda>kv. http_token (fst kv)) kvs \<and> P kvs"
        by (intro exI [of _ "(k, v) # kvs"]) simp
    qed
    consider "k \<noteq> name" | "k = name" "seen \<noteq> None" | "k = name" "seen = None"
      by blast
    then show ?thesis
    proof cases
      case 1
      with 2(2) [OF c [symmetric] refl] True c show ?thesis
        unfolding rhs by simp
    next
      case 2
      with True c show ?thesis
        unfolding rhs by auto
    next
      case 3
      with 2(1) [OF c [symmetric] refl] True c show ?thesis
        unfolding rhs by auto
    qed
  qed
qed

text \<open>
  C40. The cookie of a bare request has one reading: a token is taken exactly when there is one
  Cookie field, it is name=value pairs joined by semicolon and space, every name is an HTTP
  token, the transport's name is among them once, and its value is one or more base64url
  characters, which is the token.
\<close>

theorem cookie_token_exact:
  "cookie_token fs name = Some v \<longleftrightarrow>
     (\<exists>kvs. kvs \<noteq> [] \<and> fs = [join_semi (map pair_text kvs)]
       \<and> list_all (\<lambda>kv. http_token (fst kv) \<and> no_semi (snd kv)) kvs
       \<and> filter (\<lambda>kv. fst kv = name) kvs = [(name, v)]
       \<and> v \<noteq> '''' \<and> \<not> list_ex not_token_char v)"
proof
  assume "cookie_token fs name = Some v"
  then have f: "length fs = 1" "cookie_pairs name None (split_semi (fs ! 0)) = Some (Some v)"
      "v \<noteq> ''''" "\<not> list_ex not_token_char v"
    by (auto simp: cookie_token_def split: if_splits option.splits)
  from f(2) obtain kvs where k: "split_semi (fs ! 0) = map pair_text kvs"
      "list_all (\<lambda>kv. http_token (fst kv)) kvs" "filter (\<lambda>kv. fst kv = name) kvs = [(name, v)]"
    by (auto simp: cookie_pairs_Some)
  have "fs = [fs ! 0]"
    using f(1) by (cases fs) auto
  then have "fs = [join_semi (map pair_text kvs)]"
    using join_split [of "fs ! 0"] k(1) by simp
  moreover have "list_all (\<lambda>kv. http_token (fst kv) \<and> no_semi (snd kv)) kvs"
    using k(1,2) split_no_semi [of "fs ! 0"] no_semi_pair by (auto simp: list_all_iff pair_text_def)
  moreover have "kvs \<noteq> []"
    using k(3) by auto
  ultimately show "\<exists>kvs. kvs \<noteq> [] \<and> fs = [join_semi (map pair_text kvs)]
       \<and> list_all (\<lambda>kv. http_token (fst kv) \<and> no_semi (snd kv)) kvs
       \<and> filter (\<lambda>kv. fst kv = name) kvs = [(name, v)]
       \<and> v \<noteq> '''' \<and> \<not> list_ex not_token_char v"
    using k(3) f(3,4) by blast
next
  assume "\<exists>kvs. kvs \<noteq> [] \<and> fs = [join_semi (map pair_text kvs)]
       \<and> list_all (\<lambda>kv. http_token (fst kv) \<and> no_semi (snd kv)) kvs
       \<and> filter (\<lambda>kv. fst kv = name) kvs = [(name, v)]
       \<and> v \<noteq> '''' \<and> \<not> list_ex not_token_char v"
  then obtain kvs where k: "kvs \<noteq> []" "fs = [join_semi (map pair_text kvs)]"
       "list_all (\<lambda>kv. http_token (fst kv) \<and> no_semi (snd kv)) kvs"
       "filter (\<lambda>kv. fst kv = name) kvs = [(name, v)]" "v \<noteq> ''''" "\<not> list_ex not_token_char v"
    by blast
  have "list_all no_semi (map pair_text kvs)"
    using k(3) no_semi_pair by (auto simp: list_all_iff pair_text_def)
  then have "split_semi (fs ! 0) = map pair_text kvs"
    using split_join [of "map pair_text kvs"] k(1,2) by simp
  moreover have "list_all (\<lambda>kv. http_token (fst kv)) kvs"
    using k(3) by (auto simp: list_all_iff)
  ultimately have "cookie_pairs name None (split_semi (fs ! 0)) = Some (Some v)"
    using k(4) by (auto simp: cookie_pairs_Some)
  then show "cookie_token fs name = Some v"
    using k(2,5,6) by (simp add: cookie_token_def)
qed

end
