(* ===== verification/Sse.thy ===== *)
theory Sse imports Poll Incremental begin

text \<open>
  The mold stream of internal/stealth/sse.go: the text the gateway writes (events, heartbeats,
  transfer-coding chunks) and the incremental reader of the transfer coding, its lines and its
  events. base64.StdEncoding.Strict() of the standard library is modelled; the bytes of the
  text are characters.
\<close>

section \<open>Standard base64 with padding\<close>

definition std_alphabet :: string where
  "std_alphabet = ''ABCDEFGHIJKLMNOPQRSTUVWXYZabcdefghijklmnopqrstuvwxyz0123456789+/''"

definition std_char :: "nat \<Rightarrow> char" where
  "std_char v = std_alphabet ! v"

definition std_val :: "char \<Rightarrow> nat option" where
  "std_val c = (if c \<in> set std_alphabet
     then Some (length (takeWhile (\<lambda>d. d \<noteq> c) std_alphabet)) else None)"

fun std_encode :: "bytes \<Rightarrow> string" where
  "std_encode (x # y # z # bs) =
     std_char (unat x div 4) # std_char (unat x mod 4 * 16 + unat y div 16)
     # std_char (unat y mod 16 * 4 + unat z div 64) # std_char (unat z mod 64) # std_encode bs"
| "std_encode [x, y] =
     [std_char (unat x div 4), std_char (unat x mod 4 * 16 + unat y div 16), std_char (unat y mod 16 * 4), CHR ''='']"
| "std_encode [x] = [std_char (unat x div 4), std_char (unat x mod 4 * 16), CHR ''='', CHR ''='']"
| "std_encode [] = []"

text \<open>
  The strict decoder, a quantum of four characters at a time. Padding ends the text; unused
  bits must be zero. Like the library's, it skips line ends wherever they stand.
\<close>

fun std_quanta :: "string \<Rightarrow> bytes option" where
  "std_quanta [] = Some []"
| "std_quanta (a # b # c # d # cs) =
     (case (std_val a, std_val b) of
        (Some va, Some vb) \<Rightarrow>
          if d = CHR ''='' then
            (if cs \<noteq> [] then None
             else if c = CHR ''='' then
               (if vb mod 16 \<noteq> 0 then None else Some [of_nat (va * 4 + vb div 16)])
             else case std_val c of
                 None \<Rightarrow> None
               | Some vc \<Rightarrow> if vc mod 4 \<noteq> 0 then None
                   else Some [of_nat (va * 4 + vb div 16), of_nat (vb mod 16 * 16 + vc div 4)])
          else (case (std_val c, std_val d) of
              (Some vc, Some vd) \<Rightarrow>
                map_option ((@) [of_nat (va * 4 + vb div 16), of_nat (vb mod 16 * 16 + vc div 4),
                  of_nat (vc mod 4 * 64 + vd)]) (std_quanta cs)
            | _ \<Rightarrow> None)
      | _ \<Rightarrow> None)"
| "std_quanta _ = None"

abbreviation (input) CR :: char where "CR \<equiv> CHR 0x0D"
abbreviation (input) LF :: char where "LF \<equiv> CHR 0x0A"

definition std_decode :: "string \<Rightarrow> bytes option" where
  "std_decode s = std_quanta (filter (\<lambda>c. c \<noteq> LF \<and> c \<noteq> CR) s)"

section \<open>What the gateway writes\<close>

definition sse_event :: "bytes \<Rightarrow> string" where
  "sse_event sealed = ''data: '' @ std_encode sealed @ [LF, LF]"

definition beat_chars :: string where
  "beat_chars = ''abcdefghijklmnopqrstuvwxyz0123456789''"

text \<open>A heartbeat: the length is drawn, then a character for each place.\<close>

definition sse_beat :: "rand_draw \<Rightarrow> (nat \<Rightarrow> rand_draw) \<Rightarrow> string" where
  "sse_beat rnd rnds =
     (let n = uniform rnd 8 40
      in '': '' @ map (\<lambda>i. beat_chars ! nat (uniform (rnds i) 0 (int (length beat_chars) - 1))) [0..<nat n] @ [LF, LF])"

text \<open>strconv.FormatInt(n, 16) of a length.\<close>

definition hex_char :: "nat \<Rightarrow> char" where
  "hex_char d = ''0123456789abcdef'' ! d"

fun hex :: "nat \<Rightarrow> string" where
  "hex n = (if n < 16 then [hex_char n] else hex (n div 16) @ [hex_char (n mod 16)])"

declare hex.simps [simp del]

definition sse_chunked :: "string \<Rightarrow> string \<Rightarrow> string" where
  "sse_chunked out data = out @ hex (length data) @ [CR, LF] @ data @ [CR, LF]"

definition sse_end :: string where
  "sse_end = ''0'' @ [CR, LF, CR, LF]"

section \<open>The reader\<close>

datatype sse_fault = FaultChunked | FaultLine | FaultEvent | FaultCount

datatype coding = CSize | CSizeEnd | CData | CDataEnd | CLast | CDone

record sse_reader =
  sr_coding :: coding
  sr_size :: nat
  sr_digits :: nat
  sr_cr :: bool
  sr_left :: nat
  sr_line :: string
  sr_pending :: bytes
  sr_have :: bool
  sr_beating :: bool
  sr_events :: nat
  sr_failed :: "sse_fault option"

definition new_sse_reader :: sse_reader where
  "new_sse_reader = \<lparr>sr_coding = CSize, sr_size = 0, sr_digits = 0, sr_cr = False, sr_left = 0, sr_line = [],
     sr_pending = [], sr_have = False, sr_beating = False, sr_events = 0, sr_failed = None\<rparr>"

abbreviation (input) SseEvents :: nat where "SseEvents \<equiv> 4095"
abbreviation (input) sseEventMin :: nat where "sseEventMin \<equiv> 24"
abbreviation (input) sseEventMax :: nat where "sseEventMax \<equiv> 21356"
abbreviation (input) sseLineMax :: nat where "sseLineMax \<equiv> 21362"
abbreviation (input) sseSizeDigits :: nat where "sseSizeDigits \<equiv> 16"
abbreviation (input) sseChunkMax :: nat where "sseChunkMax \<equiv> 65536"

definition is_hex :: "char \<Rightarrow> bool" where
  "is_hex c \<longleftrightarrow> (let n = of_char c :: nat in 48 \<le> n \<and> n \<le> 57 \<or> 97 \<le> n \<and> n \<le> 102 \<or> 65 \<le> n \<and> n \<le> 70)"

definition hex_val :: "char \<Rightarrow> nat" where
  "hex_val c = (let n = of_char c :: nat in
     if 48 \<le> n \<and> n \<le> 57 then n - 48 else if 97 \<le> n \<and> n \<le> 102 then n - 97 + 10 else n - 65 + 10)"

definition sse_sealed :: "string \<Rightarrow> sse_fault + bytes" where
  "sse_sealed text =
     (if length text < sseEventMin \<or> length text > sseEventMax \<or> length text mod 4 \<noteq> 0 then Inl FaultEvent
      else case std_decode text of
          None \<Rightarrow> Inl FaultEvent
        | Some raw \<Rightarrow> if length raw < Overhead \<or> length raw > MaxSealed then Inl FaultEvent else Inr raw)"

text \<open>complete: one whole line; the event it completed, if any, and the reader after it.\<close>

definition sse_complete :: "sse_reader \<Rightarrow> string \<Rightarrow> bytes list \<times> sse_fault option \<times> sse_reader" where
  "sse_complete r line =
     (if line = [] \<and> sr_have r then
        (if sr_events r \<ge> SseEvents then ([], Some FaultCount, r)
         else ([sr_pending r], None, r\<lparr>sr_events := sr_events r + 1, sr_pending := [], sr_have := False\<rparr>))
      else if line = [] \<and> sr_beating r then ([], None, r\<lparr>sr_beating := False\<rparr>)
      else if line = [] then ([], Some FaultEvent, r)
      else if sr_have r \<or> sr_beating r then ([], Some FaultEvent, r)
      else if length line \<ge> 6 \<and> take 6 line = ''data: '' then
        (case sse_sealed (drop 6 line) of
           Inl e \<Rightarrow> ([], Some e, r)
         | Inr sealed \<Rightarrow> ([], None, r\<lparr>sr_pending := sealed, sr_have := True\<rparr>))
      else if line ! 0 = CHR '':'' then ([], None, r\<lparr>sr_beating := True\<rparr>)
      else ([], Some FaultEvent, r))"

text \<open>lines: the data of a transfer-coding chunk.\<close>

definition chomp_cr :: "string \<Rightarrow> string" where
  "chomp_cr line = (if line \<noteq> [] \<and> last line = CR then butlast line else line)"

fun sse_lines :: "sse_reader \<Rightarrow> string \<Rightarrow> bytes list \<times> sse_fault option \<times> sse_reader" where
  "sse_lines r [] = ([], None, r)"
| "sse_lines r (c # data) =
     (if c = LF then
        (case sse_complete r (chomp_cr (sr_line r)) of
           (ev, Some e, r') \<Rightarrow> (ev, Some e, r')
         | (ev, None, r') \<Rightarrow> (case sse_lines (r'\<lparr>sr_line := []\<rparr>) data of (evs, err, r'') \<Rightarrow> (ev @ evs, err, r'')))
      else if length (sr_line r) > sseLineMax \<or> length (sr_line r) = sseLineMax \<and> c \<noteq> CR
      then ([], Some FaultLine, r)
      else sse_lines (r\<lparr>sr_line := sr_line r @ [c]\<rparr>) data)"

text \<open>step: one byte of the transfer coding outside the data of a chunk.\<close>

definition sse_step :: "sse_reader \<Rightarrow> char \<Rightarrow> sse_fault option \<times> sse_reader" where
  "sse_step r c =
     (case sr_coding r of
        CSize \<Rightarrow>
          if is_hex c \<and> sr_digits r < sseSizeDigits then
            (let v = sr_size r * 16 + hex_val c in
             if v > sseChunkMax then (Some FaultChunked, r)
             else (None, r\<lparr>sr_size := v, sr_digits := sr_digits r + 1\<rparr>))
          else if c = CR \<and> sr_digits r > 0 then (None, r\<lparr>sr_coding := CSizeEnd\<rparr>)
          else (Some FaultChunked, r)
      | CSizeEnd \<Rightarrow>
          if c \<noteq> LF then (Some FaultChunked, r)
          else if sr_size r = 0 then (None, r\<lparr>sr_coding := CLast, sr_cr := False\<rparr>)
          else (None, r\<lparr>sr_coding := CData, sr_left := sr_size r\<rparr>)
      | CDataEnd \<Rightarrow>
          if \<not> sr_cr r \<and> c = CR then (None, r\<lparr>sr_cr := True\<rparr>)
          else if sr_cr r \<and> c = LF then (None, r\<lparr>sr_coding := CSize, sr_size := 0, sr_digits := 0\<rparr>)
          else (Some FaultChunked, r)
      | CLast \<Rightarrow>
          if \<not> sr_cr r \<and> c = CR then (None, r\<lparr>sr_cr := True\<rparr>)
          else if sr_cr r \<and> c = LF then (None, r\<lparr>sr_coding := CDone\<rparr>)
          else (Some FaultChunked, r)
      | _ \<Rightarrow> (None, r))"

text \<open>
  read: the loop over the bytes. The result is the events, whether the stream is done, and the
  error. The turn that only leaves CData takes no byte, hence the measure.
\<close>

function sse_read :: "sse_reader \<Rightarrow> string \<Rightarrow> bytes list \<times> (bool \<times> sse_fault option) \<times> sse_reader" where
  "sse_read r b =
     (if sr_coding r = CDone then
        (if b \<noteq> [] then ([], (False, Some FaultChunked), r) else ([], (True, None), r))
      else if sr_coding r = CData then
        (if sr_left r = 0 then sse_read (r\<lparr>sr_coding := CDataEnd, sr_cr := False\<rparr>) b
         else let n = min (sr_left r) (length b) in
           if n = 0 then ([], (False, None), r)
           else case sse_lines r (take n b) of
               (evs, Some e, r') \<Rightarrow> (evs, (False, Some e), r')
             | (evs, None, r') \<Rightarrow>
                 (case sse_read (r'\<lparr>sr_left := sr_left r' - n\<rparr>) (drop n b) of (evs', st, r'') \<Rightarrow> (evs @ evs', st, r'')))
      else case b of
          [] \<Rightarrow> ([], (False, None), r)
        | c # b' \<Rightarrow>
            (case sse_step r c of
               (Some e, r') \<Rightarrow> ([], (False, Some e), r')
             | (None, r') \<Rightarrow> sse_read r' b'))"
  by pat_completeness auto
termination
  by (relation "measures [\<lambda>(r, b). length b, \<lambda>(r, b). if sr_coding r = CData then 1 else 0]") auto

declare sse_read.simps [simp del]

definition sse_feed :: "sse_reader \<Rightarrow> string \<Rightarrow> bytes list \<times> (bool \<times> sse_fault option) \<times> sse_reader" where
  "sse_feed r b =
     (case sr_failed r of
        Some e \<Rightarrow> ([], (False, Some e), r)
      | None \<Rightarrow>
          let (evs, (done, err), r') = sse_read r b
          in (evs, (done, err), case err of None \<Rightarrow> r' | Some e \<Rightarrow> r'\<lparr>sr_failed := Some e\<rparr>))"

section \<open>The cutting of the bytes does not matter\<close>

lemma sse_complete_keeps:
  "sse_complete r line = (ev, err, r') \<Longrightarrow>
     sr_coding r' = sr_coding r \<and> sr_left r' = sr_left r \<and> sr_failed r' = sr_failed r
     \<and> sr_size r' = sr_size r \<and> sr_digits r' = sr_digits r \<and> sr_line r' = sr_line r \<and> sr_cr r' = sr_cr r"
  by (auto simp: sse_complete_def split: if_splits sum.splits)

lemma sse_lines_keeps:
  "sse_lines r d = (ev, err, r') \<Longrightarrow>
     sr_coding r' = sr_coding r \<and> sr_left r' = sr_left r \<and> sr_failed r' = sr_failed r
     \<and> sr_size r' = sr_size r \<and> sr_digits r' = sr_digits r \<and> sr_cr r' = sr_cr r"
proof (induction d arbitrary: r ev err r')
  case (Cons c d)
  obtain ev1 err1 r1 where c: "sse_complete r (chomp_cr (sr_line r)) = (ev1, err1, r1)"
    by (metis prod_cases3)
  obtain ev2 err2 r2 where l: "sse_lines (r1\<lparr>sr_line := []\<rparr>) d = (ev2, err2, r2)"
    by (metis prod_cases3)
  show ?case
    using Cons.prems c l sse_complete_keeps [OF c] Cons.IH [OF l] Cons.IH [of "r\<lparr>sr_line := sr_line r @ [c]\<rparr>"]
    by (auto split: if_splits option.splits)
qed simp

lemma sse_complete_left:
  "sse_complete (r\<lparr>sr_left := k\<rparr>) line = (case sse_complete r line of (ev, err, r') \<Rightarrow> (ev, err, r'\<lparr>sr_left := k\<rparr>))"
  by (simp add: sse_complete_def split: sum.splits)

lemma left_line_swap: "r\<lparr>sr_left := k, sr_line := l\<rparr> = r\<lparr>sr_line := l, sr_left := k\<rparr>"
  by simp

lemma sse_lines_left:
  "sse_lines (r\<lparr>sr_left := k\<rparr>) d = (case sse_lines r d of (ev, err, r') \<Rightarrow> (ev, err, r'\<lparr>sr_left := k\<rparr>))"
proof (induction d arbitrary: r)
  case (Cons c d)
  obtain ev1 err1 r1 where c: "sse_complete r (chomp_cr (sr_line r)) = (ev1, err1, r1)"
    by (metis prod_cases3)
  show ?case
    by (cases err1) (simp_all add: c sse_complete_left left_line_swap Cons.IH case_prod_unfold)
qed simp

lemma sse_lines_append:
  "sse_lines r (a @ b) =
     (case sse_lines r a of
        (e, Some x, r') \<Rightarrow> (e, Some x, r')
      | (e, None, r') \<Rightarrow> (case sse_lines r' b of (e2, err, r2) \<Rightarrow> (e @ e2, err, r2)))"
proof (induction a arbitrary: r)
  case (Cons c d)
  obtain ev1 err1 r1 where c: "sse_complete r (chomp_cr (sr_line r)) = (ev1, err1, r1)"
    by (metis prod_cases3)
  show ?case
    by (cases err1) (auto simp: c Cons.IH split: prod.splits option.splits)
qed (simp add: case_prod_unfold)

text \<open>Two results the caller cannot tell apart, now or later: a failed reader is final.\<close>

fun same_result ::
    "bytes list \<times> (bool \<times> sse_fault option) \<times> sse_reader \<Rightarrow> bytes list \<times> (bool \<times> sse_fault option) \<times> sse_reader \<Rightarrow> bool" where
  "same_result (e, st, r) (e', st', r') \<longleftrightarrow> e = e' \<and> st = st' \<and> (snd st = None \<longrightarrow> r = r')"

lemma same_result_refl [simp]: "same_result x x"
  by (cases x) auto

lemma sse_read_done:
  "sr_coding r = CDone \<Longrightarrow> sse_read r b = (if b \<noteq> [] then ([], (False, Some FaultChunked), r) else ([], (True, None), r))"
  by (subst sse_read.simps) simp

lemma sse_read_data0:
  "sr_coding r = CData \<Longrightarrow> sr_left r = 0 \<Longrightarrow> sse_read r b = sse_read (r\<lparr>sr_coding := CDataEnd, sr_cr := False\<rparr>) b"
  by (subst sse_read.simps) simp

lemma sse_read_data_nil:
  "sr_coding r = CData \<Longrightarrow> sr_left r \<noteq> 0 \<Longrightarrow> sse_read r [] = ([], (False, None), r)"
  by (subst sse_read.simps) simp

lemma sse_read_data:
  "sr_coding r = CData \<Longrightarrow> sr_left r \<noteq> 0 \<Longrightarrow> b \<noteq> [] \<Longrightarrow> n = min (sr_left r) (length b) \<Longrightarrow>
   sse_read r b = (case sse_lines r (take n b) of
       (evs, Some e, r') \<Rightarrow> (evs, (False, Some e), r')
     | (evs, None, r') \<Rightarrow>
         (case sse_read (r'\<lparr>sr_left := sr_left r' - n\<rparr>) (drop n b) of (evs', st, r'') \<Rightarrow> (evs @ evs', st, r'')))"
proof -
  assume a: "sr_coding r = CData" "sr_left r \<noteq> 0" "b \<noteq> []" "n = min (sr_left r) (length b)"
  then have "n \<noteq> 0"
    by (auto simp: min_def)
  with a show ?thesis
    by (simp only: sse_read.simps [of r b] Let_def coding.simps if_False if_True simp_thms)
qed

lemma sse_read_step:
  "sr_coding r \<noteq> CDone \<Longrightarrow> sr_coding r \<noteq> CData \<Longrightarrow>
   sse_read r b = (case b of [] \<Rightarrow> ([], (False, None), r)
     | c # b' \<Rightarrow> (case sse_step r c of (Some e, r') \<Rightarrow> ([], (False, Some e), r') | (None, r') \<Rightarrow> sse_read r' b'))"
  by (subst sse_read.simps) simp

lemma sse_read_nil:
  "sse_read r [] = (e, (d, x), r') \<Longrightarrow> e = [] \<and> x = None \<and> sse_read r b = sse_read r' b"
proof -
  assume a: "sse_read r [] = (e, (d, x), r')"
  show ?thesis
  proof (cases "sr_coding r = CData \<and> sr_left r = 0")
    case True
    with a have "([], (False, None), r\<lparr>sr_coding := CDataEnd, sr_cr := False\<rparr>) = (e, (d, x), r')"
      by (simp add: sse_read_data0 sse_read_step)
    with True show ?thesis by (auto simp: sse_read_data0)
  next
    case False
    with a show ?thesis
      by (cases "sr_coding r") (auto simp: sse_read_done sse_read_data_nil sse_read_step)
  qed
qed

lemma sse_read_data_append:
  assumes IH: "\<And>r e d x r1. sse_read r (drop n xs) = (e, (d, x), r1) \<Longrightarrow>
      same_result (sse_read r (drop n xs @ ys)) (case x of Some x \<Rightarrow> (e, (d, Some x), r1)
        | None \<Rightarrow> (case sse_read r1 ys of (e2, st, r2) \<Rightarrow> (e @ e2, st, r2)))"
    and r: "sr_coding r = CData" "sr_left r \<noteq> 0" "xs \<noteq> []" "n = min (sr_left r) (length xs)"
    and read: "sse_read r xs = (e1, (d1, x1), r1)"
  shows "same_result (sse_read r (xs @ ys))
     (case x1 of Some x \<Rightarrow> (e1, (d1, Some x), r1)
      | None \<Rightarrow> (case sse_read r1 ys of (e2, st, r2) \<Rightarrow> (e1 @ e2, st, r2)))"
proof -
  define m where "m = min (sr_left r) (length (xs @ ys))"
  have nm: "n \<le> m" "take m (xs @ ys) = take n xs @ take (m - n) (drop n xs @ ys)"
    using r(4) by (auto simp: m_def take_append min_def)
  obtain ev err r2 where l: "sse_lines r (take n xs) = (ev, err, r2)"
    by (metis prod_cases3)
  note k = sse_lines_keeps [OF l]
  have ne: "xs @ ys \<noteq> []"
    using r(3) by simp
  note whole = sse_read_data [OF r(1,2) ne m_def, unfolded nm(2) sse_lines_append l]
  note part = sse_read_data [OF r, unfolded l]
  show ?thesis
  proof (cases err)
    case (Some x)
    with part read whole show ?thesis
      by simp
  next
    case None
    define r3 where "r3 = r2\<lparr>sr_left := sr_left r2 - n\<rparr>"
    obtain e3 d3 x3 r4 where p: "sse_read r3 (drop n xs) = (e3, (d3, x3), r4)"
      by (metis surj_pair)
    have res: "e1 = ev @ e3" "d1 = d3" "x1 = x3" "r1 = r4"
      using part read None p by (auto simp: r3_def)
    show ?thesis
    proof (cases "sr_left r \<le> length xs")
      case True
      then have mn: "m = n" "n = sr_left r"
        using r(4) by (auto simp: m_def)
      have "sse_read r (xs @ ys) = (case sse_read r3 (drop n xs @ ys) of (e', st, r'') \<Rightarrow> (ev @ e', st, r''))"
        using whole None mn True by (simp add: r3_def)
      with IH [OF p] res show ?thesis
        by (cases "sse_read r3 (drop n xs @ ys)") (auto split: option.splits prod.splits)
    next
      case False
      then have n: "n = length xs"
        using r(4) by simp
      have c3: "sr_coding r3 = CData" "sr_left r3 = sr_left r - n" "sr_left r3 \<noteq> 0"
        using k r(1) False n by (simp_all add: r3_def)
      have e3: "e3 = []" "d3 = False" "x3 = None" "r4 = r3"
        using p sse_read_data_nil [OF c3(1,3)] n by auto
      show ?thesis
      proof (cases "ys = []")
        case True
        with e3 res read sse_read_data_nil [OF c3(1,3)] show ?thesis
          by simp
      next
        case ys: False
        define j where "j = min (sr_left r3) (length ys)"
        have mj: "m - n = j" "m = n + j"
          using False n c3(2) by (auto simp: m_def j_def)
        have tj: "take (m - n) (drop n xs @ ys) = take j ys" "drop m (xs @ ys) = drop j ys"
          using n by (simp_all add: mj)
        obtain ev4 err4 r5 where l4: "sse_lines r2 (take j ys) = (ev4, err4, r5)"
          by (metis prod_cases3)
        have l3: "sse_lines r3 (take j ys) = (ev4, err4, r5\<lparr>sr_left := sr_left r3\<rparr>)"
          using sse_lines_left [where r = r2 and k = "sr_left r2 - n" and d = "take j ys"] l4 by (simp add: r3_def)
        have w: "sse_read r (xs @ ys) = (case err4 of Some e \<Rightarrow> (ev @ ev4, (False, Some e), r5)
            | None \<Rightarrow> (case sse_read (r5\<lparr>sr_left := sr_left r5 - m\<rparr>) (drop j ys) of (e', st, r'') \<Rightarrow> ((ev @ ev4) @ e', st, r'')))"
          using whole [unfolded tj] None l4 by (cases err4) simp_all
        have h: "sse_read r3 ys = (case err4 of Some e \<Rightarrow> (ev4, (False, Some e), r5\<lparr>sr_left := sr_left r3\<rparr>)
            | None \<Rightarrow> (case sse_read (r5\<lparr>sr_left := sr_left r3 - j\<rparr>) (drop j ys) of (e', st, r'') \<Rightarrow> (ev4 @ e', st, r'')))"
          using sse_read_data [OF c3(1,3) ys j_def] l3 by (cases err4) simp_all
        have "sr_left r5 - m = sr_left r3 - j"
          using sse_lines_keeps [OF l4] k c3(2) mj by (simp add: r3_def)
        with w h res e3 show ?thesis
          by (cases err4) (auto split: prod.splits)
      qed
    qed
  qed
qed

lemma sse_read_append:
  "sse_read r xs = (e1, (d1, x1), r1) \<Longrightarrow>
   same_result (sse_read r (xs @ ys))
     (case x1 of Some x \<Rightarrow> (e1, (d1, Some x), r1)
      | None \<Rightarrow> (case sse_read r1 ys of (e2, st, r2) \<Rightarrow> (e1 @ e2, st, r2)))"
proof (induction "length xs" arbitrary: r xs e1 d1 x1 r1 rule: less_induct)
  case less
  show ?case
  proof (cases "xs = []")
    case True
    with less.prems sse_read_nil [of r e1 d1 x1 r1 ys] show ?thesis
      by (simp add: case_prod_unfold)
  next
    case ne: False
    obtain r0 where r0: "\<And>b. sse_read r b = sse_read r0 b" "\<not> (sr_coding r0 = CData \<and> sr_left r0 = 0)"
    proof (cases "sr_coding r = CData \<and> sr_left r = 0")
      case True
      with that [of "r\<lparr>sr_coding := CDataEnd, sr_cr := False\<rparr>"] sse_read_data0 [of r] show ?thesis by simp
    qed (use that in auto)
    have p: "sse_read r0 xs = (e1, (d1, x1), r1)"
      using less.prems r0(1) by simp
    consider "sr_coding r0 = CDone" | "sr_coding r0 = CData" "sr_left r0 \<noteq> 0"
      | "sr_coding r0 \<noteq> CDone" "sr_coding r0 \<noteq> CData"
      using r0(2) by (cases "sr_coding r0") auto
    then show ?thesis
    proof cases
      case 1
      with ne p show ?thesis by (auto simp: sse_read_done r0(1))
    next
      case 2
      have "length (drop (min (sr_left r0) (length xs)) xs) < length xs"
        using ne 2(2) by auto
      from sse_read_data_append [OF less.hyps [OF this] 2 ne refl p] show ?thesis
        by (simp add: r0(1))
    next
      case 3
      obtain c xs' where xs: "xs = c # xs'"
        using ne by (cases xs) auto
      obtain err r2 where st: "sse_step r0 c = (err, r2)"
        by fastforce
      show ?thesis
        using p 3 less.hyps [of xs' r2] by (cases err) (auto simp: xs sse_read_step st r0(1))
    qed
  qed
qed

text \<open>What later calls see of a reader: its fault once it failed, and else all of it.\<close>

definition sse_view :: "sse_reader \<Rightarrow> sse_fault + sse_reader" where
  "sse_view r = (case sr_failed r of Some e \<Rightarrow> Inl e | None \<Rightarrow> Inr r)"

lemma sse_step_keeps: "sse_step r c = (err, r') \<Longrightarrow> sr_failed r' = sr_failed r"
  by (auto simp: sse_step_def Let_def split: coding.splits if_splits)

lemma sse_read_keeps: "sse_read r b = (e, st, r') \<Longrightarrow> sr_failed r' = sr_failed r \<and> (fst st \<longrightarrow> snd st = None)"
proof (induction "length b" arbitrary: r b e st r' rule: less_induct)
  case less
  have main: "sr_failed r' = sr_failed r \<and> (fst st \<longrightarrow> snd st = None)"
    if "\<not> (sr_coding r = CData \<and> sr_left r = 0)" "sse_read r b = (e, st, r')" for r
  proof (cases "sr_coding r = CDone \<or> b = []")
    case True
    with that show ?thesis
      by (cases "sr_coding r") (auto simp: sse_read_done sse_read_data_nil sse_read_step split: if_splits)
  next
    case False
    show ?thesis
    proof (cases "sr_coding r = CData")
      case True
      define n where "n = min (sr_left r) (length b)"
      have n: "length (drop n b) < length b"
        using False that(1) True by (auto simp: n_def)
      obtain ev err r2 where l: "sse_lines r (take n b) = (ev, err, r2)"
        by (metis prod_cases3)
      from that True False l have rd: "(e, st, r') = (case err of Some x \<Rightarrow> (ev, (False, Some x), r2)
          | None \<Rightarrow> (case sse_read (r2\<lparr>sr_left := sr_left r2 - n\<rparr>) (drop n b) of (e', st, r'') \<Rightarrow> (ev @ e', st, r'')))"
        using sse_read_data [of r b n] by (cases err) (auto simp: n_def)
      show ?thesis
      proof (cases err)
        case None
        obtain e4 st4 r4 where p: "sse_read (r2\<lparr>sr_left := sr_left r2 - n\<rparr>) (drop n b) = (e4, st4, r4)"
          by (metis prod_cases3)
        from less.hyps [OF n p] sse_lines_keeps [OF l] rd None p show ?thesis by simp
      qed (use sse_lines_keeps [OF l] rd in simp)
    next
      case c: False
      obtain c b' where b: "b = c # b'"
        using False by (cases b) auto
      obtain err r2 where s: "sse_step r c = (err, r2)" by fastforce
      show ?thesis
        using that(2) False c sse_step_keeps [OF s] less.hyps [of b' r2]
        by (cases err) (auto simp: b sse_read_step s)
    qed
  qed
  show ?case
  proof (cases "sr_coding r = CData \<and> sr_left r = 0")
    case True
    with less.prems main [of "r\<lparr>sr_coding := CDataEnd, sr_cr := False\<rparr>"] sse_read_data0 [of r b] show ?thesis by simp
  qed (use main less.prems in blast)
qed

interpretation sse: incremental_reader sse_feed sse_view
proof
  fix s t xs e r s'
  assume a: "sse_view s = sse_view t" "sse_feed s xs = (e, r, s')"
  show "\<exists>t'. sse_feed t xs = (e, r, t') \<and> sse_view t' = sse_view s'"
  proof (cases "sr_failed s")
    case None
    with a(1) have "t = s" by (auto simp: sse_view_def split: option.splits)
    with a(2) show ?thesis by blast
  next
    case (Some x)
    with a show ?thesis by (auto simp: sse_view_def sse_feed_def split: option.splits)
  qed
next
  fix s xs e1 r1 s1 ys e2 r2 s2
  assume a: "sse_feed s xs = (e1, r1, s1)" "sse_feed s1 ys = (e2, r2, s2)"
  show "\<exists>s'. sse_feed s (xs @ ys) = (e1 @ e2, r2, s') \<and> sse_view s' = sse_view s2"
  proof (cases "sr_failed s")
    case (Some x)
    with a show ?thesis by (auto simp: sse_feed_def)
  next
    case None
    obtain ev d err r3 where p: "sse_read s xs = (ev, (d, err), r3)"
      by (metis surj_pair)
    obtain ew d' err' r4 where q: "sse_read s (xs @ ys) = (ew, (d', err'), r4)"
      by (metis surj_pair)
    note same = sse_read_append [OF p, of ys, unfolded q]
    show ?thesis
    proof (cases err)
      case (Some x)
      with same a None p q sse_read_keeps [OF p] show ?thesis
        by (auto simp: sse_feed_def sse_view_def)
    next
      case n: None
      obtain e5 d5 x5 r5 where p5: "sse_read r3 ys = (e5, (d5, x5), r5)"
        by (metis surj_pair)
      have f: "sr_failed r3 = None"
        using sse_read_keeps [OF p] None by simp
      have "e1 = ev" "s1 = r3"
        using a(1) None p n by (auto simp: sse_feed_def)
      with a(2) f p5 have "e2 = e5" "r2 = (d5, x5)" "s2 = (case x5 of None \<Rightarrow> r5 | Some x \<Rightarrow> r5\<lparr>sr_failed := Some x\<rparr>)"
        by (auto simp: sse_feed_def)
      with same n p5 None q \<open>e1 = ev\<close> show ?thesis
        by (cases x5) (auto simp: sse_feed_def sse_view_def)
    qed
  qed
qed

section \<open>What the reader holds is bounded\<close>

text \<open>
  A relation between a reader, what it completed and the reader after it, that the parts of the
  loop respect, holds of the whole loop.
\<close>

lemma sse_read_rel:
  assumes refl: "\<And>r. R r [] r"
    and trans: "\<And>r e r1 e' r2. R r e r1 \<Longrightarrow> R r1 e' r2 \<Longrightarrow> R r (e @ e') r2"
    and step: "\<And>r c err r'. sse_step r c = (err, r') \<Longrightarrow> R r [] r'"
    and data: "\<And>r d e err r'. sse_lines r d = (e, err, r') \<Longrightarrow> R r e r'"
    and left: "\<And>r n. R r [] (r\<lparr>sr_left := sr_left r - n\<rparr>)"
    and leave: "\<And>r. R r [] (r\<lparr>sr_coding := CDataEnd, sr_cr := False\<rparr>)"
  shows "sse_read r b = (e, st, r') \<Longrightarrow> R r e r'"
proof (induction "length b" arbitrary: r b e st r' rule: less_induct)
  case less
  have main: "R r e r'" if "\<not> (sr_coding r = CData \<and> sr_left r = 0)" "sse_read r b = (e, st, r')" for r
  proof (cases "sr_coding r = CDone \<or> b = []")
    case True
    with that have "e = []" "r' = r"
      by (cases "sr_coding r"; auto simp: sse_read_done sse_read_data_nil sse_read_step split: if_splits)+
    then show ?thesis by (simp add: refl)
  next
    case False
    show ?thesis
    proof (cases "sr_coding r = CData")
      case True
      define n where "n = min (sr_left r) (length b)"
      have n: "length (drop n b) < length b"
        using False that(1) True by (auto simp: n_def)
      obtain ev err r2 where l: "sse_lines r (take n b) = (ev, err, r2)"
        by (metis prod_cases3)
      obtain e4 st4 r4 where p: "sse_read (r2\<lparr>sr_left := sr_left r2 - n\<rparr>) (drop n b) = (e4, st4, r4)"
        by (metis prod_cases3)
      show ?thesis
      proof (cases err)
        case None
        with that True False l p have "e = ev @ [] @ e4" "r' = r4"
          using sse_read_data [of r b n] by (auto simp: n_def)
        with trans [OF data [OF l] trans [OF left less.hyps [OF n p]]] show ?thesis by simp
      next
        case (Some x)
        with that True False l data [OF l] show ?thesis
          using sse_read_data [of r b n] by (auto simp: n_def)
      qed
    next
      case c: False
      obtain c b' where b: "b = c # b'"
        using False by (cases b) auto
      obtain err r2 where s: "sse_step r c = (err, r2)" by fastforce
      show ?thesis
        using that(2) False c step [OF s] less.hyps [of b' r2] trans [OF step [OF s]]
        by (cases err) (auto simp: b sse_read_step s)
    qed
  qed
  show ?case
  proof (cases "sr_coding r = CData \<and> sr_left r = 0")
    case True
    with less.prems main [of "r\<lparr>sr_coding := CDataEnd, sr_cr := False\<rparr>"] sse_read_data0 [of r b]
      trans [OF leave] show ?thesis by fastforce
  qed (use main less.prems in blast)
qed

definition sealed_ok :: "bytes \<Rightarrow> bool" where
  "sealed_ok c \<longleftrightarrow> Overhead \<le> length c \<and> length c \<le> MaxSealed"

definition sse_bounded :: "sse_reader \<Rightarrow> bool" where
  "sse_bounded r \<longleftrightarrow> length (sr_line r) \<le> sseLineMax + 1 \<and> length (sr_pending r) \<le> MaxSealed
     \<and> (sr_have r \<longrightarrow> sealed_ok (sr_pending r)) \<and> sr_events r \<le> SseEvents
     \<and> sr_size r \<le> sseChunkMax \<and> sr_left r \<le> sseChunkMax \<and> sr_digits r \<le> sseSizeDigits"

definition sse_grows :: "sse_reader \<Rightarrow> bytes list \<Rightarrow> sse_reader \<Rightarrow> bool" where
  "sse_grows r e r' \<longleftrightarrow> (sse_bounded r \<longrightarrow>
     sse_bounded r' \<and> sr_events r' = sr_events r + length e \<and> list_all sealed_ok e)"

lemma sse_sealed_ok: "sse_sealed text = Inr c \<Longrightarrow> sealed_ok c"
  by (auto simp: sse_sealed_def sealed_ok_def split: if_splits option.splits)

lemma sse_complete_grows: "sse_complete r line = (e, err, r') \<Longrightarrow> sse_grows r e r'"
  by (auto simp: sse_complete_def sse_grows_def sse_bounded_def sealed_ok_def [of "sr_pending r"]
      dest!: sse_sealed_ok split: if_splits sum.splits) (auto simp: sealed_ok_def)

lemma sse_grows_trans: "sse_grows r e r1 \<Longrightarrow> sse_grows r1 e' r2 \<Longrightarrow> sse_grows r (e @ e') r2"
  by (auto simp: sse_grows_def)

lemma sse_grows_refl: "sse_grows r [] r"
  by (simp add: sse_grows_def)

lemma sse_lines_grows: "sse_lines r d = (e, err, r') \<Longrightarrow> sse_grows r e r'"
proof (induction d arbitrary: r e err r')
  case Nil
  then show ?case by (simp add: sse_grows_def)
next
  case (Cons c d)
  obtain ev1 err1 r1 where c: "sse_complete r (chomp_cr (sr_line r)) = (ev1, err1, r1)"
    by (metis prod_cases3)
  obtain ev2 err2 r2 where l: "sse_lines (r1\<lparr>sr_line := []\<rparr>) d = (ev2, err2, r2)"
    by (metis prod_cases3)
  have g: "sse_grows r1 [] (r1\<lparr>sr_line := []\<rparr>)"
    by (simp add: sse_grows_def sse_bounded_def)
  have h: "sse_grows r [] (r\<lparr>sr_line := sr_line r @ [c]\<rparr>)" if "\<not> length (sr_line r) > sseLineMax"
    using that by (auto simp: sse_grows_def sse_bounded_def)
  note whole = sse_grows_trans [OF sse_complete_grows [OF c] sse_grows_trans [OF g Cons.IH [OF l]]]
  consider "c = LF" "err1 = None" | x where "c = LF" "err1 = Some x"
    | "c \<noteq> LF" "length (sr_line r) > sseLineMax \<or> length (sr_line r) = sseLineMax \<and> c \<noteq> CR"
    | "c \<noteq> LF" "\<not> (length (sr_line r) > sseLineMax \<or> length (sr_line r) = sseLineMax \<and> c \<noteq> CR)"
    by (cases err1) blast+
  then show ?case
  proof cases
    case 1
    with Cons.prems c l whole show ?thesis by simp
  next
    case 2
    with Cons.prems c sse_complete_grows [OF c] show ?thesis by simp
  next
    case 3
    with Cons.prems show ?thesis by (simp add: sse_grows_refl)
  next
    case 4
    with Cons.prems have "sse_lines (r\<lparr>sr_line := sr_line r @ [c]\<rparr>) d = (e, err, r')"
      by simp
    from sse_grows_trans [OF h Cons.IH [OF this]] 4 show ?thesis by simp
  qed
qed

lemma sse_step_grows: "sse_step r c = (err, r') \<Longrightarrow> sse_grows r [] r'"
  by (auto simp: sse_step_def sse_grows_def sse_bounded_def Let_def split: coding.splits if_splits)

lemma sse_read_grows: "sse_read r b = (e, st, r') \<Longrightarrow> sse_grows r e r'"
  by (rule sse_read_rel [where R = sse_grows, OF sse_grows_refl sse_grows_trans sse_step_grows sse_lines_grows])
    (auto simp: sse_grows_def sse_bounded_def)

lemma sse_feed_grows: "sse_feed r b = (e, st, r') \<Longrightarrow> sse_grows r e r'"
proof (cases "sr_failed r")
  case None
  assume f: "sse_feed r b = (e, st, r')"
  obtain e1 d1 x1 r1 where p: "sse_read r b = (e1, (d1, x1), r1)"
    by (metis surj_pair)
  with f None have "e = e1" "r' = (case x1 of None \<Rightarrow> r1 | Some x \<Rightarrow> r1\<lparr>sr_failed := Some x\<rparr>)"
    by (auto simp: sse_feed_def)
  with sse_read_grows [OF p] show ?thesis
    by (cases x1) (auto simp: sse_grows_def sse_bounded_def)
qed (simp add: sse_feed_def sse_grows_def)

section \<open>What was written is read\<close>

subsection \<open>The base64 of an event\<close>

lemma std_char_facts: "v < 64 \<Longrightarrow> std_val (std_char v) = Some v \<and> std_char v \<noteq> LF \<and> std_char v \<noteq> CR
    \<and> std_char v \<noteq> CHR ''=''"
proof -
  have "\<forall>v \<in> set [0..<64]. std_val (std_char v) = Some v \<and> std_char v \<noteq> LF \<and> std_char v \<noteq> CR
    \<and> std_char v \<noteq> CHR ''=''"
    by code_simp
  then show "v < 64 \<Longrightarrow> ?thesis" by simp
qed

lemma std_encode_chars: "c \<in> set (std_encode bs) \<Longrightarrow> c \<noteq> LF \<and> c \<noteq> CR"
proof (induction bs rule: std_encode.induct)
  case (1 x y z bs)
  then show ?case
    using nibble_bounds(1) [of x] nibble_bounds(2) [of x y] nibble_bounds(3) [of y z] std_char_facts by auto
next
  case (2 x y)
  then show ?case
    using nibble_bounds(1) [of x] nibble_bounds(2) [of x y] nibble_bounds(5) [of y] std_char_facts by auto
next
  case (3 x)
  then show ?case
    using nibble_bounds(1) [of x] nibble_bounds(4) [of x] std_char_facts by auto
qed simp

lemma of_nat_unat_byte: "of_nat (unat x) = (x :: byte)"
  by simp

lemma std_quanta_encode: "std_quanta (std_encode bs) = Some bs"
proof (induction bs rule: std_encode.induct)
  case (1 x y z bs)
  have v: "unat x div 4 < 64" "unat x mod 4 * 16 + unat y div 16 < 64" "unat y mod 16 * 4 + unat z div 64 < 64"
      "unat z mod 64 < 64"
    using nibble_bounds(1) [of x] nibble_bounds(2) [of x y] nibble_bounds(3) [of y z] by simp_all
  show ?case
    by (simp only: std_encode.simps std_quanta.simps std_char_facts [OF v(1)] std_char_facts [OF v(2)]
        std_char_facts [OF v(3)] std_char_facts [OF v(4)] b64_vals_back 1 option.simps prod.simps if_False
        of_nat_unat_byte append.simps)
next
  case (2 x y)
  have v: "unat x div 4 < 64" "unat x mod 4 * 16 + unat y div 16 < 64" "unat y mod 16 * 4 < 64"
    using nibble_bounds(1) [of x] nibble_bounds(2) [of x y] nibble_bounds(5) [of y] by simp_all
  show ?case
    using b64_vals_back(1) [of x y] b64_vals_back(2) [of x y 0]
    by (simp only: std_encode.simps std_quanta.simps std_char_facts [OF v(1)] std_char_facts [OF v(2)]
        std_char_facts [OF v(3)] option.simps if_False if_True) simp
next
  case (3 x)
  have v: "unat x div 4 < 64" "unat x mod 4 * 16 < 64"
    using nibble_bounds(1) [of x] nibble_bounds(4) [of x] by simp_all
  show ?case
    using b64_vals_back(1) [of x 0]
    by (simp only: std_encode.simps std_quanta.simps std_char_facts [OF v(1)] std_char_facts [OF v(2)]
        option.simps if_False if_True) simp
qed simp

lemma std_decode_encode: "std_decode (std_encode bs) = Some bs"
proof -
  have "filter (\<lambda>c. c \<noteq> LF \<and> c \<noteq> CR) (std_encode bs) = std_encode bs"
    using std_encode_chars by (intro filter_True) blast
  then show ?thesis
    by (simp add: std_decode_def std_quanta_encode)
qed

lemma std_encode_length: "length (std_encode bs) = (length bs + 2) div 3 * 4"
proof (induction bs rule: std_encode.induct)
  case (1 x y z bs)
  have "(length bs + 3 + 2) div 3 = (length bs + 2) div 3 + 1"
    by presburger
  with 1 show ?case by (simp add: algebra_simps)
qed auto

lemma sealed_text_length:
  assumes "sealed_ok c"
  shows "sseEventMin \<le> length (std_encode c)" "length (std_encode c) \<le> sseEventMax" "length (std_encode c) mod 4 = 0"
proof -
  have "18 \<le> length c + 2" "length c + 2 \<le> 16018"
    using assms by (simp_all add: sealed_ok_def)
  from div_le_mono [OF this(1), of 3] div_le_mono [OF this(2), of 3]
  show "sseEventMin \<le> length (std_encode c)" "length (std_encode c) \<le> sseEventMax" "length (std_encode c) mod 4 = 0"
    unfolding std_encode_length by simp_all
qed

lemma sse_sealed_encode: "sealed_ok c \<Longrightarrow> sse_sealed (std_encode c) = Inr c"
  using sealed_text_length [of c] unfolding sse_sealed_def sealed_ok_def by (simp add: std_decode_encode)

subsection \<open>Lines and events\<close>

definition sse_clean :: "sse_reader \<Rightarrow> bool" where
  "sse_clean r \<longleftrightarrow> sr_line r = [] \<and> \<not> sr_have r \<and> \<not> sr_beating r \<and> sr_pending r = []"

lemma sse_lines_chars:
  assumes "LF \<notin> set l" "length (sr_line r) + length l \<le> sseLineMax"
  shows "sse_lines r l = ([], None, r\<lparr>sr_line := sr_line r @ l\<rparr>)"
  using assms
proof (induction l arbitrary: r)
  case (Cons c l)
  then show ?case by auto
qed simp

lemma sse_lines_line:
  assumes "LF \<notin> set l" "CR \<notin> set l" "length l \<le> sseLineMax" "sr_line r = []"
  shows "sse_lines r (l @ [LF]) = (case sse_complete (r\<lparr>sr_line := l\<rparr>) l of
       (ev, Some e, r') \<Rightarrow> (ev, Some e, r') | (ev, None, r') \<Rightarrow> (ev, None, r'\<lparr>sr_line := []\<rparr>))"
proof -
  have "chomp_cr l = l"
    using assms(2) last_in_set [of l] unfolding chomp_cr_def by metis
  then show ?thesis
    using assms by (simp add: sse_lines_append sse_lines_chars split: prod.splits option.splits)
qed

lemma sse_lines_event:
  assumes "sse_clean r" "sealed_ok c" "sr_events r < SseEvents"
  shows "sse_lines r (sse_event c) = ([c], None, r\<lparr>sr_events := sr_events r + 1\<rparr>)"
proof -
  let ?l = "''data: '' @ std_encode c"
  have l: "LF \<notin> set ?l" "CR \<notin> set ?l"
    using std_encode_chars by auto
  have len: "length ?l \<le> sseLineMax"
    using sealed_text_length(2) [OF assms(2)] by simp
  have c: "\<not> sr_have r" "\<not> sr_beating r" "sr_line r = []" "sr_pending r = []"
    using assms(1) by (auto simp: sse_clean_def)
  have 1: "sse_lines r (?l @ [LF]) = ([], None, r\<lparr>sr_pending := c, sr_have := True\<rparr>)"
    unfolding sse_lines_line [OF l len c(3)]
    using c by (simp add: sse_complete_def sse_sealed_encode [OF assms(2)])
  have 2: "sse_lines (r\<lparr>sr_pending := c, sr_have := True\<rparr>) [LF] = ([c], None, r\<lparr>sr_events := sr_events r + 1\<rparr>)"
    using c assms(3) by (simp add: chomp_cr_def sse_complete_def)
  show ?thesis
    unfolding sse_event_def using sse_lines_append [of r "?l @ [LF]" "[LF]"] 1 2 by simp
qed

lemma sse_lines_comment:
  assumes "sse_clean r" "LF \<notin> set t" "CR \<notin> set t" "length t < sseLineMax"
  shows "sse_lines r (CHR '':'' # t @ [LF, LF]) = ([], None, r)"
proof -
  let ?l = "CHR '':'' # t"
  have c: "\<not> sr_have r" "\<not> sr_beating r" "sr_line r = []"
    using assms(1) by (auto simp: sse_clean_def)
  have l: "LF \<notin> set ?l" "CR \<notin> set ?l" "length ?l \<le> sseLineMax"
    using assms(2-4) by auto
  have "take 6 ?l \<noteq> ''data: ''"
    by (simp add: take_Cons')
  then have 1: "sse_lines r (?l @ [LF]) = ([], None, r\<lparr>sr_beating := True\<rparr>)"
    unfolding sse_lines_line [OF l c(3)] using c by (simp add: sse_complete_def)
  have 2: "sse_lines (r\<lparr>sr_beating := True\<rparr>) [LF] = ([], None, r)"
    using c by (simp add: chomp_cr_def sse_complete_def)
  show ?thesis
    using sse_lines_append [of r "?l @ [LF]" "[LF]"] 1 2 by simp
qed

text \<open>What a stream carries: sealed chunks and heartbeats, in some order.\<close>

datatype sse_item = Event bytes | Beat string

fun item_text :: "sse_item \<Rightarrow> string" where
  "item_text (Event c) = sse_event c"
| "item_text (Beat t) = t"

fun item_ok :: "sse_item \<Rightarrow> bool" where
  "item_ok (Event c) = sealed_ok c"
| "item_ok (Beat t) = (\<exists>rnd rnds. rand_ok rnd \<and> (\<forall>i. rand_ok (rnds i)) \<and> t = sse_beat rnd rnds)"

fun item_events :: "sse_item list \<Rightarrow> bytes list" where
  "item_events [] = []"
| "item_events (Event c # xs) = c # item_events xs"
| "item_events (Beat t # xs) = item_events xs"

lemma beat_chars_facts: "i < 36 \<Longrightarrow> beat_chars ! i \<noteq> LF \<and> beat_chars ! i \<noteq> CR"
proof -
  have "\<forall>i \<in> set [0..<36]. beat_chars ! i \<noteq> LF \<and> beat_chars ! i \<noteq> CR"
    by code_simp
  then show "i < 36 \<Longrightarrow> ?thesis" by simp
qed

lemma sse_beat_shape:
  assumes "rand_ok rnd" "\<forall>i. rand_ok (rnds i)"
  obtains t where "sse_beat rnd rnds = CHR '':'' # t @ [LF, LF]" "LF \<notin> set t" "CR \<notin> set t" "length t < sseLineMax"
proof -
  let ?n = "nat (uniform rnd 8 40)"
  let ?t = "map (\<lambda>i. beat_chars ! nat (uniform (rnds i) 0 (int (length beat_chars) - 1))) [0..<?n]"
  have "length beat_chars = 36"
    by (simp add: beat_chars_def)
  then have "nat (uniform (rnds i) 0 (int (length beat_chars) - 1)) < 36" for i
    using uniform_bounds [of "rnds i" 0 35] assms(2) by auto
  then have "LF \<notin> set ?t" "CR \<notin> set ?t"
    using beat_chars_facts by (metis (no_types, lifting) image_iff set_map)+
  moreover have "length ?t \<le> 40"
    using uniform_bounds [OF assms(1), of 8 40] by (simp add: nat_le_iff)
  moreover have "sse_beat rnd rnds = CHR '':'' # (CHR '' '' # ?t) @ [LF, LF]"
    by (simp add: sse_beat_def Let_def)
  ultimately show ?thesis
    by (intro that [of "CHR '' '' # ?t"]) auto
qed

lemma sse_lines_items:
  assumes "list_all item_ok xs" "sse_clean r" "sr_events r + length (item_events xs) \<le> SseEvents"
  shows "sse_lines r (concat (map item_text xs)) =
    (item_events xs, None, r\<lparr>sr_events := sr_events r + length (item_events xs)\<rparr>)"
  using assms
proof (induction xs arbitrary: r rule: item_events.induct)
  case (2 c xs)
  let ?r = "r\<lparr>sr_events := sr_events r + 1\<rparr>"
  have "sse_clean ?r"
    using 2(3) by (simp add: sse_clean_def)
  with 2 have "sse_lines ?r (concat (map item_text xs)) =
      (item_events xs, None, ?r\<lparr>sr_events := sr_events ?r + length (item_events xs)\<rparr>)"
    by simp
  moreover have "sse_lines r (sse_event c) = ([c], None, ?r)"
    using 2 by (intro sse_lines_event) auto
  ultimately show ?case
    by (simp add: sse_lines_append)
next
  case (3 t xs)
  then obtain rnd rnds where "rand_ok rnd" "\<forall>i. rand_ok (rnds i)" "t = sse_beat rnd rnds"
    by auto
  then obtain u where "t = CHR '':'' # u @ [LF, LF]" "LF \<notin> set u" "CR \<notin> set u" "length u < sseLineMax"
    using sse_beat_shape by metis
  with sse_lines_comment [OF 3(3), of u] have "sse_lines r t = ([], None, r)"
    by simp
  with 3 show ?case
    by (simp add: sse_lines_append)
qed simp

subsection \<open>The transfer coding\<close>

text \<open>The fields of the transfer coding, over a reader of lines.\<close>

definition framed :: "coding \<Rightarrow> nat \<Rightarrow> nat \<Rightarrow> bool \<Rightarrow> nat \<Rightarrow> sse_reader \<Rightarrow> sse_reader" where
  "framed cd sz dg cr lf r = r\<lparr>sr_coding := cd, sr_size := sz, sr_digits := dg, sr_cr := cr, sr_left := lf\<rparr>"

lemma framed_simps [simp]:
  "sr_coding (framed cd sz dg cr lf r) = cd" "sr_size (framed cd sz dg cr lf r) = sz"
  "sr_digits (framed cd sz dg cr lf r) = dg" "sr_cr (framed cd sz dg cr lf r) = cr"
  "sr_left (framed cd sz dg cr lf r) = lf"
  "(framed cd sz dg cr lf r)\<lparr>sr_coding := cd'\<rparr> = framed cd' sz dg cr lf r"
  "(framed cd sz dg cr lf r)\<lparr>sr_size := sz'\<rparr> = framed cd sz' dg cr lf r"
  "(framed cd sz dg cr lf r)\<lparr>sr_digits := dg'\<rparr> = framed cd sz dg' cr lf r"
  "(framed cd sz dg cr lf r)\<lparr>sr_cr := cr'\<rparr> = framed cd sz dg cr' lf r"
  "(framed cd sz dg cr lf r)\<lparr>sr_left := lf'\<rparr> = framed cd sz dg cr lf' r"
  by (simp_all add: framed_def)

lemma sse_complete_framed:
  "sse_complete (framed cd sz dg cr lf r) l = (case sse_complete r l of (e, x, r') \<Rightarrow> (e, x, framed cd sz dg cr lf r'))"
  by (simp add: sse_complete_def framed_def split: sum.splits)

lemma sse_lines_framed:
  "sse_lines (framed cd sz dg cr lf r) d = (case sse_lines r d of (e, x, r') \<Rightarrow> (e, x, framed cd sz dg cr lf r'))"
proof (induction d arbitrary: r)
  case (Cons c d)
  obtain ev1 err1 r1 where c: "sse_complete r (chomp_cr (sr_line r)) = (ev1, err1, r1)"
    by (metis prod_cases3)
  have f: "sr_line (framed cd sz dg cr lf r) = sr_line r"
    "(framed cd sz dg cr lf r)\<lparr>sr_line := l\<rparr> = framed cd sz dg cr lf (r\<lparr>sr_line := l\<rparr>)" for r l
    by (simp_all add: framed_def)
  show ?case
    by (cases err1) (simp_all add: c f sse_complete_framed Cons.IH case_prod_unfold)
qed simp

lemma hex_chars: "d < 16 \<Longrightarrow> is_hex (hex_char d) \<and> hex_val (hex_char d) = d \<and> hex_char d \<noteq> CR"
proof -
  have "\<forall>d \<in> set [0..<16]. is_hex (hex_char d) \<and> hex_val (hex_char d) = d \<and> hex_char d \<noteq> CR"
    by code_simp
  then show "d < 16 \<Longrightarrow> ?thesis" by simp
qed

lemma hex_length: "n < 16 ^ k \<Longrightarrow> 0 < k \<Longrightarrow> length (hex n) \<le> k"
proof (induction n arbitrary: k rule: hex.induct)
  case (1 n)
  show ?case
  proof (cases "n < 16")
    case True
    with 1(3) show ?thesis by (subst hex.simps) simp
  next
    case False
    then have "k \<noteq> 1" using 1(2) by auto
    with 1(3) obtain j where j: "k = Suc j" "0 < j" by (cases k) auto
    with 1(2) have "n div 16 < 16 ^ j" by auto
    from 1(1) [OF False this j(2)] False j(1) show ?thesis by (subst hex.simps) simp
  qed
qed

lemma sse_read_digit:
  assumes "d < 16" "dg < sseSizeDigits" "v * 16 + d \<le> sseChunkMax"
  shows "sse_read (framed CSize v dg cr lf r) (hex_char d # b) = sse_read (framed CSize (v * 16 + d) (Suc dg) cr lf r) b"
  using assms hex_chars [OF assms(1)] by (simp add: sse_read_step [of "framed CSize v dg cr lf r"] sse_step_def Let_def)

lemma sse_read_hex:
  assumes "n \<le> sseChunkMax"
  shows "sse_read (framed CSize 0 0 cr lf r) (hex n @ b) = sse_read (framed CSize n (length (hex n)) cr lf r) b"
  using assms
proof (induction n arbitrary: b rule: hex.induct)
  case (1 n)
  show ?case
  proof (cases "n < 16")
    case True
    then have "hex n = [hex_char n]" by (subst hex.simps) simp
    with True sse_read_digit [of n 0 0] show ?thesis by simp
  next
    case False
    then have h: "hex n = hex (n div 16) @ [hex_char (n mod 16)]" by (subst hex.simps) simp
    have "n div 16 \<le> 65536" "n div 16 < 16 ^ 15" using 1(2) by auto
    then have l: "length (hex (n div 16)) < 16"
      using hex_length [of "n div 16" 15] by simp
    have "sse_read (framed CSize 0 0 cr lf r) (hex n @ b)
        = sse_read (framed CSize (n div 16) (length (hex (n div 16))) cr lf r) (hex_char (n mod 16) # b)"
      using 1(1) [OF False \<open>n div 16 \<le> 65536\<close>, of "hex_char (n mod 16) # b"] by (simp add: h)
    also have "\<dots> = sse_read (framed CSize n (length (hex n)) cr lf r) b"
      using sse_read_digit [of "n mod 16" "length (hex (n div 16))" "n div 16"] l 1(2) by (simp add: h)
    finally show ?thesis .
  qed
qed

lemma hex_nonempty [simp]: "hex n \<noteq> []"
  by (subst hex.simps) simp

lemma sse_read_chunk:
  assumes "d \<noteq> []" "length d \<le> sseChunkMax" "sse_lines r d = (e, None, r1)"
  shows "sse_read (framed CSize 0 0 cr 0 r) (sse_chunked [] d @ b) =
    (case sse_read (framed CSize 0 0 True 0 r1) b of (e2, st, r2) \<Rightarrow> (e @ e2, st, r2))"
proof -
  let ?n = "length d" and ?k = "length (hex (length d))"
  have "\<not> is_hex CR" by code_simp
  then have "sse_read (framed CSize 0 0 cr 0 r) (sse_chunked [] d @ b)
      = sse_read (framed CData ?n ?k cr ?n r) (d @ [CR, LF] @ b)"
    using assms(1,2) by (simp add: sse_chunked_def sse_read_hex sse_read_step [of "framed CSize ?n ?k cr 0 r"]
      sse_read_step [of "framed CSizeEnd ?n ?k cr 0 r"] sse_step_def)
  also have "\<dots> = (case sse_read (framed CData ?n ?k cr 0 r1) ([CR, LF] @ b) of (e2, st, r2) \<Rightarrow> (e @ e2, st, r2))"
    using assms(1,3) by (simp add: sse_read_data [of "framed CData ?n ?k cr ?n r" _ "length d"] sse_lines_framed)
  also have "sse_read (framed CData ?n ?k cr 0 r1) ([CR, LF] @ b) = sse_read (framed CSize 0 0 True 0 r1) b"
    by (simp add: sse_read_data0 sse_read_step [of "framed CDataEnd ?n ?k False 0 r1"]
      sse_read_step [of "framed CDataEnd ?n ?k True 0 r1"] sse_step_def)
  finally show ?thesis .
qed

lemma sse_read_end:
  "sse_read (framed CSize 0 0 cr 0 r) sse_end = ([], (True, None), framed CDone 0 1 True 0 r)"
proof -
  have "\<not> is_hex CR" "is_hex CHR ''0''" "hex_val CHR ''0'' = 0" by code_simp+
  then show ?thesis
    by (simp add: sse_end_def sse_read_step [of "framed CSize 0 0 cr 0 r"] sse_read_step [of "framed CSize 0 (Suc 0) cr 0 r"]
      sse_read_step [of "framed CSizeEnd 0 (Suc 0) cr 0 r"] sse_read_step [of "framed CLast 0 (Suc 0) False 0 r"]
      sse_read_step [of "framed CLast 0 (Suc 0) True 0 r"] sse_read_done sse_step_def Let_def)
qed

lemma sse_read_chunks:
  assumes "\<forall>d \<in> set ds. d \<noteq> [] \<and> length d \<le> sseChunkMax" "sse_lines r (concat ds) = (e, None, r1)"
  shows "\<exists>r2. sse_read (framed CSize 0 0 cr 0 r) (concat (map (sse_chunked []) ds) @ sse_end) = (e, (True, None), r2)
    \<and> sr_events r2 = sr_events r1"
  using assms
proof (induction ds arbitrary: r e cr)
  case Nil
  then show ?case
    by (simp add: sse_read_end) (simp add: framed_def)
next
  case (Cons d ds)
  then obtain e1 r' e2 where l: "sse_lines r d = (e1, None, r')" "sse_lines r' (concat ds) = (e2, None, r1)" "e = e1 @ e2"
    by (auto simp: sse_lines_append split: prod.splits option.splits)
  from Cons.IH [OF _ l(2), of True] Cons.prems(1) obtain r2 where
    "sse_read (framed CSize 0 0 True 0 r') (concat (map (sse_chunked []) ds) @ sse_end) = (e2, (True, None), r2)"
    "sr_events r2 = sr_events r1"
    by auto
  with sse_read_chunk [of d r e1 r' cr "concat (map (sse_chunked []) ds) @ sse_end"] Cons.prems(1) l show ?case
    by auto
qed

section \<open>What the reader promises\<close>

text \<open>
  The result of reading a stream does not depend on how its bytes are cut: fed piece by
  piece, from any state, a reader gives the same sealed chunks, the same fault or none, and the
  same word on whether the stream is over, as fed all at once.
\<close>

lemma sse_cut_anywhere:
  "fst (feed_all sse_feed r ps) = fst (sse_feed r (concat ps))
   \<and> fst (snd (feed_all sse_feed r ps)) = fst (snd (sse_feed r (concat ps)))"
proof -
  obtain e st r' where f: "feed_all sse_feed r ps = (e, st, r')"
    by (metis prod_cases3)
  from sse.feed_all_concat [OF f] show ?thesis
    by (auto simp: f)
qed

text \<open>
  C15. What the gateway writes is what the reader takes: any run of sealed chunks and
  heartbeats, of at most SseEvents chunks, whose text is cut into transfer-coding chunks in any
  way and ended, however the bytes then arrive, gives exactly the sealed chunks in order, is
  done, and has no fault.
\<close>

theorem sse_roundtrip:
  assumes "list_all item_ok xs" "length (item_events xs) \<le> SseEvents"
    and "concat ds = concat (map item_text xs)" "\<forall>d \<in> set ds. d \<noteq> [] \<and> length d \<le> sseChunkMax"
    and "concat ps = concat (map (sse_chunked []) ds) @ sse_end"
  shows "fst (feed_all sse_feed new_sse_reader ps) = item_events xs
    \<and> fst (snd (feed_all sse_feed new_sse_reader ps)) = (True, None)"
proof -
  let ?r = new_sse_reader
  have l: "sse_lines ?r (concat ds) = (item_events xs, None, ?r\<lparr>sr_events := length (item_events xs)\<rparr>)"
    using sse_lines_items [OF assms(1), of ?r] assms(2,3) by (simp add: sse_clean_def new_sse_reader_def)
  have "?r = framed CSize 0 0 False 0 ?r"
    by (simp add: framed_def new_sse_reader_def)
  then obtain r2 where "sse_read ?r (concat ps) = (item_events xs, (True, None), r2)"
    using sse_read_chunks [OF assms(4) l, of False] assms(5) by auto
  then have "sse_feed ?r (concat ps) = (item_events xs, (True, None), r2)"
    by (simp add: sse_feed_def) (simp add: new_sse_reader_def)
  moreover obtain e st r' where f: "feed_all sse_feed ?r ps = (e, st, r')"
    by (metis prod_cases3)
  ultimately show ?thesis
    using sse.feed_all_concat [OF f] by auto
qed

lemma feed_all_grows: "feed_all sse_feed r ps = (e, st, r') \<Longrightarrow> sse_grows r e r'"
proof (induction ps arbitrary: r e st r' rule: induct_list012)
  case (3 p q ps)
  then obtain e1 r1 s1 e2 where 1: "sse_feed r p = (e1, r1, s1)"
      and 2: "feed_all sse_feed s1 (q # ps) = (e2, st, r')" "e = e1 @ e2"
    by (auto split: prod.splits)
  from sse_grows_trans [OF sse_feed_grows [OF 1] "3.IH"(2) [OF 2(1)]] 2(2) show ?case
    by simp
qed (use sse_feed_grows in auto)

text \<open>
  A hostile front cannot make the reader hold or give more than the format allows: after
  any bytes in any pieces the reader keeps less than one line and one sealed chunk, its chunk
  sizes are bounded, and it has given at most SseEvents chunks, each of the length of a sealed
  chunk.
\<close>

lemma sse_reader_bounded:
  assumes "feed_all sse_feed new_sse_reader ps = (e, st, r)"
  shows "sse_bounded r \<and> sr_events r = length e \<and> length e \<le> SseEvents \<and> list_all sealed_ok e"
proof -
  have "sse_bounded new_sse_reader" "sr_events new_sse_reader = 0"
    by (simp_all add: sse_bounded_def new_sse_reader_def)
  with feed_all_grows [OF assms] show ?thesis
    by (simp add: sse_grows_def) (auto simp: sse_bounded_def)
qed

text \<open>
  The text of an event need not be canonical base64, as the comment on sseSealed says: carriage
  returns inside it are skipped by the library's decoder, in its strict form too.
\<close>

lemma sse_sealed_carriage_returns:
  "sse_sealed (replicate 4 CR @ std_encode (replicate 18 7)) = Inr (replicate 18 7)
   \<and> std_encode (replicate 18 7) \<noteq> replicate 4 CR @ std_encode (replicate 18 7)"
proof -
  have "length (std_encode (replicate 18 7)) = 24"
    by (simp add: std_encode_length)
  moreover have "std_decode (replicate 4 CR @ std_encode (replicate 18 7)) = Some (replicate 18 7)"
    using std_decode_encode [of "replicate 18 7"] by (simp add: std_decode_def)
  ultimately show ?thesis
    by (simp add: sse_sealed_def)
qed

section \<open>Witnesses\<close>

definition demo_items :: "sse_item list" where
  "demo_items = [Event (replicate 16 1), Beat (sse_beat (\<lambda>_. 0) (\<lambda>_ _. 0))]"

theorem sse_roundtrip_witness:
  "fst (feed_all sse_feed new_sse_reader
      [sse_chunked [] (concat (map item_text demo_items)), sse_end]) = [replicate 16 1]"
proof -
  let ?t = "concat (map item_text demo_items)"
  have 1: "list_all item_ok demo_items"
    using demo_rand_ok by (auto simp: demo_items_def sealed_ok_def)
  have l: "length ?t = 44"
    by (simp add: demo_items_def sse_event_def std_encode_length sse_beat_def uniform_def Let_def)
  have "?t \<noteq> []"
    by (metis l list.size(3) zero_neq_numeral)
  then have "\<forall>d \<in> set [?t]. d \<noteq> [] \<and> length d \<le> sseChunkMax"
    by (simp add: l del: concat_eq_Nil_conv)
  from sse_roundtrip [OF 1 _ _ this, of "[sse_chunked [] ?t, sse_end]"] show ?thesis
    by (simp add: demo_items_def)
qed

end
