(* ===== verification/Hdlc.thy ===== *)
theory Hdlc imports Incremental begin

text \<open>
  The asynchronous HDLC framing between pppd's terminal and a PPTP call
  (internal/pptpd/hdlc.go): the check sequence, the framing of one PPP frame and the deframer
  of what pppd writes, which arrives in pieces of any size.
\<close>

section \<open>The check sequence\<close>

abbreviation (input) hdlcFlag :: byte where "hdlcFlag \<equiv> 0x7E"
abbreviation (input) hdlcEscape :: byte where "hdlcEscape \<equiv> 0x7D"
abbreviation (input) hdlcXor :: byte where "hdlcXor \<equiv> 0x20"
abbreviation (input) fcsInit :: u16 where "fcsInit \<equiv> 0xFFFF"
abbreviation (input) fcsGood :: u16 where "fcsGood \<equiv> 0xF0B8"

definition fcs_shift :: "u16 \<Rightarrow> u16" where
  "fcs_shift v = (if v AND 1 \<noteq> 0 then drop_bit 1 v XOR 0x8408 else drop_bit 1 v)"

definition fcs_table :: "byte \<Rightarrow> u16" where
  "fcs_table i = (fcs_shift ^^ 8) (ucast i)"

definition fcs_step :: "u16 \<Rightarrow> byte \<Rightarrow> u16" where
  "fcs_step fcs c = (drop_bit 8 fcs XOR fcs_table (ucast fcs XOR c))"

definition fcs16 :: "u16 \<Rightarrow> bytes \<Rightarrow> u16" where
  "fcs16 fcs b = foldl fcs_step fcs b"

section \<open>Framing\<close>

definition hdlc_put :: "byte \<Rightarrow> bytes" where
  "hdlc_put c = (if c < 0x20 \<or> c = hdlcFlag \<or> c = hdlcEscape then [hdlcEscape, c XOR hdlcXor] else [c])"

definition append_framed :: "bytes \<Rightarrow> bytes \<Rightarrow> bytes" where
  "append_framed dst frame =
     (let fcs = NOT (fcs16 fcsInit frame);
          dst = dst @ [hdlcFlag];
          dst = dst @ concat (map hdlc_put frame);
          dst = dst @ hdlc_put (ucast fcs);
          dst = dst @ hdlc_put (ucast (drop_bit 8 fcs))
      in dst @ [hdlcFlag])"

abbreviation (input) maxFrame :: nat where "maxFrame \<equiv> 4096"

record deframer =
  df_buf :: bytes
  df_escaped :: bool
  df_broken :: bool

definition deframer_zero :: deframer where
  "deframer_zero = \<lparr>df_buf = [], df_escaped = False, df_broken = False\<rparr>"

text \<open>One turn of the loop of write: the frame handed out, if any, and the deframer after it.\<close>

definition deframe_byte :: "deframer \<Rightarrow> byte \<Rightarrow> bytes list \<times> deframer" where
  "deframe_byte d c =
     (if c = hdlcFlag then
        (if \<not> df_broken d \<and> length (df_buf d) \<ge> 4 \<and> fcs16 fcsInit (df_buf d) = fcsGood
         then [take (length (df_buf d) - 2) (df_buf d)] else [],
         d\<lparr>df_buf := [], df_escaped := False, df_broken := False\<rparr>)
      else if df_broken d then ([], d)
      else if c = hdlcEscape then ([], d\<lparr>df_escaped := True\<rparr>)
      else
        let c' = (if df_escaped d then c XOR hdlcXor else c);
            d' = (if df_escaped d then d\<lparr>df_escaped := False\<rparr> else d)
        in if length (df_buf d') = maxFrame then ([], d'\<lparr>df_broken := True\<rparr>)
           else ([], d'\<lparr>df_buf := df_buf d' @ [c']\<rparr>))"

fun deframe :: "deframer \<Rightarrow> bytes \<Rightarrow> bytes list \<times> deframer" where
  "deframe d [] = ([], d)"
| "deframe d (c # b) =
     (case deframe_byte d c of (out, d') \<Rightarrow> (case deframe d' b of (outs, d'') \<Rightarrow> (out @ outs, d'')))"

section \<open>The check sequence is good exactly after the right trailer\<close>

definition trailer :: "bytes \<Rightarrow> bytes" where
  "trailer frame = (let fcs = NOT (fcs16 fcsInit frame) in [ucast fcs, ucast (drop_bit 8 fcs)])"

lemma fcs16_append: "fcs16 f (a @ b) = fcs16 (fcs16 f a) b"
  by (simp add: fcs16_def)

lemma fcs_shift_odd: "fcs_shift v = (drop_bit 1 v XOR (if odd v then 0x8408 else 0))"
  by (simp add: fcs_shift_def and_one_eq mod_2_eq_odd)

lemma fcs_shift_xor: "fcs_shift (a XOR b) = (fcs_shift a XOR fcs_shift b)"
  by (auto simp: fcs_shift_odd drop_bit_xor even_xor_iff ac_simps xor.left_commute)

lemma fcs_shift_small:
  assumes "unat (fcs_shift v) < 2 ^ 15"
  shows "unat v = 2 * unat (fcs_shift v)"
proof -
  have "even v"
  proof (rule ccontr)
    assume "odd v"
    have "bit (fcs_shift v) 15"
      using \<open>odd v\<close> by (auto simp: fcs_shift_odd bit_simps dest: bit_imp_le_length)
    then have "bit (unat (fcs_shift v)) 15"
      by (simp add: bit_unsigned_iff)
    then have "2 ^ 15 \<le> unat (fcs_shift v)"
      by (metis bit_take_bit_iff less_irrefl not_le take_bit_nat_eq_self)
    with assms show False by simp
  qed
  then have f: "fcs_shift v = drop_bit 1 v"
    by (simp add: fcs_shift_odd)
  have "unat (fcs_shift v) = unat v div 2"
    unfolding f unat_drop_bit_eq by (simp add: drop_bit_eq_div)
  moreover have "bit (unat v) 0 = bit v 0"
    by (simp add: bit_unsigned_iff del: bit_0)
  then have "even (unat v)"
    using \<open>even v\<close> by (metis bit_0)
  ultimately show ?thesis
    by auto
qed

lemma fcs_table_xor: "fcs_table (a XOR b) = (fcs_table a XOR fcs_table b)"
proof -
  have "(fcs_shift ^^ n) (u XOR v) = ((fcs_shift ^^ n) u XOR (fcs_shift ^^ n) v)" for n u v
    by (induction n) (simp_all add: fcs_shift_xor)
  then show ?thesis
    by (simp add: fcs_table_def unsigned_xor_eq)
qed

lemma fcs_shift_pow_small:
  "unat ((fcs_shift ^^ n) v) < 2 ^ (16 - n) \<Longrightarrow> n \<le> 15 \<Longrightarrow> unat v = 2 ^ n * unat ((fcs_shift ^^ n) v)"
proof (induction n)
  case (Suc n)
  let ?x = "(fcs_shift ^^ n) v"
  have "unat (fcs_shift ?x) < 2 ^ (16 - Suc n)"
    using Suc.prems by simp
  also have "(2 :: nat) ^ (16 - Suc n) \<le> 2 ^ 15"
    by (rule power_increasing) auto
  finally have x: "unat ?x = 2 * unat (fcs_shift ?x)"
    by (rule fcs_shift_small)
  have "(2 :: nat) ^ (16 - n) = 2 * 2 ^ (16 - Suc n)"
    using Suc.prems(2) by (simp add: Suc_diff_le flip: power_Suc)
  with x Suc.prems have "unat ?x < 2 ^ (16 - n)"
    by simp
  with Suc x show ?case by simp
qed simp

lemma fcs_table_high_zero:
  assumes "unat (fcs_table k) < 2 ^ 8"
  shows "k = 0"
proof -
  have "unat (ucast k :: u16) = 2 ^ 8 * unat (fcs_table k)"
    unfolding fcs_table_def by (rule fcs_shift_pow_small) (use assms in \<open>simp_all add: fcs_table_def\<close>)
  moreover have "unat (ucast k :: u16) = unat k"
    by (simp add: unsigned_ucast_eq take_bit_nat_eq_self order.strict_trans [OF unsigned_less])
  moreover have "unat k < 256"
    using unsigned_less [of k] by simp
  ultimately have "unat k = 0"
    by auto
  then show ?thesis
    by (simp add: unat_eq_zero)
qed

lemma high_byte_zero: "(ucast (drop_bit 8 (w :: u16)) :: byte) = 0 \<longleftrightarrow> unat w < 2 ^ 8"
proof -
  have "unat (ucast (drop_bit 8 w) :: byte) = unat w div 256 mod 256"
    by (simp add: unsigned_ucast_eq unat_div_distrib drop_bit_eq_div take_bit_eq_mod)
  moreover have "unat w div 256 < 256"
  proof -
    have "unat w < 2 ^ LENGTH(16)" by (rule unsigned_less)
    then show ?thesis by (simp add: less_mult_imp_div_less)
  qed
  ultimately have "unat (ucast (drop_bit 8 w) :: byte) = unat w div 256"
    by simp
  then show ?thesis
    by (auto simp flip: unat_eq_zero simp: div_eq_0_iff)
qed

definition hi8 :: "u16 \<Rightarrow> byte" where "hi8 w = ucast (drop_bit 8 w)"
definition lo8 :: "u16 \<Rightarrow> byte" where "lo8 w = ucast w"

lemma hi8_xor: "hi8 (a XOR b) = (hi8 a XOR hi8 b)" and lo8_xor: "lo8 (a XOR b) = (lo8 a XOR lo8 b)"
  by (simp_all add: hi8_def lo8_def drop_bit_xor) (rule bit_word_eqI; simp add: bit_simps)+

lemma fcs_table_inj: "hi8 (fcs_table i) = hi8 (fcs_table j) \<Longrightarrow> i = j"
proof -
  assume "hi8 (fcs_table i) = hi8 (fcs_table j)"
  then have "hi8 (fcs_table (i XOR j)) = 0"
    by (simp add: fcs_table_xor hi8_xor)
  then have "i XOR j = 0"
    by (intro fcs_table_high_zero) (simp add: hi8_def high_byte_zero)
  then show "i = j"
    by (metis xor.assoc xor.left_neutral xor.right_neutral xor_self_eq)
qed

lemma fcs_table_values: "fcs_table 0xFF = 0x0F78" "fcs_table 0x87 = 0xF0B7"
  by code_simp+

lemma hi8_fcs_step: "hi8 (fcs_step f b) = hi8 (fcs_table (lo8 f XOR b))"
proof -
  have "hi8 (drop_bit 8 f) = 0"
    unfolding hi8_def by (rule bit_word_eqI) (auto simp: bit_simps dest: bit_imp_le_length)
  then show ?thesis
    by (simp add: fcs_step_def hi8_xor) (simp add: lo8_def)
qed

lemma lo8_fcs_step: "lo8 (fcs_step f b) = (hi8 f XOR lo8 (fcs_table (lo8 f XOR b)))"
  by (simp add: fcs_step_def lo8_xor) (simp add: lo8_def hi8_def)

lemma word16_eqI: "hi8 v = hi8 w \<Longrightarrow> lo8 v = lo8 w \<Longrightarrow> v = w"
proof (rule bit_word_eqI)
  fix n
  assume h: "hi8 v = hi8 w" "lo8 v = lo8 w" "n < LENGTH(16)"
  have b: "bit (lo8 u) n = bit u n" if "n < 8" for u
    using that by (simp add: lo8_def bit_simps)
  have c: "bit (hi8 u) (n - 8) = bit u n" if "8 \<le> n" for u
  proof -
    have "n - 8 < 8"
      using that h(3) by simp
    then show ?thesis
      using that by (simp add: hi8_def bit_simps)
  qed
  show "bit v n = bit w n"
    using b [of v] b [of w] c [of v] c [of w] h(1,2) by (cases "n < 8") auto
qed

lemma two_steps_good:
  "fcs_step (fcs_step f b1) b2 = fcsGood \<longleftrightarrow> b1 = NOT (lo8 f) \<and> b2 = NOT (hi8 f)"
proof -
  let ?x1 = "lo8 f XOR b1" and ?x2 = "lo8 (fcs_step f b1) XOR b2"
  have good: "hi8 fcsGood = hi8 (fcs_table 0x87)" "lo8 fcsGood = (hi8 (fcs_table 0xFF) XOR lo8 (fcs_table 0x87))"
    unfolding fcs_table_values by code_simp+
  have "fcs_step (fcs_step f b1) b2 = fcsGood \<longleftrightarrow>
      hi8 (fcs_table ?x2) = hi8 (fcs_table 0x87) \<and> (hi8 (fcs_table ?x1) XOR lo8 (fcs_table ?x2)) = lo8 fcsGood"
  proof -
    have "w = fcsGood \<longleftrightarrow> hi8 w = hi8 fcsGood \<and> lo8 w = lo8 fcsGood" for w
      using word16_eqI by blast
    then show ?thesis
      by (simp only: hi8_fcs_step [of "fcs_step f b1" b2] lo8_fcs_step [of "fcs_step f b1" b2] hi8_fcs_step [of f b1] good(1))
  qed
  also have "\<dots> \<longleftrightarrow> ?x2 = 0x87 \<and> hi8 (fcs_table ?x1) = hi8 (fcs_table 0xFF)"
  proof -
    have cancel: "(a XOR c) = (b XOR c) \<longleftrightarrow> a = b" for a b c :: byte
      by (metis xor.assoc xor.right_neutral xor_self_eq)
    show ?thesis
      using fcs_table_inj [of ?x2 "0x87"] by (auto simp: good(2) cancel)
  qed
  also have "\<dots> \<longleftrightarrow> ?x2 = 0x87 \<and> ?x1 = 0xFF"
    using fcs_table_inj [of ?x1 "0xFF"] by auto
  also have "\<dots> \<longleftrightarrow> b1 = NOT (lo8 f) \<and> b2 = NOT (hi8 f)"
  proof -
    have m: "(a XOR b) = c \<longleftrightarrow> b = (a XOR c)" for a b c :: byte
      by (metis xor.assoc xor.left_neutral xor_self_eq)
    have n: "(a XOR 0xFF) = NOT a" for a :: byte
    proof -
      have "(0xFF :: byte) = NOT 0" by code_simp
      then show ?thesis by (simp only:) (rule bit_word_eqI; auto simp: bit_simps)
    qed
    have "lo8 (fcs_table 0xFF) = 0x78"
      unfolding fcs_table_values by code_simp
    then have "lo8 (fcs_step f b1) = (hi8 f XOR 0x78)" if "?x1 = 0xFF"
      by (simp only: lo8_fcs_step that)
    moreover have "((hi8 f XOR 0x78) XOR 0x87) = NOT (hi8 f)"
    proof -
      have "(0x78 XOR 0x87 :: byte) = 0xFF" by code_simp
      then show ?thesis by (simp only: xor.assoc n)
    qed
    ultimately have "?x2 = 0x87 \<longleftrightarrow> b2 = NOT (hi8 f)" if "?x1 = 0xFF"
      using that m [of "hi8 f XOR 0x78" b2 "0x87"] by simp
    then show ?thesis
      using m [of "lo8 f" b1 "0xFF"] n [of "lo8 f"] by auto
  qed
  finally show ?thesis .
qed

lemma trailer_bytes: "trailer f = [NOT (lo8 (fcs16 fcsInit f)), NOT (hi8 (fcs16 fcsInit f))]"
proof -
  have "ucast (NOT u) = NOT (lo8 u)" "ucast (drop_bit 8 (NOT u)) = NOT (hi8 u)" for u :: u16
    unfolding lo8_def hi8_def by (rule bit_word_eqI; auto simp: bit_simps)+
  then show ?thesis
    by (simp add: trailer_def Let_def)
qed

lemma fcs_good_iff: "fcs16 fcsInit (f @ [x, y]) = fcsGood \<longleftrightarrow> [x, y] = trailer f"
  by (simp add: fcs16_def two_steps_good trailer_bytes)

lemma fcs_goodD:
  assumes "fcs16 fcsInit b = fcsGood" "2 \<le> length b"
  shows "b = take (length b - 2) b @ trailer (take (length b - 2) b)"
proof -
  obtain f x y where b: "b = f @ [x, y]"
  proof (cases b rule: rev_cases)
    case (snoc c y)
    then show ?thesis
      using that assms(2) by (cases c rule: rev_cases) auto
  qed (use assms(2) in simp)
  have "trailer f = [x, y]"
    using assms(1) fcs_good_iff [of f x y] by (simp add: b)
  moreover have "take (length b - 2) b = f"
    by (simp add: b)
  ultimately show ?thesis
    by (simp add: b)
qed

section \<open>The deframer over a whole stream\<close>

definition hdlc_feed :: "deframer \<Rightarrow> bytes \<Rightarrow> bytes list \<times> unit \<times> deframer" where
  "hdlc_feed d b = (case deframe d b of (out, d') \<Rightarrow> (out, (), d'))"

lemma deframe_append:
  "deframe d (a @ b) = (case deframe d a of (o1, d1) \<Rightarrow> (case deframe d1 b of (o2, d2) \<Rightarrow> (o1 @ o2, d2)))"
  by (induction a arbitrary: d) (auto split: prod.splits)

interpretation hdlc: incremental_reader hdlc_feed "\<lambda>d. d"
  by unfold_locales (auto simp: hdlc_feed_def deframe_append split: prod.splits)

lemma hdlc_feed_all: "fst (feed_all hdlc_feed d ps) = fst (deframe d (concat ps))"
proof -
  obtain e r t where f: "feed_all hdlc_feed d ps = (e, r, t)"
    by (metis prod_cases3)
  from hdlc.feed_all_concat [OF f] show ?thesis
    by (auto simp: f hdlc_feed_def split: prod.splits)
qed

text \<open>What RFC 1662 makes of a stream: the bytes between flags, each unescaped.\<close>

fun split_flags :: "bytes \<Rightarrow> bytes list" where
  "split_flags [] = [[]]"
| "split_flags (c # b) =
     (if c = hdlcFlag then [] # split_flags b
      else (case split_flags b of [] \<Rightarrow> [[c]] | s # ss \<Rightarrow> (c # s) # ss))"

fun unescape :: "bool \<Rightarrow> bytes \<Rightarrow> bytes" where
  "unescape e [] = []"
| "unescape e (c # s) =
     (if c = hdlcEscape then unescape True s
      else (if e then c XOR hdlcXor else c) # unescape False s)"

definition seg_frame :: "bytes \<Rightarrow> bytes list" where
  "seg_frame u = (let f = take (length u - 2) u in
     if 4 \<le> length u \<and> length u \<le> maxFrame \<and> u = f @ trailer f then [f] else [])"

lemma split_flags_ne [simp]: "split_flags b \<noteq> []"
  by (induction b) (auto split: list.splits)

definition df_of :: "bytes \<Rightarrow> bool \<Rightarrow> deframer" where
  "df_of buf e = \<lparr>df_buf = buf, df_escaped = e, df_broken = False\<rparr>"

lemma trailer_length [simp]: "length (trailer f) = 2"
  by (simp add: trailer_bytes)

lemma seg_frame_flag:
  "length buf \<le> maxFrame \<Longrightarrow> deframe_byte (df_of buf e) hdlcFlag = (seg_frame buf, deframer_zero)"
proof -
  assume l: "length buf \<le> maxFrame"
  have "fcs16 fcsInit buf = fcsGood \<longleftrightarrow> buf = take (length buf - 2) buf @ trailer (take (length buf - 2) buf)"
    if "4 \<le> length buf"
  proof
    assume "fcs16 fcsInit buf = fcsGood"
    from fcs_goodD [OF this] that
    show "buf = take (length buf - 2) buf @ trailer (take (length buf - 2) buf)" by simp
  next
    assume b: "buf = take (length buf - 2) buf @ trailer (take (length buf - 2) buf)"
    obtain x y where t: "trailer (take (length buf - 2) buf) = [x, y]"
      by (simp add: trailer_bytes)
    with b fcs_good_iff [of "take (length buf - 2) buf" x y] show "fcs16 fcsInit buf = fcsGood"
      by simp
  qed
  with l show ?thesis
    by (auto simp: deframe_byte_def df_of_def seg_frame_def deframer_zero_def Let_def)
qed

lemma broken_flag:
  "df_broken d \<Longrightarrow> deframe_byte d hdlcFlag = ([], deframer_zero)"
  by (simp add: deframe_byte_def deframer_zero_def)

lemma seg_frame_long: "length u > maxFrame \<Longrightarrow> seg_frame u = []"
  by (simp add: seg_frame_def Let_def)

text \<open>
  From a deframer that holds \<open>buf\<close>, the frames of the rest: the first segment continues what
  is held, and a segment that has grown past maxFrame gives nothing.
\<close>

lemma deframe_segments:
  assumes "length buf \<le> maxFrame"
  shows "fst (deframe (df_of buf e) b) =
    (case split_flags b of s # ss \<Rightarrow>
       concat (map seg_frame (butlast ((buf @ unescape e s) # map (unescape False) ss))))"
    and "df_broken d \<Longrightarrow> fst (deframe d b) =
    (case split_flags b of s # ss \<Rightarrow>
       (if ss = [] then [] else concat (map seg_frame (butlast (map (unescape False) ss)))))"
  using assms
proof (induction b arbitrary: buf e d)
  case Nil
  {
    case 1
    show ?case by simp
  next
    case 2
    show ?case by simp
  }
next
  case (Cons c b)
  obtain s ss where s: "split_flags b = s # ss"
    by (cases "split_flags b") auto
  {
    case 1
    show ?case
    proof (cases "c = hdlcFlag")
      case True
      have z: "deframer_zero = df_of [] False"
        by (simp add: deframer_zero_def df_of_def)
      show ?thesis
        using True seg_frame_flag [OF 1(1)] Cons.IH(1) [of "[]" False] s
        by (auto simp: z split: prod.splits)
    next
      case nf: False
      show ?thesis
      proof (cases "c = hdlcEscape")
        case True
        then have "deframe_byte (df_of buf e) c = ([], df_of buf True)"
          by (simp add: deframe_byte_def df_of_def)
        with True nf Cons.IH(1) [OF 1(1), of True] s show ?thesis
          by (auto split: prod.splits)
      next
        case ne: False
        let ?c = "if e then c XOR hdlcXor else c"
        show ?thesis
        proof (cases "length buf = maxFrame")
          case True
          then have d: "df_broken (snd (deframe_byte (df_of buf e) c))" "fst (deframe_byte (df_of buf e) c) = []"
            using nf ne by (simp_all add: deframe_byte_def df_of_def Let_def)
          have "seg_frame (buf @ ?c # unescape False s) = []"
            using True by (intro seg_frame_long) simp
          with nf ne d Cons.IH(2) [OF d(1) 1(1)] s show ?thesis
            by (auto split: prod.splits)
        next
          case False
          then have d: "deframe_byte (df_of buf e) c = ([], df_of (buf @ [?c]) False)"
            using nf ne by (simp add: deframe_byte_def df_of_def Let_def)
          have "length (buf @ [?c]) \<le> maxFrame"
            using False 1 by simp
          from Cons.IH(1) [OF this, of False] nf ne d s show ?thesis
            by (auto split: prod.splits)
        qed
      qed
    qed
  next
    case 2
    show ?case
    proof (cases "c = hdlcFlag")
      case True
      have z: "deframer_zero = df_of [] False"
        by (simp add: deframer_zero_def df_of_def)
      show ?thesis
        using True broken_flag [OF 2(1)] Cons.IH(1) [of "[]" False] s
        by (auto simp: z split: prod.splits)
    next
      case False
      then have "deframe_byte d c = ([], d)"
        using 2(1) by (simp add: deframe_byte_def)
      with False Cons.IH(2) [OF 2] s show ?thesis
        by (auto split: prod.splits)
    qed
  }
qed

text \<open>
  C36. Whatever pppd writes, and however it arrives in pieces, the deframer hands out exactly
  the frames of the stream: for each run of bytes that a flag ends, unescaped, the frame of two
  bytes or more and at most 4094 whose check sequence it ends with, and nothing for any other
  run.
\<close>

theorem deframer_exact:
  "fst (feed_all hdlc_feed deframer_zero ps)
     = concat (map (\<lambda>s. seg_frame (unescape False s)) (butlast (split_flags (concat ps))))"
proof -
  obtain s ss where s: "split_flags (concat ps) = s # ss"
    by (cases "split_flags (concat ps)") auto
  have "deframer_zero = df_of [] False"
    by (simp add: deframer_zero_def df_of_def)
  then have "fst (deframe deframer_zero (concat ps))
      = concat (map seg_frame (butlast (map (unescape False) (s # ss))))"
    using deframe_segments(1) [of "[]" False "concat ps"] s by simp
  then show ?thesis
    unfolding hdlc_feed_all s by (simp only: map_butlast [symmetric] map_map o_def)
qed

subsection \<open>What is framed is handed out\<close>

lemma put_facts:
  fixes c :: byte
  shows "c < 0x20 \<or> c = hdlcFlag \<or> c = hdlcEscape \<Longrightarrow> (c XOR hdlcXor) \<noteq> hdlcFlag \<and> (c XOR hdlcXor) \<noteq> hdlcEscape"
    and "((c XOR hdlcXor) XOR hdlcXor) = c"
proof -
  show b: "((c XOR hdlcXor) XOR hdlcXor) = c" for c :: byte
    by (simp add: xor.assoc)
  assume a: "c < 0x20 \<or> c = hdlcFlag \<or> c = hdlcEscape"
  have "(hdlcFlag XOR hdlcXor) = 0x5E" "(hdlcEscape XOR hdlcXor) = (0x5D :: byte)"
    by code_simp+
  then have "c = 0x5E" if "(c XOR hdlcXor) = hdlcFlag"
    using b [of c] that by simp
  moreover have "c = 0x5D" if "(c XOR hdlcXor) = hdlcEscape"
    using b [of c] that \<open>(hdlcEscape XOR hdlcXor) = 0x5D\<close> by simp
  ultimately show "(c XOR hdlcXor) \<noteq> hdlcFlag \<and> (c XOR hdlcXor) \<noteq> hdlcEscape"
    using a by auto
qed

lemma deframe_put:
  assumes "length buf < maxFrame"
  shows "deframe (df_of buf False) (hdlc_put c @ b) = deframe (df_of (buf @ [c]) False) b"
proof (cases "c < 0x20 \<or> c = hdlcFlag \<or> c = hdlcEscape")
  case True
  have "deframe_byte (df_of buf False) hdlcEscape = ([], df_of buf True)"
    by (simp add: deframe_byte_def df_of_def)
  moreover have "deframe_byte (df_of buf True) (c XOR hdlcXor) = ([], df_of (buf @ [c]) False)"
    using put_facts(1) [OF True] put_facts(2) [of c] assms by (auto simp: deframe_byte_def df_of_def Let_def)
  ultimately show ?thesis
    using True by (auto simp: hdlc_put_def case_prod_unfold)
next
  case False
  then have "deframe_byte (df_of buf False) c = ([], df_of (buf @ [c]) False)"
    using assms by (auto simp: deframe_byte_def df_of_def Let_def)
  with False show ?thesis
    by (simp add: hdlc_put_def case_prod_unfold)
qed

lemma deframe_puts:
  "length buf + length cs \<le> maxFrame \<Longrightarrow>
   deframe (df_of buf False) (concat (map hdlc_put cs) @ b) = deframe (df_of (buf @ cs) False) b"
  by (induction cs arbitrary: buf) (simp_all add: deframe_put)

lemma append_framed_eq: "append_framed [] f = hdlcFlag # concat (map hdlc_put (f @ trailer f)) @ [hdlcFlag]"
  by (simp add: append_framed_def trailer_def Let_def)

lemma deframe_framed:
  assumes "2 \<le> length f" "length f \<le> maxFrame - 2"
  shows "deframe d (append_framed [] f) = (fst (deframe_byte d hdlcFlag) @ [f], deframer_zero)"
proof -
  have z: "snd (deframe_byte d hdlcFlag) = df_of [] False" "deframer_zero = df_of [] False"
    by (simp_all add: deframe_byte_def df_of_def deframer_zero_def)
  have "seg_frame (f @ trailer f) = [f]"
    using assms by (simp add: seg_frame_def Let_def)
  then have "deframe (df_of [] False) (concat (map hdlc_put (f @ trailer f)) @ [hdlcFlag]) = ([f], deframer_zero)"
    using assms deframe_puts [of "[]" "f @ trailer f" "[hdlcFlag]"] seg_frame_flag [of "f @ trailer f" False]
    by simp
  with z show ?thesis
    unfolding append_framed_eq by (simp add: case_prod_unfold)
qed

text \<open>
  The framing round trips and synchronises itself: frames of two to 4094 bytes written one
  after the other, however the bytes arrive, are handed out in order by a deframer in any state,
  after at most one frame of what it had begun before; a fresh deframer hands out them alone.
\<close>

lemma framing_roundtrip:
  assumes "\<forall>f \<in> set fs. 2 \<le> length f \<and> length f \<le> maxFrame - 2"
    and "concat ps = concat (map (append_framed []) fs)"
  shows "\<exists>begun. fst (feed_all hdlc_feed d ps) = begun @ fs \<and> length begun \<le> 1
    \<and> (d = deframer_zero \<longrightarrow> begun = [])"
proof -
  have zero: "fst (deframe_byte deframer_zero hdlcFlag) = []"
    by (simp add: deframe_byte_def deframer_zero_def)
  have all: "deframe deframer_zero (concat (map (append_framed []) fs)) = (fs, deframer_zero)"
    if "\<forall>f \<in> set fs. 2 \<le> length f \<and> length f \<le> maxFrame - 2" for fs
    using that by (induction fs) (simp_all add: deframe_append deframe_framed zero)
  show ?thesis
  proof (cases fs)
    case Nil
    with assms(2) have "concat ps = []"
      by (simp only: list.map concat.simps)
    with Nil show ?thesis
      by (simp add: hdlc_feed_all del: concat_eq_Nil_conv)
  next
    case (Cons f fs')
    have "fst (deframe d (concat ps)) = fst (deframe_byte d hdlcFlag) @ fs"
      using assms all [of fs'] by (simp add: Cons deframe_append deframe_framed)
    moreover have "length (fst (deframe_byte d hdlcFlag)) \<le> 1"
      by (simp add: deframe_byte_def)
    ultimately show ?thesis
      using zero by (auto simp: hdlc_feed_all)
  qed
qed

end
