(* ===== verification/Pptp.thy ===== *)
theory Pptp imports Hdlc "HOL-Library.Sublist" begin

text \<open>
  The panel's PPTP server: the enhanced GRE header (internal/pptpd/gre.go), the messages of the
  control connection (internal/pptpd/msg.go), the relay of one call and the loop of one control
  connection (internal/pptpd/server_linux.go). Sockets, terminals and pppd are outside: what
  reaches the code is an event or an argument, what it does to them is an effect.
\<close>

section \<open>GRE\<close>

record gre_packet =
  gp_call_id :: u16
  gp_seq :: u32
  gp_has_seq :: bool
  gp_ack :: u32
  gp_has_ack :: bool
  gp_payload :: bytes

abbreviation (input) greProtoPPP :: u16 where "greProtoPPP \<equiv> 0x880B"

definition parse_gre :: "bytes \<Rightarrow> gre_packet option" where
  "parse_gre b =
     (if length b < 8 then None
      else let f0 = b ! 0; f1 = b ! 1 in
        if (f0 AND NOT 0x10) \<noteq> 0x20 \<or> (f1 AND 0x7F) \<noteq> 0x01 \<or> (rd_be (take 2 (drop 2 b)) :: u16) \<noteq> greProtoPPP then None
        else
          let n = unat (rd_be (take 2 (drop 4 b)) :: u16);
              p = \<lparr>gp_call_id = rd_be (take 2 (drop 6 b)), gp_seq = 0, gp_has_seq = False, gp_ack = 0,
                   gp_has_ack = False, gp_payload = []\<rparr>;
              off = 8
          in if (f0 AND 0x10) \<noteq> 0 \<and> length b < off + 4 then None
             else
               let (p, off) = (if (f0 AND 0x10) \<noteq> 0
                     then (p\<lparr>gp_seq := rd_be (take 4 (drop off b)), gp_has_seq := True\<rparr>, off + 4) else (p, off))
               in if (f1 AND 0x80) \<noteq> 0 \<and> length b < off + 4 then None
                  else
                    let (p, off) = (if (f1 AND 0x80) \<noteq> 0
                          then (p\<lparr>gp_ack := rd_be (take 4 (drop off b)), gp_has_ack := True\<rparr>, off + 4) else (p, off))
                    in if length b - off < n then None
                       else Some (p\<lparr>gp_payload := take n (drop off b)\<rparr>))"

definition append_gre :: "bytes \<Rightarrow> gre_packet \<Rightarrow> bytes" where
  "append_gre dst p =
     (let f0 = (if gp_has_seq p then 0x20 OR 0x10 else 0x20);
          f1 = (if gp_has_ack p then 0x01 OR 0x80 else 0x01);
          dst = dst @ [f0, f1];
          dst = dst @ be_bytes 2 greProtoPPP;
          dst = dst @ be_bytes 2 (of_nat (length (gp_payload p)) :: u16);
          dst = dst @ be_bytes 2 (gp_call_id p);
          dst = (if gp_has_seq p then dst @ be_bytes 4 (gp_seq p) else dst);
          dst = (if gp_has_ack p then dst @ be_bytes 4 (gp_ack p) else dst)
      in dst @ gp_payload p)"

definition seq_after :: "u32 \<Rightarrow> u32 \<Rightarrow> bool" where
  "seq_after a b \<longleftrightarrow> sint (a - b) > 0"

text \<open>What a packet in memory is: a length that fits the header, and zero where a flag is off.\<close>

definition gre_packet_ok :: "gre_packet \<Rightarrow> bool" where
  "gre_packet_ok p \<longleftrightarrow> length (gp_payload p) < 2 ^ 16
     \<and> (\<not> gp_has_seq p \<longrightarrow> gp_seq p = 0) \<and> (\<not> gp_has_ack p \<longrightarrow> gp_ack p = 0)"

definition opt_bytes :: "bool \<Rightarrow> u32 \<Rightarrow> bytes" where
  "opt_bytes has w = (if has then be_bytes 4 w else [])"

lemma append_gre_eq:
  "append_gre [] p = [if gp_has_seq p then 0x30 else 0x20, if gp_has_ack p then 0x81 else 0x01]
     @ be_bytes 2 greProtoPPP @ be_bytes 2 (of_nat (length (gp_payload p)) :: u16) @ be_bytes 2 (gp_call_id p)
     @ opt_bytes (gp_has_seq p) (gp_seq p) @ opt_bytes (gp_has_ack p) (gp_ack p) @ gp_payload p"
proof -
  have "(0x20 OR 0x10 :: byte) = 0x30" "(0x01 OR 0x80 :: byte) = 0x81" by code_simp+
  then show ?thesis by (simp add: append_gre_def opt_bytes_def Let_def)
qed

lemma one_bit: "(f AND 2 ^ k) = (if bit f k then 2 ^ k else 0)" for f :: "'a::len word"
  by (rule bit_word_eqI) (auto simp: bit_simps)

lemma flag_split:
  fixes f m :: byte
  assumes "m = 2 ^ k"
  shows "(f AND NOT m) = c \<longleftrightarrow> (c AND m) = 0 \<and> f = (if (f AND m) \<noteq> 0 then c OR m else c)"
proof -
  have whole: "f = ((f AND NOT m) OR (f AND m))"
    by (rule bit_word_eqI) (auto simp: bit_simps)
  have "(f AND m) = (if (f AND m) \<noteq> 0 then m else 0)"
    using one_bit [of f k] by (auto simp: assms)
  then have "f = (if (f AND m) \<noteq> 0 then (f AND NOT m) OR m else f AND NOT m)"
    using whole by (metis or.right_neutral)
  moreover have "((f AND NOT m) AND m) = 0"
    by (rule bit_word_eqI) (auto simp: bit_simps)
  moreover have "((c OR m) AND NOT m) = c" if "(c AND m) = 0"
  proof (rule bit_word_eqI)
    fix n
    assume "n < LENGTH(8)"
    have "bit (c AND m) n = bit (0 :: byte) n"
      by (simp only: that)
    then show "bit ((c OR m) AND NOT m) n = bit c n"
      using \<open>n < LENGTH(8)\<close> by (auto simp: bit_simps)
  qed
  moreover have "(c AND NOT m) = c" if "(c AND m) = 0"
  proof (rule bit_word_eqI)
    fix n
    assume "n < LENGTH(8)"
    have "bit (c AND m) n = bit (0 :: byte) n"
      by (simp only: that)
    then show "bit (c AND NOT m) n = bit c n"
      using \<open>n < LENGTH(8)\<close> by (auto simp: bit_simps)
  qed
  ultimately show ?thesis
    by metis
qed

lemma gre_flags:
  "(f AND NOT 0x10) = (0x20 :: byte) \<longleftrightarrow> f = (if (f AND 0x10) \<noteq> 0 then 0x30 else 0x20)"
  "(g AND 0x7F) = (0x01 :: byte) \<longleftrightarrow> g = (if (g AND 0x80) \<noteq> 0 then 0x81 else 0x01)"
proof -
  have c: "(0x20 AND 0x10 :: byte) = 0" "(0x20 OR 0x10 :: byte) = 0x30" "(0x01 AND 0x80 :: byte) = 0"
    "(0x01 OR 0x80 :: byte) = 0x81" "NOT (0x80 :: byte) = 0x7F"
    by code_simp+
  show "(f AND NOT 0x10) = (0x20 :: byte) \<longleftrightarrow> f = (if (f AND 0x10) \<noteq> 0 then 0x30 else 0x20)"
    using flag_split [of "0x10" 4 f "0x20"] c by simp
  show "(g AND 0x7F) = (0x01 :: byte) \<longleftrightarrow> g = (if (g AND 0x80) \<noteq> 0 then 0x81 else 0x01)"
  proof -
    have "(0x80 :: byte) = 2 ^ 7" by code_simp
    from flag_split [OF this, of g "0x01"] show ?thesis
      by (simp only: c simp_thms)
  qed
qed

lemma take_be [simp]: "take n (be_bytes n w @ xs) = be_bytes n w" "drop n (be_bytes n w @ xs) = xs"
  by simp_all

lemma parse_append_gre:
  assumes "gre_packet_ok p"
  shows "parse_gre (append_gre [] p @ rest) = Some p"
proof -
  have t: "(0x30 AND 0x10 :: byte) = 0x10" "(0x20 AND 0x10 :: byte) = 0" "(0x81 AND 0x80 :: byte) = 0x80"
    "(0x01 AND 0x80 :: byte) = 0" "(0x30 AND NOT 0x10 :: byte) = 0x20" "(0x20 AND NOT 0x10 :: byte) = 0x20"
    "(0x81 AND 0x7F :: byte) = 1" "(0x01 AND 0x7F :: byte) = 1"
    by code_simp+
  let ?r = "opt_bytes (gp_has_seq p) (gp_seq p) @ opt_bytes (gp_has_ack p) (gp_ack p) @ gp_payload p @ rest"
  define f0 f1 :: byte where f: "f0 = (if gp_has_seq p then 0x30 else 0x20)" "f1 = (if gp_has_ack p then 0x81 else 0x01)"
  define b where "b = append_gre [] p @ rest"
  have b: "b = f0 # f1 # be_bytes 2 greProtoPPP @ be_bytes 2 (of_nat (length (gp_payload p)) :: u16)
      @ be_bytes 2 (gp_call_id p) @ ?r"
    by (simp add: b_def append_gre_eq f)
  have d: "b ! 0 = f0" "b ! 1 = f1" "take 2 (drop 2 b) = be_bytes 2 greProtoPPP" "drop 8 b = ?r" "length b = 8 + length ?r"
      "take 2 (drop 4 b) = be_bytes 2 (of_nat (length (gp_payload p)) :: u16)" "take 2 (drop 6 b) = be_bytes 2 (gp_call_id p)"
    by (simp_all add: b)
  have k: "drop 12 b = drop 4 ?r" "drop 16 b = drop 8 ?r"
    using d(4) by (simp_all flip: d(4))
  have fl: "(f0 AND NOT 0x10) = 0x20" "(f1 AND 0x7F) = 1" "(f0 AND 0x10) \<noteq> 0 \<longleftrightarrow> gp_has_seq p" "(f1 AND 0x80) \<noteq> 0 \<longleftrightarrow> gp_has_ack p"
    by (simp_all add: f t)
  have n: "unat (of_nat (length (gp_payload p)) :: u16) = length (gp_payload p)"
    using assms by (simp add: gre_packet_ok_def unat_of_nat)
  have z: "\<not> gp_has_seq p \<Longrightarrow> gp_seq p = 0" "\<not> gp_has_ack p \<Longrightarrow> gp_ack p = 0"
    using assms by (simp_all add: gre_packet_ok_def)
  have "parse_gre b = Some p"
    using z n unfolding parse_gre_def Let_def d k fl
    by (cases p; cases "gp_has_seq p"; cases "gp_has_ack p") (simp_all add: k d(4) opt_bytes_def)
  then show ?thesis by (simp add: b_def)
qed

text \<open>
  A packet is read exactly when the bytes begin with what appendGRE writes for it: reading
  is the inverse of writing, on every packet whose payload fits the length field, and nothing
  else (other flags, another version or protocol, a length past the end) is taken for one.
\<close>

lemma gre_exact:
  "parse_gre b = Some p \<longleftrightarrow> gre_packet_ok p \<and> (\<exists>rest. b = append_gre [] p @ rest)"
proof
  assume a: "parse_gre b = Some p"
  then have l: "8 \<le> length b"
    by (auto simp: parse_gre_def split: if_splits)
  define f0 f1 where f: "f0 = b ! 0" "f1 = b ! 1"
  define n where "n = unat (rd_be (take 2 (drop 4 b)) :: u16)"
  define o1 where "o1 = (if (f0 AND 0x10) \<noteq> 0 then 12 else 8 :: nat)"
  define o2 where "o2 = (if (f1 AND 0x80) \<noteq> 0 then o1 + 4 else o1)"
  from a have c: "f0 = (if (f0 AND 0x10) \<noteq> 0 then 0x30 else 0x20)" "f1 = (if (f1 AND 0x80) \<noteq> 0 then 0x81 else 0x01)"
      "(rd_be (take 2 (drop 2 b)) :: u16) = greProtoPPP"
    unfolding gre_flags [symmetric] by (auto simp: parse_gre_def f Let_def split: if_splits)
  from a have p: "o2 + n \<le> length b" "o1 \<le> length b"
      "p = \<lparr>gp_call_id = rd_be (take 2 (drop 6 b)), gp_seq = (if (f0 AND 0x10) \<noteq> 0 then rd_be (take 4 (drop 8 b)) else 0),
        gp_has_seq = ((f0 AND 0x10) \<noteq> 0), gp_ack = (if (f1 AND 0x80) \<noteq> 0 then rd_be (take 4 (drop o1 b)) else 0),
        gp_has_ack = ((f1 AND 0x80) \<noteq> 0), gp_payload = take n (drop o2 b)\<rparr>"
    by (auto simp: parse_gre_def f o1_def o2_def n_def Let_def split: if_splits)
  have n: "n < 2 ^ 16"
    unfolding n_def using unsigned_less [of "rd_be (take 2 (drop 4 b)) :: u16"] by simp
  have o2: "o2 \<le> length b"
    using p(1) by simp
  have word: "be_bytes 2 (rd_be (take 2 (drop k b)) :: u16) = take 2 (drop k b)" if "k + 2 \<le> length b" for k
    using that by (intro be_bytes_rd_be) simp_all
  have long: "be_bytes 4 (rd_be (take 4 (drop k b)) :: u32) = take 4 (drop k b)" if "k + 4 \<le> length b" for k
    using that by (intro be_bytes_rd_be) simp_all
  have len: "length (gp_payload p) = n"
    using p(1) by (simp add: p(3))
  have parts: "append_gre [] p = take 2 b @ take 2 (drop 2 b) @ take 2 (drop 4 b) @ take 2 (drop 6 b)
      @ take (o1 - 8) (drop 8 b) @ take (o2 - o1) (drop o1 b) @ take n (drop o2 b)"
  proof -
    have "take 2 b = [f0, f1]"
      using l by (cases b; cases "tl b") (auto simp: f numeral_2_eq_2)
    moreover have "be_bytes 2 greProtoPPP = take 2 (drop 2 b)"
      using word [of 2] l by (simp only: c(3))
    moreover have "be_bytes 2 (of_nat (length (gp_payload p)) :: u16) = take 2 (drop 4 b)"
      using word [of 4] l by (simp add: len n_def)
    moreover have "be_bytes 2 (gp_call_id p) = take 2 (drop 6 b)"
      using word [of 6] l by (simp add: p(3))
    moreover have "opt_bytes (gp_has_seq p) (gp_seq p) = take (o1 - 8) (drop 8 b)"
      using long [of 8] p(2) by (cases "(f0 AND 0x10) = 0") (simp_all add: p(3) opt_bytes_def o1_def)
    moreover have "opt_bytes (gp_has_ack p) (gp_ack p) = take (o2 - o1) (drop o1 b)"
      using long [of o1] o2 by (cases "(f1 AND 0x80) = 0") (simp_all add: p(3) opt_bytes_def o2_def)
    moreover have "[if gp_has_seq p then 0x30 else 0x20, if gp_has_ack p then 0x81 else 0x01] = [f0, f1]"
      using c(1,2) by (simp add: p(3))
    moreover have "gp_payload p = take n (drop o2 b)"
      by (simp add: p(3))
    ultimately show ?thesis
      unfolding append_gre_eq by (simp only: append_assoc)
  qed
  have "take 2 b @ take 2 (drop 2 b) @ take 2 (drop 4 b) @ take 2 (drop 6 b)
      @ take (o1 - 8) (drop 8 b) @ take (o2 - o1) (drop o1 b) @ take n (drop o2 b) = take (o2 + n) b"
  proof -
    have step: "take i b @ take j (drop i b) = take (i + j) b" for i j
      by (simp add: take_add)
    have "8 \<le> o1" "o1 \<le> o2"
      by (simp_all add: o1_def o2_def)
    then show ?thesis
      using step [of 2 2] step [of 4 2] step [of 6 2] step [of 8 "o1 - 8"] step [of o1 "o2 - o1"] step [of o2 n]
      by (simp flip: append_assoc)
  qed
  then have "b = append_gre [] p @ drop (o2 + n) b"
    unfolding parts by simp
  moreover have "gre_packet_ok p"
    using n len by (simp add: gre_packet_ok_def) (simp add: p(3))
  ultimately show "gre_packet_ok p \<and> (\<exists>rest. b = append_gre [] p @ rest)"
    by blast
next
  assume "gre_packet_ok p \<and> (\<exists>rest. b = append_gre [] p @ rest)"
  then show "parse_gre b = Some p"
    using parse_append_gre by blast
qed

section \<open>The messages of the control connection\<close>

abbreviation (input) msgStartReq :: u16 where "msgStartReq \<equiv> 1"
abbreviation (input) msgStartReply :: u16 where "msgStartReply \<equiv> 2"
abbreviation (input) msgStopReq :: u16 where "msgStopReq \<equiv> 3"
abbreviation (input) msgStopReply :: u16 where "msgStopReply \<equiv> 4"
abbreviation (input) msgEchoReq :: u16 where "msgEchoReq \<equiv> 5"
abbreviation (input) msgEchoReply :: u16 where "msgEchoReply \<equiv> 6"
abbreviation (input) msgOutCallReq :: u16 where "msgOutCallReq \<equiv> 7"
abbreviation (input) msgOutCallReply :: u16 where "msgOutCallReply \<equiv> 8"
abbreviation (input) msgInCallReq :: u16 where "msgInCallReq \<equiv> 9"
abbreviation (input) msgInCallReply :: u16 where "msgInCallReply \<equiv> 10"
abbreviation (input) msgInCallConn :: u16 where "msgInCallConn \<equiv> 11"
abbreviation (input) msgCallClear :: u16 where "msgCallClear \<equiv> 12"
abbreviation (input) msgCallDisc :: u16 where "msgCallDisc \<equiv> 13"
abbreviation (input) msgWANError :: u16 where "msgWANError \<equiv> 14"
abbreviation (input) msgSetLinkInfo :: u16 where "msgSetLinkInfo \<equiv> 15"
abbreviation (input) magicCookie :: u32 where "magicCookie \<equiv> 0x1A2B3C4D"

definition message_len :: "u16 \<Rightarrow> nat option" where
  "message_len t =
     map_of [(msgStartReq, 156), (msgStartReply, 156), (msgStopReq, 16), (msgStopReply, 16), (msgEchoReq, 16),
       (msgEchoReply, 20), (msgOutCallReq, 168), (msgOutCallReply, 32), (msgInCallReq, 220), (msgInCallReply, 24),
       (msgInCallConn, 28), (msgCallClear, 16), (msgCallDisc, 148), (msgWANError, 40), (msgSetLinkInfo, 24)] t"

definition parse_header :: "bytes \<Rightarrow> (u16 \<times> nat) option" where
  "parse_header h =
     (if length h < 12 then None
      else let len = unat (rd_be (take 2 h) :: u16) in
        if (rd_be (take 2 (drop 2 h)) :: u16) \<noteq> 1 \<or> (rd_be (take 4 (drop 4 h)) :: u32) \<noteq> magicCookie then None
        else let t = rd_be (take 2 (drop 8 h)); want = message_len t in
          if len < 12 \<or> len > 256 \<or> (want \<noteq> None \<and> want \<noteq> Some len) then None else Some (t, len))"

text \<open>
  encode is called with the types it knows only: of another it would write past an empty
  slice, which is \<open>None\<close> here.
\<close>

definition fill :: "nat \<Rightarrow> bytes \<Rightarrow> bytes" where
  "fill n bs = take n (bs @ replicate n 0)"

definition encode_msg :: "u16 \<Rightarrow> bytes \<Rightarrow> bytes option" where
  "encode_msg t body =
     map_option (\<lambda>n. be_bytes 2 (of_nat n :: u16) @ be_bytes 2 (1 :: u16) @ be_bytes 4 magicCookie
       @ be_bytes 2 t @ [0, 0] @ fill (n - 12) body) (message_len t)"

definition start_reply :: "byte \<Rightarrow> bytes \<Rightarrow> bytes option" where
  "start_reply result hostname = encode_msg msgStartReply
     (be_bytes 2 (0x0100 :: u16) @ [result, 0] @ be_bytes 4 (3 :: u32) @ be_bytes 4 (3 :: u32)
      @ be_bytes 2 (0 :: u16) @ be_bytes 2 (1 :: u16) @ fill 64 hostname @ fill 64 [0x57, 0x2D, 0x55, 0x49])"

definition stop_request :: "bytes option" where
  "stop_request = encode_msg msgStopReq [1]"

definition stop_reply :: "bytes option" where
  "stop_reply = encode_msg msgStopReply [1]"

definition echo_request :: "u32 \<Rightarrow> bytes option" where
  "echo_request i = encode_msg msgEchoReq (be_bytes 4 i)"

definition echo_reply :: "bytes \<Rightarrow> bytes option" where
  "echo_reply i = encode_msg msgEchoReply (fill 4 i @ [1, 0, 0, 0])"

record out_call =
  oc_peer_call_id :: u16
  oc_serial :: u16
  oc_window :: u16

definition parse_out_call :: "bytes \<Rightarrow> out_call" where
  "parse_out_call body = \<lparr>oc_peer_call_id = rd_be (take 2 body), oc_serial = rd_be (take 2 (drop 2 body)),
     oc_window = rd_be (take 2 (drop 20 body))\<rparr>"

definition out_call_reply :: "u16 \<Rightarrow> u16 \<Rightarrow> byte \<Rightarrow> u16 \<Rightarrow> bytes option" where
  "out_call_reply call_id peer_call_id result window = encode_msg msgOutCallReply
     (be_bytes 2 call_id @ be_bytes 2 peer_call_id @ [result, 0] @ be_bytes 2 (0 :: u16)
      @ be_bytes 4 (100000000 :: u32) @ be_bytes 2 window @ be_bytes 2 (0 :: u16) @ be_bytes 4 (0 :: u32))"

definition call_disconnect :: "u16 \<Rightarrow> byte \<Rightarrow> bytes option" where
  "call_disconnect call_id result = encode_msg msgCallDisc (fill 136 (be_bytes 2 call_id @ [result]))"

lemma fill_length [simp]: "length (fill n bs) = n"
  by (simp add: fill_def)

lemma fill_id: "length bs = n \<Longrightarrow> fill n bs = bs"
  by (simp add: fill_def)

lemma message_len_bounds: "message_len t = Some n \<Longrightarrow> 16 \<le> n \<and> n \<le> 220"
  by (auto simp: message_len_def split: if_splits)

text \<open>
  What the server writes, a peer of the same protocol reads: a message of every known type
  is as long as its type says, its header is read back as that type and length whatever
  follows, and its body stands behind the header, cut or filled with zeros to that length.
\<close>

lemma message_roundtrip:
  assumes "encode_msg t body = Some m"
  shows "message_len t = Some (length m) \<and> parse_header (m @ rest) = Some (t, length m)
    \<and> drop 12 m = fill (length m - 12) body"
proof -
  from assms obtain n where n: "message_len t = Some n"
    and m: "m = be_bytes 2 (of_nat n :: u16) @ be_bytes 2 (1 :: u16) @ be_bytes 4 magicCookie
       @ be_bytes 2 t @ [0, 0] @ fill (n - 12) body"
    by (auto simp: encode_msg_def)
  note b = message_len_bounds [OF n]
  have l: "length m = n"
    using b by (simp add: m) arith
  have d: "drop 4 (m @ rest) = be_bytes 4 magicCookie @ be_bytes 2 t @ [0, 0] @ fill (n - 12) body @ rest"
    "drop 8 (m @ rest) = be_bytes 2 t @ [0, 0] @ fill (n - 12) body @ rest"
    "drop 2 (m @ rest) = be_bytes 2 (1 :: u16) @ be_bytes 4 magicCookie @ be_bytes 2 t @ [0, 0] @ fill (n - 12) body @ rest"
    "take 2 (m @ rest) = be_bytes 2 (of_nat n :: u16)" "drop 12 m = fill (n - 12) body"
    by (simp_all add: m)
  have "unat (of_nat n :: u16) = n"
    using b by (simp add: unat_of_nat)
  then have "parse_header (m @ rest) = Some (t, n)"
    using b n l unfolding parse_header_def d Let_def by simp
  with n l d(5) show ?thesis by simp
qed

section \<open>The relay of one call\<close>

text \<open>
  The mutex-protected state of a call, and its three users: fromPPPD for each frame, received
  for each packet of the device, acker for each tick. What they send or write is their result.
\<close>

record pptp_call =
  cl_peer_id :: u16
  cl_send_seq :: u32
  cl_recv_seq :: u32
  cl_got_any :: bool
  cl_ack_pending :: bool

definition new_call :: "u16 \<Rightarrow> pptp_call" where
  "new_call peer = \<lparr>cl_peer_id = peer, cl_send_seq = 0, cl_recv_seq = 0, cl_got_any = False, cl_ack_pending = False\<rparr>"

definition call_frame :: "pptp_call \<Rightarrow> bytes \<Rightarrow> gre_packet \<times> pptp_call" where
  "call_frame cl frame =
     (let cl = cl\<lparr>cl_send_seq := cl_send_seq cl + 1\<rparr>;
          p = \<lparr>gp_call_id = cl_peer_id cl, gp_seq = cl_send_seq cl, gp_has_seq = True, gp_ack = 0,
               gp_has_ack = False, gp_payload = frame\<rparr>
      in if cl_ack_pending cl
         then (p\<lparr>gp_ack := cl_recv_seq cl, gp_has_ack := True\<rparr>, cl\<lparr>cl_ack_pending := False\<rparr>)
         else (p, cl))"

text \<open>fromPPPD for one read of the terminal: the packets sent, in order.\<close>

definition call_from_pppd :: "deframer \<Rightarrow> pptp_call \<Rightarrow> bytes \<Rightarrow> bytes list \<times> deframer \<times> pptp_call" where
  "call_from_pppd d cl b =
     (let (frames, d') = deframe d b;
          (out, cl') = foldl (\<lambda>(out, cl) f. let (p, cl') = call_frame cl f in (out @ [append_gre [] p], cl')) ([], cl) frames
      in (out, d', cl'))"

definition call_received :: "pptp_call \<Rightarrow> gre_packet \<Rightarrow> bytes option \<times> pptp_call" where
  "call_received cl p =
     (if \<not> gp_has_seq p then (None, cl)
      else if cl_got_any cl \<and> \<not> seq_after (gp_seq p) (cl_recv_seq cl) then (None, cl)
      else let cl = cl\<lparr>cl_recv_seq := gp_seq p, cl_got_any := True, cl_ack_pending := True\<rparr> in
        (if gp_payload p = [] then None else Some (append_framed [] (gp_payload p)), cl))"

definition call_acker :: "pptp_call \<Rightarrow> bytes option \<times> pptp_call" where
  "call_acker cl =
     (if \<not> cl_ack_pending cl then (None, cl)
      else (Some (append_gre [] \<lparr>gp_call_id = cl_peer_id cl, gp_seq = 0, gp_has_seq = False,
                    gp_ack = cl_recv_seq cl, gp_has_ack = True, gp_payload = []\<rparr>),
            cl\<lparr>cl_ack_pending := False\<rparr>))"

text \<open>
  The states a call reaches in any interleaving of the three, with the sequence numbers it took
  from the device, the last first, and the packets it sent, the last first.
\<close>

inductive call_run :: "u16 \<Rightarrow> pptp_call \<Rightarrow> u32 list \<Rightarrow> gre_packet list \<Rightarrow> bool" for peer where
  start: "call_run peer (new_call peer) [] []"
| frame: "call_run peer cl taken sent \<Longrightarrow> call_frame cl f = (p, cl') \<Longrightarrow> call_run peer cl' taken (p # sent)"
| packet: "call_run peer cl taken sent \<Longrightarrow> call_received cl p = (out, cl') \<Longrightarrow>
    call_run peer cl' (if cl' = cl then taken else gp_seq p # taken) sent"
| tick: "call_run peer cl taken sent \<Longrightarrow> call_acker cl = (Some b, cl') \<Longrightarrow> parse_gre b = Some p \<Longrightarrow>
    call_run peer cl' taken (p # sent)"
| idle: "call_run peer cl taken sent \<Longrightarrow> call_acker cl = (None, cl') \<Longrightarrow> call_run peer cl' taken sent"

definition acks :: "gre_packet list \<Rightarrow> u32 list" where
  "acks sent = map gp_ack (filter gp_has_ack sent)"

definition seqs :: "gre_packet list \<Rightarrow> u32 list" where
  "seqs sent = map gp_seq (filter gp_has_seq sent)"

lemma seq_after_irrefl [simp]: "\<not> seq_after a a"
  by (simp add: seq_after_def)

definition call_inv :: "pptp_call \<Rightarrow> u32 list \<Rightarrow> gre_packet list \<Rightarrow> bool" where
  "call_inv cl taken sent \<longleftrightarrow>
     successively seq_after taken
     \<and> cl_got_any cl = (taken \<noteq> []) \<and> (taken \<noteq> [] \<longrightarrow> cl_recv_seq cl = hd taken)
     \<and> (cl_ack_pending cl \<longrightarrow> taken \<noteq> [])
     \<and> subseq (acks sent) (if cl_ack_pending cl then tl taken else taken)
     \<and> cl_send_seq cl = of_nat (length (seqs sent))
     \<and> seqs sent = map (\<lambda>n. of_nat (length (seqs sent) - n)) [0..<length (seqs sent)]"

lemma seqs_step: "map (\<lambda>n. of_nat (Suc k - n)) [0..<Suc k] = of_nat (Suc k) # map (\<lambda>n. of_nat (k - n) :: 'a::semiring_1) [0..<k]"
  by (simp only: map_upt_Suc diff_Suc_Suc diff_zero)

lemma subseq_tl: "taken \<noteq> [] \<Longrightarrow> subseq xs (tl taken) \<Longrightarrow> subseq xs taken"
  by (metis list.exhaust_sel list_emb_Cons)

lemma subseq_ack: "taken \<noteq> [] \<Longrightarrow> subseq xs (tl taken) \<Longrightarrow> subseq (hd taken # xs) taken"
  by (metis list.exhaust_sel subseq_Cons2)

lemma acker_packet:
  assumes "call_acker cl = (Some b, cl')" "parse_gre b = Some p"
  shows "cl_ack_pending cl" "cl' = cl\<lparr>cl_ack_pending := False\<rparr>" "\<not> gp_has_seq p" "gp_has_ack p"
    "gp_ack p = cl_recv_seq cl"
proof -
  let ?q = "\<lparr>gp_call_id = cl_peer_id cl, gp_seq = 0, gp_has_seq = False, gp_ack = cl_recv_seq cl,
    gp_has_ack = True, gp_payload = []\<rparr>"
  from assms(1) show "cl_ack_pending cl" "cl' = cl\<lparr>cl_ack_pending := False\<rparr>"
    by (auto simp: call_acker_def split: if_splits)
  from assms(1) have b: "b = append_gre [] ?q"
    by (auto simp: call_acker_def split: if_splits)
  have "parse_gre (append_gre [] ?q) = Some ?q"
    using parse_append_gre [of ?q "[]"] by (simp add: gre_packet_ok_def)
  then show "\<not> gp_has_seq p" "gp_has_ack p" "gp_ack p = cl_recv_seq cl"
    using assms(2) b by auto
qed

lemma call_run_inv: "call_run peer cl taken sent \<Longrightarrow> call_inv cl taken sent"
proof (induction rule: call_run.induct)
  case start
  show ?case by (simp add: call_inv_def new_call_def acks_def seqs_def)
next
  case (frame cl taken sent f p cl')
  then have i: "call_inv cl taken sent" by simp
  have p: "gp_has_seq p" "gp_seq p = cl_send_seq cl + 1" "gp_has_ack p = cl_ack_pending cl"
      "gp_has_ack p \<Longrightarrow> gp_ack p = cl_recv_seq cl"
      "cl_send_seq cl' = cl_send_seq cl + 1" "cl_got_any cl' = cl_got_any cl" "cl_recv_seq cl' = cl_recv_seq cl"
      "\<not> cl_ack_pending cl'"
    using frame(2) by (auto simp: call_frame_def Let_def split: if_splits)
  have "seqs (p # sent) = gp_seq p # seqs sent"
    by (simp add: seqs_def p(1))
  moreover have "subseq (acks (p # sent)) taken"
    using i p(3,4) subseq_ack subseq_tl by (cases "cl_ack_pending cl") (auto simp: acks_def call_inv_def)
  ultimately show ?case
    using i p seqs_step [of "length (seqs sent)", where ?'a = u32]
    by (simp add: call_inv_def del: upt_Suc)
next
  case (packet cl taken sent p out cl')
  then have i: "call_inv cl taken sent" by simp
  show ?case
  proof (cases "cl' = cl")
    case True
    with i show ?thesis by simp
  next
    case False
    then have "\<not> (cl_got_any cl \<and> \<not> seq_after (gp_seq p) (cl_recv_seq cl))"
      and c: "cl' = cl\<lparr>cl_recv_seq := gp_seq p, cl_got_any := True, cl_ack_pending := True\<rparr>"
      using packet(2) by (auto simp: call_received_def Let_def split: if_splits)
    then have "successively seq_after (gp_seq p # taken)"
      using i by (cases taken) (auto simp: call_inv_def)
    moreover have "subseq (acks sent) taken"
      using i subseq_tl by (auto simp: call_inv_def split: if_splits)
    ultimately show ?thesis
      using i False by (simp add: call_inv_def c)
  qed
next
  case (tick cl taken sent b cl' p)
  note a = acker_packet [OF tick(2,3)]
  have "subseq (acks (p # sent)) taken"
    using tick(4) a subseq_ack by (auto simp: call_inv_def acks_def)
  with tick(4) a show ?case
    by (simp add: call_inv_def seqs_def)
next
  case (idle cl taken sent cl')
  then show ?case by (auto simp: call_acker_def split: if_splits)
qed

text \<open>
  C37. The relay of a call, in every interleaving of frames from pppd, packets from the device
  and ticks of the acknowledger: the packets taken from the device have sequence numbers that
  each come after the one before, so none is taken twice in a row or late; those sent count
  1, 2, 3 and on; and the acknowledgements sent are, in order, numbers that were taken, each
  acknowledged at most once.
\<close>

theorem call_relay_orders:
  assumes "call_run peer cl taken sent"
  shows "successively seq_after taken
    \<and> seqs sent = map (\<lambda>n. of_nat (length (seqs sent) - n)) [0..<length (seqs sent)]
    \<and> subseq (acks sent) taken"
  using call_run_inv [OF assms] subseq_tl by (auto simp: call_inv_def split: if_splits)

section \<open>The loop of one control connection\<close>

text \<open>
  A call is a pointer in the code: two calls may have the same id one after the other, and are
  different all the same. What one turn of the loop meets besides its event: what startCall
  gives, and whether the write whose error is looked at succeeds.
\<close>

record call_ref =
  cr_handle :: nat
  cr_id :: u16

record turn =
  tn_start :: "call_ref option"
  tn_sent :: bool

datatype pptp_event = ReadErr | TimerFired | CallEnded call_ref | Message u16 bytes

datatype pptp_effect = Send "bytes option" | Reset int | Started call_ref | EndCall call_ref

record control =
  ct_started :: bool
  ct_call :: "call_ref option"
  ct_echo_id :: u32
  ct_echo_pending :: bool

definition new_control :: control where
  "new_control = \<lparr>ct_started = False, ct_call = None, ct_echo_id = 0, ct_echo_pending = False\<rparr>"

abbreviation (input) recvWindow :: u16 where "recvWindow \<equiv> 64"
abbreviation (input) echoInterval :: int where "echoInterval \<equiv> 60"
abbreviation (input) stopTimeout :: int where "stopTimeout \<equiv> 5"

text \<open>Every return of serve runs the deferred function: a call that is left is ended.\<close>

definition serve_return :: "control \<Rightarrow> pptp_effect list \<Rightarrow> pptp_effect list \<times> control option" where
  "serve_return c effs = (effs @ (case ct_call c of None \<Rightarrow> [] | Some r \<Rightarrow> [EndCall r]), None)"

text \<open>A write whose failure ends the loop.\<close>

definition send_or_return :: "turn \<Rightarrow> control \<Rightarrow> pptp_effect list \<Rightarrow> bytes option \<Rightarrow> pptp_effect list \<Rightarrow> pptp_effect list \<times> control option" where
  "send_or_return t c effs m after =
     (if tn_sent t then (effs @ [Send m] @ after, Some c) else serve_return c (effs @ [Send m]))"

definition serve_message :: "turn \<Rightarrow> control \<Rightarrow> bytes \<Rightarrow> u16 \<Rightarrow> bytes \<Rightarrow> pptp_effect list \<times> control option" where
  "serve_message t c hostname typ b =
     (let c = c\<lparr>ct_echo_pending := False\<rparr>; effs = [Reset echoInterval] in
      if \<not> ct_started c \<and> typ \<noteq> msgStartReq then serve_return c effs
      else if typ = msgStartReq then
        (if ct_started c then serve_return c effs
         else send_or_return t (c\<lparr>ct_started := True\<rparr>) effs (start_reply 1 hostname) [])
      else if typ = msgEchoReq then send_or_return t c effs (echo_reply (take 4 b)) []
      else if typ = msgEchoReply then (effs, Some c)
      else if typ = msgOutCallReq then
        (let oc = parse_out_call b in
         if ct_call c \<noteq> None then (effs @ [Send (out_call_reply 0 (oc_peer_call_id oc) 4 recvWindow)], Some c)
         else case tn_start t of
             None \<Rightarrow> (effs @ [Send (out_call_reply 0 (oc_peer_call_id oc) 2 recvWindow)], Some c)
           | Some r \<Rightarrow> send_or_return t (c\<lparr>ct_call := Some r\<rparr>) (effs @ [Started r])
                 (out_call_reply (cr_id r) (oc_peer_call_id oc) 1 recvWindow) [])
      else if typ = msgCallClear then
        (case ct_call c of
           None \<Rightarrow> (effs, Some c)
         | Some r \<Rightarrow> (effs @ [EndCall r, Send (call_disconnect (cr_id r) 3)], Some (c\<lparr>ct_call := None\<rparr>)))
      else if typ = msgSetLinkInfo \<or> typ = msgWANError then (effs, Some c)
      else if typ = msgStopReq then serve_return c (effs @ [Send stop_reply])
      else if typ = msgStopReply then serve_return c effs
      else if typ = msgInCallReq \<or> typ = msgInCallReply \<or> typ = msgInCallConn then serve_return c effs
      else (effs, Some c))"

definition serve_step :: "bytes \<Rightarrow> control \<Rightarrow> turn \<Rightarrow> pptp_event \<Rightarrow> pptp_effect list \<times> control option" where
  "serve_step hostname c t ev =
     (case ev of
        ReadErr \<Rightarrow> serve_return c []
      | TimerFired \<Rightarrow>
          if \<not> ct_started c \<or> ct_echo_pending c then serve_return c []
          else let c = c\<lparr>ct_echo_id := ct_echo_id c + 1, ct_echo_pending := True\<rparr>
            in send_or_return t c [] (echo_request (ct_echo_id c)) [Reset echoInterval]
      | CallEnded gone \<Rightarrow>
          if Some gone \<noteq> ct_call c then ([], Some c)
          else ([Send (call_disconnect (cr_id gone) 1), Send stop_request, Reset stopTimeout],
                Some (c\<lparr>ct_call := None, ct_echo_pending := True\<rparr>))
      | Message typ b \<Rightarrow> serve_message t c hostname typ b)"

fun serve_run :: "bytes \<Rightarrow> control \<Rightarrow> (turn \<times> pptp_event) list \<Rightarrow> pptp_effect list \<times> control option" where
  "serve_run h c [] = ([], Some c)"
| "serve_run h c ((t, ev) # evs) =
     (case serve_step h c t ev of
        (effs, None) \<Rightarrow> (effs, None)
      | (effs, Some c') \<Rightarrow> (case serve_run h c' evs of (effs', res) \<Rightarrow> (effs @ effs', res)))"

definition call_left :: "control option \<Rightarrow> call_ref option" where
  "call_left res = (case res of None \<Rightarrow> None | Some c \<Rightarrow> ct_call c)"

definition call_over :: "pptp_effect list \<Rightarrow> pptp_event list \<Rightarrow> call_ref \<Rightarrow> bool" where
  "call_over effs evs r \<longleftrightarrow> EndCall r \<in> set effs \<or> CallEnded r \<in> set evs"

lemma serve_step_calls:
  assumes "serve_step h c t ev = (effs, res)"
  shows "ct_call c = Some r \<or> Started r \<in> set effs \<Longrightarrow> call_left res = Some r \<or> call_over effs [ev] r"
    and "Started r \<in> set effs \<Longrightarrow> ct_call c = None"
proof -
  note defs = serve_step_def serve_message_def serve_return_def send_or_return_def call_left_def call_over_def Let_def
  show "ct_call c = Some r \<or> Started r \<in> set effs \<Longrightarrow> call_left res = Some r \<or> call_over effs [ev] r"
    using assms by (cases ev) (auto simp: defs split: if_splits option.splits)
  show "Started r \<in> set effs \<Longrightarrow> ct_call c = None"
    using assms by (cases ev) (auto simp: defs split: if_splits option.splits)
qed

lemma serve_run_calls:
  "serve_run h c evs = (effs, res) \<Longrightarrow> ct_call c = Some r \<or> Started r \<in> set effs \<Longrightarrow>
   call_left res = Some r \<or> call_over effs (map snd evs) r"
proof (induction h c evs arbitrary: effs res rule: serve_run.induct)
  case (1 h c)
  then show ?case by (auto simp: call_left_def)
next
  case (2 h c t ev evs)
  obtain effs1 res1 where s: "serve_step h c t ev = (effs1, res1)" by fastforce
  show ?case
  proof (cases res1)
    case None
    with 2(2,3) s serve_step_calls(1) [OF s] show ?thesis
      by (auto simp: call_over_def call_left_def)
  next
    case (Some c1)
    obtain effs2 res2 where r: "serve_run h c1 evs = (effs2, res2)" by fastforce
    with Some s 2(2) have e: "effs = effs1 @ effs2" "res = res2"
      by auto
    show ?thesis
      using 2(1) [OF s [symmetric] Some r] 2(3) serve_step_calls(1) [OF s, of r] Some e
      by (auto simp: call_over_def call_left_def)
  qed
qed

lemma serve_silent:
  "serve_run h c evs = (effs, res) \<Longrightarrow> \<not> ct_started c \<Longrightarrow> ct_call c = None \<Longrightarrow>
   \<forall>b. Message msgStartReq b \<notin> set (map snd evs) \<Longrightarrow> set effs \<subseteq> range Reset"
proof (induction h c evs arbitrary: effs res rule: serve_run.induct)
  case (2 h c t ev evs)
  obtain effs1 res1 where s: "serve_step h c t ev = (effs1, res1)" by fastforce
  have one: "set effs1 \<subseteq> range Reset \<and> (\<forall>c1. res1 = Some c1 \<longrightarrow> c1 = c)"
    using s 2(3-5) by (cases ev) (auto simp: serve_step_def serve_message_def serve_return_def Let_def split: if_splits)
  show ?case
  proof (cases res1)
    case None
    with 2(2) s one show ?thesis by auto
  next
    case (Some c1)
    obtain effs2 res2 where r: "serve_run h c1 evs = (effs2, res2)" by fastforce
    have c1: "\<not> ct_started c1" "ct_call c1 = None"
      using Some one 2(3,4) by simp_all
    have rest: "\<forall>b. Message msgStartReq b \<notin> set (map snd evs)"
      using 2(5) by simp
    have "effs = effs1 @ effs2"
      using 2(2) Some s r by simp
    with 2(1) [OF s [symmetric] Some r c1 rest] one show ?thesis by simp
  qed
qed simp

text \<open>
  C38. A control connection never leaves a pppd behind: in every run of its loop from the start,
  whatever arrives and whichever writes fail, a call that was started is the one the loop holds,
  or was ended by it, or had ended itself; so it holds one call at most, and when the loop has
  returned every call it started is over. And before a start request nothing is sent and no
  call is started.
\<close>

theorem serve_never_leaks:
  assumes "serve_run h new_control evs = (effs, res)" "Started r \<in> set effs"
  shows "(call_left res = Some r \<or> call_over effs (map snd evs) r)
    \<and> (res = None \<longrightarrow> call_over effs (map snd evs) r)
    \<and> (\<exists>b. Message msgStartReq b \<in> set (map snd evs))"
proof -
  have "call_left res = Some r \<or> call_over effs (map snd evs) r"
    using serve_run_calls [OF assms(1)] assms(2) by blast
  moreover have "\<exists>b. Message msgStartReq b \<in> set (map snd evs)"
    using serve_silent [OF assms(1)] assms(2) by (auto simp: new_control_def)
  ultimately show ?thesis
    by (auto simp: call_left_def)
qed

section \<open>Witnesses\<close>

theorem call_relay_orders_witness:
  "\<exists>cl sent. call_run 7 cl [] sent \<and> seqs sent = [1]"
proof -
  obtain p cl where f: "call_frame (new_call 7) [1, 2] = (p, cl)"
    by fastforce
  have r: "call_run 7 cl [] [p]"
    by (rule call_run.frame [OF call_run.start f])
  have "gp_has_seq p"
    using f by (auto simp: call_frame_def new_call_def Let_def)
  then have "length (seqs [p]) = 1"
    by (simp add: seqs_def)
  with call_relay_orders [OF r] have "seqs [p] = [1]"
    by simp
  with r show ?thesis by blast
qed

definition demo_call :: call_ref where
  "demo_call = \<lparr>cr_handle = 1, cr_id = 77\<rparr>"

definition demo_events :: "(turn \<times> pptp_event) list" where
  "demo_events = (let t = \<lparr>tn_start = Some demo_call, tn_sent = True\<rparr> in
     [(t, Message 1 []), (t, Message 7 (replicate 156 0)), (t, ReadErr)])"

theorem serve_never_leaks_witness:
  "call_over (fst (serve_run [] new_control demo_events)) (map snd demo_events) demo_call"
proof -
  have s: "snd (serve_run [] new_control demo_events) = None"
      "Started demo_call \<in> set (fst (serve_run [] new_control demo_events))"
    by (simp_all add: demo_events_def Let_def serve_step_def serve_message_def new_control_def send_or_return_def
      serve_return_def)
  obtain effs res where r: "serve_run [] new_control demo_events = (effs, res)" by fastforce
  from serve_never_leaks [OF r] s r show ?thesis
    by simp
qed

end
