(* ===== verification/Replay.thy ===== *)
theory Replay imports Prelude "HOL-Library.AList" begin

text \<open>
  The replay rule of internal/stealthgw/replay.go: an opening that was seen once never starts a
  session again, in one run or after any restart. Times are the code's uint64 seconds. The file
  that keeps the limit is modelled by what reading it gives; crypto/sha256 is a parameter of the
  format.
\<close>

section \<open>The rule\<close>

abbreviation (input) window :: u64 where "window \<equiv> 60"
abbreviation (input) limitStep :: u64 where "limitStep \<equiv> 20"
abbreviation (input) limitAhead :: u64 where "limitAhead \<equiv> 10"

definition cacheMax :: nat where "cacheMax = 262144"

datatype verdict = Accepted | OutsideWindow | AtFloor | SeenBefore | CacheFull | AboveLimit

type_synonym salt = bytes

record replay =
  rp_floor :: u64
  rp_limit :: u64
  rp_writing :: bool
  rp_salts :: "(salt \<times> u64) list"
  rp_oldest :: u64
  rp_failures :: nat

text \<open>
  The cache is a Go map: an association list with distinct keys here, so that its length is the
  map's.
\<close>

definition open_replay :: "u64 option \<Rightarrow> u64 \<Rightarrow> replay" where
  "open_replay disk now =
     (let at = (case disk of None \<Rightarrow> now + window | Some limit \<Rightarrow> limit)
      in \<lparr>rp_floor = at, rp_limit = at, rp_writing = False, rp_salts = [], rp_oldest = 0, rp_failures = 0\<rparr>)"

definition expire_locked :: "replay \<Rightarrow> u64 \<Rightarrow> replay" where
  "expire_locked r now =
     (if rp_salts r = [] \<or> rp_oldest r + window \<ge> now then r
      else let cut = now - window;
               oldest = foldl (\<lambda>o' (s, ts). if ts < cut then o' else if ts < o' then ts else o') now (rp_salts r)
        in r\<lparr>rp_salts := filter (\<lambda>(s, ts). \<not> ts < cut) (rp_salts r), rp_oldest := oldest\<rparr>)"

definition judge_locked :: "replay \<Rightarrow> salt \<Rightarrow> u64 \<Rightarrow> u64 \<Rightarrow> (verdict \<times> u64) \<times> replay" where
  "judge_locked r s ts now =
     (if ts \<le> rp_floor r then ((AtFloor, 0), r)
      else if map_of (rp_salts r) s \<noteq> None then ((SeenBefore, 0), r)
      else let r' = (if length (rp_salts r) \<ge> cacheMax then expire_locked r now else r) in
        if length (rp_salts r) \<ge> cacheMax \<and> length (rp_salts r') \<ge> cacheMax then ((CacheFull, 0), r')
        else if ts > rp_limit r' then ((AboveLimit, ts + limitStep), r')
        else ((Accepted, 0), r'))"

definition judge :: "replay \<Rightarrow> salt \<Rightarrow> u64 \<Rightarrow> u64 \<Rightarrow> (verdict \<times> u64) \<times> replay" where
  "judge r s ts now =
     (if ts + window < now \<or> ts > now + window then ((OutsideWindow, 0), r) else judge_locked r s ts now)"

definition record_locked :: "replay \<Rightarrow> salt \<Rightarrow> u64 \<Rightarrow> replay" where
  "record_locked r s ts =
     (if length (rp_salts r) \<ge> cacheMax then r
      else let r' = (if rp_salts r = [] \<or> ts < rp_oldest r then r\<lparr>rp_oldest := ts\<rparr> else r)
        in r'\<lparr>rp_salts := AList.update s ts (rp_salts r')\<rparr>)"

definition claim :: "replay \<Rightarrow> salt \<Rightarrow> u64 \<Rightarrow> u64 \<Rightarrow> (verdict \<times> u64) \<times> replay" where
  "claim r s ts now =
     (if ts + window < now \<or> ts > now + window then ((OutsideWindow, 0), r)
      else case judge_locked r s ts now of
          ((v, raise), r') \<Rightarrow> ((v, raise), if v = Accepted then record_locked r' s ts else r'))"

definition due :: "replay \<Rightarrow> u64 \<Rightarrow> u64 \<Rightarrow> u64 \<times> replay" where
  "due r now asked =
     (if rp_writing r then (0, r)
      else let want = (if rp_limit r < now + limitAhead then now + limitStep else 0);
               want = (if asked > rp_limit r then max want (min asked (now + window + limitStep)) else want)
        in if want \<le> rp_limit r then (0, r) else (want, r\<lparr>rp_writing := True\<rparr>))"

text \<open>write: what it leaves in memory when writeLimit succeeded or failed.\<close>

definition write_done :: "replay \<Rightarrow> u64 \<Rightarrow> bool \<Rightarrow> replay" where
  "write_done r limit ok =
     (if \<not> ok then r\<lparr>rp_writing := False, rp_failures := rp_failures r + 1\<rparr>
      else r\<lparr>rp_writing := False, rp_failures := 0, rp_limit := max (rp_limit r) limit\<rparr>)"

section \<open>The file\<close>

definition replay_magic :: bytes where
  "replay_magic = [0x57, 0x55, 0x49, 0x52, 0x50, 0x4C, 0x59, 0x31]"

definition limit_file :: "(bytes \<Rightarrow> bytes) \<Rightarrow> u64 \<Rightarrow> bytes" where
  "limit_file sha256 limit = (let b = replay_magic @ be_bytes 8 limit in b @ sha256 b)"

definition read_limit :: "(bytes \<Rightarrow> bytes) \<Rightarrow> bytes option \<Rightarrow> u64 option" where
  "read_limit sha256 file =
     (case file of
        None \<Rightarrow> None
      | Some b \<Rightarrow>
          if length b \<noteq> 48 \<or> take 8 b \<noteq> replay_magic then None
          else if sha256 (take 16 b) \<noteq> drop 16 b then None
          else Some (rd_be (take 8 (drop 8 b))))"

lemma read_limit_file:
  "(\<And>b. length (sha256 b) = 32) \<Longrightarrow> read_limit sha256 (Some (limit_file sha256 limit)) = Some limit"
  by (simp add: read_limit_def limit_file_def replay_magic_def Let_def)

section \<open>The rule over restarts\<close>

text \<open>
  A gateway with its rule: the rule in memory, what reading its file would give, the raise being
  written (due handed it out, write has not come back) and the clock; the openings judge let
  through in this run, or said were above the limit, which are being served: of a UDP gateway the
  one its reader has in hand, of a stream gateway (streams) any number, each in a goroutine of its
  own. And what became of openings: those that opened a session, in this run or an earlier one;
  those recorded in this run; and those recorded in an earlier run, at or below the limit that was
  in force when the run ended.

  The steps are the calls the gateways make, in any order, each at the clock's reading, and the
  clock never runs back. The reader of a UDP gateway judges an opening and then, with no other
  opening between, either opens its session and records it, or records it as one a limit dropped
  (spend), or lets it go. A goroutine of a stream gateway judges, and later claims, or records what
  opened nothing; a record never meets its salt under another timestamp, since no two proofs share
  a salt. A write may reach the disk and the process stop before it hears of it; the file may be
  lost; and the process may restart at any moment.
\<close>

record replay_sys =
  rs_mem :: replay
  rs_disk :: "u64 option"
  rs_pending :: "u64 option"
  rs_clock :: u64
  rs_judged :: "(salt \<times> u64 \<times> verdict) list"
  rs_opened :: "(salt \<times> u64) list"
  rs_recorded :: "(salt \<times> u64) list"
  rs_past :: "(salt \<times> u64) list"

definition first_start :: "u64 \<Rightarrow> replay_sys" where
  "first_start now =
     \<lparr>rs_mem = open_replay None now, rs_disk = None, rs_pending = None, rs_clock = now, rs_judged = [],
       rs_opened = [], rs_recorded = [], rs_past = []\<rparr>"

abbreviation (input) record_opening :: "replay_sys \<Rightarrow> salt \<Rightarrow> u64 \<Rightarrow> replay_sys" where
  "record_opening s salt ts \<equiv> s\<lparr>rs_mem := record_locked (rs_mem s) salt ts,
     rs_recorded := (if length (rp_salts (rs_mem s)) < cacheMax then [(salt, ts)] else []) @ rs_recorded s\<rparr>"

inductive replay_step :: "bool \<Rightarrow> replay_sys \<Rightarrow> replay_sys \<Rightarrow> bool" where
  judged: "streams \<or> rs_judged s = [] \<Longrightarrow> judge (rs_mem s) salt ts (rs_clock s) = ((v, raise), r) \<Longrightarrow>
     replay_step streams s (s\<lparr>rs_mem := r,
       rs_judged := (if v \<in> {Accepted, AboveLimit} then [(salt, ts, v)] else []) @ rs_judged s\<rparr>)"
| reader_opened: "\<not> streams \<Longrightarrow> rs_judged s = [(salt, ts, Accepted)] \<Longrightarrow>
     replay_step streams s ((record_opening s salt ts)\<lparr>rs_judged := [], rs_opened := (salt, ts) # rs_opened s\<rparr>)"
| reader_spent: "\<not> streams \<Longrightarrow> rs_judged s = [(salt, ts, v)] \<Longrightarrow>
     replay_step streams s ((record_opening s salt ts)\<lparr>rs_judged := []\<rparr>)"
| let_go: "x \<in> set (rs_judged s) \<Longrightarrow> replay_step streams s (s\<lparr>rs_judged := remove1 x (rs_judged s)\<rparr>)"
| claimed: "streams \<Longrightarrow> (salt, ts, Accepted) \<in> set (rs_judged s) \<Longrightarrow>
     claim (rs_mem s) salt ts (rs_clock s) = ((v, raise), r) \<Longrightarrow>
     replay_step streams s (s\<lparr>rs_mem := r, rs_judged := remove1 (salt, ts, Accepted) (rs_judged s),
       rs_opened := (if v = Accepted then [(salt, ts)] else []) @ rs_opened s,
       rs_recorded := (if v = Accepted then [(salt, ts)] else []) @ rs_recorded s\<rparr>)"
| proof_spent: "streams \<Longrightarrow> (salt, ts, v) \<in> set (rs_judged s) \<Longrightarrow>
     map_of (rp_salts (rs_mem s)) salt \<in> {None, Some ts} \<Longrightarrow>
     replay_step streams s ((record_opening s salt ts)\<lparr>rs_judged := remove1 (salt, ts, v) (rs_judged s)\<rparr>)"
| expired: "replay_step streams s (s\<lparr>rs_mem := expire_locked (rs_mem s) (rs_clock s)\<rparr>)"
| raised: "due (rs_mem s) (rs_clock s) asked = (want, r) \<Longrightarrow> 0 < want \<Longrightarrow>
     replay_step streams s (s\<lparr>rs_mem := r, rs_pending := Some want\<rparr>)"
| on_disk: "rs_pending s = Some want \<Longrightarrow> replay_step streams s (s\<lparr>rs_disk := Some want\<rparr>)"
| write_ok: "rs_pending s = Some want \<Longrightarrow> rs_disk s = Some want \<Longrightarrow>
     replay_step streams s (s\<lparr>rs_mem := write_done (rs_mem s) want True, rs_pending := None\<rparr>)"
| write_failed: "rs_pending s = Some want \<Longrightarrow>
     replay_step streams s (s\<lparr>rs_mem := write_done (rs_mem s) want False, rs_pending := None\<rparr>)"
| ticked: "rs_clock s \<le> now \<Longrightarrow> now < 2 ^ 63 \<Longrightarrow> replay_step streams s (s\<lparr>rs_clock := now\<rparr>)"
| restarted: "replay_step streams s (s\<lparr>rs_mem := open_replay (rs_disk s) (rs_clock s), rs_pending := None,
     rs_judged := [], rs_recorded := [],
     rs_past := filter (\<lambda>(salt, ts). ts \<le> rp_limit (rs_mem s)) (rs_recorded s) @ rs_past s\<rparr>)"
| file_lost: "replay_step streams s (s\<lparr>rs_disk := None\<rparr>)"

inductive replay_reachable :: "bool \<Rightarrow> replay_sys \<Rightarrow> bool" where
  start: "now < 2 ^ 63 \<Longrightarrow> replay_reachable streams (first_start now)"
| step: "replay_reachable streams s \<Longrightarrow> replay_step streams s t \<Longrightarrow> replay_reachable streams t"

subsection \<open>The invariant\<close>

text \<open>
  An opening is covered when the rule as it stands refuses it: its salt is in the cache, or its
  timestamp is at the floor or behind the window.
\<close>

definition covered :: "replay \<Rightarrow> u64 \<Rightarrow> salt \<Rightarrow> u64 \<Rightarrow> bool" where
  "covered r now s ts \<longleftrightarrow> map_of (rp_salts r) s = Some ts \<or> ts \<le> rp_floor r \<or> ts + window < now"

text \<open>
  The rule keeps what it has to: what opened a session or was recorded in an earlier run (sp) is at
  or below the limit; that and what was recorded in this run (rec) is no further ahead of the clock
  than the window, and covered.
\<close>

definition mem_ok :: "replay \<Rightarrow> u64 \<Rightarrow> (salt \<times> u64) list \<Rightarrow> (salt \<times> u64) list \<Rightarrow> bool" where
  "mem_ok r now sp rec \<longleftrightarrow>
     now < 2 ^ 63 \<and> rp_oldest r \<le> now + window \<and> rp_limit r \<le> now + window + limitStep \<and>
     rp_floor r \<le> rp_limit r \<and> (\<forall>s ts. (s, ts) \<in> set sp \<longrightarrow> ts \<le> rp_limit r) \<and>
     (\<forall>s ts. (s, ts) \<in> set sp \<union> set rec \<longrightarrow> ts \<le> now + window \<and> covered r now s ts)"

text \<open>
  What is being served was let through by judge: no further ahead than the window, and, when it was
  accepted, at or below the limit. The one a reader has in hand moreover is not in the cache, has
  its room there, and opened no session before.
\<close>

definition judged_ok :: "bool \<Rightarrow> replay \<Rightarrow> u64 \<Rightarrow> (salt \<times> u64 \<times> verdict) list \<Rightarrow> (salt \<times> u64) list \<Rightarrow> bool" where
  "judged_ok streams r now js opened \<longleftrightarrow>
     (\<forall>(s, ts, v) \<in> set js. ts \<le> now + window \<and> (v = Accepted \<longrightarrow> ts \<le> rp_limit r)) \<and>
     (\<not> streams \<longrightarrow> length js \<le> 1 \<and> (\<forall>(s, ts, v) \<in> set js. map_of (rp_salts r) s = None \<and>
        length (rp_salts r) < cacheMax \<and> (v = Accepted \<longrightarrow> (s, ts) \<notin> set opened)))"

definition replay_inv :: "bool \<Rightarrow> replay_sys \<Rightarrow> bool" where
  "replay_inv streams s \<longleftrightarrow>
     mem_ok (rs_mem s) (rs_clock s) (rs_opened s @ rs_past s) (rs_recorded s) \<and> distinct (rs_opened s) \<and>
     judged_ok streams (rs_mem s) (rs_clock s) (rs_judged s) (rs_opened s) \<and>
     (rs_pending s \<noteq> None \<longleftrightarrow> rp_writing (rs_mem s)) \<and>
     (case rs_disk s of None \<Rightarrow> True | Some d \<Rightarrow> rp_limit (rs_mem s) \<le> d \<and> d \<le> rs_clock s + window + limitStep) \<and>
     (case rs_pending s of None \<Rightarrow> True
      | Some w \<Rightarrow> rp_limit (rs_mem s) < w \<and> w \<le> rs_clock s + window + limitStep)"

lemma map_of_filter_None: "map_of xs k = None \<Longrightarrow> map_of (filter P xs) k = None"
  by (simp add: map_of_eq_None_iff) force

lemma expire_oldest_le:
  "foldl (\<lambda>o' (s, ts). if ts < k then o' else if ts < o' then ts else o') (b :: u64) xs \<le> b"
proof (induction xs arbitrary: b)
  case (Cons x xs)
  obtain s ts where x: "x = (s, ts)" by (cases x)
  let ?b = "if ts < k then b else if ts < b then ts else b"
  have "?b \<le> b" by (simp add: less_imp_le)
  with Cons [of ?b] show ?case
    unfolding x foldl_Cons prod.case by (rule order_trans)
qed simp

lemma expire_fields [simp]:
  "rp_limit (expire_locked r now) = rp_limit r" "rp_floor (expire_locked r now) = rp_floor r"
  "rp_writing (expire_locked r now) = rp_writing r"
  by (simp_all add: expire_locked_def Let_def)

text \<open>Sums of clock readings and the window do not wrap: read as naturals they are sums.\<close>

lemma unat_plus64: "unat (a :: u64) + unat (b :: u64) < 18446744073709551616 \<Longrightarrow> unat (a + b) = unat a + unat b"
  by (simp add: unat_add_lem [symmetric])

lemma unat_less63: "(now :: u64) < 2 ^ 63 \<longleftrightarrow> unat now < 9223372036854775808"
  by (simp add: word_less_nat_alt)

lemma clock_plus:
  assumes "(now :: u64) < 2 ^ 63"
  shows "unat (now + 60) = unat now + 60" "unat (now + 80) = unat now + 80"
    "unat (now + 20) = unat now + 20" "unat (now + 10) = unat now + 10"
  using assms [unfolded unat_less63] by (simp_all add: unat_plus64)

lemmas u64_nat = word_less_nat_alt word_le_nat_alt

lemma behind_window:
  assumes "o' + window < now" "o' \<le> now + window" "(now :: u64) < 2 ^ 63" "t < now - window"
  shows "t + window < now"
proof -
  have o': "unat (o' + 60) = unat o' + 60"
    using assms(2,3) clock_plus [OF assms(3)] by (simp add: unat_plus64 u64_nat)
  then have g: "60 < unat now" using assms(1) by (simp add: u64_nat)
  then have "unat (now - 60) = unat now - 60"
    by (simp add: unat_sub u64_nat)
  then have "unat t < unat now - 60" using assms(4) by (simp add: u64_nat)
  moreover then have "unat (t + 60) = unat t + 60" using assms(3) by (simp add: unat_plus64 u64_nat)
  ultimately show ?thesis by (simp add: u64_nat)
qed

lemma expire_covered:
  assumes "now < 2 ^ 63" "rp_oldest r \<le> now + window" "covered r now s ts"
  shows "covered (expire_locked r now) now s ts"
proof (cases "rp_salts r = [] \<or> rp_oldest r + window \<ge> now")
  case True
  then show ?thesis using assms(3) by (auto simp: expire_locked_def)
next
  case False
  then have "rp_oldest r + window < now" by auto
  then have old: "t + window < now" if "t < now - window" for t
    using behind_window that assms(1,2) by blast
  show ?thesis
    using False assms(3) old [of ts]
    by (auto simp: expire_locked_def Let_def covered_def intro: map_of_filter_Some)
qed

lemma expire_oldest: "rp_oldest r \<le> now + window \<Longrightarrow> now < 2 ^ 63 \<Longrightarrow> rp_oldest (expire_locked r now) \<le> now + window"
proof -
  assume a: "rp_oldest r \<le> now + window" "now < 2 ^ 63"
  have "now \<le> now + window" using clock_plus [OF a(2)] by (simp add: u64_nat)
  then show ?thesis
    using a(1) expire_oldest_le [of "now - window" now "rp_salts r"]
    by (auto simp: expire_locked_def Let_def intro: order_trans)
qed

lemma expire_mem_ok: "mem_ok r now sp rec \<Longrightarrow> mem_ok (expire_locked r now) now sp rec"
  unfolding mem_ok_def by (auto intro: expire_covered expire_oldest)

lemma expire_none: "map_of (rp_salts r) s = None \<Longrightarrow> map_of (rp_salts (expire_locked r now)) s = None"
  by (simp add: expire_locked_def Let_def map_of_filter_None)

subsection \<open>Every step keeps it\<close>

lemma judge_locked_fields:
  assumes "judge_locked r s ts now = ((v, raise), r')"
  shows "r' = r \<or> r' = expire_locked r now"
    "v = Accepted \<Longrightarrow> rp_floor r < ts \<and> ts \<le> rp_limit r \<and> map_of (rp_salts r) s = None \<and> length (rp_salts r') < cacheMax"
  using assms by (auto simp: judge_locked_def Let_def not_le not_less split: if_splits)

lemma judge_locked_mem_ok:
  "judge_locked r s ts now = ((v, raise), r') \<Longrightarrow> mem_ok r now sp rec \<Longrightarrow> mem_ok r' now sp rec"
  using judge_locked_fields(1) expire_mem_ok by metis

lemma record_locked_fields [simp]:
  "rp_limit (record_locked r s ts) = rp_limit r" "rp_floor (record_locked r s ts) = rp_floor r"
  "rp_writing (record_locked r s ts) = rp_writing r"
  by (simp_all add: record_locked_def Let_def)

lemma record_locked_salts:
  "length (rp_salts r) < cacheMax \<Longrightarrow> map_of (rp_salts (record_locked r s ts)) = (map_of (rp_salts r))(s \<mapsto> ts)"
  by (simp add: record_locked_def Let_def update_conv')

lemma record_locked_oldest:
  "rp_oldest r \<le> b \<Longrightarrow> ts \<le> b \<Longrightarrow> rp_oldest (record_locked r s ts) \<le> b"
  by (simp add: record_locked_def Let_def)

text \<open>
  Recording keeps what is covered and covers the opening itself, when there is room and the cache
  does not hold the salt under another timestamp.
\<close>

lemma record_mem_ok:
  assumes ok: "mem_ok r now sp rec" and free: "map_of (rp_salts r) s \<in> {None, Some ts}"
    and ts: "ts \<le> now + window"
  shows "mem_ok (record_locked r s ts) now sp ((if length (rp_salts r) < cacheMax then [(s, ts)] else []) @ rec)"
proof (cases "length (rp_salts r) < cacheMax")
  case True
  have "covered (record_locked r s ts) now s' t" if "covered r now s' t" for s' t
    using that free True by (auto simp: covered_def record_locked_salts)
  moreover have "covered (record_locked r s ts) now s ts"
    using True by (simp add: covered_def record_locked_salts)
  ultimately show ?thesis
    using ok ts True record_locked_oldest by (auto simp: mem_ok_def)
next
  case False
  then have "record_locked r s ts = r" by (simp add: record_locked_def)
  with False ok show ?thesis by simp
qed

text \<open>What is covered is not accepted; what is accepted is at or below the limit and has room.\<close>

lemma judge_accepts:
  assumes "judge r s ts now = ((v, raise), r')" "v \<in> {Accepted, AboveLimit}"
  shows "\<not> covered r now s ts" "ts \<le> now + window" "map_of (rp_salts r') s = None"
    "length (rp_salts r') < cacheMax" "v = Accepted \<longrightarrow> ts \<le> rp_limit r"
proof -
  have w: "\<not> ts + window < now" "ts \<le> now + window" and j: "judge_locked r s ts now = ((v, raise), r')"
    using assms by (auto simp: judge_def split: if_splits)
  have f: "rp_floor r < ts" "map_of (rp_salts r) s = None" "length (rp_salts r') < cacheMax" "v = Accepted \<longrightarrow> ts \<le> rp_limit r"
    using j assms(2) by (auto simp: judge_locked_def Let_def not_le not_less split: if_splits)
  show "\<not> covered r now s ts" "ts \<le> now + window" "map_of (rp_salts r') s = None"
    "length (rp_salts r') < cacheMax" "v = Accepted \<longrightarrow> ts \<le> rp_limit r"
    using w f judge_locked_fields(1) [OF j] by (auto simp: covered_def expire_none)
qed

lemma claim_judge:
  "claim r s ts now = ((v, raise), r') \<longleftrightarrow>
     (\<exists>r1. judge r s ts now = ((v, raise), r1) \<and> r' = (if v = Accepted then record_locked r1 s ts else r1))"
  by (auto simp: claim_def judge_def split: prod.splits)

lemma judge_mem_ok:
  "mem_ok r now sp rec \<Longrightarrow> judge r s ts now = ((v, raise), r') \<Longrightarrow> mem_ok r' now sp rec"
  by (auto simp: judge_def split: if_splits dest: judge_locked_mem_ok)

lemma mem_ok_covered:
  "mem_ok r now sp rec \<Longrightarrow> (s, ts) \<in> set sp \<union> set rec \<Longrightarrow> covered r now s ts"
  by (auto simp: mem_ok_def)

lemma mem_ok_open:
  "mem_ok r now sp ((s, ts) # rec) \<Longrightarrow> ts \<le> rp_limit r \<Longrightarrow> mem_ok r now ((s, ts) # sp) ((s, ts) # rec)"
  by (auto simp: mem_ok_def)

text \<open>What claim accepts was never spent before, and it is recorded.\<close>

lemma claim_accepted:
  assumes ok: "mem_ok r now sp rec" and c: "claim r s ts now = ((Accepted, raise), r')"
  shows "(s, ts) \<notin> set sp \<and> mem_ok r' now ((s, ts) # sp) ((s, ts) # rec)"
proof -
  obtain r1 where j: "judge r s ts now = ((Accepted, raise), r1)" and r': "r' = record_locked r1 s ts"
    using c by (auto simp: claim_judge)
  note a = judge_accepts [OF j, simplified]
  have "(s, ts) \<notin> set sp" using a(1) mem_ok_covered [OF ok] by blast
  moreover have "mem_ok r' now sp ((s, ts) # rec)"
    using record_mem_ok [OF judge_mem_ok [OF ok j], of s ts] a(2-4) by (simp add: r')
  moreover have "rp_limit r' = rp_limit r"
    using j judge_locked_fields(1) [of r s ts now Accepted raise r1] by (auto simp: r' judge_def split: if_splits)
  ultimately show ?thesis using a(5) by (simp add: mem_ok_open)
qed

lemma claim_other:
  "mem_ok r now sp rec \<Longrightarrow> claim r s ts now = ((v, raise), r') \<Longrightarrow> v \<noteq> Accepted \<Longrightarrow> mem_ok r' now sp rec"
  by (auto simp: claim_judge dest: judge_mem_ok)

lemma judge_fields:
  "judge r s ts now = ((v, raise), r') \<Longrightarrow> rp_limit r' = rp_limit r \<and> rp_writing r' = rp_writing r"
  using judge_locked_fields(1) [of r s ts now v raise r'] by (auto simp: judge_def split: if_splits)

lemma claim_fields:
  "claim r s ts now = ((v, raise), r') \<Longrightarrow> rp_limit r' = rp_limit r \<and> rp_writing r' = rp_writing r"
  using judge_locked_fields(1) [of r s ts now v raise]
  by (auto simp: claim_def split: if_splits prod.splits)

lemma due_raises:
  assumes "due r now asked = (want, r')" "0 < want" "now < 2 ^ 63"
  shows "\<not> rp_writing r \<and> r' = r\<lparr>rp_writing := True\<rparr> \<and> rp_limit r < want \<and> want \<le> now + window + limitStep"
proof -
  have le: "now + 20 \<le> now + 80" "now + window + limitStep = now + 80"
    using clock_plus [OF assms(3)] by (simp_all add: u64_nat)
  show ?thesis
    using assms(1,2) le
    by (auto simp: due_def Let_def not_le min_def max_def add.commute split: if_splits)
qed

lemma due_want: "due r now asked = (want, r') \<Longrightarrow> 0 < want \<Longrightarrow> now < 2 ^ 63 \<Longrightarrow>
    mem_ok r now sp rec \<Longrightarrow> mem_ok r' now sp rec"
  using due_raises [of r now asked want r'] by (auto simp: mem_ok_def covered_def)

lemma write_done_mem_ok:
  "mem_ok r now sp rec \<Longrightarrow> rp_limit r \<le> w \<Longrightarrow> w \<le> now + window + limitStep \<Longrightarrow> mem_ok (write_done r w ok) now sp rec"
  by (fastforce simp: mem_ok_def covered_def write_done_def max_def)

lemma tick_le:
  assumes "(a :: u64) \<le> b" "b < 2 ^ 63"
  shows "a + window \<le> b + window" "a + window + limitStep \<le> b + window + limitStep" "a < 2 ^ 63"
    "b + window \<le> b + window + limitStep"
proof -
  show a: "a < 2 ^ 63" using assms by (rule order_le_less_trans)
  show "a + window \<le> b + window" "a + window + limitStep \<le> b + window + limitStep"
    "b + window \<le> b + window + limitStep"
    using assms(1) clock_plus [OF a] clock_plus [OF assms(2)] by (simp_all add: u64_nat add.commute)
qed

lemma tick_mem_ok:
  assumes "mem_ok r now sp rec" "now \<le> t" "t < 2 ^ 63"
  shows "mem_ok r t sp rec"
  unfolding mem_ok_def
proof (intro conjI allI impI)
  show "rp_oldest r \<le> t + window" "rp_limit r \<le> t + window + limitStep"
    using assms(1) tick_le(1,2) [OF assms(2,3)] unfolding mem_ok_def by (meson order_trans)+
  show "t < 2 ^ 63" "rp_floor r \<le> rp_limit r"
    using assms by (simp_all add: mem_ok_def)
  show "\<And>s ts. (s, ts) \<in> set sp \<Longrightarrow> ts \<le> rp_limit r"
    using assms(1) by (auto simp: mem_ok_def)
  fix s ts
  assume "(s, ts) \<in> set sp \<union> set rec"
  then have h: "ts \<le> now + window" "covered r now s ts"
    using assms(1) by (auto simp: mem_ok_def)
  show "ts \<le> t + window" using h(1) tick_le(1) [OF assms(2,3)] by (rule order_trans)
  show "covered r t s ts"
    using h(2) assms(2) by (auto simp: covered_def intro: less_le_trans)
qed

text \<open>
  After a restart the floor covers everything at or below the limit, whatever is left of the file.
\<close>

lemma restart_mem_ok:
  assumes ok: "mem_ok r now sp rec"
    and disk: "case disk of None \<Rightarrow> True | Some d \<Rightarrow> rp_limit r \<le> d \<and> d \<le> now + window + limitStep"
  shows "mem_ok (open_replay disk now) now sp []"
proof -
  have n: "now < 2 ^ 63" using ok by (simp add: mem_ok_def)
  have le: "now + window \<le> now + window + limitStep" using tick_le(4) [OF _ n] by blast
  show ?thesis
  proof (cases disk)
    case None
    with ok le show ?thesis by (auto simp: mem_ok_def open_replay_def covered_def Let_def add.commute)
  next
    case (Some d)
    with ok disk show ?thesis
      by (auto simp: mem_ok_def open_replay_def covered_def Let_def dest: order_trans)
  qed
qed

text \<open>What was recorded at or below the limit can be carried over to the next run.\<close>

lemma mem_ok_past:
  "mem_ok r now (op @ past) rec \<Longrightarrow> mem_ok r now (op @ filter (\<lambda>(s, ts). ts \<le> rp_limit r) rec @ past) rec"
  by (auto simp: mem_ok_def)

lemma judged_ok_mono:
  assumes "judged_ok streams r now js opened" "rp_limit r \<le> rp_limit r'"
    "\<And>s. map_of (rp_salts r) s = None \<Longrightarrow> map_of (rp_salts r') s = None" "length (rp_salts r') \<le> length (rp_salts r)"
  shows "judged_ok streams r' now js opened"
  using assms unfolding judged_ok_def by fastforce

lemma judged_ok_streams:
  "judged_ok True r now js opened \<Longrightarrow> rp_limit r \<le> rp_limit r' \<Longrightarrow> set js' \<subseteq> set js \<Longrightarrow> judged_ok True r' now js' opened'"
  unfolding judged_ok_def by fastforce

lemma judged_ok_tick:
  "judged_ok streams r now js opened \<Longrightarrow> now \<le> t \<Longrightarrow> t < 2 ^ 63 \<Longrightarrow> judged_ok streams r t js opened"
  using tick_le(1) [of now t] unfolding judged_ok_def by (fastforce intro: order_trans)

lemma judged_ok_Nil [simp]: "judged_ok streams r now [] opened"
  by (simp add: judged_ok_def)

lemma judged_ok_remove: "judged_ok streams r now js opened \<Longrightarrow> judged_ok streams r now (remove1 x js) opened"
  unfolding judged_ok_def using set_remove1_subset [of x js] by (auto simp: length_remove1)

lemma expire_length: "length (rp_salts (expire_locked r now)) \<le> length (rp_salts r)"
  by (simp add: expire_locked_def Let_def)

lemma judged_ok_expire: "judged_ok streams r now js opened \<Longrightarrow> judged_ok streams (expire_locked r now) now js opened"
  by (erule judged_ok_mono) (simp_all add: expire_none expire_length)

lemma judge_state: "judge r s ts now = ((v, raise), r') \<Longrightarrow> r' = r \<or> r' = expire_locked r now"
  by (auto simp: judge_def split: if_splits dest: judge_locked_fields(1))

lemma judged_ok_judge:
  assumes js: "judged_ok streams r now js opened" "streams \<or> js = []" and ok: "mem_ok r now (opened @ past) rec"
    and j: "judge r s ts now = ((v, raise), r')"
  shows "judged_ok streams r' now ((if v \<in> {Accepted, AboveLimit} then [(s, ts, v)] else []) @ js) opened"
proof -
  have base: "judged_ok streams r' now js opened"
    using js(1) judge_state [OF j] judged_ok_expire by auto
  show ?thesis
  proof (cases "v \<in> {Accepted, AboveLimit}")
    case True
    note a = judge_accepts [OF j True]
    have "(s, ts) \<notin> set opened" using a(1) mem_ok_covered [OF ok, of s ts] by auto
    moreover have "rp_limit r' = rp_limit r" using judge_state [OF j] by auto
    ultimately show ?thesis
      using base a js(2) True by (auto simp: judged_ok_def)
  next
    case False
    with base show ?thesis by simp
  qed
qed

subsection \<open>One step\<close>

lemma replay_step_inv: "replay_step streams s t \<Longrightarrow> replay_inv streams s \<Longrightarrow> replay_inv streams t"
proof (induction rule: replay_step.induct)
  case (judged streams s salt ts v raise r)
  then have "mem_ok r (rs_clock s) (rs_opened s @ rs_past s) (rs_recorded s)"
    "judged_ok streams r (rs_clock s) ((if v \<in> {Accepted, AboveLimit} then [(salt, ts, v)] else []) @ rs_judged s) (rs_opened s)"
    by (auto simp only: replay_inv_def intro: judge_mem_ok judged_ok_judge)
  then show ?case
    using judged(3) judge_fields [OF judged(2)] by (auto simp: replay_inv_def split: option.splits)
next
  case (reader_opened streams s salt ts)
  let ?r = "record_locked (rs_mem s) salt ts"
  have j: "ts \<le> rs_clock s + window" "ts \<le> rp_limit (rs_mem s)" "map_of (rp_salts (rs_mem s)) salt = None"
    "length (rp_salts (rs_mem s)) < cacheMax" "(salt, ts) \<notin> set (rs_opened s)"
    using reader_opened by (auto simp: replay_inv_def judged_ok_def)
  have "mem_ok (rs_mem s) (rs_clock s) (rs_opened s @ rs_past s) (rs_recorded s)"
    using reader_opened(3) by (simp add: replay_inv_def)
  from record_mem_ok [OF this, of salt ts] j
  have "mem_ok ?r (rs_clock s) ((salt, ts) # rs_opened s @ rs_past s) ((salt, ts) # rs_recorded s)"
    by (intro mem_ok_open) simp_all
  then show ?case
    using reader_opened(3) j(4,5) by (auto simp: replay_inv_def split: option.splits)
next
  case (reader_spent streams s salt ts v)
  have j: "ts \<le> rs_clock s + window" "map_of (rp_salts (rs_mem s)) salt = None"
    using reader_spent by (auto simp: replay_inv_def judged_ok_def)
  have "mem_ok (rs_mem s) (rs_clock s) (rs_opened s @ rs_past s) (rs_recorded s)"
    using reader_spent(3) by (simp add: replay_inv_def)
  from record_mem_ok [OF this, of salt ts] j reader_spent(3)
  show ?case by (auto simp: replay_inv_def split: option.splits)
next
  case (let_go x s streams)
  then show ?case by (auto simp: replay_inv_def judged_ok_remove split: option.splits)
next
  case (claimed streams salt ts s v raise r)
  have ok: "mem_ok (rs_mem s) (rs_clock s) (rs_opened s @ rs_past s) (rs_recorded s)"
    using claimed(4) by (simp add: replay_inv_def)
  note f = claim_fields [OF claimed(3)]
  have "judged_ok streams r (rs_clock s) (remove1 (salt, ts, Accepted) (rs_judged s)) opened'" for opened'
    using claimed(1,4) f judged_ok_streams [of "rs_mem s" "rs_clock s" "rs_judged s" "rs_opened s" r _ opened'] set_remove1_subset [of "(salt, ts, Accepted)" "rs_judged s"]
    by (simp add: replay_inv_def)
  note js = this
  show ?case
  proof (cases "v = Accepted")
    case True
    with claim_accepted [OF ok] claimed(3) have "(salt, ts) \<notin> set (rs_opened s)"
      "mem_ok r (rs_clock s) ((salt, ts) # rs_opened s @ rs_past s) ((salt, ts) # rs_recorded s)"
      by auto
    with True f claimed(4) js show ?thesis by (auto simp: replay_inv_def split: option.splits)
  next
    case False
    with claim_other [OF ok claimed(3)] f claimed(4) js show ?thesis by (auto simp: replay_inv_def split: option.splits)
  qed
next
  case (proof_spent streams salt ts v s)
  have ts: "ts \<le> rs_clock s + window" using proof_spent(2,4) by (auto simp: replay_inv_def judged_ok_def)
  have js: "judged_ok streams (record_locked (rs_mem s) salt ts) (rs_clock s) (remove1 (salt, ts, v) (rs_judged s)) (rs_opened s)"
    using proof_spent(1,4) judged_ok_streams [of "rs_mem s" "rs_clock s" "rs_judged s" "rs_opened s"] set_remove1_subset [of "(salt, ts, v)" "rs_judged s"]
    by (simp add: replay_inv_def)
  have "mem_ok (rs_mem s) (rs_clock s) (rs_opened s @ rs_past s) (rs_recorded s)"
    using proof_spent(4) by (simp add: replay_inv_def)
  from record_mem_ok [OF this proof_spent(3) ts] js proof_spent(4)
  show ?case by (auto simp: replay_inv_def split: option.splits)
next
  case (expired streams s)
  then show ?case using expire_mem_ok judged_ok_expire by (auto simp: replay_inv_def split: option.splits)
next
  case (raised s asked want r streams)
  have n: "rs_clock s < 2 ^ 63" "mem_ok (rs_mem s) (rs_clock s) (rs_opened s @ rs_past s) (rs_recorded s)"
    using raised(3) by (simp_all add: replay_inv_def mem_ok_def)
  note d = due_raises [OF raised(1,2) n(1)]
  have "judged_ok streams r (rs_clock s) (rs_judged s) (rs_opened s)"
    using raised(3) d by (auto simp: replay_inv_def intro: judged_ok_mono)
  then show ?case
    using raised(3) d due_want [OF raised(1,2) n] by (auto simp: replay_inv_def split: option.splits)
next
  case (on_disk s want streams)
  then show ?case by (auto simp: replay_inv_def)
next
  case (write_ok s want streams)
  then have "mem_ok (write_done (rs_mem s) want True) (rs_clock s) (rs_opened s @ rs_past s) (rs_recorded s)"
    by (intro write_done_mem_ok) (auto simp: replay_inv_def add.commute)
  moreover have "judged_ok streams (write_done (rs_mem s) want True) (rs_clock s) (rs_judged s) (rs_opened s)"
    using write_ok(3) unfolding replay_inv_def by (auto simp: write_done_def intro: judged_ok_mono)
  ultimately show ?case
    using write_ok by (auto simp: replay_inv_def) (auto simp: write_done_def max_def)
next
  case (write_failed s want streams)
  then have "mem_ok (rs_mem s) (rs_clock s) (rs_opened s @ rs_past s) (rs_recorded s)" by (simp add: replay_inv_def)
  then have "mem_ok (write_done (rs_mem s) want False) (rs_clock s) (rs_opened s @ rs_past s) (rs_recorded s)"
    by (auto simp: mem_ok_def write_done_def covered_def)
  moreover have "judged_ok streams (write_done (rs_mem s) want False) (rs_clock s) (rs_judged s) (rs_opened s)"
    using write_failed(2) unfolding replay_inv_def by (auto simp: write_done_def intro: judged_ok_mono)
  ultimately show ?case using write_failed by (auto simp: replay_inv_def write_done_def split: option.splits)
next
  case (ticked s now streams)
  have m: "mem_ok (rs_mem s) now (rs_opened s @ rs_past s) (rs_recorded s)" "judged_ok streams (rs_mem s) now (rs_judged s) (rs_opened s)"
    using tick_mem_ok [OF _ ticked(1,2)] judged_ok_tick [OF _ ticked(1,2)] ticked(3) unfolding replay_inv_def by blast+
  have "d \<le> now + window + limitStep" if "d \<le> rs_clock s + window + limitStep" for d
    using that tick_le(2) [OF ticked(1,2)] by (rule order_trans)
  with m ticked(3) show ?case
    unfolding replay_inv_def by (auto split: option.splits simp: add.commute)
next
  case (restarted streams s)
  then show ?case
    using restart_mem_ok [OF mem_ok_past, of "rs_mem s" "rs_clock s" "rs_opened s" "rs_past s" "rs_recorded s" "rs_disk s"]
    by (auto simp: replay_inv_def open_replay_def Let_def split: option.splits)
next
  case (file_lost streams s)
  then show ?case by (auto simp: replay_inv_def split: option.splits)
qed

lemma first_start_inv: "now < 2 ^ 63 \<Longrightarrow> replay_inv streams (first_start now)"
  using tick_le(4) [of now now]
  by (auto simp: replay_inv_def first_start_def mem_ok_def open_replay_def Let_def add.commute)

lemma replay_reachable_inv: "replay_reachable streams s \<Longrightarrow> replay_inv streams s"
  by (induction rule: replay_reachable.induct) (auto intro: first_start_inv replay_step_inv)

section \<open>Theorems\<close>

text \<open>
  A run used to show that the hypotheses can hold: a raise is written, and the reader of a UDP
  gateway opens a session with an opening of a clock ahead of the server's.
\<close>

definition salt7 :: salt where "salt7 = replicate 32 7"

definition limit_raised :: replay where "limit_raised = (open_replay None 1000)\<lparr>rp_limit := 1080\<rparr>"

definition raised_once :: replay_sys where
  "raised_once = (first_start 1000)\<lparr>rs_mem := (open_replay None 1000)\<lparr>rp_writing := True\<rparr>,
     rs_pending := Some 1080, rs_disk := Some 1080\<rparr>"

definition opened_once :: replay_sys where
  "opened_once = raised_once\<lparr>rs_mem := limit_raised\<lparr>rp_salts := [(salt7, 1065)], rp_oldest := 1065\<rparr>,
     rs_pending := None, rs_clock := 1070, rs_opened := [(salt7, 1065)], rs_recorded := [(salt7, 1065)]\<rparr>"

lemma raised_once_reachable: "replay_reachable streams raised_once"
proof -
  have "due (rs_mem (first_start 1000)) (rs_clock (first_start 1000)) 1085 = (1080, (open_replay None 1000)\<lparr>rp_writing := True\<rparr>)"
    by (simp add: due_def first_start_def open_replay_def Let_def)
  then have "replay_reachable streams ((first_start 1000)\<lparr>rs_mem := (open_replay None 1000)\<lparr>rp_writing := True\<rparr>, rs_pending := Some 1080\<rparr>)"
    by (intro replay_reachable.step [OF replay_reachable.start replay_step.raised]) simp_all
  then show ?thesis
    unfolding raised_once_def by (rule replay_reachable.step) (rule replay_step.on_disk, simp)
qed

lemma opened_once_reachable: "replay_reachable False opened_once"
proof -
  let ?a = "raised_once\<lparr>rs_mem := limit_raised, rs_pending := None\<rparr>"
  let ?b = "?a\<lparr>rs_clock := 1070\<rparr>"
  let ?c = "?b\<lparr>rs_judged := [(salt7, 1065, Accepted)]\<rparr>"
  have w: "write_done (rs_mem raised_once) 1080 True = limit_raised"
    by (simp add: write_done_def raised_once_def limit_raised_def open_replay_def Let_def)
  have "replay_step False raised_once ?a"
    using replay_step.write_ok [of raised_once 1080 False] by (simp add: w) (simp add: raised_once_def)
  then have "replay_reachable False ?a" by (rule replay_reachable.step [OF raised_once_reachable])
  moreover have "replay_step False ?a ?b"
    by (rule replay_step.ticked) (simp_all add: raised_once_def first_start_def)
  ultimately have b: "replay_reachable False ?b" by (rule replay_reachable.step)
  have "judge limit_raised salt7 1065 1070 = ((Accepted, 0), limit_raised)"
    by (simp add: judge_def judge_locked_def limit_raised_def open_replay_def Let_def cacheMax_def)
  then have "replay_step False ?b ?c"
    using replay_step.judged [of False ?b salt7 1065 Accepted 0 limit_raised]
    by (simp add: raised_once_def first_start_def)
  with b have c: "replay_reachable False ?c" by (rule replay_reachable.step)
  have "record_locked limit_raised salt7 1065 = limit_raised\<lparr>rp_salts := [(salt7, 1065)], rp_oldest := 1065\<rparr>" "rp_salts limit_raised = []"
    by (simp_all add: record_locked_def limit_raised_def open_replay_def Let_def cacheMax_def)
  then have "replay_step False ?c opened_once"
    using replay_step.reader_opened [of False ?c salt7 1065]
    by (simp add: opened_once_def raised_once_def first_start_def cacheMax_def)
  with c show ?thesis by (rule replay_reachable.step)
qed

text \<open>
  C34. An opening that opened a session never opens one again: in every reachable state of a UDP or
  a stream gateway, over any number of restarts, failed writes and losses of the file, no opening
  opened two sessions, and judge and claim refuse every opening that opened a session, in this run
  or an earlier one; every opening recorded in this run, above the limit or not; and every opening
  recorded in an earlier run at or below the limit in force when that run ended. The clock never
  runs back, each call is made at its reading, and no two openings share a salt.
\<close>
theorem opening_never_twice:
  assumes "replay_reachable streams s"
  shows "distinct (rs_opened s) \<and>
    ((salt, ts) \<in> set (rs_opened s) \<union> set (rs_recorded s) \<union> set (rs_past s) \<longrightarrow>
      fst (fst (claim (rs_mem s) salt ts (rs_clock s))) \<notin> {Accepted, AboveLimit} \<and>
      fst (fst (judge (rs_mem s) salt ts (rs_clock s))) \<notin> {Accepted, AboveLimit})"
proof -
  have inv: "mem_ok (rs_mem s) (rs_clock s) (rs_opened s @ rs_past s) (rs_recorded s)" "distinct (rs_opened s)"
    using replay_reachable_inv [OF assms] by (simp_all add: replay_inv_def)
  have "fst (fst (judge (rs_mem s) salt ts (rs_clock s))) \<notin> {Accepted, AboveLimit}"
    if "(salt, ts) \<in> set (rs_opened s) \<union> set (rs_recorded s) \<union> set (rs_past s)"
    using judge_accepts(1) mem_ok_covered [OF inv(1), of salt ts] that by (metis Un_iff prod.collapse set_append)
  moreover have "fst (fst (claim (rs_mem s) salt ts (rs_clock s))) = fst (fst (judge (rs_mem s) salt ts (rs_clock s)))"
    by (simp add: claim_def judge_def split: prod.splits)
  ultimately show ?thesis using inv(2) by simp
qed

theorem opening_never_twice_witness:
  "fst (fst (judge (rs_mem opened_once) salt7 1065 (rs_clock opened_once))) \<notin> {Accepted, AboveLimit}"
  using opening_never_twice [OF opened_once_reachable, of salt7 1065] by (simp add: opened_once_def)

text \<open>
  What the file promises: in every reachable state everything that opened a session is at or below
  the limit on disk when there is one, the limit in force is at most the one on disk, and neither
  it nor the floor is ever more than window + limitStep ahead of the clock, which bounds the pause
  after a restart.
\<close>
lemma limit_on_disk_covers:
  assumes "replay_reachable streams s" "rs_disk s = Some d"
  shows "(\<forall>(salt, ts) \<in> set (rs_opened s). ts \<le> d) \<and> rp_limit (rs_mem s) \<le> d \<and>
    rp_floor (rs_mem s) \<le> d \<and> unat d \<le> unat (rs_clock s) + 80"
proof -
  have inv: "mem_ok (rs_mem s) (rs_clock s) (rs_opened s @ rs_past s) (rs_recorded s)" "rp_limit (rs_mem s) \<le> d" "d \<le> rs_clock s + 80"
    using replay_reachable_inv [OF assms(1)] assms(2) by (auto simp: replay_inv_def add.commute)
  then have "rs_clock s < 2 ^ 63" by (simp add: mem_ok_def)
  with inv(3) have "unat d \<le> unat (rs_clock s) + 80"
    using clock_plus(2) by (simp add: word_le_nat_alt)
  then show ?thesis
    using inv by (fastforce simp: mem_ok_def intro: order_trans)
qed

text \<open>
  The bound is met: a client whose clock runs ahead can have the limit put window + limitStep
  ahead of the server's clock, and a restart then refuses honest clients for as long, not for
  limitStep.
\<close>

lemma pause_of_eighty_seconds:
  "replay_reachable streams raised_once \<and>
   rp_floor (open_replay (rs_disk raised_once) (rs_clock raised_once)) = rs_clock raised_once + window + limitStep"
  using raised_once_reachable by (simp add: raised_once_def first_start_def open_replay_def Let_def)

text \<open>
  What was recorded above the limit does not outlive the run: an opening of a clock ahead of the
  server's, spent because the limit was not raised yet, is refused while the process runs, and
  good again after a restart, once the limit is raised.
\<close>

lemma spent_above_limit_forgotten:
  "let r = open_replay (Some 1010) 1000; spent = record_locked r salt7 1050;
       again = write_done (open_replay (Some 1010) 1001) 1070 True
   in fst (fst (judge r salt7 1050 1000)) = AboveLimit \<and> fst (fst (judge spent salt7 1050 1000)) = SeenBefore \<and>
     fst (fst (judge again salt7 1050 1001)) = Accepted"
  by (simp add: judge_def judge_locked_def record_locked_def write_done_def open_replay_def Let_def cacheMax_def)

text \<open>
  A claim made at an older reading than the cache was expired at accepts an opening a second time:
  the gateways read the clock when the connection arrives and claim with that reading after the
  checks, while a ticker expires the cache.
\<close>

lemma stale_claim_accepts:
  "let r = limit_raised\<lparr>rp_floor := 0\<rparr>; once = snd (claim r salt7 1000 1060); later = expire_locked once 1061
   in fst (fst (claim r salt7 1000 1060)) = Accepted \<and> fst (fst (claim once salt7 1000 1060)) = SeenBefore \<and>
     fst (fst (claim later salt7 1000 1060)) = Accepted"
  by (simp add: claim_def judge_locked_def record_locked_def expire_locked_def limit_raised_def open_replay_def Let_def cacheMax_def)

end
