(* ===== verification/Radius.thy ===== *)
theory Radius imports Prelude begin

text \<open>
  The RADIUS server of internal/radiusd: its packets (radiusd.go parse, build), the hidden PAP
  password (pap.go), the steps of EAP-MSCHAPv2 (answer, mschapv2.go), and handle, which serves a
  request. Go strings are byte lists. The hashes and ciphers of the standard library are fields of
  a record the operations take, and what is read from crypto/rand is an argument.
\<close>

section \<open>Hashes\<close>

record crypto =
  cr_md4 :: "bytes \<Rightarrow> bytes"
  cr_md5 :: "bytes \<Rightarrow> bytes"
  cr_sha1 :: "bytes \<Rightarrow> bytes"
  cr_des :: "bytes \<Rightarrow> bytes \<Rightarrow> bytes"
  cr_hmac :: "bytes \<Rightarrow> bytes \<Rightarrow> bytes"
  cr_utf16 :: "bytes \<Rightarrow> u16 list"

text \<open>Text as bytes.\<close>

definition ascii :: "string \<Rightarrow> bytes" where
  "ascii s = map (\<lambda>c. of_nat (of_char c)) s"

section \<open>MS-CHAPv2 (mschapv2.go)\<close>

definition nt_password_hash :: "crypto \<Rightarrow> bytes \<Rightarrow> bytes" where
  "nt_password_hash cr password =
     cr_md4 cr (concat (map (\<lambda>c. [ucast c, ucast (drop_bit 8 c)]) (cr_utf16 cr password)))"

definition hash_nt_password_hash :: "crypto \<Rightarrow> bytes \<Rightarrow> bytes" where
  "hash_nt_password_hash cr h = cr_md4 cr h"

text \<open>What stands after the last backslash: a username without its domain.\<close>

definition after_backslash :: "bytes \<Rightarrow> bytes" where
  "after_backslash s = rev (takeWhile (\<lambda>b. b \<noteq> 0x5C) (rev s))"

definition challenge_hash :: "crypto \<Rightarrow> bytes \<Rightarrow> bytes \<Rightarrow> bytes \<Rightarrow> bytes" where
  "challenge_hash cr peer auth username = take 8 (cr_sha1 cr (peer @ auth @ after_backslash username))"

definition des_key :: "bytes \<Rightarrow> bytes" where
  "des_key k =
     [k ! 0 AND 0xFE,
      (push_bit 7 (k ! 0) OR drop_bit 1 (k ! 1)) AND 0xFE,
      (push_bit 6 (k ! 1) OR drop_bit 2 (k ! 2)) AND 0xFE,
      (push_bit 5 (k ! 2) OR drop_bit 3 (k ! 3)) AND 0xFE,
      (push_bit 4 (k ! 3) OR drop_bit 4 (k ! 4)) AND 0xFE,
      (push_bit 3 (k ! 4) OR drop_bit 5 (k ! 5)) AND 0xFE,
      (push_bit 2 (k ! 5) OR drop_bit 6 (k ! 6)) AND 0xFE,
      push_bit 1 (k ! 6)]"

definition challenge_response :: "crypto \<Rightarrow> bytes \<Rightarrow> bytes \<Rightarrow> bytes" where
  "challenge_response cr challenge h =
     (let z = take 21 (h @ replicate 21 0) in
      concat (map (\<lambda>i. cr_des cr (des_key (take 7 (drop (7 * i) z))) challenge) [0, 1, 2]))"

definition nt_response :: "crypto \<Rightarrow> bytes \<Rightarrow> bytes \<Rightarrow> bytes \<Rightarrow> bytes \<Rightarrow> bytes" where
  "nt_response cr auth peer username password =
     challenge_response cr (challenge_hash cr peer auth username) (nt_password_hash cr password)"

definition magic1 :: bytes where "magic1 = ascii ''Magic server to client signing constant''"
definition magic2 :: bytes where "magic2 = ascii ''Pad to make it do more than one iteration''"
definition magic_master :: bytes where "magic_master = ascii ''This is the MPPE Master Key''"
definition magic_recv_server :: bytes where
  "magic_recv_server = ascii ''On the client side, this is the send key; on the server side, it is the receive key.''"
definition magic_send_server :: bytes where
  "magic_send_server = ascii ''On the client side, this is the receive key; on the server side, it is the send key.''"

text \<open>strings.ToUpper of hex.EncodeToString.\<close>

definition hex_digit :: "nat \<Rightarrow> byte" where
  "hex_digit d = of_nat (if d < 10 then 48 + d else 55 + d)"

definition upper_hex :: "bytes \<Rightarrow> bytes" where
  "upper_hex bs = concat (map (\<lambda>b. [hex_digit (unat b div 16), hex_digit (unat b mod 16)]) bs)"

definition authenticator_response :: "crypto \<Rightarrow> bytes \<Rightarrow> bytes \<Rightarrow> bytes \<Rightarrow> bytes \<Rightarrow> bytes \<Rightarrow> bytes" where
  "authenticator_response cr password nt peer auth username =
     (let hh = hash_nt_password_hash cr (nt_password_hash cr password);
          digest = cr_sha1 cr (hh @ nt @ magic1)
      in ascii ''S='' @ upper_hex (cr_sha1 cr (digest @ challenge_hash cr peer auth username @ magic2)))"

definition master_key :: "crypto \<Rightarrow> bytes \<Rightarrow> bytes \<Rightarrow> bytes" where
  "master_key cr password nt =
     take 16 (cr_sha1 cr (hash_nt_password_hash cr (nt_password_hash cr password) @ nt @ magic_master))"

definition mppe_session_key :: "crypto \<Rightarrow> bytes \<Rightarrow> bytes \<Rightarrow> bytes" where
  "mppe_session_key cr master magic =
     take 16 (cr_sha1 cr (master @ replicate 40 0 @ magic @ replicate 40 0xF2))"

definition server_keys :: "crypto \<Rightarrow> bytes \<Rightarrow> bytes \<Rightarrow> bytes \<times> bytes" where
  "server_keys cr password nt =
     (let m = master_key cr password nt
      in (mppe_session_key cr m magic_recv_server, mppe_session_key cr m magic_send_server))"

section \<open>Packets\<close>

abbreviation (input) codeAccessRequest :: byte where "codeAccessRequest \<equiv> 1"
abbreviation (input) codeAccessAccept :: byte where "codeAccessAccept \<equiv> 2"
abbreviation (input) codeAccessReject :: byte where "codeAccessReject \<equiv> 3"
abbreviation (input) codeAccessChallenge :: byte where "codeAccessChallenge \<equiv> 11"
abbreviation (input) attrUserName :: byte where "attrUserName \<equiv> 1"
abbreviation (input) attrUserPassword :: byte where "attrUserPassword \<equiv> 2"
abbreviation (input) attrFramedIP :: byte where "attrFramedIP \<equiv> 8"
abbreviation (input) attrState :: byte where "attrState \<equiv> 24"
abbreviation (input) attrVendor :: byte where "attrVendor \<equiv> 26"
abbreviation (input) attrEAPMessage :: byte where "attrEAPMessage \<equiv> 79"
abbreviation (input) attrMessageAuth :: byte where "attrMessageAuth \<equiv> 80"

type_synonym attr = "byte \<times> bytes"

record packet =
  pk_code :: byte
  pk_id :: byte
  pk_auth :: bytes
  pk_attrs :: "attr list"

datatype radius_error =
  ShortPacket | BadLength | TruncatedAttribute | BadAttributeLength | NotARequest byte | BadAuthenticator

fun parse_attrs :: "bytes \<Rightarrow> radius_error + attr list" where
  "parse_attrs [] = Inr []"
| "parse_attrs [t] = Inl TruncatedAttribute"
| "parse_attrs (t # l # rest) =
     (if unat l < 2 \<or> unat l - 2 > length rest then Inl BadAttributeLength
      else case parse_attrs (drop (unat l - 2) rest) of
          Inl e \<Rightarrow> Inl e
        | Inr as \<Rightarrow> Inr ((t, take (unat l - 2) rest) # as))"

definition parse_packet :: "bytes \<Rightarrow> radius_error + packet" where
  "parse_packet b =
     (if length b < 20 then Inl ShortPacket
      else let len = unat (rd_be (take 2 (drop 2 b)) :: u16) in
        if len < 20 \<or> len > length b then Inl BadLength
        else case parse_attrs (drop 20 (take len b)) of
            Inl e \<Rightarrow> Inl e
          | Inr as \<Rightarrow> Inr \<lparr>pk_code = b ! 0, pk_id = b ! 1, pk_auth = take 16 (drop 4 b), pk_attrs = as\<rparr>)"

definition get_attr :: "packet \<Rightarrow> byte \<Rightarrow> bytes option" where
  "get_attr p t = map_of (pk_attrs p) t"

definition eap_of :: "packet \<Rightarrow> bytes" where
  "eap_of p = concat (map snd (filter (\<lambda>(t, v). t = attrEAPMessage) (pk_attrs p)))"

text \<open>The packet with every Message-Authenticator's value zeroed; parse has checked its lengths.\<close>

fun zero_mac :: "bytes \<Rightarrow> bytes" where
  "zero_mac [] = []"
| "zero_mac [t] = [t]"
| "zero_mac (t # l # rest) =
     (if unat l < 2 then t # l # rest
      else t # l # (if t = attrMessageAuth then replicate (min (unat l - 2) (length rest)) 0 else take (unat l - 2) rest) @
        zero_mac (drop (unat l - 2) rest))"

definition verify :: "crypto \<Rightarrow> bytes \<Rightarrow> bytes \<Rightarrow> packet \<Rightarrow> bool" where
  "verify cr secret raw p =
     (case get_attr p attrMessageAuth of
        None \<Rightarrow> False
      | Some mac \<Rightarrow>
          if length mac \<noteq> 16 then False
          else let z = take (unat (rd_be (take 2 (drop 2 raw)) :: u16)) raw
            in cr_hmac cr secret (take 20 z @ zero_mac (drop 20 z)) = mac)"

text \<open>
  build: byte.Buffer, then the two authenticators, the second over the first.
\<close>

definition attr_bytes :: "attr \<Rightarrow> bytes" where
  "attr_bytes a = fst a # of_nat (2 + length (snd a)) # snd a"

definition build_packet :: "crypto \<Rightarrow> bytes \<Rightarrow> byte \<Rightarrow> packet \<Rightarrow> attr list \<Rightarrow> bytes" where
  "build_packet cr secret code req as =
     (let body = concat (map attr_bytes (as @ [(attrMessageAuth, replicate 16 0)]));
          len = be_bytes 2 (of_nat (4 + length (pk_auth req) + length body) :: u16);
          out = [code, pk_id req] @ len @ pk_auth req @ body;
          out = take (length out - 16) out @ take 16 (cr_hmac cr secret out);
          m = cr_md5 cr (out @ secret)
      in take 4 out @ take 16 m @ drop 20 out)"
section \<open>Users and sessions\<close>

record radius_user =
  us_password :: bytes
  us_ip :: ip_addr
  us_dns :: "ip_addr list"

type_synonym user_lookup = "bytes \<Rightarrow> radius_user option"

record eap_session =
  es_identity :: bytes
  es_eap_id :: byte
  es_challenge :: bytes
  es_user :: bytes
  es_nt :: bytes
  es_peer :: bytes
  es_expires :: instant
  es_succeeded :: bool

text \<open>
  The server: what is mutable in Server, and the names onAccept was told so far. The Go map holds
  pointers: what a step of answer writes into its session stands in the map, under the state the
  request named (amend_session), from the moment it is written.
\<close>

record radius_server =
  sv_lookup :: user_lookup
  sv_sessions :: "bytes \<rightharpoonup> eap_session"
  sv_replies :: "bytes \<rightharpoonup> bytes \<times> instant"
  sv_told :: "bytes list"

definition new_radius :: "user_lookup \<Rightarrow> radius_server" where
  "new_radius lk = \<lparr>sv_lookup = lk, sv_sessions = Map.empty, sv_replies = Map.empty, sv_told = []\<rparr>"

abbreviation (input) sessionTTL :: duration where "sessionTTL \<equiv> 60 * second"
abbreviation (input) replyCacheTTL :: duration where "replyCacheTTL \<equiv> 15 * second"

definition sweep_sessions :: "instant \<Rightarrow> (bytes \<rightharpoonup> eap_session) \<Rightarrow> (bytes \<rightharpoonup> eap_session)" where
  "sweep_sessions now m = (\<lambda>k. case m k of None \<Rightarrow> None | Some ss \<Rightarrow> if now > es_expires ss then None else Some ss)"

definition sweep_replies :: "instant \<Rightarrow> (bytes \<rightharpoonup> bytes \<times> instant) \<Rightarrow> (bytes \<rightharpoonup> bytes \<times> instant)" where
  "sweep_replies now m = (\<lambda>k. case m k of None \<Rightarrow> None | Some r \<Rightarrow> if now > snd r then None else Some r)"

definition forget :: "radius_server \<Rightarrow> packet \<Rightarrow> radius_server" where
  "forget sv p = (case get_attr p attrState of None \<Rightarrow> sv
     | Some st \<Rightarrow> sv\<lparr>sv_sessions := (sv_sessions sv)(st := None)\<rparr>)"

definition amend_session :: "radius_server \<Rightarrow> packet \<Rightarrow> eap_session \<Rightarrow> radius_server" where
  "amend_session sv p ss = (case get_attr p attrState of None \<Rightarrow> sv
     | Some st \<Rightarrow> sv\<lparr>sv_sessions := (sv_sessions sv)(st \<mapsto> ss)\<rparr>)"

definition store_session :: "radius_server \<Rightarrow> eap_session \<Rightarrow> bytes \<Rightarrow> radius_server" where
  "store_session sv ss st = sv\<lparr>sv_sessions := (sv_sessions sv)(st \<mapsto> ss)\<rparr>"

section \<open>Replies\<close>

text \<open>Types and operation codes of EAP and of MS-CHAPv2 inside it.\<close>

abbreviation (input) eapRequest :: byte where "eapRequest \<equiv> 1"
abbreviation (input) eapResponse :: byte where "eapResponse \<equiv> 2"
abbreviation (input) eapSuccess :: byte where "eapSuccess \<equiv> 3"
abbreviation (input) eapFailure :: byte where "eapFailure \<equiv> 4"
abbreviation (input) eapTypeIdentity :: byte where "eapTypeIdentity \<equiv> 1"
abbreviation (input) eapTypeMSCHAPv2 :: byte where "eapTypeMSCHAPv2 \<equiv> 26"
abbreviation (input) opChallenge :: byte where "opChallenge \<equiv> 1"
abbreviation (input) opResponse :: byte where "opResponse \<equiv> 2"
abbreviation (input) opSuccess :: byte where "opSuccess \<equiv> 3"

definition put_len16 :: "bytes \<Rightarrow> bytes" where
  "put_len16 b = take 2 b @ be_bytes 2 (of_nat (length b) :: u16) @ drop 4 b"

definition eap_packet :: "byte \<Rightarrow> byte \<Rightarrow> byte \<Rightarrow> bytes \<Rightarrow> bytes" where
  "eap_packet code i typ dat =
     (if code = eapSuccess \<or> code = eapFailure then [code, i, 0, 4]
      else put_len16 ([code, i, 0, 0, typ] @ dat))"

function eap_attrs :: "bytes \<Rightarrow> attr list" where
  "eap_attrs eap = (if eap = [] then [] else (attrEAPMessage, take 253 eap) # eap_attrs (drop 253 eap))"
  by auto
termination by (relation "measure length") auto

declare eap_attrs.simps [simp del]

definition radius_challenge :: "crypto \<Rightarrow> bytes \<Rightarrow> packet \<Rightarrow> bytes \<Rightarrow> bytes \<Rightarrow> bytes" where
  "radius_challenge cr secret req state eap =
     build_packet cr secret codeAccessChallenge req (eap_attrs eap @ [(attrState, state)])"

definition radius_reject :: "crypto \<Rightarrow> bytes \<Rightarrow> packet \<Rightarrow> byte \<Rightarrow> bytes" where
  "radius_reject cr secret req eap_id =
     build_packet cr secret codeAccessReject req (eap_attrs (eap_packet eapFailure eap_id 0 []))"

text \<open>The MD5 chain over blocks of 16 bytes, of mppeKey.\<close>

function mppe_chain :: "crypto \<Rightarrow> bytes \<Rightarrow> bytes \<Rightarrow> bytes \<Rightarrow> bytes" where
  "mppe_chain cr secret prev plain =
     (if plain = [] then []
      else let c = map2 (XOR) (take 16 plain) (cr_md5 cr (secret @ prev))
        in c @ mppe_chain cr secret c (drop 16 plain))"
  by auto
termination by (relation "measure (\<lambda>(_, _, _, plain). length plain)") auto

declare mppe_chain.simps [simp del]

definition vendor_microsoft :: bytes where "vendor_microsoft = be_bytes 4 (311 :: u32)"

definition mppe_key :: "crypto \<Rightarrow> bytes \<Rightarrow> bytes \<Rightarrow> byte \<Rightarrow> bytes \<Rightarrow> bytes \<Rightarrow> attr" where
  "mppe_key cr secret req_auth which key rnd =
     (let salt = rnd[0 := rnd ! 0 OR 0x80];
          plain = of_nat (length key) # key;
          plain = plain @ replicate ((16 - length plain mod 16) mod 16) 0;
          out = mppe_chain cr secret (req_auth @ salt) plain
      in (attrVendor, vendor_microsoft @ [which, of_nat (2 + 2 + length out)] @ salt @ out))"

definition ms_dns :: "nat \<Rightarrow> bytes \<Rightarrow> attr" where
  "ms_dns i d4 = (attrVendor, vendor_microsoft @ [of_nat (28 + i), 6] @ d4)"

text \<open>The resolvers of an Accept: at most two, up to the first that is not IPv4.\<close>

definition dns_attrs :: "ip_addr list \<Rightarrow> attr list" where
  "dns_attrs dns = (let v4 = takeWhile ip_is4 (take 2 dns)
     in map (\<lambda>(i, d). ms_dns i (the (as4 d))) (zip [0..<length v4] v4))"

definition radius_accept :: "crypto \<Rightarrow> bytes \<Rightarrow> packet \<Rightarrow> bytes \<Rightarrow> radius_user \<Rightarrow> bytes \<Rightarrow> bytes \<Rightarrow> bytes \<Rightarrow> bytes \<Rightarrow> bytes option" where
  "radius_accept cr secret req eap u recv send rnd1 rnd2 =
     (case as4 (us_ip u) of
        None \<Rightarrow> None
      | Some a4 \<Rightarrow> Some (build_packet cr secret codeAccessAccept req
          (eap_attrs eap @ [(attrFramedIP, a4), mppe_key cr secret (pk_auth req) 17 recv rnd1,
             mppe_key cr secret (pk_auth req) 16 send rnd2] @ dns_attrs (us_dns u))))"

section \<open>PAP (pap.go)\<close>

definition trim_zeros :: "bytes \<Rightarrow> bytes" where
  "trim_zeros bs = rev (dropWhile (\<lambda>b. b = 0) (rev bs))"

function pap_blocks :: "crypto \<Rightarrow> bytes \<Rightarrow> bytes \<Rightarrow> bytes \<Rightarrow> bytes" where
  "pap_blocks cr secret prev hidden =
     (if hidden = [] then []
      else map2 (XOR) (take 16 hidden) (cr_md5 cr (secret @ prev)) @
        pap_blocks cr secret (take 16 hidden) (drop 16 hidden))"
  by auto
termination by (relation "measure (\<lambda>(_, _, _, hidden). length hidden)") auto

declare pap_blocks.simps [simp del]

definition pap_password :: "crypto \<Rightarrow> bytes \<Rightarrow> bytes \<Rightarrow> bytes option \<Rightarrow> bytes option" where
  "pap_password cr secret req_auth hidden =
     (case hidden of
        None \<Rightarrow> None
      | Some h \<Rightarrow>
          if length h = 0 \<or> length h mod 16 \<noteq> 0 \<or> length h > 128 then None
          else Some (trim_zeros (pap_blocks cr secret req_auth h)))"

definition pap_attrs :: "radius_user \<Rightarrow> attr list" where
  "pap_attrs u =
     (case us_ip u of IP4 a4 \<Rightarrow> [(attrFramedIP, a4)] | _ \<Rightarrow> []) @ dns_attrs (us_dns u)"

definition pap_answer :: "crypto \<Rightarrow> bytes \<Rightarrow> radius_server \<Rightarrow> packet \<Rightarrow> bytes \<times> radius_server" where
  "pap_answer cr secret sv p =
     (let name = (case get_attr p attrUserName of None \<Rightarrow> [] | Some n \<Rightarrow> n) in
      case pap_password cr secret (pk_auth p) (get_attr p attrUserPassword) of
        None \<Rightarrow> (radius_reject cr secret p 0, sv)
      | Some got \<Rightarrow>
          if name = [] then (radius_reject cr secret p 0, sv)
          else (case sv_lookup sv name of
              None \<Rightarrow> (radius_reject cr secret p 0, sv)
            | Some u \<Rightarrow>
                if got \<noteq> us_password u then (radius_reject cr secret p 0, sv)
                else (build_packet cr secret codeAccessAccept p (pap_attrs u),
                  sv\<lparr>sv_told := name # sv_told sv\<rparr>)))"

section \<open>EAP-MSCHAPv2 (answer)\<close>

text \<open>What one request may read from crypto/rand; a failed read of the challenge is None.\<close>

record random_bytes =
  rn_challenge :: "bytes option"
  rn_state :: bytes
  rn_recv :: bytes
  rn_send :: bytes

text \<open>The device's identity: answered with a challenge.\<close>

definition begin_eap :: "crypto \<Rightarrow> bytes \<Rightarrow> radius_server \<Rightarrow> packet \<Rightarrow> bytes \<Rightarrow> instant \<Rightarrow> random_bytes \<Rightarrow> bytes \<times> radius_server" where
  "begin_eap cr secret sv p msg now rn =
     (case rn_challenge rn of
        None \<Rightarrow> (radius_reject cr secret p (msg ! 1), sv)
      | Some ch \<Rightarrow>
          let eap_id = msg ! 1 + 1;
              ss = \<lparr>es_identity = drop 5 msg, es_eap_id = eap_id, es_challenge = ch, es_user = [], es_nt = [],
                es_peer = [], es_expires = now + sessionTTL, es_succeeded = False\<rparr>;
              ms = put_len16 ([opChallenge, eap_id, 0, 0, 16] @ ch @ ascii ''wui'')
          in (radius_challenge cr secret p (rn_state rn) (eap_packet eapRequest eap_id eapTypeMSCHAPv2 ms),
              store_session sv ss (rn_state rn)))"

text \<open>The fields of the device's answer: the peer challenge, the NT response and the username.\<close>

definition answer_peer :: "bytes \<Rightarrow> bytes" where "answer_peer msg = take 16 (drop 10 msg)"
definition answer_nt :: "bytes \<Rightarrow> bytes" where "answer_nt msg = take 24 (drop 34 msg)"
definition answer_name :: "bytes \<Rightarrow> bytes" where "answer_name msg = after_backslash (drop 59 msg)"

definition check_answer :: "crypto \<Rightarrow> bytes \<Rightarrow> radius_server \<Rightarrow> packet \<Rightarrow> bytes \<Rightarrow> eap_session \<Rightarrow> random_bytes \<Rightarrow> bytes \<times> radius_server" where
  "check_answer cr secret sv p msg ss rn =
     (let eap_id = msg ! 1; ms = drop 5 msg in
      if ms ! 4 \<noteq> 49 then (radius_reject cr secret p eap_id, sv)
      else let peer = answer_peer msg; nt = answer_nt msg; name = answer_name msg;
               refuse = (radius_reject cr secret p eap_id, forget sv p) in
        case sv_lookup sv name of
          None \<Rightarrow> refuse
        | Some u \<Rightarrow>
            if us_ip u = NoIP \<or> nt \<noteq> nt_response cr (es_challenge ss) peer name (us_password u) then refuse
            else let ss' = ss\<lparr>es_user := name, es_nt := nt, es_peer := peer, es_succeeded := True, es_eap_id := eap_id + 1\<rparr>;
                     ok2 = authenticator_response cr (us_password u) nt peer (es_challenge ss) name @ ascii '' M=OK'';
                     sm = put_len16 ([opSuccess, ms ! 1, 0, 0] @ ok2);
                     sv = amend_session sv p ss'
              in (radius_challenge cr secret p (rn_state rn) (eap_packet eapRequest (eap_id + 1) eapTypeMSCHAPv2 sm),
                  store_session (forget sv p) ss' (rn_state rn)))"

definition finish_eap :: "crypto \<Rightarrow> bytes \<Rightarrow> radius_server \<Rightarrow> packet \<Rightarrow> bytes \<Rightarrow> eap_session \<Rightarrow> random_bytes \<Rightarrow> bytes option \<times> radius_server" where
  "finish_eap cr secret sv p msg ss rn =
     (case sv_lookup sv (es_user ss) of
        None \<Rightarrow> (Some (radius_reject cr secret p (msg ! 1)), forget sv p)
      | Some u \<Rightarrow>
          let (recv, send) = server_keys cr (us_password u) (es_nt ss)
          in (radius_accept cr secret p (eap_packet eapSuccess (msg ! 1) 0 []) u recv send (rn_recv rn) (rn_send rn),
              forget sv p))"

definition session_of :: "radius_server \<Rightarrow> packet \<Rightarrow> eap_session option" where
  "session_of sv p = (case get_attr p attrState of None \<Rightarrow> None | Some st \<Rightarrow> sv_sessions sv st)"

definition eap_answer :: "crypto \<Rightarrow> bytes \<Rightarrow> radius_server \<Rightarrow> packet \<Rightarrow> instant \<Rightarrow> random_bytes \<Rightarrow> bytes option \<times> radius_server" where
  "eap_answer cr secret sv p now rn =
     (let msg = eap_of p in
      if length msg < 4 \<or> msg ! 0 \<noteq> eapResponse then (Some (radius_reject cr secret p 0), sv)
      else let sv = sv\<lparr>sv_sessions := sweep_sessions now (sv_sessions sv)\<rparr>;
               refuse = (Some (radius_reject cr secret p (msg ! 1)), forget sv p) in
        case session_of sv p of
          None \<Rightarrow>
            if length msg \<ge> 5 \<and> msg ! 4 = eapTypeIdentity
            then map_prod Some id (begin_eap cr secret sv p msg now rn) else refuse
        | Some ss \<Rightarrow>
            if \<not> es_succeeded ss \<and> length msg \<ge> 5 \<and> msg ! 4 = eapTypeMSCHAPv2 \<and> length msg \<ge> 5 + 4 + 1 + 49 \<and> msg ! 5 = opResponse
            then map_prod Some id (check_answer cr secret sv p msg ss rn)
            else if es_succeeded ss \<and> length msg \<ge> 6 \<and> msg ! 4 = eapTypeMSCHAPv2 \<and> msg ! 5 = opSuccess
            then finish_eap cr secret sv p msg ss rn
            else refuse)"

section \<open>One request (handle)\<close>

text \<open>string(b) of a byte: its code point in UTF-8.\<close>

definition rune_string :: "byte \<Rightarrow> bytes" where
  "rune_string b = (if b < 0x80 then [b] else [0xC0 OR drop_bit 6 b, 0x80 OR (b AND 0x3F)])"

definition reply_key :: "bytes \<Rightarrow> packet \<Rightarrow> bytes" where
  "reply_key from_addr p = from_addr @ rune_string (pk_id p) @ pk_auth p"

definition is_pap :: "packet \<Rightarrow> bool" where
  "is_pap p \<longleftrightarrow> get_attr p attrUserPassword \<noteq> None \<and> get_attr p attrEAPMessage = None"

text \<open>
  What handle returns: an error, the reply, or None where the code panics.
\<close>

definition admit :: "crypto \<Rightarrow> bytes \<Rightarrow> bytes \<Rightarrow> radius_error + packet" where
  "admit cr secret raw =
     (case parse_packet raw of
        Inl e \<Rightarrow> Inl e
      | Inr p \<Rightarrow>
          if pk_code p \<noteq> codeAccessRequest then Inl (NotARequest (pk_code p))
          else if (get_attr p attrMessageAuth \<noteq> None \<or> \<not> is_pap p) \<and> \<not> verify cr secret raw p then Inl BadAuthenticator
          else Inr p)"

definition radius_handle :: "crypto \<Rightarrow> bytes \<Rightarrow> radius_server \<Rightarrow> bytes \<Rightarrow> bytes \<Rightarrow> instant \<Rightarrow> random_bytes \<Rightarrow>
    (radius_error + bytes option) \<times> radius_server" where
  "radius_handle cr secret sv raw from_addr now rn =
     (case admit cr secret raw of
        Inl e \<Rightarrow> (Inl e, sv)
      | Inr p \<Rightarrow>
          let key = reply_key from_addr p;
              sv = sv\<lparr>sv_replies := sweep_replies now (sv_replies sv)\<rparr> in
          case sv_replies sv key of
            Some r \<Rightarrow> (Inr (Some (fst r)), sv)
          | None \<Rightarrow>
              case (if is_pap p then map_prod Some id (pap_answer cr secret sv p) else eap_answer cr secret sv p now rn) of
                (None, sv') \<Rightarrow> (Inr None, sv')
              | (Some reply, sv') \<Rightarrow> (Inr (Some reply), sv'\<lparr>sv_replies := (sv_replies sv')(key \<mapsto> (reply, now + replyCacheTTL))\<rparr>))"

section \<open>Replies read back\<close>

definition attr_ok :: "attr \<Rightarrow> bool" where
  "attr_ok a \<longleftrightarrow> length (snd a) \<le> 253"

lemma unat_of_nat_small: "n < 2 ^ LENGTH('a) \<Longrightarrow> unat (of_nat n :: 'a::len word) = n"
  by (simp add: unat_of_nat)

lemma parse_attr_bytes:
  assumes "attr_ok a"
  shows "parse_attrs (attr_bytes a @ rest) = (case parse_attrs rest of Inl e \<Rightarrow> Inl e | Inr as \<Rightarrow> Inr (a # as))"
proof -
  define l where "l = (of_nat (2 + length (snd a)) :: byte)"
  have "unat l = 2 + length (snd a)"
    using assms unfolding l_def by (intro unat_of_nat_small) (simp add: attr_ok_def)
  then have n: "\<not> unat l < 2" "\<not> unat l - 2 > length (snd a @ rest)" "take (unat l - 2) (snd a @ rest) = snd a"
    "drop (unat l - 2) (snd a @ rest) = rest"
    by simp_all
  show ?thesis
    unfolding attr_bytes_def l_def [symmetric] append_Cons parse_attrs.simps n
    using n(1,2) by (simp del: length_append split: sum.split)
qed

lemma parse_attrs_bytes:
  "list_all attr_ok as \<Longrightarrow> parse_attrs (concat (map attr_bytes as)) = Inr as"
  by (induction as) (simp_all add: parse_attr_bytes)

definition reply_head :: "byte \<Rightarrow> packet \<Rightarrow> attr list \<Rightarrow> bytes" where
  "reply_head code req as = [code, pk_id req] @ be_bytes 2 (of_nat (38 + length (concat (map attr_bytes as))) :: u16)"

definition reply_mac :: "crypto \<Rightarrow> bytes \<Rightarrow> byte \<Rightarrow> packet \<Rightarrow> attr list \<Rightarrow> bytes" where
  "reply_mac cr secret code req as =
     cr_hmac cr secret (reply_head code req as @ pk_auth req @
       concat (map attr_bytes (as @ [(attrMessageAuth, replicate 16 0)])))"

definition reply_auth :: "crypto \<Rightarrow> bytes \<Rightarrow> byte \<Rightarrow> packet \<Rightarrow> attr list \<Rightarrow> bytes" where
  "reply_auth cr secret code req as =
     cr_md5 cr (reply_head code req as @ pk_auth req @
       concat (map attr_bytes (as @ [(attrMessageAuth, reply_mac cr secret code req as)])) @ secret)"

lemma build_shape:
  assumes "length (pk_auth req) = 16" "\<And>k b. length (cr_hmac cr k b) = 16" "\<And>b. length (cr_md5 cr b) = 16"
  shows "build_packet cr secret code req as =
    reply_head code req as @ reply_auth cr secret code req as @
      concat (map attr_bytes (as @ [(attrMessageAuth, reply_mac cr secret code req as)]))"
proof -
  let ?b = "concat (map attr_bytes as)"
  let ?z = "concat (map attr_bytes (as @ [(attrMessageAuth, replicate 16 0)]))"
  have z: "?z = ?b @ [80, 18] @ replicate 16 0" by (simp add: attr_bytes_def)
  have l: "4 + length (pk_auth req) + length ?z = 38 + length ?b" using assms(1) unfolding z by simp
  let ?h = "reply_head code req as"
  have h: "[code, pk_id req] @ be_bytes 2 (of_nat (4 + length (pk_auth req) + length ?z) :: u16) @ pk_auth req @ ?z
      = ?h @ pk_auth req @ ?b @ [80, 18] @ replicate 16 0"
    by (simp only: l) (simp add: reply_head_def attr_bytes_def)
  have mac: "cr_hmac cr secret (?h @ pk_auth req @ ?b @ [80, 18] @ replicate 16 0) = reply_mac cr secret code req as"
    by (simp add: reply_mac_def z [simplified])
  have lh: "length ?h = 4" by (simp add: reply_head_def)
  have o1: "take (length (?h @ pk_auth req @ ?b @ [80, 18] @ replicate 16 0) - 16)
      (?h @ pk_auth req @ ?b @ [80, 18] @ replicate 16 0) = ?h @ pk_auth req @ ?b @ [80, 18]"
    by simp
  have body: "concat (map attr_bytes (as @ [(attrMessageAuth, reply_mac cr secret code req as)]))
      = ?b @ [80, 18] @ reply_mac cr secret code req as"
    by (simp add: attr_bytes_def reply_mac_def assms(2))
  have "build_packet cr secret code req as =
      (let out = ?h @ pk_auth req @ ?b @ [80, 18] @ reply_mac cr secret code req as
       in take 4 out @ take 16 (cr_md5 cr (out @ secret)) @ drop 20 out)"
    unfolding build_packet_def Let_def h mac o1 by (simp add: reply_mac_def assms(2))
  also have "\<dots> = ?h @ reply_auth cr secret code req as @ ?b @ [80, 18] @ reply_mac cr secret code req as"
    unfolding Let_def reply_auth_def body using assms(1,3) lh by simp
  finally show ?thesis using body by simp
qed

lemma reply_code:
  assumes "length (pk_auth req) = 16" "\<And>k b. length (cr_hmac cr k b) = 16" "\<And>b. length (cr_md5 cr b) = 16"
  shows "hd (build_packet cr secret code req as) = code"
  by (simp add: build_shape [OF assms] reply_head_def)

text \<open>
  The header is the packet's code, identifier and length; the length is the number of its bytes.
\<close>

lemma parse_build:
  assumes c: "length (pk_auth req) = 16" "\<And>k b. length (cr_hmac cr k b) = 16" "\<And>b. length (cr_md5 cr b) = 16"
    and as: "list_all attr_ok as" "38 + length (concat (map attr_bytes as)) < 65536"
  shows "parse_packet (build_packet cr secret code req as @ rest) =
    Inr \<lparr>pk_code = code, pk_id = pk_id req, pk_auth = reply_auth cr secret code req as,
      pk_attrs = as @ [(attrMessageAuth, reply_mac cr secret code req as)]\<rparr>"
proof -
  let ?n = "38 + length (concat (map attr_bytes as))"
  let ?as = "as @ [(attrMessageAuth, reply_mac cr secret code req as)]"
  let ?b = "build_packet cr secret code req as"
  note sh = build_shape [OF c, of secret code as]
  have la: "length (reply_auth cr secret code req as) = 16" "length (reply_mac cr secret code req as) = 16"
    using c by (simp_all add: reply_auth_def reply_mac_def)
  have l: "length ?b = ?n"
    unfolding sh by (simp add: la reply_head_def attr_bytes_def)
  have n: "unat (of_nat ?n :: u16) = ?n"
    by (rule unat_of_nat_small) (use as(2) in simp)
  have two: "take 2 (drop 2 (?b @ rest)) = be_bytes 2 (of_nat ?n :: u16)"
    unfolding sh by (simp add: reply_head_def)
  have len: "unat (rd_be (take 2 (drop 2 (?b @ rest))) :: u16) = ?n"
    unfolding two using n by simp
  have d: "drop 20 (take ?n (?b @ rest)) = concat (map attr_bytes ?as)"
  proof -
    have "take ?n (?b @ rest) = ?b" using l by simp
    moreover have "drop 20 ?b = concat (map attr_bytes ?as)"
      unfolding sh by (simp add: reply_head_def la)
    ultimately show ?thesis by simp
  qed
  have "list_all attr_ok ?as" using as(1) la by (simp add: attr_ok_def)
  then have p: "parse_attrs (drop 20 (take ?n (?b @ rest))) = Inr ?as"
    unfolding d by (rule parse_attrs_bytes)
  have hd4: "(?b @ rest) ! 0 = code" "(?b @ rest) ! 1 = pk_id req"
    "take 16 (drop 4 (?b @ rest)) = reply_auth cr secret code req as"
    unfolding sh by (simp_all add: reply_head_def la)
  have "\<not> length (?b @ rest) < 20" "\<not> (?n < 20 \<or> ?n > length (?b @ rest))" using l by simp_all
  then show ?thesis
    unfolding parse_packet_def Let_def len p hd4 by (simp only: if_False sum.case)
qed

section \<open>The hidden password\<close>

text \<open>
  RFC 2865 hides a password with the chain mppeKey encrypts with: over the padded password and
  the request's authenticator. papPassword undoes it.
\<close>

definition xor_blocks :: "bytes \<Rightarrow> bytes \<Rightarrow> bytes" where
  "xor_blocks a b = map2 (XOR) a b"

lemma xor_blocks_twice: "length a \<le> length k \<Longrightarrow> map2 (XOR) (map2 (XOR) a (k :: bytes)) k = a"
  by (rule nth_equalityI) (simp_all add: xor.assoc)

lemma block_append:
  "length c = (16 :: nat) \<Longrightarrow> take 16 (c @ r) = c" "length c = (16 :: nat) \<Longrightarrow> drop 16 (c @ r) = r"
  "length c = (16 :: nat) \<Longrightarrow> c @ r \<noteq> []"
  by auto

lemma pap_blocks_chain:
  assumes md5: "\<And>b. length (cr_md5 cr b) = 16"
  shows "length plain mod 16 = 0 \<Longrightarrow> pap_blocks cr secret prev (mppe_chain cr secret prev plain) = plain \<and>
    length (mppe_chain cr secret prev plain) = length plain"
proof (induction plain arbitrary: prev rule: length_induct)
  case (1 plain)
  show ?case
  proof (cases "plain = []")
    case True
    then show ?thesis by (simp add: mppe_chain.simps pap_blocks.simps)
  next
    case False
    with 1(2) have l: "16 \<le> length plain"
      by (metis length_greater_0_conv mod_less not_le not_less_iff_gr_or_eq)
    let ?k = "cr_md5 cr (secret @ prev)"
    let ?c = "map2 (XOR) (take 16 plain) ?k"
    have lc: "length ?c = 16" using l md5 by simp
    let ?r = "mppe_chain cr secret ?c (drop 16 plain)"
    have m: "length (drop 16 plain) mod 16 = 0" "length (drop 16 plain) < length plain"
      using 1(2) l by (simp_all add: le_mod_geq)
    note ih2 = 1(1) [rule_format, OF m(2,1), of ?c]
    note ih = conjunct1 [OF ih2] conjunct2 [OF ih2]
    have e: "mppe_chain cr secret prev plain = ?c @ ?r"
      using False by (simp add: mppe_chain.simps [of _ _ _ plain] Let_def)
    have t: "take 16 (?c @ ?r) = ?c" "drop 16 (?c @ ?r) = ?r" "?c @ ?r \<noteq> []"
      by (rule block_append [OF lc])+
    have "map2 (XOR) ?c ?k = take 16 plain"
      using xor_blocks_twice [of "take 16 plain" ?k] md5 by simp
    then have "pap_blocks cr secret prev (?c @ ?r) = plain"
      unfolding pap_blocks.simps [of _ _ _ "?c @ ?r"] if_not_P [OF t(3)] t(1,2) ih by simp
    then show ?thesis
      unfolding e using ih(2) lc l by simp
  qed
qed

lemma chain_pap_blocks:
  assumes md5: "\<And>b. length (cr_md5 cr b) = 16"
  shows "length h mod 16 = 0 \<Longrightarrow> mppe_chain cr secret prev (pap_blocks cr secret prev h) = h \<and>
    length (pap_blocks cr secret prev h) = length h"
proof (induction h arbitrary: prev rule: length_induct)
  case (1 h)
  show ?case
  proof (cases "h = []")
    case True
    then show ?thesis by (simp add: mppe_chain.simps pap_blocks.simps)
  next
    case False
    with 1(2) have l: "16 \<le> length h"
      by (metis length_greater_0_conv mod_less not_le not_less_iff_gr_or_eq)
    let ?k = "cr_md5 cr (secret @ prev)"
    let ?p = "map2 (XOR) (take 16 h) ?k"
    let ?r = "pap_blocks cr secret (take 16 h) (drop 16 h)"
    have lp: "length ?p = 16" using l md5 by simp
    have m: "length (drop 16 h) mod 16 = 0" "length (drop 16 h) < length h"
      using 1(2) l by (simp_all add: le_mod_geq)
    note ih2 = 1(1) [rule_format, OF m(2,1), of "take 16 h"]
    note ih = conjunct1 [OF ih2] conjunct2 [OF ih2]
    have e: "pap_blocks cr secret prev h = ?p @ ?r"
      using False by (simp add: pap_blocks.simps [of _ _ _ h])
    have t: "take 16 (?p @ ?r) = ?p" "drop 16 (?p @ ?r) = ?r" "?p @ ?r \<noteq> []"
      by (rule block_append [OF lp])+
    have "map2 (XOR) ?p ?k = take 16 h"
      using xor_blocks_twice [of "take 16 h" ?k] md5 by simp
    then have "mppe_chain cr secret prev (?p @ ?r) = h"
      unfolding mppe_chain.simps [of _ _ _ "?p @ ?r"] if_not_P [OF t(3)] t(1,2) Let_def using ih(1) by simp
    then show ?thesis
      unfolding e using ih(2) lp l by simp
  qed
qed

lemma trim_zeros_iff:
  "trim_zeros b = w \<longleftrightarrow> (\<exists>n. b = w @ replicate n 0) \<and> (w = [] \<or> last w \<noteq> 0)"
proof
  assume e: "trim_zeros b = w"
  let ?r = "rev b"
  have "b = rev (dropWhile (\<lambda>b. b = 0) ?r) @ rev (takeWhile (\<lambda>b. b = 0) ?r)"
    by (metis rev_append rev_rev_ident takeWhile_dropWhile_id)
  moreover have "rev (takeWhile (\<lambda>b. b = 0) ?r) = replicate (length (takeWhile (\<lambda>b. b = 0) ?r)) 0"
    by (rule replicate_eqI) (auto dest: set_takeWhileD)
  moreover have "w = [] \<or> last w \<noteq> 0"
    using e hd_dropWhile [of "\<lambda>b. b = 0" ?r] by (auto simp: trim_zeros_def last_rev)
  ultimately show "(\<exists>n. b = w @ replicate n 0) \<and> (w = [] \<or> last w \<noteq> 0)"
    using e by (auto simp: trim_zeros_def)
next
  assume "(\<exists>n. b = w @ replicate n 0) \<and> (w = [] \<or> last w \<noteq> 0)"
  then obtain n where b: "b = w @ replicate n 0" and w: "w = [] \<or> last w \<noteq> 0" by blast
  have "dropWhile (\<lambda>b. b = 0) (replicate n 0 @ rev w) = rev w"
    using w by (cases w rule: rev_cases) (simp_all add: dropWhile_append3 dropWhile_append)
  then show "trim_zeros b = w" by (simp add: trim_zeros_def b)
qed

text \<open>A whole number of blocks, at least one and at most eight.\<close>

definition hidden_ok :: "nat \<Rightarrow> bool" where
  "hidden_ok n \<longleftrightarrow> n \<noteq> 0 \<and> n mod 16 = 0 \<and> n \<le> 128"

lemma pap_password_iff:
  assumes md5: "\<And>b. length (cr_md5 cr b) = 16"
  shows "pap_password cr secret prev (Some h) = Some w \<longleftrightarrow>
    (w = [] \<or> last w \<noteq> 0) \<and>
    (\<exists>n. hidden_ok (length w + n) \<and> h = mppe_chain cr secret prev (w @ replicate n 0))"
proof (cases "hidden_ok (length h)")
  case True
  then have l: "length h mod 16 = 0" by (simp add: hidden_ok_def)
  note c = chain_pap_blocks [OF md5 l, where secret = secret and prev = prev]
  have "pap_password cr secret prev (Some h) = Some w \<longleftrightarrow> trim_zeros (pap_blocks cr secret prev h) = w"
    using True by (simp add: pap_password_def hidden_ok_def)
  also have "\<dots> \<longleftrightarrow> (w = [] \<or> last w \<noteq> 0) \<and> (\<exists>n. pap_blocks cr secret prev h = w @ replicate n 0)"
    unfolding trim_zeros_iff by blast
  also have "(\<exists>n. pap_blocks cr secret prev h = w @ replicate n 0) \<longleftrightarrow>
    (\<exists>n. hidden_ok (length w + n) \<and> h = mppe_chain cr secret prev (w @ replicate n 0))"
  proof
    assume "\<exists>n. pap_blocks cr secret prev h = w @ replicate n 0"
    then obtain n where e: "pap_blocks cr secret prev h = w @ replicate n 0" by blast
    then have "length h = length w + n" using c by simp
    with e c True show "\<exists>n. hidden_ok (length w + n) \<and> h = mppe_chain cr secret prev (w @ replicate n 0)"
      by (intro exI [of _ n]) simp
  next
    assume "\<exists>n. hidden_ok (length w + n) \<and> h = mppe_chain cr secret prev (w @ replicate n 0)"
    then obtain n where n: "hidden_ok (length w + n)" "h = mppe_chain cr secret prev (w @ replicate n 0)" by blast
    then have "length (w @ replicate n 0) mod 16 = 0" by (simp add: hidden_ok_def)
    from pap_blocks_chain [OF md5 this, where secret = secret and prev = prev] n(2)
    show "\<exists>n. pap_blocks cr secret prev h = w @ replicate n 0" by auto
  qed
  finally show ?thesis .
next
  case False
  have "h \<noteq> mppe_chain cr secret prev (w @ replicate n 0)" if "hidden_ok (length w + n)" for n
    using pap_blocks_chain [OF md5, of "w @ replicate n 0" secret prev] that False by (auto simp: hidden_ok_def)
  moreover have "pap_password cr secret prev (Some h) \<noteq> Some w"
    using False by (auto simp: pap_password_def hidden_ok_def)
  ultimately show ?thesis by blast
qed

text \<open>
  PAP signs in exactly the holder of the password: the reply is an Access-Accept just when the
  request names a known user and its User-Password is that user's password, padded with zeros to
  whole blocks and hidden with the shared secret and the request's authenticator. Only then is
  the user's other session told to end.
\<close>
lemma pap_exact:
  assumes "length (pk_auth p) = 16" "\<And>k b. length (cr_hmac cr k b) = 16" "\<And>b. length (cr_md5 cr b) = 16"
  shows "(hd (fst (pap_answer cr secret sv p)) = 2) =
      (\<exists>name u n. get_attr p 1 = Some name \<and> name \<noteq> [] \<and> sv_lookup sv name = Some u \<and>
        (us_password u = [] \<or> last (us_password u) \<noteq> 0) \<and> hidden_ok (length (us_password u) + n) \<and>
        get_attr p 2 = Some (mppe_chain cr secret (pk_auth p) (us_password u @ replicate n 0))) \<and>
    hd (fst (pap_answer cr secret sv p)) \<in> {2, 3} \<and>
    sv_told (snd (pap_answer cr secret sv p)) =
      (if hd (fst (pap_answer cr secret sv p)) = 2 then [the (get_attr p 1)] else []) @ sv_told sv"
proof -
  note code = reply_code [OF assms]
  define name where "name = (case get_attr p 1 of None \<Rightarrow> [] | Some n \<Rightarrow> n)"
  define ok where "ok \<longleftrightarrow> (\<exists>u. name \<noteq> [] \<and> sv_lookup sv name = Some u \<and>
    pap_password cr secret (pk_auth p) (get_attr p 2) = Some (us_password u))"
  have "pap_answer cr secret sv p = (if ok
      then (build_packet cr secret 2 p (pap_attrs (the (sv_lookup sv name))), sv\<lparr>sv_told := name # sv_told sv\<rparr>)
      else (radius_reject cr secret p 0, sv))"
    by (auto simp: pap_answer_def Let_def name_def [symmetric] ok_def split: option.splits)
  moreover have "ok \<longleftrightarrow> (\<exists>name u n. get_attr p 1 = Some name \<and> name \<noteq> [] \<and> sv_lookup sv name = Some u \<and>
        (us_password u = [] \<or> last (us_password u) \<noteq> 0) \<and> hidden_ok (length (us_password u) + n) \<and>
        get_attr p 2 = Some (mppe_chain cr secret (pk_auth p) (us_password u @ replicate n 0)))"
  proof (cases "get_attr p 2")
    case None
    then show ?thesis by (simp add: ok_def pap_password_def)
  next
    case (Some h)
    show ?thesis
      unfolding ok_def Some pap_password_iff [OF assms(3)] name_def by (auto split: option.splits)
  qed
  moreover have "ok \<Longrightarrow> name = the (get_attr p 1)"
    by (auto simp: ok_def name_def split: option.splits)
  ultimately show ?thesis
    by (auto simp: code radius_reject_def)
qed

section \<open>Runs\<close>

text \<open>
  What reaches the server over time: a datagram with its source, the clock and the randomness
  drawn for it, or a change of the tunnel's devices.
\<close>

datatype radius_event = Datagram bytes bytes instant random_bytes | SetLookup user_lookup

fun radius_step :: "crypto \<Rightarrow> bytes \<Rightarrow> radius_server \<Rightarrow> radius_event \<Rightarrow> radius_server" where
  "radius_step cr secret sv (Datagram raw from_addr now rn) = snd (radius_handle cr secret sv raw from_addr now rn)"
| "radius_step cr secret sv (SetLookup lk) = sv\<lparr>sv_lookup := lk\<rparr>"

text \<open>
  The packet of an event that answer is run on: an authenticated request that is not PAP and is
  not a retransmission.
\<close>

fun eap_request :: "crypto \<Rightarrow> bytes \<Rightarrow> radius_server \<Rightarrow> radius_event \<Rightarrow> packet option" where
  "eap_request cr secret sv (Datagram raw from_addr now rn) =
     (case admit cr secret raw of
        Inl e \<Rightarrow> None
      | Inr p \<Rightarrow> if is_pap p \<or> sweep_replies now (sv_replies sv) (reply_key from_addr p) \<noteq> None then None else Some p)"
| "eap_request cr secret sv (SetLookup lk) = None"

text \<open>
  The proof of a password, by the protocol: the request names a session that is still waiting, and
  its answer is the NT response to that session's challenge for the password the username has now.
\<close>

definition proves :: "crypto \<Rightarrow> radius_server \<Rightarrow> packet \<Rightarrow> instant \<Rightarrow> bytes option" where
  "proves cr sv p now =
     (let msg = eap_of p; name = answer_name msg in
      case session_of (sv\<lparr>sv_sessions := sweep_sessions now (sv_sessions sv)\<rparr>) p of
        None \<Rightarrow> None
      | Some ss \<Rightarrow>
          case sv_lookup sv name of
            None \<Rightarrow> None
          | Some u \<Rightarrow>
              if es_succeeded ss \<or> length msg < 59 \<or> msg ! 4 \<noteq> eapTypeMSCHAPv2 \<or> msg ! 5 \<noteq> opResponse \<or> answer_nt msg \<noteq> nt_response cr (es_challenge ss) (answer_peer msg) name (us_password u)
              then None else Some name)"

text \<open>Whom an Access-Accept of answer lets in: the user of the session the request names.\<close>

definition lets_in :: "crypto \<Rightarrow> bytes \<Rightarrow> radius_server \<Rightarrow> packet \<Rightarrow> instant \<Rightarrow> random_bytes \<Rightarrow> bytes option" where
  "lets_in cr secret sv p now rn =
     (case fst (eap_answer cr secret sv p now rn) of
        None \<Rightarrow> None
      | Some reply \<Rightarrow> if hd reply = 2 then map_option es_user (session_of sv p) else None)"

fun proves_at :: "crypto \<Rightarrow> bytes \<Rightarrow> radius_server \<Rightarrow> radius_event \<Rightarrow> bytes option" where
  "proves_at cr secret sv (Datagram raw from_addr now rn) =
     Option.bind (eap_request cr secret sv (Datagram raw from_addr now rn)) (\<lambda>p. proves cr sv p now)"
| "proves_at cr secret sv (SetLookup lk) = None"

fun lets_in_at :: "crypto \<Rightarrow> bytes \<Rightarrow> radius_server \<Rightarrow> radius_event \<Rightarrow> bytes option" where
  "lets_in_at cr secret sv (Datagram raw from_addr now rn) =
     Option.bind (eap_request cr secret sv (Datagram raw from_addr now rn)) (\<lambda>p. lets_in cr secret sv p now rn)"
| "lets_in_at cr secret sv (SetLookup lk) = None"

text \<open>A run, with how often a user's password was proved and how often the user was let in.\<close>

fun radius_run :: "crypto \<Rightarrow> bytes \<Rightarrow> radius_server \<Rightarrow> radius_event list \<Rightarrow> radius_server" where
  "radius_run cr secret sv [] = sv"
| "radius_run cr secret sv (e # es) = radius_run cr secret (radius_step cr secret sv e) es"

fun times :: "(radius_server \<Rightarrow> radius_event \<Rightarrow> bool) \<Rightarrow> crypto \<Rightarrow> bytes \<Rightarrow> radius_server \<Rightarrow> radius_event list \<Rightarrow> nat" where
  "times P cr secret sv [] = 0"
| "times P cr secret sv (e # es) = (if P sv e then 1 else 0) + times P cr secret (radius_step cr secret sv e) es"

subsection \<open>Proofs pay for sign-ins\<close>

definition proved_sessions :: "bytes \<Rightarrow> radius_server \<Rightarrow> bytes set" where
  "proved_sessions name sv = {k. \<exists>ss. sv_sessions sv k = Some ss \<and> es_succeeded ss \<and> es_user ss = name}"

lemma proved_replies [simp]: "proved_sessions name (sv\<lparr>sv_replies := x\<rparr>) = proved_sessions name sv"
  by (simp add: proved_sessions_def)

lemma proved_told [simp]: "proved_sessions name (sv\<lparr>sv_told := x\<rparr>) = proved_sessions name sv"
  by (simp add: proved_sessions_def)

lemma proved_lookup [simp]: "proved_sessions name (sv\<lparr>sv_lookup := x\<rparr>) = proved_sessions name sv"
  by (simp add: proved_sessions_def)

lemma proved_sweep: "proved_sessions name (sv\<lparr>sv_sessions := sweep_sessions now (sv_sessions sv)\<rparr>) \<subseteq> proved_sessions name sv"
  by (auto simp: proved_sessions_def sweep_sessions_def split: option.splits if_splits)

lemma proved_forget: "proved_sessions name (forget sv p) \<subseteq> proved_sessions name sv"
  by (auto simp: proved_sessions_def forget_def split: option.splits if_splits)

lemma proved_store:
  "proved_sessions name (store_session sv ss st) \<subseteq>
     (if es_succeeded ss \<and> es_user ss = name then {st} else {}) \<union> proved_sessions name sv"
  by (auto simp: proved_sessions_def store_session_def split: if_splits)

lemma forget_session:
  "session_of sv p = Some ss \<Longrightarrow> es_succeeded ss \<Longrightarrow> es_user ss = name \<Longrightarrow>
     \<exists>k \<in> proved_sessions name sv. proved_sessions name (forget sv p) \<subseteq> proved_sessions name sv - {k}"
  by (auto simp: session_of_def forget_def proved_sessions_def split: option.splits if_splits)

lemma session_of_sweep:
  "session_of (sv\<lparr>sv_sessions := sweep_sessions now (sv_sessions sv)\<rparr>) p = Some ss \<Longrightarrow> session_of sv p = Some ss"
  by (auto simp: session_of_def sweep_sessions_def split: option.splits if_splits)

text \<open>Forgetting takes what was written into the session out of reach.\<close>

lemma forget_amend: "forget (amend_session sv p ss) p = forget sv p"
  by (simp add: forget_def amend_session_def split: option.split)

lemma sv_lookup_forget [simp]: "sv_lookup (forget sv p) = sv_lookup sv"
  by (simp add: forget_def split: option.split)

lemma card_subset_le: "finite A \<Longrightarrow> B \<subseteq> A \<Longrightarrow> card B \<le> card A \<and> finite B"
  by (auto intro: card_mono finite_subset)

lemma proved_waiting:
  "\<not> es_succeeded ss \<Longrightarrow> proved_sessions name (store_session sv ss st) \<subseteq> proved_sessions name sv"
  using proved_store [where name = name and sv = sv and ss = ss and st = st] by simp

text \<open>One step of answer: it pays for what it gives.\<close>

definition pays :: "crypto \<Rightarrow> bytes \<Rightarrow> radius_server \<Rightarrow> packet \<Rightarrow> instant \<Rightarrow> random_bytes \<Rightarrow> bytes \<Rightarrow> radius_server \<Rightarrow> bool" where
  "pays cr secret sv p now rn name sv' \<longleftrightarrow>
     finite (proved_sessions name sv') \<and>
     (if lets_in cr secret sv p now rn = Some name then 1 else 0) + card (proved_sessions name sv')
       \<le> card (proved_sessions name sv) + (if proves cr sv p now = Some name then 1 else (0 :: nat))"

lemma pays_subset:
  "lets_in cr secret sv p now rn \<noteq> Some name \<Longrightarrow> finite (proved_sessions name sv) \<Longrightarrow>
     proved_sessions name sv' \<subseteq> proved_sessions name sv \<Longrightarrow> pays cr secret sv p now rn name sv'"
  using card_mono [of "proved_sessions name sv" "proved_sessions name sv'"]
    finite_subset [of "proved_sessions name sv'" "proved_sessions name sv"]
  by (simp add: pays_def)

lemma pays_proof:
  assumes "lets_in cr secret sv p now rn \<noteq> Some name" "finite (proved_sessions name sv)"
    "proves cr sv p now = Some name" "proved_sessions name sv' \<subseteq> insert st (proved_sessions name sv)"
  shows "pays cr secret sv p now rn name sv'"
proof -
  have "card (proved_sessions name sv') \<le> card (insert st (proved_sessions name sv))"
    using assms(2,4) by (intro card_mono) auto
  then have "card (proved_sessions name sv') \<le> card (proved_sessions name sv) + 1"
    using card_insert_le_m1 [of "Suc (card (proved_sessions name sv))" "proved_sessions name sv" st]
    by (simp add: card_insert_if [OF assms(2)] split: if_splits)
  moreover have "finite (proved_sessions name sv')"
    using assms(2,4) by (meson finite_insert finite_subset)
  ultimately show ?thesis using assms(1,3) by (simp add: pays_def)
qed

lemma pays_session:
  assumes "finite (proved_sessions name sv)" "k \<in> proved_sessions name sv"
    "proved_sessions name sv' \<subseteq> proved_sessions name sv - {k}"
  shows "pays cr secret sv p now rn name sv'"
proof -
  have "card (proved_sessions name sv') \<le> card (proved_sessions name sv - {k})"
    using assms by (intro card_mono) auto
  also have "\<dots> < card (proved_sessions name sv)"
    using assms(1,2) by (intro psubset_card_mono) auto
  finally show ?thesis
    using assms by (auto simp: pays_def intro: finite_subset)
qed

lemma check_answer_cases:
  assumes "session_of sv p = Some ss" "length msg \<ge> 59"
  shows "(\<exists>b. check_answer cr secret sv p msg ss rn = (radius_reject cr secret p b, sv)) \<or>
    (\<exists>b. check_answer cr secret sv p msg ss rn = (radius_reject cr secret p b, forget sv p)) \<or>
    (\<exists>st b ss' u. check_answer cr secret sv p msg ss rn = (radius_challenge cr secret p st b, store_session (forget sv p) ss' st) \<and>
       es_user ss' = answer_name msg \<and> sv_lookup sv (answer_name msg) = Some u \<and>
       answer_nt msg = nt_response cr (es_challenge ss) (answer_peer msg) (answer_name msg) (us_password u))"
proof -
  define u where "u = sv_lookup sv (answer_name msg)"
  show ?thesis
  proof (cases u)
    case None
    then show ?thesis unfolding check_answer_def Let_def u_def by auto
  next
    case (Some v)
    show ?thesis
    proof (cases "us_ip v = NoIP \<or> answer_nt msg \<noteq> nt_response cr (es_challenge ss) (answer_peer msg) (answer_name msg) (us_password v)")
      case True
      with Some show ?thesis unfolding check_answer_def Let_def u_def by auto
    next
      case False
      then have nt: "answer_nt msg = nt_response cr (es_challenge ss) (answer_peer msg) (answer_name msg) (us_password v)"
        by blast
      show ?thesis
      proof (cases "drop 5 msg ! 4 \<noteq> 49")
        case False2: False
        have "\<exists>st b ss'. check_answer cr secret sv p msg ss rn = (radius_challenge cr secret p st b, store_session (forget sv p) ss' st) \<and>
            es_user ss' = answer_name msg"
          unfolding check_answer_def Let_def forget_amend Some [unfolded u_def] option.case if_not_P [OF False] if_not_P [OF False2]
          by (intro exI conjI, rule refl) simp
        with Some nt show ?thesis unfolding u_def by blast
      qed (auto simp: check_answer_def)
    qed
  qed
qed

lemma eap_answer_pays:
  assumes c: "length (pk_auth p) = 16" "\<And>k b. length (cr_hmac cr k b) = 16" "\<And>b. length (cr_md5 cr b) = 16"
    and fin: "finite (proved_sessions name sv)"
  shows "pays cr secret sv p now rn name (snd (eap_answer cr secret sv p now rn))"
proof -
  note code = reply_code [OF c]
  let ?m = "eap_of p"
  let ?sw = "sv\<lparr>sv_sessions := sweep_sessions now (sv_sessions sv)\<rparr>"
  let ?r = "eap_answer cr secret sv p now rn"
  have no: "pays cr secret sv p now rn name (snd ?r)"
    if "fst ?r = Some b" "hd b \<noteq> 2" "proved_sessions name (snd ?r) \<subseteq> proved_sessions name ?sw \<or> snd ?r = sv" for b
    using that fin proved_sweep [where name = name and sv = sv and now = now] by (intro pays_subset) (auto simp: lets_in_def)
  show ?thesis
  proof (cases "length ?m < 4 \<or> ?m ! 0 \<noteq> eapResponse")
    case True
    then have "?r = (Some (radius_reject cr secret p 0), sv)" by (simp add: eap_answer_def)
    then show ?thesis by (intro no) (auto simp: code radius_reject_def)
  next
    case live: False
    have refuse: ?thesis if "?r = (Some (radius_reject cr secret p b), forget ?sw p)" for b
      using that proved_forget [where name = name and sv = ?sw and p = p] by (intro no) (auto simp: code radius_reject_def)
    show ?thesis
    proof (cases "session_of ?sw p")
      case None
      show ?thesis
      proof (cases "length ?m \<ge> 5 \<and> ?m ! 4 = eapTypeIdentity")
        case True
        then have r: "?r = map_prod Some id (begin_eap cr secret ?sw p ?m now rn)"
          using live None by (simp add: eap_answer_def Let_def)
        show ?thesis
          by (cases "rn_challenge rn"; rule no)
            (auto simp: r begin_eap_def Let_def code radius_reject_def radius_challenge_def dest!: proved_waiting [THEN subsetD, rotated])
      next
        case False
        then have "?r = (Some (radius_reject cr secret p (?m ! 1)), forget ?sw p)"
          using live None by (auto simp: eap_answer_def Let_def)
        then show ?thesis by (rule refuse)
      qed
    next
      case (Some ss)
      have ss: "session_of sv p = Some ss" using Some by (rule session_of_sweep)
      let ?ans = "\<not> es_succeeded ss \<and> length ?m \<ge> 5 \<and> ?m ! 4 = eapTypeMSCHAPv2 \<and> length ?m \<ge> 5 + 4 + 1 + 49 \<and> ?m ! 5 = opResponse"
      let ?fin = "es_succeeded ss \<and> length ?m \<ge> 6 \<and> ?m ! 4 = eapTypeMSCHAPv2 \<and> ?m ! 5 = opSuccess"
      consider (ans) ?ans | (ends) "\<not> ?ans" ?fin | (other) "\<not> ?ans" "\<not> ?fin" by blast
      then show ?thesis
      proof cases
        case ans
        then have r: "?r = map_prod Some id (check_answer cr secret ?sw p ?m ss rn)"
          using live Some by (simp add: eap_answer_def Let_def)
        have l59: "length ?m \<ge> 59" using ans by simp
        consider (a) b where "check_answer cr secret ?sw p ?m ss rn = (radius_reject cr secret p b, ?sw)"
          | (b) b where "check_answer cr secret ?sw p ?m ss rn = (radius_reject cr secret p b, forget ?sw p)"
          | (c) st b ss' u where "check_answer cr secret ?sw p ?m ss rn = (radius_challenge cr secret p st b, store_session (forget ?sw p) ss' st)"
            "es_user ss' = answer_name ?m" "sv_lookup ?sw (answer_name ?m) = Some u"
            "answer_nt ?m = nt_response cr (es_challenge ss) (answer_peer ?m) (answer_name ?m) (us_password u)"
          using check_answer_cases [OF Some l59] by blast
        then show ?thesis
        proof cases
          case a
          then show ?thesis by (intro no) (auto simp: r code radius_reject_def)
        next
          case b
          then show ?thesis by (intro refuse) (simp add: r)
        next
          case c
          have pr: "proves cr sv p now = Some (answer_name ?m)"
            using ans c(3,4) Some l59 by (simp add: proves_def Let_def)
          have sub: "proved_sessions name (snd ?r) \<subseteq>
              (if answer_name ?m = name then {st} else {}) \<union> proved_sessions name sv"
            using proved_store [where name = name and sv = "forget ?sw p" and ss = ss' and st = st] proved_forget [where name = name and sv = ?sw and p = p] proved_sweep [where name = name and sv = sv and now = now] c(1,2)
            by (auto simp: r split: if_splits)
          have nl: "lets_in cr secret sv p now rn \<noteq> Some name"
            by (simp add: lets_in_def r c(1) code radius_challenge_def)
          show ?thesis
          proof (cases "answer_name ?m = name")
            case True
            with pr sub nl fin show ?thesis by (intro pays_proof) auto
          next
            case False
            with sub nl fin show ?thesis by (intro pays_subset) auto
          qed
        qed
      next
        case ends
        then have r: "?r = finish_eap cr secret ?sw p ?m ss rn"
          using live Some by (auto simp: eap_answer_def Let_def)
        have s: "snd ?r = forget ?sw p"
          by (simp add: r finish_eap_def split: option.splits prod.splits)
        show ?thesis
        proof (cases "es_user ss = name")
          case True
          obtain k where "k \<in> proved_sessions name ?sw" "proved_sessions name (forget ?sw p) \<subseteq> proved_sessions name ?sw - {k}"
            using forget_session [OF Some] ends(2) True by blast
          with proved_sweep [where name = name and sv = sv and now = now] fin show ?thesis
            unfolding s by (intro pays_session [of _ _ k]) auto
        next
          case False
          with proved_sweep [where name = name and sv = sv and now = now] proved_forget [where name = name and sv = ?sw and p = p] fin ss show ?thesis
            unfolding s by (intro pays_subset) (auto simp: lets_in_def split: option.splits)
        qed
      next
        case other
        then have "?r = (Some (radius_reject cr secret p (?m ! 1)), forget ?sw p)"
          using live Some by (auto simp: eap_answer_def Let_def)
        then show ?thesis by (rule refuse)
      qed
    qed
  qed
qed

lemma parse_auth_length: "parse_packet raw = Inr p \<Longrightarrow> length (pk_auth p) = 16"
  by (auto simp: parse_packet_def Let_def split: if_splits sum.splits)

lemma admit_auth_length: "admit cr secret raw = Inr p \<Longrightarrow> length (pk_auth p) = 16"
  by (auto simp: admit_def split: sum.splits if_splits dest: parse_auth_length)

text \<open>answer does not look at the kept replies.\<close>

lemma forget_replies: "forget (sv\<lparr>sv_replies := x\<rparr>) p = (forget sv p)\<lparr>sv_replies := x\<rparr>"
  by (simp add: forget_def split: option.split)

lemma store_replies: "store_session (sv\<lparr>sv_replies := x\<rparr>) ss st = (store_session sv ss st)\<lparr>sv_replies := x\<rparr>"
  by (simp add: store_session_def)

lemma session_of_replies: "session_of (sv\<lparr>sv_replies := x\<rparr>) p = session_of sv p"
  by (simp add: session_of_def split: option.split)

lemmas replies_commute = forget_replies store_replies session_of_replies

lemma begin_replies: "begin_eap cr secret (sv\<lparr>sv_replies := x\<rparr>) p msg now rn =
    map_prod id (\<lambda>s. s\<lparr>sv_replies := x\<rparr>) (begin_eap cr secret sv p msg now rn)"
  by (simp add: begin_eap_def replies_commute Let_def split: option.split)

lemma check_replies: "check_answer cr secret (sv\<lparr>sv_replies := x\<rparr>) p msg ss rn =
    map_prod id (\<lambda>s. s\<lparr>sv_replies := x\<rparr>) (check_answer cr secret sv p msg ss rn)"
  by (simp add: check_answer_def forget_amend replies_commute Let_def split: option.split)

lemma finish_replies: "finish_eap cr secret (sv\<lparr>sv_replies := x\<rparr>) p msg ss rn =
    map_prod id (\<lambda>s. s\<lparr>sv_replies := x\<rparr>) (finish_eap cr secret sv p msg ss rn)"
  by (simp add: finish_eap_def replies_commute split: option.split prod.split)

lemma sessions_replies:
  "sv\<lparr>sv_replies := x, sv_sessions := y\<rparr> = sv\<lparr>sv_sessions := y\<rparr>\<lparr>sv_replies := x\<rparr>"
  by simp

lemma eap_answer_replies: "eap_answer cr secret (sv\<lparr>sv_replies := x\<rparr>) p now rn =
    (fst (eap_answer cr secret sv p now rn), (snd (eap_answer cr secret sv p now rn))\<lparr>sv_replies := x\<rparr>)"
proof -
  let ?sw = "sv\<lparr>sv_sessions := sweep_sessions now (sv_sessions sv)\<rparr>"
  have sw: "sv\<lparr>sv_replies := x\<rparr>\<lparr>sv_sessions := sweep_sessions now (sv_sessions (sv\<lparr>sv_replies := x\<rparr>))\<rparr> = ?sw\<lparr>sv_replies := x\<rparr>"
    by simp
  show ?thesis
    unfolding eap_answer_def Let_def sw session_of_replies forget_replies begin_replies check_replies finish_replies
    by (cases "session_of ?sw p") (auto simp: map_prod_def split: prod.split)
qed

text \<open>A step of the server: what is let in is paid for by proofs, now or earlier.\<close>

lemma radius_step_pays:
  assumes c: "\<And>k b. length (cr_hmac cr k b) = 16" "\<And>b. length (cr_md5 cr b) = 16"
    and fin: "finite (proved_sessions name sv)"
  shows "finite (proved_sessions name (radius_step cr secret sv e)) \<and>
    (if lets_in_at cr secret sv e = Some name then 1 else 0) + card (proved_sessions name (radius_step cr secret sv e))
      \<le> card (proved_sessions name sv) + (if proves_at cr secret sv e = Some name then 1 else (0 :: nat))"
proof (cases e)
  case (SetLookup lk)
  with fin show ?thesis by simp
next
  case (Datagram raw from_addr now rn)
  let ?sv = "sv\<lparr>sv_replies := sweep_replies now (sv_replies sv)\<rparr>"
  show ?thesis
  proof (cases "eap_request cr secret sv e")
    case None
    have "proved_sessions name (radius_step cr secret sv e) = proved_sessions name sv"
      using None
      by (auto simp: Datagram radius_handle_def Let_def pap_answer_def split: sum.splits option.splits if_splits prod.splits)
    with fin None show ?thesis by (simp add: Datagram)
  next
    case (Some p)
    then have p: "admit cr secret raw = Inr p" "\<not> is_pap p" "sv_replies ?sv (reply_key from_addr p) = None"
      by (auto simp: Datagram simp del: not_None_eq split: sum.splits if_splits)
    have e: "eap_answer cr secret ?sv p now rn = (fst (eap_answer cr secret sv p now rn),
        (snd (eap_answer cr secret sv p now rn))\<lparr>sv_replies := sweep_replies now (sv_replies sv)\<rparr>)"
      by (rule eap_answer_replies)
    have "proved_sessions name (radius_step cr secret sv e) = proved_sessions name (snd (eap_answer cr secret sv p now rn))"
      using p by (auto simp: Datagram radius_handle_def Let_def e split: option.splits)
    moreover have "pays cr secret sv p now rn name (snd (eap_answer cr secret sv p now rn))"
      by (rule eap_answer_pays [OF admit_auth_length [OF p(1)] c fin])
    ultimately show ?thesis
      using Some by (simp add: pays_def Datagram)
  qed
qed

lemma radius_run_pays:
  assumes c: "\<And>k b. length (cr_hmac cr k b) = 16" "\<And>b. length (cr_md5 cr b) = 16"
  shows "finite (proved_sessions name sv) \<Longrightarrow>
    times (\<lambda>sv e. lets_in_at cr secret sv e = Some name) cr secret sv es
      \<le> card (proved_sessions name sv) + times (\<lambda>sv e. proves_at cr secret sv e = Some name) cr secret sv es"
proof (induction es arbitrary: sv)
  case (Cons e es)
  note st = radius_step_pays [where cr = cr, OF c Cons.prems, of secret e]
  note ih = Cons.IH [OF conjunct1 [OF st]]
  show ?case
    using conjunct2 [OF st] ih by simp
qed simp

section \<open>Theorems\<close>

text \<open>Concrete hashes and a sign-in over three datagrams, for the witnesses.\<close>

definition toy_crypto :: crypto where
  "toy_crypto = \<lparr>cr_md4 = (\<lambda>b. replicate 16 1), cr_md5 = (\<lambda>b. replicate 16 0), cr_sha1 = (\<lambda>b. replicate 20 2),
     cr_des = (\<lambda>k b. replicate 8 3), cr_hmac = (\<lambda>k b. replicate 16 0), cr_utf16 = map ucast\<rparr>"

definition toy_user :: radius_user where
  "toy_user = \<lparr>us_password = [112], us_ip = IP4 [10, 0, 0, 2], us_dns = []\<rparr>"

definition toy_lookup :: user_lookup where
  "toy_lookup name = (if name = [97] then Some toy_user else None)"

definition toy_request :: "byte \<Rightarrow> attr list \<Rightarrow> bytes" where
  "toy_request i as = build_packet toy_crypto [] codeAccessRequest
     \<lparr>pk_code = 1, pk_id = i, pk_auth = replicate 16 i, pk_attrs = []\<rparr> as"

definition toy_random :: "byte \<Rightarrow> random_bytes" where
  "toy_random i = \<lparr>rn_challenge = Some (replicate 16 7), rn_state = replicate 16 i, rn_recv = [1, 1], rn_send = [1, 1]\<rparr>"

definition toy_sign_in :: "radius_event list" where
  "toy_sign_in =
     [Datagram (toy_request 1 [(79, [2, 1, 0, 6, 1, 97])]) [] 0 (toy_random 1),
      Datagram (toy_request 2 [(79, [2, 2, 0, 0, 26, 2, 0, 0, 0, 49] @ replicate 24 0 @ replicate 24 3 @ [0, 97]), (24, replicate 16 1)]) [] 0 (toy_random 2),
      Datagram (toy_request 3 [(79, [2, 3, 0, 0, 26, 3]), (24, replicate 16 2)]) [] 0 (toy_random 3)]"


lemma length_attr_bytes: "length (attr_bytes a) = 2 + length (snd a)"
  by (simp add: attr_bytes_def)

lemma eap_attrs_props:
  "concat (map snd (eap_attrs eap)) = eap \<and> list_all (\<lambda>a. fst a = 79 \<and> attr_ok a) (eap_attrs eap) \<and>
   length (concat (map attr_bytes (eap_attrs eap))) \<le> length eap + 2 * length eap"
proof (induction eap rule: eap_attrs.induct)
  case (1 eap)
  show ?case
  proof (cases "eap = []")
    case False
    note ih = 1 [OF False]
    obtain n where n: "length eap = Suc n" using False by (cases eap) auto
    have "length (take 253 eap) + 2 + (length (drop 253 eap) + 2 * length (drop 253 eap)) \<le> length eap + 2 * length eap"
      by (cases "n \<le> 252") (simp_all add: n)
    then show ?thesis
      using ih False by (subst (1 2 3) eap_attrs.simps) (auto simp: attr_ok_def length_attr_bytes)
  qed (simp add: eap_attrs.simps)
qed

text \<open>
  A challenge is read back as it was meant: parse gives its code, the request's identifier, the
  EAP packet joined again from its fragments and the state, and the packet carries the Response
  Authenticator and the Message-Authenticator over the request's authenticator, whatever follows
  it in the datagram.
\<close>
lemma challenge_roundtrip:
  assumes "length (pk_auth req) = 16" "\<And>k b. length (cr_hmac cr k b) = 16" "\<And>b. length (cr_md5 cr b) = 16"
    and "length eap \<le> 20000" "length st \<le> 253"
  shows "\<exists>p as. parse_packet (radius_challenge cr secret req st eap @ rest) = Inr p \<and>
    pk_code p = 11 \<and> pk_id p = pk_id req \<and> eap_of p = eap \<and> get_attr p 24 = Some st \<and>
    pk_attrs p = as @ [(80, reply_mac cr secret 11 req as)] \<and>
    pk_auth p = reply_auth cr secret 11 req as"
proof -
  let ?as = "eap_attrs eap @ [(24, st)]"
  note e = eap_attrs_props [of eap]
  have ok: "list_all attr_ok ?as"
    using e assms(5) by (simp add: attr_ok_def list_all_iff)
  have len: "38 + length (concat (map attr_bytes ?as)) < 65536"
    using conjunct2 [OF conjunct2 [OF e]] assms(4,5) by (simp add: attr_bytes_def)
  have f: "filter (\<lambda>(t, v). t = 79) (eap_attrs eap) = eap_attrs eap"
    using e by (auto simp: list_all_iff filter_id_conv)
  have m: "map_of (eap_attrs eap) 24 = None"
    using e by (auto simp: list_all_iff map_of_eq_None_iff)
  let ?p = "\<lparr>pk_code = 11, pk_id = pk_id req, pk_auth = reply_auth cr secret 11 req ?as,
      pk_attrs = ?as @ [(80, reply_mac cr secret 11 req ?as)]\<rparr> :: packet"
  have "eap_of ?p = eap"
    using e by (simp add: eap_of_def f)
  then show ?thesis
    unfolding radius_challenge_def parse_build [OF assms(1-3) ok len]
    by (intro exI [of _ ?p] exI [of _ ?as]) (simp add: get_attr_def map_add_def m)
qed

text \<open>
  C35. No sign-in without its own proof of the password: in every run of the server from its start,
  over retransmissions, expiring sessions, reused states and changing devices, a user is let in by
  answer at most as often as a request, authenticated and answering the challenge of a session
  still waiting, carried the NT response for the user's password.
\<close>
theorem in_only_by_proof:
  assumes "\<And>k b. length (cr_hmac cr k b) = 16" "\<And>b. length (cr_md5 cr b) = 16"
  shows "times (\<lambda>sv e. lets_in_at cr secret sv e = Some name) cr secret (new_radius lk) es
    \<le> times (\<lambda>sv e. proves_at cr secret sv e = Some name) cr secret (new_radius lk) es"
proof -
  have "proved_sessions name (new_radius lk) = {}"
    by (simp add: proved_sessions_def new_radius_def)
  then show ?thesis
    using radius_run_pays [where cr = cr, OF assms, of name "new_radius lk" secret es] by simp
qed

lemma toy_lets_in:
  "times (\<lambda>sv e. lets_in_at toy_crypto [] sv e = Some [97]) toy_crypto [] (new_radius toy_lookup) toy_sign_in = 1"
  by code_simp

theorem in_only_by_proof_witness:
  "1 \<le> times (\<lambda>sv e. proves_at toy_crypto [] sv e = Some [97]) toy_crypto [] (new_radius toy_lookup) toy_sign_in"
  using in_only_by_proof [of toy_crypto "[]" "[97]" toy_lookup toy_sign_in] toy_lets_in
  by (simp add: toy_crypto_def)

end
