(* ===== verification/Keys.thy ===== *)
theory Keys imports Prelude begin

text \<open>
  The names a client goes by below the database: its key (internal/enforce/ruleset.go Key), the
  names of its kernel objects and how a counter's name is taken apart again (parseCounter), its
  shaping class (internal/shaper/shaper.go Minor, ClassID), and its id read back
  (internal/reconciler/traffic.go clientIDFromKey).
\<close>

section \<open>Numbers as text\<close>

text \<open>strconv.ParseUint(s, 10, 64), and the lower-case hexadecimal of fmt.\<close>

definition parse_uint64 :: "string \<Rightarrow> nat option" where
  "parse_uint64 s =
     (if s \<noteq> [] \<and> list_all is_digit s \<and> undec s < 2 ^ 64 then Some (undec s) else None)"

definition id_hex_char :: "nat \<Rightarrow> char" where
  "id_hex_char d = (if d < 10 then char_of (48 + d) else char_of (87 + d))"

fun id_hex :: "nat \<Rightarrow> string" where
  "id_hex n = (if n < 16 then [id_hex_char n] else id_hex (n div 16) @ [id_hex_char (n mod 16)])"

declare id_hex.simps [simp del]

lemma parse_uint64_dec: "n < 2 ^ 64 \<Longrightarrow> parse_uint64 (dec n) = Some n"
  by (simp add: parse_uint64_def dec_digits)

section \<open>Keys and object names\<close>

definition enforce_key :: "nat \<Rightarrow> string" where
  "enforce_key i = CHR ''c'' # dec i"

definition quota_name :: "string \<Rightarrow> string" where
  "quota_name key = ''q_'' @ key"

definition file_counter :: "string \<Rightarrow> string \<Rightarrow> nat \<Rightarrow> string" where
  "file_counter prefix key account = prefix @ key @ ''_a'' @ dec account"

definition down_counter :: "string \<Rightarrow> nat \<Rightarrow> string" where
  "down_counter key account = file_counter ''nd_'' key account"

definition up_counter :: "string \<Rightarrow> nat \<Rightarrow> string" where
  "up_counter key account = file_counter ''nu_'' key account"

definition down_chain :: "string \<Rightarrow> string" where "down_chain key = ''cd_'' @ key"
definition up_chain :: "string \<Rightarrow> string" where "up_chain key = ''cu_'' @ key"

definition all_digits :: "string \<Rightarrow> bool" where
  "all_digits s \<longleftrightarrow> s \<noteq> [] \<and> list_all is_digit s"

definition valid_key :: "string \<Rightarrow> bool" where
  "valid_key k \<longleftrightarrow> 2 \<le> length k \<and> length k \<le> 24 \<and> hd k = CHR ''c'' \<and> all_digits (tl k)"

text \<open>strings.Cut: before and after the first place of a separator, and whether it is there.\<close>

fun cut_at :: "string \<Rightarrow> string \<Rightarrow> string \<times> string \<times> bool" where
  "cut_at sep [] = (if sep = [] then ([], [], True) else ([], [], False))"
| "cut_at sep (c # cs) =
     (if take (length sep) (c # cs) = sep then ([], drop (length sep) (c # cs), True)
      else case cut_at sep cs of (b, a, found) \<Rightarrow> (c # b, a, found))"

definition parse_counter :: "string \<Rightarrow> (string \<times> nat \<times> bool) option" where
  "parse_counter name =
     (case (if take 3 name = ''nd_'' then Some (drop 3 name, True)
            else if take 3 name = ''nu_'' then Some (drop 3 name, False) else None) of
        None \<Rightarrow> None
      | Some (rest, down) \<Rightarrow>
          case cut_at ''_a'' rest of (key, file, has_file) \<Rightarrow>
            if \<not> valid_key key then None
            else if \<not> has_file then Some (key, 0, down)
            else if \<not> all_digits file then None
            else (case parse_uint64 file of
                None \<Rightarrow> None
              | Some n \<Rightarrow> if n = 0 then None else Some (key, n, down)))"

definition client_id_from_key :: "string \<Rightarrow> nat option" where
  "client_id_from_key key = (case key of [] \<Rightarrow> None | c # rest \<Rightarrow> if c = CHR ''c'' then parse_uint64 rest else None)"

section \<open>Classes\<close>

definition shaper_minor :: "string \<Rightarrow> u16 option" where
  "shaper_minor key =
     (case key of
        [] \<Rightarrow> None
      | c # digits \<Rightarrow>
          if c \<noteq> CHR ''c'' \<or> digits = [] then None
          else case parse_uint64 digits of
              None \<Rightarrow> None
            | Some n \<Rightarrow> if n = 0 \<or> n \<ge> 65535 then None else Some (of_nat n))"

definition class_id :: "u16 \<Rightarrow> string" where
  "class_id minor = ''1:'' @ id_hex (unat minor)"

section \<open>Reading names back\<close>

lemma client_id_roundtrip: "i < 2 ^ 64 \<Longrightarrow> client_id_from_key (enforce_key i) = Some i"
  by (simp add: client_id_from_key_def enforce_key_def parse_uint64_dec)

lemma digits_no_sep: "list_all is_digit s \<Longrightarrow> CHR ''_'' \<notin> set s"
  by (auto simp: list_all_iff is_digit_def)

lemma cut_at_first:
  "CHR ''_'' \<notin> set b \<Longrightarrow> cut_at ''_a'' (b @ ''_a'' @ rest) = (b, rest, True)"
  by (induction b) auto

lemma dec_length_64: "i < 2 ^ 64 \<Longrightarrow> length (dec i) \<le> 20"
  by (rule dec_length) simp_all

lemma valid_enforce_key: "i < 2 ^ 64 \<Longrightarrow> valid_key (enforce_key i)"
proof -
  assume "i < 2 ^ 64"
  then have "length (dec i) \<le> 20" by (rule dec_length_64)
  moreover have "1 \<le> length (dec i)" by (simp add: Suc_le_eq)
  ultimately show ?thesis
    unfolding valid_key_def enforce_key_def all_digits_def by (simp add: dec_digits)
qed

lemma valid_key_no_sep: "valid_key k \<Longrightarrow> CHR ''_'' \<notin> set k"
proof -
  assume v: "valid_key k"
  then have ne: "k \<noteq> []" by (auto simp: valid_key_def)
  have h: "hd k = CHR ''c''" "list_all is_digit (tl k)"
    using v by (simp_all only: valid_key_def all_digits_def)
  have "set k = insert (hd k) (set (tl k))" using ne by (metis list.collapse list.set(2))
  then show ?thesis using digits_no_sep [OF h(2)] h(1) by simp
qed

lemma parse_file_counter:
  assumes "valid_key k" "0 < a" "a < 2 ^ 64"
  shows "parse_counter (down_counter k a) = Some (k, a, True)" "parse_counter (up_counter k a) = Some (k, a, False)"
  using assms cut_at_first [OF valid_key_no_sep [OF assms(1)], of "dec a"]
  by (simp_all add: parse_counter_def down_counter_def up_counter_def file_counter_def all_digits_def dec_digits parse_uint64_dec)

text \<open>
  A drained counter says whose it is: for every client and file the names of its two counters
  parse back to the client's key, the file and the direction, and the key to the client's id.
\<close>
lemma counter_name_roundtrip:
  assumes "i < 2 ^ 64" "0 < a" "a < 2 ^ 64"
  shows "parse_counter (down_counter (enforce_key i) a) = Some (enforce_key i, a, True) \<and>
    parse_counter (up_counter (enforce_key i) a) = Some (enforce_key i, a, False) \<and>
    client_id_from_key (enforce_key i) = Some i"
  using parse_file_counter [OF valid_enforce_key [OF assms(1)] assms(2,3)] client_id_roundtrip [OF assms(1)]
  by simp

text \<open>Names of different clients and files are different.\<close>

lemma dec_inj: "dec a = dec b \<longleftrightarrow> a = b"
  by (metis undec_dec)

lemma file_counter_inj:
  assumes "valid_key k" "valid_key k'"
  shows "down_counter k a = down_counter k' a' \<longleftrightarrow> k = k' \<and> a = a'" "up_counter k a = up_counter k' a' \<longleftrightarrow> k = k' \<and> a = a'"
proof -
  have "k @ ''_a'' @ dec a = k' @ ''_a'' @ dec a' \<longleftrightarrow> k = k' \<and> a = a'"
    using cut_at_first [OF valid_key_no_sep [OF assms(1)], of "dec a"] cut_at_first [OF valid_key_no_sep [OF assms(2)], of "dec a'"]
    by (metis dec_inj prod.inject)
  then show "down_counter k a = down_counter k' a' \<longleftrightarrow> k = k' \<and> a = a'" "up_counter k a = up_counter k' a' \<longleftrightarrow> k = k' \<and> a = a'"
    by (simp_all add: down_counter_def up_counter_def file_counter_def)
qed

lemma down_up_distinct [simp]: "down_counter k a \<noteq> up_counter k' a'" "up_counter k a \<noteq> down_counter k' a'"
  by (simp_all add: down_counter_def up_counter_def file_counter_def)

lemma chain_names [simp]: "down_chain k = down_chain k' \<longleftrightarrow> k = k'" "up_chain k = up_chain k' \<longleftrightarrow> k = k'"
  "down_chain k \<noteq> up_chain k'" "up_chain k \<noteq> down_chain k'" "quota_name k = quota_name k' \<longleftrightarrow> k = k'"
  by (simp_all add: down_chain_def up_chain_def quota_name_def)

end
