(* ===== verification/Texts.thy ===== *)
theory Texts imports Prelude "HOL-Library.List_Lexorder" "HOL-Library.Char_ord" begin

text \<open>
  The text of programs for nft: lines, lists, quotes and numbers. Strings are compared bytewise.
\<close>

definition quoted :: "string \<Rightarrow> string" where
  "quoted s = CHR 0x22 # s @ [CHR 0x22]"

fun join :: "string \<Rightarrow> string list \<Rightarrow> string" where
  "join sep [] = []"
| "join sep [x] = x"
| "join sep (x # y # xs) = x @ sep @ join sep (y # xs)"

definition line :: "string \<Rightarrow> string" where "line s = s @ [CHR 0x0A]"

definition tab :: string where "tab = [CHR 0x09]"

text \<open>%08x of a 32-bit word, and strconv.Itoa.\<close>

definition nibble_char :: "4 word \<Rightarrow> char" where
  "nibble_char d = (let n = unat d in char_of (if n < 10 then 48 + n else 87 + n))"

definition hex8 :: "u32 \<Rightarrow> string" where
  "hex8 w = map (\<lambda>i. nibble_char (ucast (drop_bit (28 - 4 * i) w))) [0..<8]"

definition int_text :: "int \<Rightarrow> string" where
  "int_text n = (if n < 0 then CHR ''-'' # dec (nat (- n)) else dec (nat n))"

section \<open>Cutting text apart\<close>

text \<open>strconv.Atoi, strings.Split at one character and strings.Fields; an int is 64 bits.\<close>

definition atoi :: "string \<Rightarrow> int option" where
  "atoi s =
     (let neg = (s \<noteq> '''' \<and> hd s = CHR ''-'');
          ds = (if s \<noteq> '''' \<and> (hd s = CHR ''-'' \<or> hd s = CHR ''+'') then tl s else s);
          n = int (undec ds)
      in if ds = '''' \<or> \<not> list_all is_digit ds then None
         else if neg then if n \<le> 2 ^ 63 then Some (- n) else None
         else if n < 2 ^ 63 then Some n else None)"

fun split_on :: "char \<Rightarrow> string \<Rightarrow> string list" where
  "split_on c [] = [[]]"
| "split_on c (x # xs) = (if x = c then [] # split_on c xs else case split_on c xs of p # ps \<Rightarrow> (x # p) # ps)"

definition split_words :: "string \<Rightarrow> string list" where
  "split_words s = filter (\<lambda>w. w \<noteq> '''') (split_on (CHR '' '') (map (\<lambda>c. if go_space c then CHR '' '' else c) s))"

lemma split_on_plain: "c \<notin> set s \<Longrightarrow> split_on c s = [s]"
  by (induction s) auto

lemma split_on_cut: "c \<notin> set s \<Longrightarrow> split_on c (s @ c # t) = s # split_on c t"
  by (induction s) auto

lemma split_on_line: "CHR 0x0A \<notin> set s \<Longrightarrow> split_on CHR 0x0A (line s @ t) = s # split_on CHR 0x0A t"
  by (simp add: line_def split_on_cut)

lemma split_lines:
  "\<forall>s \<in> set ls. CHR 0x0A \<notin> set s \<Longrightarrow> split_on CHR 0x0A (concat (map line ls)) = ls @ [[]]"
  by (induction ls) (simp_all add: split_on_line)

lemma lines_inj:
  assumes "concat (map line ls) = concat (map line ms)" "\<forall>s \<in> set ls. CHR 0x0A \<notin> set s" "\<forall>s \<in> set ms. CHR 0x0A \<notin> set s"
  shows "ls = ms"
proof -
  have "ls @ [[]] = ms @ [[]]" unfolding split_lines [OF assms(2), symmetric] split_lines [OF assms(3), symmetric] assms(1) ..
  then show ?thesis by simp
qed

definition word_text :: "string \<Rightarrow> bool" where
  "word_text w \<longleftrightarrow> w \<noteq> [] \<and> (\<forall>c \<in> set w. \<not> go_space c)"

lemma spaces_word: "word_text w \<Longrightarrow> map (\<lambda>c. if go_space c then CHR '' '' else c) w = w \<and> CHR '' '' \<notin> set w"
  by (auto simp: word_text_def go_space_def map_idI)

lemma fields_cut: "word_text w \<Longrightarrow> go_space c \<Longrightarrow> split_words (w @ c # s) = w # split_words s"
  using spaces_word [of w] by (simp add: split_words_def split_on_cut word_text_def)

lemma fields_word: "word_text w \<Longrightarrow> split_words w = [w]"
  using spaces_word [of w] by (simp add: split_words_def split_on_plain word_text_def)

lemma fields_join: "list_all word_text ws \<Longrightarrow> split_words (join '' '' ws) = ws"
proof (induction ws rule: induct_list012)
  case (3 x y zs)
  have "split_words (x @ CHR '' '' # join '' '' (y # zs)) = x # split_words (join '' '' (y # zs))"
    by (rule fields_cut) (use 3 in \<open>simp_all add: go_space_def\<close>)
  then show ?case using 3 by simp
qed (simp_all add: fields_word, simp add: split_words_def)

lemma join_words_inj: "join '' '' ws = join '' '' vs \<Longrightarrow> list_all word_text ws \<Longrightarrow> list_all word_text vs \<Longrightarrow> ws = vs"
  using fields_join by metis

section \<open>Hexadecimal read back\<close>

definition is_hex :: "char \<Rightarrow> bool" where
  "is_hex c \<longleftrightarrow> char_range CHR ''0'' CHR ''9'' c \<or> char_range CHR ''a'' CHR ''f'' c \<or> char_range CHR ''A'' CHR ''F'' c"

definition hex_val :: "char \<Rightarrow> nat" where
  "hex_val c = (let n = of_char c in if n < 58 then n - 48 else if n < 71 then n - 55 else n - 87)"

definition unhex :: "string \<Rightarrow> nat" where
  "unhex s = foldl (\<lambda>v c. v * 16 + hex_val c) 0 s"

lemma unhex_snoc [simp]: "unhex (s @ [c]) = unhex s * 16 + hex_val c" "unhex [] = 0"
  by (simp_all add: unhex_def)

lemma nibble_char_hex: "is_hex (nibble_char d)" "hex_val (nibble_char d) = unat d" "\<not> go_space (nibble_char d)"
proof -
  have "unat d < 2 ^ LENGTH(4)" by (rule unsigned_less)
  then have d: "unat d < 16" by simp
  show "is_hex (nibble_char d)" "hex_val (nibble_char d) = unat d" "\<not> go_space (nibble_char d)"
    using d by (auto simp: is_hex_def char_range_def nibble_char_def hex_val_def go_space_def Let_def)
qed

definition hex_n :: "nat \<Rightarrow> u32 \<Rightarrow> string" where
  "hex_n n w = map (\<lambda>i. nibble_char (ucast (drop_bit (4 * (n - 1 - i)) w))) [0..<n]"

lemma hex8_n: "hex8 w = hex_n 8 w"
  by (simp add: hex8_def hex_n_def right_diff_distrib')

lemma hex_n_Suc: "hex_n (Suc n) w = hex_n n (drop_bit 4 w) @ [nibble_char (ucast w)]"
  by (auto simp: hex_n_def intro!: arg_cong [of _ _ "\<lambda>x. nibble_char (ucast (drop_bit x w))"])

lemma unhex_n: "unhex (hex_n n w) = unat w mod 16 ^ n"
proof (induction n arbitrary: w)
  case 0
  then show ?case by (simp add: hex_n_def)
next
  case (Suc n)
  have "unat (drop_bit 4 w) = unat w div 16" by (simp only: unat_drop_bit_eq) (simp add: drop_bit_eq_div)
  moreover have "unat (ucast w :: 4 word) = unat w mod 16" by (simp add: unsigned_ucast_eq take_bit_eq_mod)
  ultimately show ?case unfolding hex_n_Suc unhex_snoc Suc nibble_char_hex(2) by (simp add: mod_mult2_eq mult.commute)
qed

lemma unhex_hex8 [simp]: "unhex (hex8 w) = unat w"
proof -
  have "unat w < 2 ^ LENGTH(32)" by (rule unsigned_less)
  then show ?thesis by (simp add: hex8_n unhex_n)
qed

lemma hex8_chars: "c \<in> set (hex8 w) \<Longrightarrow> is_hex c \<and> \<not> go_space c"
  by (auto simp: hex8_def nibble_char_hex)

lemma length_hex8 [simp]: "length (hex8 w) = 8"
  by (simp add: hex8_def)

lemma hex8_inj [simp]: "hex8 v = hex8 w \<longleftrightarrow> v = w"
  by (metis unhex_hex8 unsigned_word_eqI)

end
