(* ===== verification/Enforce.thy ===== *)
theory Enforce imports Keys Texts "HOL-Library.AList" begin

text \<open>
  The kernel's table of customers: what each rule asks for and the program for the whole table
  (internal/enforce/ruleset.go), and the change from what was written to what is wanted
  (incremental.go), over the table as nftables keeps it. Either program is a list of declarations or
  commands, with its text and with what the kernel does to the table for it. A rule of a chain is kept
  as what it says; its text is rule_text.
\<close>

section \<open>Rules\<close>

record enforce_file =
  ef_account :: nat
  ef_addr :: ip_addr

record enforce_rule =
  er_key :: string
  er_files :: "enforce_file list"
  er_quota :: nat
  er_used :: nat
  er_rate :: nat
  er_blocked :: bool

text \<open>A file the kernel tells apart: its account and its IPv4 address.\<close>

type_synonym owned_file = "nat \<times> bytes"

datatype packet_side = Daddr | Saddr

datatype nft_rule =
  SetPriority string
| DropRule
| QuotaDrop string
| CountFile packet_side bytes string

definition side_text :: "packet_side \<Rightarrow> string" where
  "side_text s = (case s of Daddr \<Rightarrow> ''daddr'' | Saddr \<Rightarrow> ''saddr'')"

definition rule_text :: "nft_rule \<Rightarrow> string" where
  "rule_text r = (case r of
     SetPriority c \<Rightarrow> ''meta priority set '' @ c
   | DropRule \<Rightarrow> ''drop''
   | QuotaDrop q \<Rightarrow> ''quota name '' @ quoted q @ '' drop''
   | CountFile s a c \<Rightarrow> ''ip '' @ side_text s @ '' '' @ ip4_text a @ '' counter name '' @ quoted c)"

text \<open>
  sortedRules: a copy in key order; strings are compared bytewise. A key the package did not
  generate is refused.
\<close>

definition sorted_rules :: "enforce_rule list \<Rightarrow> enforce_rule list option" where
  "sorted_rules rules =
     (let s = sort_key er_key rules in if list_all (\<lambda>r. valid_key (er_key r)) s then Some s else None)"

text \<open>ownedFiles: the loop over one rule's files, with the addresses seen so far.\<close>

fun own_files :: "bytes list \<Rightarrow> enforce_file list \<Rightarrow> owned_file list \<times> bytes list" where
  "own_files seen [] = ([], seen)"
| "own_files seen (f # fs) =
     (case ip_unmap (ef_addr f) of
        IP4 a \<Rightarrow>
          if a \<in> set seen \<or> ef_account f = 0 then own_files seen fs
          else (case own_files (a # seen) fs of (out, seen') \<Rightarrow> ((ef_account f, a) # out, seen'))
      | _ \<Rightarrow> own_files seen fs)"

definition owned_files :: "enforce_rule list \<Rightarrow> string \<Rightarrow> owned_file list" where
  "owned_files rules = fst (foldl (\<lambda>(out, seen) r. case own_files seen (er_files r) of
     (kept, seen') \<Rightarrow> (out(er_key r := out (er_key r) @ kept), seen')) (\<lambda>_. [], []) rules)"

definition chain_rules :: "enforce_rule \<Rightarrow> owned_file list \<Rightarrow> bool \<Rightarrow> packet_side \<Rightarrow> (string \<Rightarrow> nat \<Rightarrow> string) \<Rightarrow> nft_rule list" where
  "chain_rules r files caps_quota side counter =
     (if \<not> er_blocked r \<and> er_rate r > 0
      then (case shaper_minor (er_key r) of None \<Rightarrow> [] | Some m \<Rightarrow> [SetPriority (class_id m)]) else []) @
     (if er_blocked r then [DropRule]
      else (if caps_quota \<and> er_quota r \<noteq> 0 then [QuotaDrop (quota_name (er_key r))] else []) @
        map (\<lambda>(a, addr). CountFile side addr (counter (er_key r) a)) files)"

section \<open>What the table holds\<close>

record client_state =
  cs_files :: "owned_file list"
  cs_down :: "nft_rule list"
  cs_up :: "nft_rule list"
  cs_quota :: nat
  cs_used :: nat
  cs_seen :: nat

type_synonym table_state = "(string \<times> client_state) list"

definition state_of_rule :: "bool \<Rightarrow> (string \<Rightarrow> owned_file list) \<Rightarrow> enforce_rule \<Rightarrow> client_state" where
  "state_of_rule caps_quota owned r =
     (let files = owned (er_key r) in
      \<lparr>cs_files = files, cs_down = chain_rules r files caps_quota Daddr down_counter,
       cs_up = chain_rules r files caps_quota Saddr up_counter,
       cs_quota = (if caps_quota \<and> er_quota r \<noteq> 0 then er_quota r else 0), cs_used = er_used r, cs_seen = er_used r\<rparr>)"

definition desired_state :: "enforce_rule list \<Rightarrow> bool \<Rightarrow> table_state option" where
  "desired_state rules caps_quota =
     map_option (\<lambda>s. foldl (\<lambda>out r. AList.update (er_key r) (state_of_rule caps_quota (owned_files s) r) out) [] s) (sorted_rules rules)"

section \<open>Quotas written again\<close>

abbreviation (input) driftStoredAheadMin :: nat where "driftStoredAheadMin \<equiv> 268435456"
abbreviation (input) driftKernelAheadMin :: nat where "driftKernelAheadMin \<equiv> 1073741824"

definition needs_reseed :: "nat \<Rightarrow> nat \<Rightarrow> nat \<Rightarrow> nat option \<Rightarrow> bool" where
  "needs_reseed limit stored prev tally =
     (if stored < prev then True
      else case tally of
          None \<Rightarrow> False
        | Some used \<Rightarrow>
            let seeded = min stored limit in
            if seeded > used then seeded - used > max driftStoredAheadMin (limit div 100)
            else if used > seeded then used - seeded > max driftKernelAheadMin (limit div 10)
            else False)"

section \<open>Commands\<close>

datatype nft_object = CounterObj string | QuotaObj string nat nat

datatype nft_cmd =
  DeleteElements "bytes list"
| FlushChain string
| DeleteChain string
| DeleteObject nft_object
| AddObject nft_object
| AddChain string
| AddRule string nft_rule
| AddElements "(bytes \<times> string) list"

definition inet_wui :: string where "inet_wui = ''inet wui''"

text \<open>
  The lines a command is in the script. An element is added as a pair of address and customer key,
  and goes into both maps, each pointing at its own chain.
\<close>

definition cmd_text :: "nft_cmd \<Rightarrow> string" where
  "cmd_text c = (case c of
     DeleteElements as \<Rightarrow>
       line (''delete element '' @ inet_wui @ '' dl { '' @ join '', '' (map ip4_text as) @ '' }'') @
       line (''delete element '' @ inet_wui @ '' ul { '' @ join '', '' (map ip4_text as) @ '' }'')
   | FlushChain n \<Rightarrow> line (''flush chain '' @ inet_wui @ '' '' @ n)
   | DeleteChain n \<Rightarrow> line (''delete chain '' @ inet_wui @ '' '' @ n)
   | DeleteObject (CounterObj n) \<Rightarrow> line (''delete counter '' @ inet_wui @ '' '' @ n)
   | DeleteObject (QuotaObj n l u) \<Rightarrow> line (''delete quota '' @ inet_wui @ '' '' @ n)
   | AddObject (CounterObj n) \<Rightarrow> line (''add counter '' @ inet_wui @ '' '' @ n @ '' { }'')
   | AddObject (QuotaObj n l u) \<Rightarrow>
       line (''add quota '' @ inet_wui @ '' '' @ n @ '' { over '' @ dec l @ '' bytes used '' @ dec u @ '' bytes }'')
   | AddChain n \<Rightarrow> line (''add chain '' @ inet_wui @ '' '' @ n)
   | AddRule n r \<Rightarrow> line (''add rule '' @ inet_wui @ '' '' @ n @ '' '' @ rule_text r)
   | AddElements es \<Rightarrow>
       line (''add element '' @ inet_wui @ '' dl { '' @ join '', '' (map (\<lambda>(a, k). ip4_text a @ '' : jump '' @ down_chain k) es) @ '' }'') @
       line (''add element '' @ inet_wui @ '' ul { '' @ join '', '' (map (\<lambda>(a, k). ip4_text a @ '' : jump '' @ up_chain k) es) @ '' }''))"

section \<open>The change\<close>

definition counters_added :: "string \<Rightarrow> owned_file list \<Rightarrow> nft_object list" where
  "counters_added k files = concat (map (\<lambda>(a, addr). [CounterObj (down_counter k a), CounterObj (up_counter k a)]) files)"

definition quota_line :: "string \<Rightarrow> nat \<Rightarrow> nat \<Rightarrow> nft_object" where
  "quota_line k limit used = QuotaObj (quota_name k) limit (min used limit)"

definition rules_for :: "string \<Rightarrow> client_state \<Rightarrow> (string \<times> nft_rule) list" where
  "rules_for k w = map (\<lambda>r. (down_chain k, r)) (cs_down w) @ map (\<lambda>r. (up_chain k, r)) (cs_up w)"

text \<open>What one customer's turn of the loop appends to the lists, and the state it leaves.\<close>

record key_change =
  kc_out :: "bytes list"
  kc_flush :: "string list"
  kc_del_chain :: "string list"
  kc_del_obj :: "nft_object list"
  kc_add_obj :: "nft_object list"
  kc_add_chain :: "string list"
  kc_add_rule :: "(string \<times> nft_rule) list"
  kc_in :: "(bytes \<times> string) list"
  kc_next :: "client_state option"

definition no_change :: key_change where
  "no_change = \<lparr>kc_out = [], kc_flush = [], kc_del_chain = [], kc_del_obj = [], kc_add_obj = [], kc_add_chain = [],
     kc_add_rule = [], kc_in = [], kc_next = None\<rparr>"

definition key_gone :: "string \<Rightarrow> client_state \<Rightarrow> key_change" where
  "key_gone k h = no_change\<lparr>kc_out := map snd (cs_files h), kc_flush := [down_chain k, up_chain k],
     kc_del_chain := [down_chain k, up_chain k],
     kc_del_obj := counters_added k (cs_files h) @ (if cs_quota h > 0 then [quota_line k (cs_quota h) (cs_used h)] else [])\<rparr>"

definition key_new :: "string \<Rightarrow> client_state \<Rightarrow> key_change" where
  "key_new k w = no_change\<lparr>
     kc_add_obj := counters_added k (cs_files w) @ (if cs_quota w > 0 then [quota_line k (cs_quota w) (cs_used w)] else []),
     kc_add_chain := [down_chain k, up_chain k], kc_add_rule := rules_for k w,
     kc_in := map (\<lambda>(a, addr). (addr, k)) (cs_files w), kc_next := Some w\<rparr>"

definition reseeds :: "string \<Rightarrow> client_state \<Rightarrow> client_state \<Rightarrow> (string \<Rightarrow> nat option) \<Rightarrow> bool" where
  "reseeds k h w kernel_used =
     (if cs_quota w \<noteq> cs_quota h then True
      else if cs_quota w > 0 then needs_reseed (cs_quota w) (cs_seen w) (cs_seen h) (kernel_used (quota_name k))
      else False)"

definition key_kept :: "string \<Rightarrow> client_state \<Rightarrow> client_state \<Rightarrow> (string \<Rightarrow> nat option) \<Rightarrow> key_change" where
  "key_kept k h w kernel_used =
     (let reseed = reseeds k h w kernel_used;
          rules_changed = cs_down w \<noteq> cs_down h \<or> cs_up w \<noteq> cs_up h;
          files_changed = cs_files w \<noteq> cs_files h;
          rewrite = rules_changed \<or> reseed \<or> files_changed;
          gone = filter (\<lambda>(a, addr). a \<notin> fst ` set (cs_files w)) (cs_files h);
          fresh = filter (\<lambda>(a, addr). a \<notin> fst ` set (cs_files h)) (cs_files w)
      in no_change\<lparr>
        kc_out := (if files_changed then map snd (cs_files h) else []),
        kc_flush := (if rewrite then [down_chain k, up_chain k] else []),
        kc_del_obj := (if files_changed then counters_added k gone else []) @
          (if reseed \<and> cs_quota h > 0 then [quota_line k (cs_quota h) (cs_used h)] else []),
        kc_add_obj := (if files_changed then counters_added k fresh else []) @
          (if reseed \<and> cs_quota w > 0 then [quota_line k (cs_quota w) (cs_used w)] else []),
        kc_add_rule := (if rewrite then rules_for k w else []),
        kc_in := (if files_changed then map (\<lambda>(a, addr). (addr, k)) (cs_files w) else []),
        kc_next := Some (w\<lparr>cs_used := (if reseed then cs_used w else cs_used h)\<rparr>)\<rparr>)"

definition key_change_of :: "table_state \<Rightarrow> table_state \<Rightarrow> (string \<Rightarrow> nat option) \<Rightarrow> string \<Rightarrow> key_change" where
  "key_change_of have_st want kernel_used k =
     (case map_of want k of
        None \<Rightarrow> (case map_of have_st k of None \<Rightarrow> no_change | Some h \<Rightarrow> key_gone k h)
      | Some w \<Rightarrow> (case map_of have_st k of None \<Rightarrow> key_new k w | Some h \<Rightarrow> key_kept k h w kernel_used))"

definition change_keys :: "table_state \<Rightarrow> table_state \<Rightarrow> string list" where
  "change_keys have_st want =
     sort (map fst have_st @ filter (\<lambda>k. k \<notin> fst ` set have_st) (map fst want))"

definition elements_cmd :: "('a list \<Rightarrow> nft_cmd) \<Rightarrow> 'a list \<Rightarrow> nft_cmd list" where
  "elements_cmd f xs = (if xs = [] then [] else [f xs])"

definition change_cmds :: "table_state \<Rightarrow> table_state \<Rightarrow> (string \<Rightarrow> nat option) \<Rightarrow> nft_cmd list" where
  "change_cmds have_st want kernel_used =
     (let cs = map (key_change_of have_st want kernel_used) (change_keys have_st want) in
      elements_cmd DeleteElements (firsts {} (concat (map kc_out cs))) @
      map FlushChain (firsts {} (concat (map kc_flush cs))) @
      map DeleteChain (concat (map kc_del_chain cs)) @
      map DeleteObject (concat (map kc_del_obj cs)) @
      map AddObject (concat (map kc_add_obj cs)) @
      map AddChain (concat (map kc_add_chain cs)) @
      map (\<lambda>(c, r). AddRule c r) (concat (map kc_add_rule cs)) @
      elements_cmd AddElements (concat (map kc_in cs)))"

definition change_next :: "table_state \<Rightarrow> table_state \<Rightarrow> (string \<Rightarrow> nat option) \<Rightarrow> table_state" where
  "change_next have_st want kernel_used =
     concat (map (\<lambda>k. case kc_next (key_change_of have_st want kernel_used k) of None \<Rightarrow> [] | Some s \<Rightarrow> [(k, s)])
       (change_keys have_st want))"

definition change_script :: "table_state \<Rightarrow> table_state \<Rightarrow> (string \<Rightarrow> nat option) \<Rightarrow> string \<times> table_state" where
  "change_script have_st want kernel_used =
     (concat (map cmd_text (change_cmds have_st want kernel_used)), change_next have_st want kernel_used)"

section \<open>The table in the kernel\<close>

text \<open>
  What nftables keeps of the table, and what each command does to it. None is the kernel refusing
  the command, and with it the whole transaction: a thing to delete has to be there and not be
  named by anything left, one to add must not be there yet, and what it names has to exist.
\<close>

record nft_table =
  nt_counters :: "string set"
  nt_quotas :: "(string \<times> nat \<times> nat) set"
  nt_chains :: "(string \<times> nft_rule list) set"
  nt_dl :: "(bytes \<times> string) set"
  nt_ul :: "(bytes \<times> string) set"

definition rule_counters :: "nft_rule \<Rightarrow> string set" where
  "rule_counters r = (case r of CountFile s a c \<Rightarrow> {c} | _ \<Rightarrow> {})"

definition rule_quotas :: "nft_rule \<Rightarrow> string set" where
  "rule_quotas r = (case r of QuotaDrop q \<Rightarrow> {q} | _ \<Rightarrow> {})"

definition named_counters :: "(string \<times> nft_rule list) set \<Rightarrow> string set" where
  "named_counters cs = (\<Union>(c, rs) \<in> cs. \<Union>r \<in> set rs. rule_counters r)"

definition named_quotas :: "(string \<times> nft_rule list) set \<Rightarrow> string set" where
  "named_quotas cs = (\<Union>(c, rs) \<in> cs. \<Union>r \<in> set rs. rule_quotas r)"

definition map_chains :: "(string \<Rightarrow> nft_rule list \<Rightarrow> nft_rule list) \<Rightarrow> (string \<times> nft_rule list) set \<Rightarrow> (string \<times> nft_rule list) set" where
  "map_chains f cs = (\<lambda>p. (fst p, f (fst p) (snd p))) ` cs"

definition nft_exec :: "nft_cmd \<Rightarrow> nft_table \<Rightarrow> nft_table option" where
  "nft_exec c t = (case c of
     DeleteElements as \<Rightarrow>
       if set as \<subseteq> fst ` nt_dl t \<and> set as \<subseteq> fst ` nt_ul t \<and> distinct as
       then Some (t\<lparr>nt_dl := {p \<in> nt_dl t. fst p \<notin> set as}, nt_ul := {p \<in> nt_ul t. fst p \<notin> set as}\<rparr>) else None
   | FlushChain n \<Rightarrow>
       if n \<in> fst ` nt_chains t then Some (t\<lparr>nt_chains := map_chains (\<lambda>c rs. if c = n then [] else rs) (nt_chains t)\<rparr>) else None
   | DeleteChain n \<Rightarrow>
       if (n, []) \<in> nt_chains t \<and> n \<notin> snd ` nt_dl t \<and> n \<notin> snd ` nt_ul t
       then Some (t\<lparr>nt_chains := {p \<in> nt_chains t. fst p \<noteq> n}\<rparr>) else None
   | DeleteObject (CounterObj n) \<Rightarrow>
       if n \<in> nt_counters t \<and> n \<notin> named_counters (nt_chains t) then Some (t\<lparr>nt_counters := nt_counters t - {n}\<rparr>) else None
   | DeleteObject (QuotaObj n l u) \<Rightarrow>
       if n \<in> fst ` nt_quotas t \<and> n \<notin> named_quotas (nt_chains t)
       then Some (t\<lparr>nt_quotas := {q \<in> nt_quotas t. fst q \<noteq> n}\<rparr>) else None
   | AddObject (CounterObj n) \<Rightarrow>
       if n \<notin> nt_counters t then Some (t\<lparr>nt_counters := insert n (nt_counters t)\<rparr>) else None
   | AddObject (QuotaObj n l u) \<Rightarrow>
       if n \<notin> fst ` nt_quotas t then Some (t\<lparr>nt_quotas := insert (n, l, u) (nt_quotas t)\<rparr>) else None
   | AddChain n \<Rightarrow>
       if n \<notin> fst ` nt_chains t then Some (t\<lparr>nt_chains := insert (n, []) (nt_chains t)\<rparr>) else None
   | AddRule n r \<Rightarrow>
       if n \<in> fst ` nt_chains t \<and> rule_counters r \<subseteq> nt_counters t \<and> rule_quotas r \<subseteq> fst ` nt_quotas t
       then Some (t\<lparr>nt_chains := map_chains (\<lambda>c rs. if c = n then rs @ [r] else rs) (nt_chains t)\<rparr>) else None
   | AddElements es \<Rightarrow>
       if distinct (map fst es) \<and> fst ` set es \<inter> fst ` nt_dl t = {} \<and> fst ` set es \<inter> fst ` nt_ul t = {} \<and>
          (\<forall>(a, k) \<in> set es. down_chain k \<in> fst ` nt_chains t \<and> up_chain k \<in> fst ` nt_chains t)
       then Some (t\<lparr>nt_dl := nt_dl t \<union> (\<lambda>(a, k). (a, down_chain k)) ` set es,
                   nt_ul := nt_ul t \<union> (\<lambda>(a, k). (a, up_chain k)) ` set es\<rparr>) else None)"

fun nft_run :: "nft_cmd list \<Rightarrow> nft_table \<Rightarrow> nft_table option" where
  "nft_run [] t = Some t"
| "nft_run (c # cs) t = (case nft_exec c t of None \<Rightarrow> None | Some t' \<Rightarrow> nft_run cs t')"

lemma nft_run_append: "nft_run (as @ bs) t = (case nft_run as t of None \<Rightarrow> None | Some t' \<Rightarrow> nft_run bs t')"
  by (induction as arbitrary: t) (auto split: option.split)

text \<open>The table of a state: what should be there for every customer, and nothing else.\<close>

definition counters_of :: "string \<Rightarrow> client_state \<Rightarrow> string set" where
  "counters_of k s = (\<Union>(a, addr) \<in> set (cs_files s). {down_counter k a, up_counter k a})"

definition quotas_of :: "string \<Rightarrow> client_state \<Rightarrow> (string \<times> nat \<times> nat) set" where
  "quotas_of k s = (if cs_quota s > 0 then {(quota_name k, cs_quota s, min (cs_used s) (cs_quota s))} else {})"

definition table_of :: "table_state \<Rightarrow> nft_table" where
  "table_of st = \<lparr>
     nt_counters = (\<Union>(k, s) \<in> set st. counters_of k s),
     nt_quotas = (\<Union>(k, s) \<in> set st. quotas_of k s),
     nt_chains = (\<Union>(k, s) \<in> set st. {(down_chain k, cs_down s), (up_chain k, cs_up s)}),
     nt_dl = (\<Union>(k, s) \<in> set st. (\<lambda>f. (snd f, down_chain k)) ` set (cs_files s)),
     nt_ul = (\<Union>(k, s) \<in> set st. (\<lambda>f. (snd f, up_chain k)) ` set (cs_files s))\<rparr>"

subsection \<open>A phase at a time\<close>

lemma map_chains_names [simp]: "fst ` map_chains f cs = fst ` cs"
  by (simp add: map_chains_def image_image)

lemma map_chains_comp: "map_chains g (map_chains f cs) = map_chains (\<lambda>c rs. g c (f c rs)) cs"
  by (simp add: map_chains_def image_image)

lemma map_chains_id [simp]: "map_chains (\<lambda>c rs. rs) cs = cs"
  by (simp add: map_chains_def)

lemma map_chains_cong:
  "(\<And>c rs. (c, rs) \<in> cs \<Longrightarrow> f c rs = g c rs) \<Longrightarrow> map_chains f cs = map_chains g cs"
  unfolding map_chains_def by (rule image_cong) auto

lemma run_flush:
  "set ns \<subseteq> fst ` nt_chains t \<Longrightarrow> nft_run (map FlushChain ns) t =
     Some (t\<lparr>nt_chains := map_chains (\<lambda>c rs. if c \<in> set ns then [] else rs) (nt_chains t)\<rparr>)"
proof (induction ns arbitrary: t)
  case (Cons n ns)
  let ?t = "t\<lparr>nt_chains := map_chains (\<lambda>c rs. if c = n then [] else rs) (nt_chains t)\<rparr>"
  have "set ns \<subseteq> fst ` nt_chains ?t" using Cons.prems by simp
  note ih = Cons.IH [OF this]
  have "(\<lambda>c rs. if c \<in> set ns then [] else if c = n then [] else rs) = (\<lambda>c (rs :: nft_rule list). if c = n \<or> c \<in> set ns then [] else rs)"
    by (auto simp: fun_eq_iff)
  with ih Cons.prems show ?case by (simp add: nft_exec_def map_chains_comp)
qed (simp add: map_chains_def)

lemma run_delete_chains:
  "distinct ns \<Longrightarrow> (\<And>n. n \<in> set ns \<Longrightarrow> (n, []) \<in> nt_chains t) \<Longrightarrow> set ns \<inter> snd ` nt_dl t = {} \<Longrightarrow> set ns \<inter> snd ` nt_ul t = {} \<Longrightarrow>
     nft_run (map DeleteChain ns) t = Some (t\<lparr>nt_chains := {p \<in> nt_chains t. fst p \<notin> set ns}\<rparr>)"
proof (induction ns arbitrary: t)
  case (Cons n ns)
  let ?t = "t\<lparr>nt_chains := {p \<in> nt_chains t. fst p \<noteq> n}\<rparr>"
  have "nft_run (map DeleteChain ns) ?t = Some (?t\<lparr>nt_chains := {p \<in> nt_chains ?t. fst p \<notin> set ns}\<rparr>)"
    using Cons.prems by (intro Cons.IH) auto
  then show ?case
    using Cons.prems by (auto simp: nft_exec_def intro!: nft_table.equality)
qed simp

lemma run_delete_elements:
  "set as \<subseteq> fst ` nt_dl t \<Longrightarrow> set as \<subseteq> fst ` nt_ul t \<Longrightarrow> distinct as \<Longrightarrow> nft_run (elements_cmd DeleteElements as) t =
     Some (t\<lparr>nt_dl := {p \<in> nt_dl t. fst p \<notin> set as}, nt_ul := {p \<in> nt_ul t. fst p \<notin> set as}\<rparr>)"
  by (auto simp: elements_cmd_def nft_exec_def)

definition obj_counters :: "nft_object list \<Rightarrow> string set" where
  "obj_counters os = {n. CounterObj n \<in> set os}"

definition obj_quotas :: "nft_object list \<Rightarrow> (string \<times> nat \<times> nat) set" where
  "obj_quotas os = {(n, l, u). QuotaObj n l u \<in> set os}"

fun obj_name :: "nft_object \<Rightarrow> bool \<times> string" where
  "obj_name (CounterObj n) = (True, n)"
| "obj_name (QuotaObj n l u) = (False, n)"

lemma obj_sets_Cons:
  "obj_counters (CounterObj n # os) = insert n (obj_counters os)" "obj_counters (QuotaObj n l u # os) = obj_counters os"
  "obj_quotas (CounterObj n # os) = obj_quotas os" "obj_quotas (QuotaObj n l u # os) = insert (n, l, u) (obj_quotas os)"
  "obj_counters [] = {}" "obj_quotas [] = {}"
  by (auto simp: obj_counters_def obj_quotas_def)

lemma obj_distinct:
  "distinct (map obj_name (CounterObj n # os)) \<Longrightarrow> n \<notin> obj_counters os"
  "distinct (map obj_name (QuotaObj n l u # os)) \<Longrightarrow> n \<notin> fst ` obj_quotas os"
  by (force simp: obj_counters_def obj_quotas_def)+

lemma run_delete_objects:
  "distinct (map obj_name os) \<Longrightarrow> obj_counters os \<subseteq> nt_counters t \<Longrightarrow> fst ` obj_quotas os \<subseteq> fst ` nt_quotas t \<Longrightarrow>
   obj_counters os \<inter> named_counters (nt_chains t) = {} \<Longrightarrow> fst ` obj_quotas os \<inter> named_quotas (nt_chains t) = {} \<Longrightarrow>
     nft_run (map DeleteObject os) t = Some (t\<lparr>nt_counters := nt_counters t - obj_counters os,
       nt_quotas := {q \<in> nt_quotas t. fst q \<notin> fst ` obj_quotas os}\<rparr>)"
proof (induction os arbitrary: t)
  case (Cons ob os)
  show ?case
  proof (cases ob)
    case (CounterObj n)
    let ?t = "t\<lparr>nt_counters := nt_counters t - {n}\<rparr>"
    have d: "n \<notin> obj_counters os" using obj_distinct(1) Cons.prems(1) CounterObj by blast
    have "nft_run (map DeleteObject os) ?t = Some (?t\<lparr>nt_counters := nt_counters ?t - obj_counters os,
       nt_quotas := {q \<in> nt_quotas ?t. fst q \<notin> fst ` obj_quotas os}\<rparr>)"
      using Cons.prems d by (intro Cons.IH) (auto simp: CounterObj obj_sets_Cons)
    moreover have "nft_exec (DeleteObject ob) t = Some ?t"
      using Cons.prems by (auto simp: nft_exec_def CounterObj obj_sets_Cons)
    moreover have "nt_counters t - {n} - obj_counters os = nt_counters t - insert n (obj_counters os)" by auto
    ultimately show ?thesis by (simp add: CounterObj obj_sets_Cons)
  next
    case (QuotaObj n l u)
    let ?t = "t\<lparr>nt_quotas := {q \<in> nt_quotas t. fst q \<noteq> n}\<rparr>"
    have d: "n \<notin> fst ` obj_quotas os" using obj_distinct(2) Cons.prems(1) QuotaObj by blast
    have sub: "fst ` obj_quotas os \<subseteq> fst ` nt_quotas ?t"
    proof
      fix m
      assume m: "m \<in> fst ` obj_quotas os"
      then have "m \<noteq> n" using d by blast
      moreover have "m \<in> fst ` nt_quotas t" using m Cons.prems(3) by (auto simp: QuotaObj obj_sets_Cons)
      ultimately show "m \<in> fst ` nt_quotas ?t" by force
    qed
    have "nft_run (map DeleteObject os) ?t = Some (?t\<lparr>nt_counters := nt_counters ?t - obj_counters os,
       nt_quotas := {q \<in> nt_quotas ?t. fst q \<notin> fst ` obj_quotas os}\<rparr>)"
      using Cons.prems sub by (intro Cons.IH) (auto simp: QuotaObj obj_sets_Cons)
    moreover have "nft_exec (DeleteObject ob) t = Some ?t"
      using Cons.prems by (auto simp: nft_exec_def QuotaObj obj_sets_Cons)
    moreover have "{q \<in> {q \<in> nt_quotas t. fst q \<noteq> n}. fst q \<notin> fst ` obj_quotas os} =
        {q \<in> nt_quotas t. fst q \<notin> fst ` insert (n, l, u) (obj_quotas os)}" by auto
    ultimately show ?thesis by (simp add: QuotaObj obj_sets_Cons)
  qed
qed (simp add: obj_sets_Cons)

lemma run_add_objects:
  "distinct (map obj_name os) \<Longrightarrow> obj_counters os \<inter> nt_counters t = {} \<Longrightarrow> fst ` obj_quotas os \<inter> fst ` nt_quotas t = {} \<Longrightarrow>
     nft_run (map AddObject os) t = Some (t\<lparr>nt_counters := nt_counters t \<union> obj_counters os, nt_quotas := nt_quotas t \<union> obj_quotas os\<rparr>)"
proof (induction os arbitrary: t)
  case (Cons ob os)
  show ?case
  proof (cases ob)
    case (CounterObj n)
    let ?t = "t\<lparr>nt_counters := insert n (nt_counters t)\<rparr>"
    have d: "n \<notin> obj_counters os" using obj_distinct(1) Cons.prems(1) CounterObj by blast
    have "nft_run (map AddObject os) ?t = Some (?t\<lparr>nt_counters := nt_counters ?t \<union> obj_counters os, nt_quotas := nt_quotas ?t \<union> obj_quotas os\<rparr>)"
      using Cons.prems d by (intro Cons.IH) (auto simp: CounterObj obj_sets_Cons)
    then show ?thesis
      using Cons.prems by (simp add: CounterObj obj_sets_Cons nft_exec_def)
  next
    case (QuotaObj n l u)
    let ?t = "t\<lparr>nt_quotas := insert (n, l, u) (nt_quotas t)\<rparr>"
    have d: "n \<notin> fst ` obj_quotas os" using obj_distinct(2) Cons.prems(1) QuotaObj by blast
    have "nft_run (map AddObject os) ?t = Some (?t\<lparr>nt_counters := nt_counters ?t \<union> obj_counters os, nt_quotas := nt_quotas ?t \<union> obj_quotas os\<rparr>)"
      using Cons.prems d by (intro Cons.IH) (auto simp: QuotaObj obj_sets_Cons)
    then show ?thesis
      using Cons.prems by (simp add: QuotaObj obj_sets_Cons nft_exec_def)
  qed
qed (simp add: obj_sets_Cons)

lemma run_add_chains:
  "distinct ns \<Longrightarrow> set ns \<inter> fst ` nt_chains t = {} \<Longrightarrow>
     nft_run (map AddChain ns) t = Some (t\<lparr>nt_chains := nt_chains t \<union> (\<lambda>n. (n, [])) ` set ns\<rparr>)"
proof (induction ns arbitrary: t)
  case (Cons n ns)
  let ?t = "t\<lparr>nt_chains := insert (n, []) (nt_chains t)\<rparr>"
  have "nft_run (map AddChain ns) ?t = Some (?t\<lparr>nt_chains := nt_chains ?t \<union> (\<lambda>n. (n, [])) ` set ns\<rparr>)"
    using Cons.prems by (intro Cons.IH) auto
  then show ?case using Cons.prems by (simp add: nft_exec_def)
qed simp

definition rules_of :: "string \<Rightarrow> (string \<times> nft_rule) list \<Rightarrow> nft_rule list" where
  "rules_of c rs = map snd (filter (\<lambda>p. fst p = c) rs)"

lemma run_add_rules:
  "\<forall>(c, r) \<in> set rs. c \<in> fst ` nt_chains t \<and> rule_counters r \<subseteq> nt_counters t \<and> rule_quotas r \<subseteq> fst ` nt_quotas t \<Longrightarrow>
     nft_run (map (\<lambda>(c, r). AddRule c r) rs) t = Some (t\<lparr>nt_chains := map_chains (\<lambda>c l. l @ rules_of c rs) (nt_chains t)\<rparr>)"
proof (induction rs arbitrary: t)
  case (Cons x rs)
  obtain n r where x: "x = (n, r)" by (cases x)
  let ?t = "t\<lparr>nt_chains := map_chains (\<lambda>c l. if c = n then l @ [r] else l) (nt_chains t)\<rparr>"
  have "nft_run (map (\<lambda>(c, r). AddRule c r) rs) ?t = Some (?t\<lparr>nt_chains := map_chains (\<lambda>c l. l @ rules_of c rs) (nt_chains ?t)\<rparr>)"
    using Cons.prems by (intro Cons.IH) (auto simp: x)
  moreover have "(\<lambda>c l. (if c = n then l @ [r] else l) @ rules_of c rs) = (\<lambda>c l. l @ rules_of c (x # rs))"
    by (auto simp: rules_of_def x fun_eq_iff)
  ultimately show ?case using Cons.prems by (simp add: nft_exec_def x map_chains_comp)
qed (simp add: rules_of_def)

lemma run_add_elements:
  "distinct (map fst es) \<Longrightarrow> fst ` set es \<inter> fst ` nt_dl t = {} \<Longrightarrow> fst ` set es \<inter> fst ` nt_ul t = {} \<Longrightarrow>
   \<forall>(a, k) \<in> set es. down_chain k \<in> fst ` nt_chains t \<and> up_chain k \<in> fst ` nt_chains t \<Longrightarrow>
     nft_run (elements_cmd AddElements es) t = Some (t\<lparr>nt_dl := nt_dl t \<union> (\<lambda>(a, k). (a, down_chain k)) ` set es,
       nt_ul := nt_ul t \<union> (\<lambda>(a, k). (a, up_chain k)) ` set es\<rparr>)"
  by (auto simp: elements_cmd_def nft_exec_def)

section \<open>States that can be written\<close>

text \<open>
  Keys the package generates, each once; per customer its accounts once; every address once; and
  rules that name only the customer's own counters and quota.
\<close>

definition files_ok :: "owned_file list \<Rightarrow> bool" where
  "files_ok fs \<longleftrightarrow> distinct (map fst fs) \<and> distinct (map snd fs)"

definition rules_ok :: "string \<Rightarrow> client_state \<Rightarrow> bool" where
  "rules_ok k s \<longleftrightarrow> (\<forall>r \<in> set (cs_down s) \<union> set (cs_up s).
     rule_counters r \<subseteq> counters_of k s \<and> rule_quotas r \<subseteq> fst ` quotas_of k s)"

definition state_ok :: "table_state \<Rightarrow> bool" where
  "state_ok st \<longleftrightarrow> distinct (map fst st) \<and>
     (\<forall>(k, s) \<in> set st. valid_key k \<and> files_ok (cs_files s) \<and> rules_ok k s) \<and>
     (\<forall>(k, s) \<in> set st. \<forall>(k', s') \<in> set st. k \<noteq> k' \<longrightarrow> snd ` set (cs_files s) \<inter> snd ` set (cs_files s') = {})"

lemma state_okD:
  assumes "state_ok st" "map_of st k = Some s"
  shows "valid_key k" "files_ok (cs_files s)" "rules_ok k s"
  using assms(1) map_of_SomeD [OF assms(2)] by (auto simp: state_ok_def)

lemma state_ok_addresses:
  assumes "state_ok st" "map_of st k = Some s" "map_of st k' = Some s'" "k \<noteq> k'" "(a, x) \<in> set (cs_files s)" "(a', x) \<in> set (cs_files s')"
  shows False
proof -
  have "snd ` set (cs_files s) \<inter> snd ` set (cs_files s') = {}"
    using assms(1,4) map_of_SomeD [OF assms(2)] map_of_SomeD [OF assms(3)] unfolding state_ok_def by fast
  then show False using assms(5,6) by force
qed

lemma in_state: "state_ok st \<Longrightarrow> (k, s) \<in> set st \<longleftrightarrow> map_of st k = Some s"
  by (simp add: state_ok_def)

lemma change_keys_props:
  assumes "state_ok h" "state_ok w"
  shows "distinct (change_keys h w)" "set (change_keys h w) = {k. map_of h k \<noteq> None \<or> map_of w k \<noteq> None}"
proof -
  show "distinct (change_keys h w)"
    using assms by (auto simp: change_keys_def state_ok_def)
  show "set (change_keys h w) = {k. map_of h k \<noteq> None \<or> map_of w k \<noteq> None}"
    unfolding change_keys_def set_sort map_of_eq_None_iff by auto
qed

lemma no_change_fields [simp]:
  "kc_out no_change = []" "kc_flush no_change = []" "kc_del_chain no_change = []" "kc_del_obj no_change = []"
  "kc_add_obj no_change = []" "kc_add_chain no_change = []" "kc_add_rule no_change = []" "kc_in no_change = []" "kc_next no_change = None"
  by (simp_all add: no_change_def)

text \<open>What a key's turn takes from and gives to each kind of thing, whichever its case is.\<close>

definition part :: "('a \<Rightarrow> 'b set) \<Rightarrow> 'a option \<Rightarrow> 'b set" where
  "part f x = (case x of None \<Rightarrow> {} | Some a \<Rightarrow> f a)"

definition owned_counters :: "string \<Rightarrow> string set" where
  "owned_counters k = {n. \<exists>a. n = down_counter k a \<or> n = up_counter k a}"

lemma counters_owned: "counters_of k s \<subseteq> owned_counters k"
  by (auto simp: counters_of_def owned_counters_def)

lemma owned_disjoint: "valid_key k \<Longrightarrow> valid_key k' \<Longrightarrow> k \<noteq> k' \<Longrightarrow> owned_counters k \<inter> owned_counters k' = {}"
  by (auto simp: owned_counters_def file_counter_inj)

text \<open>The names of a set of files, both directions.\<close>

definition file_names :: "string \<Rightarrow> nat set \<Rightarrow> string set" where
  "file_names k A = down_counter k ` A \<union> up_counter k ` A"

lemma counters_of_names: "counters_of k s = file_names k (fst ` set (cs_files s))"
  by (force simp: counters_of_def file_names_def)

lemma file_names_diff: "valid_key k \<Longrightarrow> file_names k A - file_names k B = file_names k (A - B)"
  by (auto simp: file_names_def file_counter_inj)

lemma file_names_int: "valid_key k \<Longrightarrow> file_names k A \<inter> file_names k B = file_names k (A \<inter> B)"
  by (auto simp: file_names_def file_counter_inj)

lemma file_names_Un: "file_names k A \<union> file_names k B = file_names k (A \<union> B)"
  by (auto simp: file_names_def)

lemma file_names_empty [simp]: "file_names k {} = {}"
  by (simp add: file_names_def)

lemma file_names_owned: "file_names k A \<subseteq> owned_counters k"
  by (auto simp: file_names_def owned_counters_def)

lemma fst_filter: "fst ` {p \<in> set fs. case p of (a, x) \<Rightarrow> a \<notin> X} = fst ` set fs - X"
  by force

lemma counters_added_set:
  "obj_counters (counters_added k fs) = file_names k (fst ` set fs)"
  "obj_quotas (counters_added k fs) = {}"
  by (force simp: obj_counters_def obj_quotas_def counters_added_def file_names_def)+

lemma obj_sets_append:
  "obj_counters (xs @ ys) = obj_counters xs \<union> obj_counters ys" "obj_quotas (xs @ ys) = obj_quotas xs \<union> obj_quotas ys"
  by (auto simp: obj_counters_def obj_quotas_def)

lemma obj_sets_concat:
  "obj_counters (concat xss) = (\<Union>xs \<in> set xss. obj_counters xs)" "obj_quotas (concat xss) = (\<Union>xs \<in> set xss. obj_quotas xs)"
  by (auto simp: obj_counters_def obj_quotas_def)

lemma quota_line_sets [simp]:
  "obj_counters [quota_line k l u] = {}" "obj_quotas [quota_line k l u] = {(quota_name k, l, min u l)}"
  by (simp_all add: quota_line_def obj_sets_Cons)

lemmas obj_sets = obj_sets_Cons obj_sets_append counters_added_set

text \<open>The four cases of a key's turn.\<close>

lemma key_change_cases:
  obtains (neither) "map_of h k = None" "map_of w k = None" "key_change_of h w u k = no_change"
  | (gone) s where "map_of h k = Some s" "map_of w k = None" "key_change_of h w u k = key_gone k s"
  | (new) t where "map_of h k = None" "map_of w k = Some t" "key_change_of h w u k = key_new k t"
  | (kept) s t where "map_of h k = Some s" "map_of w k = Some t" "key_change_of h w u k = key_kept k s t u"
  by (cases "map_of h k"; cases "map_of w k") (auto simp: key_change_of_def)

lemma key_kept_fields:
  "obj_counters (kc_del_obj (key_kept k s t u)) =
     (if cs_files t \<noteq> cs_files s then file_names k (fst ` set (cs_files s) - fst ` set (cs_files t)) else {})"
  "obj_counters (kc_add_obj (key_kept k s t u)) =
     (if cs_files t \<noteq> cs_files s then file_names k (fst ` set (cs_files t) - fst ` set (cs_files s)) else {})"
  "obj_quotas (kc_del_obj (key_kept k s t u)) =
     (if reseeds k s t u \<and> cs_quota s > 0 then {(quota_name k, cs_quota s, min (cs_used s) (cs_quota s))} else {})"
  "obj_quotas (kc_add_obj (key_kept k s t u)) =
     (if reseeds k s t u \<and> cs_quota t > 0 then {(quota_name k, cs_quota t, min (cs_used t) (cs_quota t))} else {})"
  "kc_next (key_kept k s t u) = Some (t\<lparr>cs_used := (if reseeds k s t u then cs_used t else cs_used s)\<rparr>)"
  by (simp_all add: key_kept_def Let_def obj_sets fst_filter)

text \<open>Counters: what a key had, less what it deletes, with what it adds, is what it has next.\<close>

lemma key_counters:
  assumes ok: "state_ok h" "state_ok w"
  shows "obj_counters (kc_del_obj (key_change_of h w u k)) \<subseteq> part (counters_of k) (map_of h k) \<and>
    obj_counters (kc_add_obj (key_change_of h w u k)) \<inter> part (counters_of k) (map_of h k) = {} \<and>
    part (counters_of k) (map_of h k) - obj_counters (kc_del_obj (key_change_of h w u k)) \<union>
      obj_counters (kc_add_obj (key_change_of h w u k)) = part (counters_of k) (kc_next (key_change_of h w u k))"
proof (cases rule: key_change_cases [of h k w u])
  case (gone s)
  then show ?thesis by (simp add: key_gone_def part_def obj_sets counters_of_names)
next
  case (new t)
  then show ?thesis by (simp add: key_new_def part_def obj_sets counters_of_names)
next
  case (kept s t)
  have v: "valid_key k" using state_okD(1) [OF ok(1) kept(1)] .
  let ?H = "fst ` set (cs_files s)"
  let ?W = "fst ` set (cs_files t)"
  have e: "?H - (?H - ?W) \<union> (?W - ?H) = ?W" "(?W - ?H) \<inter> ?H = {}" by auto
  have p: "part (counters_of k) (map_of h k) = file_names k ?H" "part (counters_of k) (kc_next (key_change_of h w u k)) = file_names k ?W"
    using kept by (simp_all add: part_def counters_of_names key_kept_fields)
  have sub: "file_names k (?H - ?W) \<subseteq> file_names k ?H" by (auto simp: file_names_def)
  show ?thesis
    unfolding p kept(3) key_kept_fields
    using sub by (simp add: file_names_diff [OF v] file_names_int [OF v] file_names_Un e part_def counters_of_names)
qed (simp add: part_def obj_sets)

lemma key_quotas:
  "fst ` obj_quotas (kc_del_obj (key_change_of h w u k)) \<subseteq> fst ` part (quotas_of k) (map_of h k) \<and>
   {q \<in> part (quotas_of k) (map_of h k). fst q \<notin> fst ` obj_quotas (kc_del_obj (key_change_of h w u k))} \<union>
      obj_quotas (kc_add_obj (key_change_of h w u k)) = part (quotas_of k) (kc_next (key_change_of h w u k)) \<and>
   fst ` obj_quotas (kc_add_obj (key_change_of h w u k)) \<inter>
      fst ` {q \<in> part (quotas_of k) (map_of h k). fst q \<notin> fst ` obj_quotas (kc_del_obj (key_change_of h w u k))} = {}"
proof (cases rule: key_change_cases [of h k w u])
  case (gone s)
  then show ?thesis by (auto simp: key_gone_def part_def obj_sets quotas_of_def)
next
  case (new t)
  then show ?thesis by (auto simp: key_new_def part_def obj_sets quotas_of_def)
next
  case (kept s t)
  show ?thesis
  proof (cases "reseeds k s t u")
    case True
    then show ?thesis
      unfolding kept(3) key_kept_fields using kept(1) by (auto simp: part_def quotas_of_def)
  next
    case False
    then have "cs_quota t = cs_quota s" by (auto simp: reseeds_def split: if_splits)
    with False show ?thesis
      unfolding kept(3) key_kept_fields using kept(1) by (auto simp: part_def quotas_of_def)
  qed
qed (simp add: part_def obj_sets)

text \<open>Chains, elements and rules of a key.\<close>

definition chains_of :: "string \<Rightarrow> client_state \<Rightarrow> (string \<times> nft_rule list) set" where
  "chains_of k s = {(down_chain k, cs_down s), (up_chain k, cs_up s)}"

definition dl_of :: "string \<Rightarrow> client_state \<Rightarrow> (bytes \<times> string) set" where
  "dl_of k s = (\<lambda>f. (snd f, down_chain k)) ` set (cs_files s)"

definition ul_of :: "string \<Rightarrow> client_state \<Rightarrow> (bytes \<times> string) set" where
  "ul_of k s = (\<lambda>f. (snd f, up_chain k)) ` set (cs_files s)"

text \<open>A key whose chains are written afresh, and one whose elements are.\<close>

definition writes_afresh :: "string \<Rightarrow> client_state \<Rightarrow> client_state \<Rightarrow> (string \<Rightarrow> nat option) \<Rightarrow> bool" where
  "writes_afresh k s t u \<longleftrightarrow> cs_down t \<noteq> cs_down s \<or> cs_up t \<noteq> cs_up s \<or> reseeds k s t u \<or> cs_files t \<noteq> cs_files s"

lemma key_kept_chains:
  "kc_flush (key_kept k s t u) = (if writes_afresh k s t u then [down_chain k, up_chain k] else [])"
  "kc_add_rule (key_kept k s t u) = (if writes_afresh k s t u then rules_for k t else [])"
  "kc_del_chain (key_kept k s t u) = []" "kc_add_chain (key_kept k s t u) = []"
  "kc_out (key_kept k s t u) = (if cs_files t \<noteq> cs_files s then map snd (cs_files s) else [])"
  "kc_in (key_kept k s t u) = (if cs_files t \<noteq> cs_files s then map (\<lambda>(a, x). (x, k)) (cs_files t) else [])"
  by (auto simp: key_kept_def Let_def writes_afresh_def)

lemma rules_of_own:
  "rules_of (down_chain k) (rules_for k t) = cs_down t" "rules_of (up_chain k) (rules_for k t) = cs_up t"
  "c \<noteq> down_chain k \<Longrightarrow> c \<noteq> up_chain k \<Longrightarrow> rules_of c (rules_for k t) = []"
  by (simp_all add: rules_of_def rules_for_def filter_map o_def)

subsection \<open>Families over keys\<close>

lemma family_disjoint:
  "(\<And>k j. k \<in> S \<Longrightarrow> j \<in> S \<Longrightarrow> A k \<inter> B j = {}) \<Longrightarrow> (\<Union>k \<in> S. A k) \<inter> (\<Union>j \<in> S. B j) = {}"
  by blast

lemma family_remove:
  "(\<And>k k'. k \<in> S \<Longrightarrow> k' \<in> S \<Longrightarrow> k \<noteq> k' \<Longrightarrow> fst ` X k \<inter> Q k' = {}) \<Longrightarrow>
     {p \<in> \<Union>k \<in> S. X k. fst p \<notin> (\<Union>k \<in> S. Q k)} = (\<Union>k \<in> S. {p \<in> X k. fst p \<notin> Q k})"
  by blast

lemma family_diff:
  "(\<And>k k'. k \<in> S \<Longrightarrow> k' \<in> S \<Longrightarrow> k \<noteq> k' \<Longrightarrow> X k \<inter> Q k' = {}) \<Longrightarrow>
     (\<Union>k \<in> S. X k) - (\<Union>k \<in> S. Q k) = (\<Union>k \<in> S. X k - Q k)"
  by blast

lemma family_map_chains:
  "(\<And>k c rs. k \<in> S \<Longrightarrow> (c, rs) \<in> X k \<Longrightarrow> f c rs = g k c rs) \<Longrightarrow>
     map_chains f (\<Union>k \<in> S. X k) = (\<Union>k \<in> S. map_chains (g k) (X k))"
proof -
  assume a: "\<And>k c rs. k \<in> S \<Longrightarrow> (c, rs) \<in> X k \<Longrightarrow> f c rs = g k c rs"
  have "map_chains f (\<Union>k \<in> S. X k) = (\<Union>k \<in> S. map_chains f (X k))"
    by (auto simp: map_chains_def)
  also have "\<dots> = (\<Union>k \<in> S. map_chains (g k) (X k))"
    using a by (intro SUP_cong refl map_chains_cong) blast
  finally show ?thesis .
qed

lemma distinct_concat_map:
  "distinct ks \<Longrightarrow> (\<And>k. k \<in> set ks \<Longrightarrow> distinct (f k)) \<Longrightarrow>
   (\<And>k k'. k \<in> set ks \<Longrightarrow> k' \<in> set ks \<Longrightarrow> k \<noteq> k' \<Longrightarrow> set (f k) \<inter> set (f k') = {}) \<Longrightarrow> distinct (concat (map f ks))"
  by (induction ks) auto

lemma part_iff: "y \<in> part f x \<longleftrightarrow> (\<exists>a. x = Some a \<and> y \<in> f a)"
  by (simp add: part_def split: option.split)

lemma state_family:
  assumes "state_ok st" "{k. map_of st k \<noteq> None} \<subseteq> S"
  shows "(\<Union>(k, s) \<in> set st. F k s) = (\<Union>k \<in> S. part (F k) (map_of st k))"
proof -
  have m: "map_of st k = Some s \<Longrightarrow> k \<in> S" for k s using assms(2) by auto
  have e: "(\<Union>(k, s) \<in> set st. F k s) = {x. \<exists>k s. (k, s) \<in> set st \<and> x \<in> F k s}" by auto
  show ?thesis
    unfolding e in_state [OF assms(1)] using m by (fastforce simp: part_iff)
qed

lemma next_family:
  "(\<Union>(k, s) \<in> set (change_next h w u). F k s) =
     (\<Union>k \<in> set (change_keys h w). part (F k) (kc_next (key_change_of h w u k)))"
proof -
  have m: "(k, s) \<in> set (change_next h w u) \<longleftrightarrow> k \<in> set (change_keys h w) \<and> kc_next (key_change_of h w u k) = Some s" for k s
    by (auto simp: change_next_def split: option.splits)
  have e: "(\<Union>(k, s) \<in> set (change_next h w u). F k s) = {x. \<exists>k s. (k, s) \<in> set (change_next h w u) \<and> x \<in> F k s}" by auto
  show ?thesis unfolding e m by (auto simp: part_iff)
qed

lemma table_of_family:
  assumes "state_ok st" "{k. map_of st k \<noteq> None} \<subseteq> S"
  shows "table_of st = \<lparr>nt_counters = (\<Union>k \<in> S. part (counters_of k) (map_of st k)), nt_quotas = (\<Union>k \<in> S. part (quotas_of k) (map_of st k)),
    nt_chains = (\<Union>k \<in> S. part (chains_of k) (map_of st k)), nt_dl = (\<Union>k \<in> S. part (dl_of k) (map_of st k)),
    nt_ul = (\<Union>k \<in> S. part (ul_of k) (map_of st k))\<rparr>"
  unfolding table_of_def chains_of_def [symmetric] dl_of_def [symmetric] ul_of_def [symmetric] state_family [OF assms] ..

lemma table_of_next:
  "table_of (change_next h w u) = (let S = set (change_keys h w); nx = (\<lambda>k. kc_next (key_change_of h w u k)) in
    \<lparr>nt_counters = (\<Union>k \<in> S. part (counters_of k) (nx k)), nt_quotas = (\<Union>k \<in> S. part (quotas_of k) (nx k)),
    nt_chains = (\<Union>k \<in> S. part (chains_of k) (nx k)), nt_dl = (\<Union>k \<in> S. part (dl_of k) (nx k)),
    nt_ul = (\<Union>k \<in> S. part (ul_of k) (nx k))\<rparr>)"
  unfolding table_of_def chains_of_def [symmetric] dl_of_def [symmetric] ul_of_def [symmetric] next_family Let_def ..

subsection \<open>The facts each phase needs\<close>

text \<open>What a key's chains are once the transaction has emptied and deleted, and once chains are added.\<close>

definition chains_left :: "table_state \<Rightarrow> table_state \<Rightarrow> (string \<Rightarrow> nat option) \<Rightarrow> string \<Rightarrow> (string \<times> nft_rule list) set" where
  "chains_left h w u k =
     {p \<in> map_chains (\<lambda>c rs. if c \<in> set (kc_flush (key_change_of h w u k)) then [] else rs) (part (chains_of k) (map_of h k)).
       fst p \<notin> set (kc_del_chain (key_change_of h w u k))}"

lemma chains_left_cases:
  "chains_left h w u k =
     (case (map_of h k, map_of w k) of
        (Some s, Some t) \<Rightarrow> if writes_afresh k s t u then {(down_chain k, []), (up_chain k, [])} else chains_of k s
      | _ \<Rightarrow> {})"
proof (cases rule: key_change_cases [of h k w u])
  case (kept s t)
  then show ?thesis
    by (auto simp: chains_left_def part_def chains_of_def map_chains_def key_kept_chains)
next
  case (gone s)
  then show ?thesis by (auto simp: chains_left_def part_def chains_of_def map_chains_def key_gone_def)
qed (simp_all add: chains_left_def part_def map_chains_def)

lemma key_chains:
  "map_chains (\<lambda>c l. l @ rules_of c (kc_add_rule (key_change_of h w u k)))
     (chains_left h w u k \<union> (\<lambda>n. (n, [])) ` set (kc_add_chain (key_change_of h w u k)))
   = part (chains_of k) (kc_next (key_change_of h w u k))"
proof (cases rule: key_change_cases [of h k w u])
  case (kept s t)
  have "map_chains (\<lambda>c l. l @ []) X = X" for X :: "(string \<times> nft_rule list) set" by (simp add: map_chains_def)
  moreover have "\<not> writes_afresh k s t u \<Longrightarrow> cs_down t = cs_down s \<and> cs_up t = cs_up s" by (auto simp: writes_afresh_def)
  ultimately show ?thesis
    using kept unfolding chains_left_cases kept(3) key_kept_chains key_kept_fields
    by (auto simp: part_def chains_of_def map_chains_def rules_of_own rules_of_def [of _ "[]"])
next
  case (new t)
  then show ?thesis
    unfolding chains_left_cases by (auto simp: part_def chains_of_def map_chains_def key_new_def rules_of_own)
qed (auto simp: chains_left_cases part_def map_chains_def key_gone_def)

lemma key_elements:
  "{p \<in> part (dl_of k) (map_of h k). fst p \<notin> set (kc_out (key_change_of h w u k))} \<union>
     (\<lambda>(a, k). (a, down_chain k)) ` set (kc_in (key_change_of h w u k)) = part (dl_of k) (kc_next (key_change_of h w u k))"
  "{p \<in> part (ul_of k) (map_of h k). fst p \<notin> set (kc_out (key_change_of h w u k))} \<union>
     (\<lambda>(a, k). (a, up_chain k)) ` set (kc_in (key_change_of h w u k)) = part (ul_of k) (kc_next (key_change_of h w u k))"
proof -
  show "{p \<in> part (dl_of k) (map_of h k). fst p \<notin> set (kc_out (key_change_of h w u k))} \<union>
     (\<lambda>(a, k). (a, down_chain k)) ` set (kc_in (key_change_of h w u k)) = part (dl_of k) (kc_next (key_change_of h w u k))"
    by (cases rule: key_change_cases [of h k w u])
      (force simp: part_def dl_of_def key_gone_def key_new_def key_kept_chains key_kept_fields)+
  show "{p \<in> part (ul_of k) (map_of h k). fst p \<notin> set (kc_out (key_change_of h w u k))} \<union>
     (\<lambda>(a, k). (a, up_chain k)) ` set (kc_in (key_change_of h w u k)) = part (ul_of k) (kc_next (key_change_of h w u k))"
    by (cases rule: key_change_cases [of h k w u])
      (force simp: part_def ul_of_def key_gone_def key_new_def key_kept_chains key_kept_fields)+
qed

lemma valid_changed:
  "state_ok h \<Longrightarrow> state_ok w \<Longrightarrow> k \<in> set (change_keys h w) \<Longrightarrow> valid_key k"
  using state_okD(1) by (fastforce simp: change_keys_props(2))

lemma key_objects_owned:
  assumes "state_ok h" "state_ok w"
  shows "obj_counters (kc_del_obj (key_change_of h w u k)) \<subseteq> owned_counters k \<and> obj_counters (kc_add_obj (key_change_of h w u k)) \<subseteq> owned_counters k \<and>
    fst ` obj_quotas (kc_del_obj (key_change_of h w u k)) \<subseteq> {quota_name k} \<and> fst ` obj_quotas (kc_add_obj (key_change_of h w u k)) \<subseteq> {quota_name k}"
  using file_names_owned
  by (cases rule: key_change_cases [of h k w u])
    (auto simp: key_gone_def key_new_def key_kept_fields obj_sets counters_owned split: if_splits)

lemma counters_added_names:
  assumes "valid_key k" "distinct (map fst fs)"
  shows "distinct (map obj_name (counters_added k fs))"
  using assms(2)
proof (induction fs)
  case (Cons f fs)
  obtain a x where f: "f = (a, x)" by (cases f)
  have "(True, down_counter k a) \<notin> obj_name ` set (counters_added k fs)" "(True, up_counter k a) \<notin> obj_name ` set (counters_added k fs)"
    using Cons.prems by (auto simp: f counters_added_def file_counter_inj [OF assms(1) assms(1)] split: prod.splits) force+
  then show ?case using Cons by (simp add: f counters_added_def)
qed (simp add: counters_added_def)

lemma counters_added_only: "obj_name ` set (counters_added k fs) \<subseteq> {True} \<times> UNIV"
  by (auto simp: counters_added_def)

lemma key_objects_distinct:
  assumes ok: "state_ok h" "state_ok w"
  shows "distinct (map obj_name (kc_del_obj (key_change_of h w u k))) \<and> distinct (map obj_name (kc_add_obj (key_change_of h w u k)))"
proof -
  have one: "distinct (map obj_name (counters_added k fs @ (if c then [quota_line k l v] else [])))"
    if "valid_key k" "distinct (map fst fs)" for fs c l v
    using counters_added_names [OF that] counters_added_only [of k fs] by (auto simp: quota_line_def)
  have two: "distinct (map fst (cs_files s))" "distinct (map fst (filter P (cs_files s)))" if "state_ok st" "map_of st k = Some s" for st s P
    using state_okD(2) [OF that] by (auto simp: files_ok_def distinct_map_filter)
  show ?thesis
  proof (cases rule: key_change_cases [of h k w u])
    case (gone s)
    then show ?thesis using one [OF state_okD(1) [OF ok(1)] two(1) [OF ok(1)]] by (simp add: key_gone_def)
  next
    case (new t)
    then show ?thesis using one [OF state_okD(1) [OF ok(2)] two(1) [OF ok(2)]] by (simp add: key_new_def)
  next
    case (kept s t)
    have v: "valid_key k" by (rule state_okD(1) [OF ok(1) kept(1)])
    have d: "distinct (map fst fs) \<Longrightarrow> distinct (map obj_name ((if b then counters_added k fs else []) @ (if c then [quota_line k l x] else [])))" for b fs c l x
      using one [OF v, of fs c l x] by (cases b) auto
    show ?thesis
      unfolding kept(3) key_kept_def Let_def
      using d [OF two(2) [OF ok(1) kept(1)]] d [OF two(2) [OF ok(2) kept(2)]] by simp
  qed simp
qed

lemma obj_name_eq:
  "(True, n) = obj_name ob \<longleftrightarrow> ob = CounterObj n" "(False, n) = obj_name ob \<longleftrightarrow> (\<exists>l u. ob = QuotaObj n l u)"
  by (cases ob; auto)+

lemma obj_name_mem:
  "(True, n) \<in> obj_name ` set os \<longleftrightarrow> n \<in> obj_counters os" "(False, n) \<in> obj_name ` set os \<longleftrightarrow> n \<in> fst ` obj_quotas os"
  unfolding obj_counters_def obj_quotas_def image_iff obj_name_eq by auto

lemma objects_distinct:
  assumes ok: "state_ok h" "state_ok w"
    and f: "f = kc_del_obj \<or> f = kc_add_obj"
  shows "distinct (map obj_name (concat (map (\<lambda>k. f (key_change_of h w u k)) (change_keys h w))))"
proof -
  have "distinct (concat (map (\<lambda>k. map obj_name (f (key_change_of h w u k))) (change_keys h w)))"
  proof (rule distinct_concat_map)
    show "distinct (change_keys h w)" by (rule change_keys_props(1) [OF ok])
    show "distinct (map obj_name (f (key_change_of h w u k)))" for k
      using key_objects_distinct [OF ok] f by auto
    fix k k'
    assume k: "k \<in> set (change_keys h w)" "k' \<in> set (change_keys h w)" "k \<noteq> k'"
    note dj = owned_disjoint [OF valid_changed [OF ok k(1)] valid_changed [OF ok k(2)] k(3)]
    have own: "obj_counters (f (key_change_of h w u j)) \<subseteq> owned_counters j" "fst ` obj_quotas (f (key_change_of h w u j)) \<subseteq> {quota_name j}" for j
      using key_objects_owned [OF ok, of u j] f by auto
    show "set (map obj_name (f (key_change_of h w u k))) \<inter> set (map obj_name (f (key_change_of h w u k'))) = {}"
    proof (rule ccontr)
      assume "\<not> ?thesis"
      then obtain b n where x: "(b, n) \<in> obj_name ` set (f (key_change_of h w u k))" "(b, n) \<in> obj_name ` set (f (key_change_of h w u k'))"
        by (metis disjoint_iff list.set_map surj_pair)
      show False
      proof (cases b)
        case True
        then have "n \<in> owned_counters k" "n \<in> owned_counters k'"
          using x own(1) by (auto simp only: obj_name_mem)
        with dj show False by blast
      next
        case False
        then have "n = quota_name k" "n = quota_name k'"
          using x own(2) [of k] own(2) [of k'] by (simp_all only: obj_name_mem) blast+
        with k(3) show False by simp
      qed
    qed
  qed
  then show ?thesis by (simp add: map_concat o_def)
qed

lemma addresses_apart:
  assumes ok: "state_ok st" and k: "k \<noteq> k'"
  shows "fst ` part (dl_of k) (map_of st k) \<inter> part (\<lambda>s. snd ` set (cs_files s)) (map_of st k') = {}"
    "fst ` part (ul_of k) (map_of st k) \<inter> part (\<lambda>s. snd ` set (cs_files s)) (map_of st k') = {}"
  using state_ok_addresses [OF ok _ _ k] by (auto simp: part_iff dl_of_def ul_of_def) blast+

lemma key_out: "set (kc_out (key_change_of h w u k)) \<subseteq> part (\<lambda>s. snd ` set (cs_files s)) (map_of h k)"
  by (cases rule: key_change_cases [of h k w u]) (auto simp: part_def key_gone_def key_new_def key_kept_chains)

lemma key_out_present:
  "part (\<lambda>s. snd ` set (cs_files s)) (map_of h k) = fst ` part (dl_of k) (map_of h k)"
  "part (\<lambda>s. snd ` set (cs_files s)) (map_of h k) = fst ` part (ul_of k) (map_of h k)"
  by (force simp: part_def dl_of_def ul_of_def split: option.split)+

lemma chains_names: "(n, rs) \<in> part (chains_of k) x \<Longrightarrow> n = down_chain k \<or> n = up_chain k"
  by (auto simp: part_iff chains_of_def)

lemma key_chain_names:
  "set (kc_flush (key_change_of h w u k)) \<union> set (kc_del_chain (key_change_of h w u k)) \<subseteq> fst ` part (chains_of k) (map_of h k)"
  "set (kc_flush (key_change_of h w u k)) \<union> set (kc_del_chain (key_change_of h w u k)) \<union> set (kc_add_chain (key_change_of h w u k)) \<subseteq> {down_chain k, up_chain k}"
  "set (kc_del_chain (key_change_of h w u k)) \<subseteq> set (kc_flush (key_change_of h w u k))"
  "distinct (kc_del_chain (key_change_of h w u k))" "distinct (kc_add_chain (key_change_of h w u k))"
  "fst ` set (kc_add_rule (key_change_of h w u k)) \<subseteq> {down_chain k, up_chain k}"
  by (cases rule: key_change_cases [of h k w u];
      force simp: part_def chains_of_def key_gone_def key_new_def key_kept_chains rules_for_def split: if_splits)+

text \<open>Where objects go, no rule is left that could name them.\<close>

lemma key_objects_unnamed:
  assumes "obj_counters (kc_del_obj (key_change_of h w u k)) \<noteq> {} \<or> obj_quotas (kc_del_obj (key_change_of h w u k)) \<noteq> {}"
  shows "(n, rs) \<in> chains_left h w u k \<Longrightarrow> rs = []"
proof (cases rule: key_change_cases [of h k w u])
  case (kept s t)
  have "writes_afresh k s t u"
    using assms unfolding kept(3) key_kept_fields by (auto simp: writes_afresh_def split: if_splits)
  then show "(n, rs) \<in> chains_left h w u k \<Longrightarrow> rs = []" using kept by (simp add: chains_left_cases) auto
qed (auto simp: chains_left_cases)

lemma chains_left_named:
  assumes ok: "state_ok h" and m: "(n, rs) \<in> chains_left h w u k" "r \<in> set rs"
  shows "rule_counters r \<subseteq> owned_counters k \<and> rule_quotas r \<subseteq> {quota_name k}"
proof -
  obtain s t where s: "map_of h k = Some s" "r \<in> set (cs_down s) \<union> set (cs_up s)"
    using m by (auto simp: chains_left_cases chains_of_def split: option.splits if_splits)
  then have "rule_counters r \<subseteq> counters_of k s" "rule_quotas r \<subseteq> fst ` quotas_of k s"
    using state_okD(3) [OF ok s(1)] by (auto simp: rules_ok_def)
  then show ?thesis using counters_owned by (auto simp: quotas_of_def split: if_splits)
qed

text \<open>The rules a key adds name what it has next.\<close>

lemma key_rules_named:
  assumes ok: "state_ok w" and m: "(n, r) \<in> set (kc_add_rule (key_change_of h w u k))"
  shows "rule_counters r \<subseteq> part (counters_of k) (kc_next (key_change_of h w u k)) \<and>
    rule_quotas r \<subseteq> fst ` part (quotas_of k) (kc_next (key_change_of h w u k)) \<and> map_of w k \<noteq> None"
proof -
  obtain t where t: "map_of w k = Some t" "r \<in> set (cs_down t) \<union> set (cs_up t)"
    using m by (cases rule: key_change_cases [of h k w u])
      (auto simp: key_gone_def key_new_def key_kept_chains rules_for_def split: if_splits)
  then have r: "rule_counters r \<subseteq> counters_of k t" "rule_quotas r \<subseteq> fst ` quotas_of k t"
    using state_okD(3) [OF ok t(1)] by (auto simp: rules_ok_def)
  obtain x where x: "kc_next (key_change_of h w u k) = Some (t\<lparr>cs_used := x\<rparr>)"
  proof (cases rule: key_change_cases [of h k w u])
    case (new t')
    then show ?thesis using that [of "cs_used t"] t(1) by (simp add: key_new_def)
  next
    case (kept s t')
    then show ?thesis using that t(1) by (simp add: key_kept_fields)
  qed (use t in auto)
  have "counters_of k (t\<lparr>cs_used := x\<rparr>) = counters_of k t" "fst ` quotas_of k (t\<lparr>cs_used := x\<rparr>) = fst ` quotas_of k t"
    by (simp_all add: counters_of_def quotas_of_def)
  with r x t show ?thesis by (simp add: part_def)
qed

lemma key_in:
  assumes ok: "state_ok w"
  shows "distinct (map fst (kc_in (key_change_of h w u k)))"
    "fst ` set (kc_in (key_change_of h w u k)) \<subseteq> part (\<lambda>s. snd ` set (cs_files s)) (map_of w k)"
    "snd ` set (kc_in (key_change_of h w u k)) \<subseteq> {k}"
proof -
  have d: "distinct (map (fst \<circ> (\<lambda>(a, x). (x, k))) (cs_files t))" if "map_of w k = Some t" for t
  proof -
    have "fst \<circ> (\<lambda>(a, x). (x, k)) = (snd :: owned_file \<Rightarrow> bytes)" by auto
    then show ?thesis using state_okD(2) [OF ok that] by (simp add: files_ok_def)
  qed
  show "distinct (map fst (kc_in (key_change_of h w u k)))"
    by (cases rule: key_change_cases [of h k w u]) (simp_all add: key_gone_def key_new_def key_kept_chains d)
  show "fst ` set (kc_in (key_change_of h w u k)) \<subseteq> part (\<lambda>s. snd ` set (cs_files s)) (map_of w k)"
    "snd ` set (kc_in (key_change_of h w u k)) \<subseteq> {k}"
    by (cases rule: key_change_cases [of h k w u]; force simp: part_def key_gone_def key_new_def key_kept_chains)+
qed

text \<open>An address put in is held by no element that stayed.\<close>

lemma stayed_elements:
  assumes ok: "state_ok w"
    and a: "a \<in> fst ` {p \<in> part (dl_of k) (map_of h k). fst p \<notin> set (kc_out (key_change_of h w u k))} \<or>
      a \<in> fst ` {p \<in> part (ul_of k) (map_of h k). fst p \<notin> set (kc_out (key_change_of h w u k))}"
  shows "\<exists>t. map_of w k = Some t \<and> a \<in> snd ` set (cs_files t) \<and> kc_in (key_change_of h w u k) = []"
proof (cases rule: key_change_cases [of h k w u])
  case (kept s t)
  have "cs_files t = cs_files s"
    using a kept by (force simp: part_iff dl_of_def ul_of_def key_kept_chains split: if_splits)
  with a kept show ?thesis by (force simp: part_iff dl_of_def ul_of_def key_kept_chains)
next
  case (gone s)
  with a have False by (force simp: part_iff dl_of_def ul_of_def key_gone_def)
  then show ?thesis ..
qed (use a in \<open>auto simp: part_iff key_new_def\<close>)

subsection \<open>The phases of a change\<close>

definition families :: "'k set \<Rightarrow> ('k \<Rightarrow> string set) \<Rightarrow> ('k \<Rightarrow> (string \<times> nat \<times> nat) set) \<Rightarrow> ('k \<Rightarrow> (string \<times> nft_rule list) set) \<Rightarrow>
    ('k \<Rightarrow> (bytes \<times> string) set) \<Rightarrow> ('k \<Rightarrow> (bytes \<times> string) set) \<Rightarrow> nft_table" where
  "families S c q ch d u = \<lparr>nt_counters = (\<Union>k \<in> S. c k), nt_quotas = (\<Union>k \<in> S. q k), nt_chains = (\<Union>k \<in> S. ch k),
     nt_dl = (\<Union>k \<in> S. d k), nt_ul = (\<Union>k \<in> S. u k)\<rparr>"

definition elements_left :: "(string \<Rightarrow> client_state \<Rightarrow> (bytes \<times> string) set) \<Rightarrow> table_state \<Rightarrow> table_state \<Rightarrow> (string \<Rightarrow> nat option) \<Rightarrow> string \<Rightarrow> (bytes \<times> string) set" where
  "elements_left of_key h w u k = {p \<in> part (of_key k) (map_of h k). fst p \<notin> set (kc_out (key_change_of h w u k))}"

definition chains_emptied :: "table_state \<Rightarrow> table_state \<Rightarrow> (string \<Rightarrow> nat option) \<Rightarrow> string \<Rightarrow> (string \<times> nft_rule list) set" where
  "chains_emptied h w u k =
     map_chains (\<lambda>c rs. if c \<in> set (kc_flush (key_change_of h w u k)) then [] else rs) (part (chains_of k) (map_of h k))"

lemma set_over: "set (concat (map f (map g ks))) = (\<Union>k \<in> set ks. set (f (g k)))"
  by auto

lemma phase_elements_out:
  assumes ok: "state_ok h" "state_ok w"
  shows "nft_run (elements_cmd DeleteElements (firsts {} (concat (map kc_out (map (key_change_of h w u) (change_keys h w))))))
       (families (set (change_keys h w)) c q ch (\<lambda>k. part (dl_of k) (map_of h k)) (\<lambda>k. part (ul_of k) (map_of h k))) =
     Some (families (set (change_keys h w)) c q ch (elements_left dl_of h w u) (elements_left ul_of h w u))"
proof -
  let ?S = "set (change_keys h w)"
  let ?as = "firsts {} (concat (map kc_out (map (key_change_of h w u) (change_keys h w))))"
  have s: "set ?as = (\<Union>k \<in> ?S. set (kc_out (key_change_of h w u k)))" by (simp add: set_over)
  have apart: "k \<noteq> k' \<Longrightarrow> fst ` part (dl_of k) (map_of h k) \<inter> set (kc_out (key_change_of h w u k')) = {}"
    "k \<noteq> k' \<Longrightarrow> fst ` part (ul_of k) (map_of h k) \<inter> set (kc_out (key_change_of h w u k')) = {}" for k k'
    using addresses_apart [OF ok(1), of k k'] key_out [of h w u k'] by fast+
  have there: "set ?as \<subseteq> fst ` (\<Union>k \<in> ?S. part (dl_of k) (map_of h k))" "set ?as \<subseteq> fst ` (\<Union>k \<in> ?S. part (ul_of k) (map_of h k))"
    unfolding s image_UN using key_out key_out_present by fast+
  have left: "{p \<in> \<Union>k \<in> ?S. part (dl_of k) (map_of h k). fst p \<notin> set ?as} = (\<Union>k \<in> ?S. elements_left dl_of h w u k)"
    "{p \<in> \<Union>k \<in> ?S. part (ul_of k) (map_of h k). fst p \<notin> set ?as} = (\<Union>k \<in> ?S. elements_left ul_of h w u k)"
    unfolding s elements_left_def by (rule family_remove; rule apart; assumption)+
  show ?thesis
    unfolding families_def
    by (subst run_delete_elements) (simp_all only: nft_table.simps there left distinct_firsts)
qed

lemma phase_flush:
  assumes ok: "state_ok h" "state_ok w"
  shows "nft_run (map FlushChain (firsts {} (concat (map kc_flush (map (key_change_of h w u) (change_keys h w))))))
       (families (set (change_keys h w)) c q (\<lambda>k. part (chains_of k) (map_of h k)) d e) =
     Some (families (set (change_keys h w)) c q (chains_emptied h w u) d e)"
proof -
  let ?S = "set (change_keys h w)"
  let ?ns = "firsts {} (concat (map kc_flush (map (key_change_of h w u) (change_keys h w))))"
  have s: "set ?ns = (\<Union>k \<in> ?S. set (kc_flush (key_change_of h w u k)))" by (simp add: set_over)
  have there: "set ?ns \<subseteq> fst ` (\<Union>k \<in> ?S. part (chains_of k) (map_of h k))"
    unfolding s image_UN using key_chain_names(1) by fast
  have own: "n \<in> set ?ns \<longleftrightarrow> n \<in> set (kc_flush (key_change_of h w u k))"
    if "k \<in> ?S" "(n, rs) \<in> part (chains_of k) (map_of h k)" for k n rs
  proof -
    have "n = down_chain k \<or> n = up_chain k" using chains_names [OF that(2)] .
    then have "n \<in> set (kc_flush (key_change_of h w u j)) \<Longrightarrow> j = k" for j
      using key_chain_names(2) [of h w u j] by auto
    with that(1) show ?thesis unfolding s by blast
  qed
  have "map_chains (\<lambda>c rs. if c \<in> set ?ns then [] else rs) (\<Union>k \<in> ?S. part (chains_of k) (map_of h k)) = (\<Union>k \<in> ?S. chains_emptied h w u k)"
    unfolding chains_emptied_def by (rule family_map_chains) (simp only: own)
  then show ?thesis
    using there unfolding families_def by (subst run_flush) simp_all
qed

lemma chain_key: "n \<in> {down_chain k, up_chain k} \<Longrightarrow> n \<in> {down_chain j, up_chain j} \<Longrightarrow> j = k"
  by auto

lemma chains_emptied_names: "fst ` chains_emptied h w u k \<subseteq> {down_chain k, up_chain k}"
  unfolding chains_emptied_def map_chains_names using chains_names by force

lemma chains_left_names: "fst ` chains_left h w u k \<subseteq> {down_chain k, up_chain k}"
  using chains_emptied_names [of h w u k] unfolding chains_left_def chains_emptied_def by blast

lemma gone_elements:
  "kc_del_chain (key_change_of h w u k) \<noteq> [] \<Longrightarrow> elements_left dl_of h w u k = {} \<and> elements_left ul_of h w u k = {}"
  by (cases rule: key_change_cases [of h k w u])
    (force simp: elements_left_def key_gone_def key_new_def key_kept_chains part_iff dl_of_def ul_of_def)+

lemma elements_left_chains:
  "snd ` elements_left dl_of h w u k \<subseteq> {down_chain k, up_chain k}" "snd ` elements_left ul_of h w u k \<subseteq> {down_chain k, up_chain k}"
  by (auto simp: elements_left_def part_iff dl_of_def ul_of_def)

lemma phase_chains_out:
  assumes ok: "state_ok h" "state_ok w"
  shows "nft_run (map DeleteChain (concat (map kc_del_chain (map (key_change_of h w u) (change_keys h w)))))
       (families (set (change_keys h w)) c q (chains_emptied h w u) (elements_left dl_of h w u) (elements_left ul_of h w u)) =
     Some (families (set (change_keys h w)) c q (chains_left h w u) (elements_left dl_of h w u) (elements_left ul_of h w u))"
proof -
  let ?S = "set (change_keys h w)"
  let ?C = "key_change_of h w u"
  let ?ns = "concat (map kc_del_chain (map ?C (change_keys h w)))"
  have s: "set ?ns = (\<Union>k \<in> ?S. set (kc_del_chain (?C k)))" by (simp add: set_over)
  have d: "distinct ?ns"
    unfolding map_map o_def
  proof (rule distinct_concat_map)
    fix k k' :: string
    assume "k \<noteq> k'"
    then show "set (kc_del_chain (?C k)) \<inter> set (kc_del_chain (?C k')) = {}"
      using key_chain_names(2) [of h w u k] key_chain_names(2) [of h w u k'] chain_key by blast
  qed (use change_keys_props(1) [OF ok] key_chain_names(4) in auto)
  have empty: "(n, []) \<in> (\<Union>k \<in> ?S. chains_emptied h w u k)" if n: "n \<in> set ?ns" for n
  proof -
    obtain k where k: "k \<in> ?S" "n \<in> set (kc_del_chain (?C k))" using n unfolding s by blast
    then have "n \<in> fst ` part (chains_of k) (map_of h k)" "n \<in> set (kc_flush (?C k))"
      using key_chain_names(1,3) [of h w u k] by blast+
    then have "(n, []) \<in> chains_emptied h w u k" by (force simp: chains_emptied_def map_chains_def)
    with k(1) show ?thesis by blast
  qed
  have unused: "set ?ns \<inter> snd ` (\<Union>k \<in> ?S. elements_left f h w u k) = {}" if f: "f = dl_of \<or> f = ul_of" for f
  proof (rule ccontr)
    assume "\<not> ?thesis"
    then obtain n k j where n: "n \<in> set (kc_del_chain (?C k))" "n \<in> snd ` elements_left f h w u j" unfolding s by blast
    then have "j = k"
      using f elements_left_chains [of h w u j] key_chain_names(2) [of h w u k] chain_key [of n k j] by blast
    moreover have "kc_del_chain (?C k) \<noteq> []" using n(1) by auto
    then have "elements_left f h w u k = {}" using gone_elements [of h w u k] f by auto
    ultimately show False using n(2) by simp
  qed
  have own: "fst ` chains_emptied h w u k \<inter> set (kc_del_chain (?C k')) = {}" if "k \<noteq> k'" for k k' :: string
    using that chains_emptied_names [of h w u k] key_chain_names(2) [of h w u k'] chain_key by blast
  have "{p \<in> \<Union>k \<in> ?S. chains_emptied h w u k. fst p \<notin> set ?ns} = (\<Union>k \<in> ?S. chains_left h w u k)"
    unfolding s chains_left_def chains_emptied_def [symmetric] by (rule family_remove) (rule own)
  then show ?thesis
    using d empty unused unfolding families_def by (subst run_delete_chains) simp_all
qed

lemma objects_set:
  "obj_counters (concat (map f (map g ks))) = (\<Union>k \<in> set ks. obj_counters (f (g k)))"
  "obj_quotas (concat (map f (map g ks))) = (\<Union>k \<in> set ks. obj_quotas (f (g k)))"
  by (auto simp: obj_sets_concat)

definition counters_left :: "table_state \<Rightarrow> table_state \<Rightarrow> (string \<Rightarrow> nat option) \<Rightarrow> string \<Rightarrow> string set" where
  "counters_left h w u k = part (counters_of k) (map_of h k) - obj_counters (kc_del_obj (key_change_of h w u k))"

definition quotas_left :: "table_state \<Rightarrow> table_state \<Rightarrow> (string \<Rightarrow> nat option) \<Rightarrow> string \<Rightarrow> (string \<times> nat \<times> nat) set" where
  "quotas_left h w u k = {q \<in> part (quotas_of k) (map_of h k). fst q \<notin> fst ` obj_quotas (kc_del_obj (key_change_of h w u k))}"

lemma singletons_apart: "A \<subseteq> {x} \<Longrightarrow> B \<subseteq> {y} \<Longrightarrow> x \<noteq> y \<Longrightarrow> A \<inter> B = {}"
  by auto

lemma part_owned:
  "part (counters_of k) x \<subseteq> owned_counters k" "fst ` part (quotas_of k) x \<subseteq> {quota_name k}"
  using subsetD [OF counters_owned] by (auto simp: part_iff quotas_of_def split: if_splits)

text \<open>What the rules left name is not what is deleted.\<close>

lemma deleted_unnamed:
  assumes ok: "state_ok h" "state_ok w"
    and S: "k \<in> set (change_keys h w)" "j \<in> set (change_keys h w)"
    and m: "(n, rs) \<in> chains_left h w u j" "r \<in> set rs"
  shows "rule_counters r \<inter> obj_counters (kc_del_obj (key_change_of h w u k)) = {}"
    "rule_quotas r \<inter> fst ` obj_quotas (kc_del_obj (key_change_of h w u k)) = {}"
proof -
  have own: "rule_counters r \<subseteq> owned_counters j" "rule_quotas r \<subseteq> {quota_name j}"
    using chains_left_named [OF ok(1) m] by auto
  have del: "obj_counters (kc_del_obj (key_change_of h w u k)) \<subseteq> owned_counters k" "fst ` obj_quotas (kc_del_obj (key_change_of h w u k)) \<subseteq> {quota_name k}"
    using key_objects_owned [OF ok, of u k] by auto
  have none: "obj_counters (kc_del_obj (key_change_of h w u k)) = {} \<and> obj_quotas (kc_del_obj (key_change_of h w u k)) = {}" if "j = k"
  proof (rule ccontr)
    assume "\<not> ?thesis"
    then have "rs = []" using m(1) that by (intro key_objects_unnamed [of h w u k n rs]) auto
    with m(2) show False by simp
  qed
  show "rule_counters r \<inter> obj_counters (kc_del_obj (key_change_of h w u k)) = {}"
    using none own(1) del(1) owned_disjoint [OF valid_changed [OF ok S(1)] valid_changed [OF ok S(2)]] by (cases "j = k") auto
  show "rule_quotas r \<inter> fst ` obj_quotas (kc_del_obj (key_change_of h w u k)) = {}"
  proof (cases "j = k")
    case False
    then have "quota_name j \<noteq> quota_name k" by simp
    then show ?thesis by (rule singletons_apart [OF own(2) del(2)])
  qed (use none in simp)
qed

lemma phase_objects_out:
  assumes ok: "state_ok h" "state_ok w"
  shows "nft_run (map DeleteObject (concat (map kc_del_obj (map (key_change_of h w u) (change_keys h w)))))
       (families (set (change_keys h w)) (\<lambda>k. part (counters_of k) (map_of h k)) (\<lambda>k. part (quotas_of k) (map_of h k)) (chains_left h w u) d e) =
     Some (families (set (change_keys h w)) (counters_left h w u) (quotas_left h w u) (chains_left h w u) d e)"
proof -
  let ?S = "set (change_keys h w)"
  let ?C = "key_change_of h w u"
  let ?os = "concat (map kc_del_obj (map ?C (change_keys h w)))"
  have d: "distinct (map obj_name ?os)" using objects_distinct [OF ok, of kc_del_obj u] by (simp add: o_def)
  have own: "obj_counters (kc_del_obj (?C k)) \<subseteq> owned_counters k" "fst ` obj_quotas (kc_del_obj (?C k)) \<subseteq> {quota_name k}" for k
    using key_objects_owned [OF ok, of u k] by auto
  have there: "obj_counters ?os \<subseteq> (\<Union>k \<in> ?S. part (counters_of k) (map_of h k))" "fst ` obj_quotas ?os \<subseteq> fst ` (\<Union>k \<in> ?S. part (quotas_of k) (map_of h k))"
    unfolding objects_set image_UN using key_counters [OF ok] key_quotas by fast+
  have unnamed: "obj_counters ?os \<inter> named_counters (\<Union>k \<in> ?S. chains_left h w u k) = {}"
    "fst ` obj_quotas ?os \<inter> named_quotas (\<Union>k \<in> ?S. chains_left h w u k) = {}"
    unfolding objects_set named_counters_def named_quotas_def using deleted_unnamed [OF ok] by fast+
  have left: "(\<Union>k \<in> ?S. part (counters_of k) (map_of h k)) - obj_counters ?os = (\<Union>k \<in> ?S. counters_left h w u k)"
    unfolding objects_set counters_left_def
  proof (rule family_diff)
    fix k k'
    assume k: "k \<in> ?S" "k' \<in> ?S" "k \<noteq> k'"
    show "part (counters_of k) (map_of h k) \<inter> obj_counters (kc_del_obj (?C k')) = {}"
      using part_owned(1) own(1) owned_disjoint [OF valid_changed [OF ok k(1)] valid_changed [OF ok k(2)] k(3)] by blast
  qed
  have qleft: "{x \<in> \<Union>k \<in> ?S. part (quotas_of k) (map_of h k). fst x \<notin> fst ` obj_quotas ?os} = (\<Union>k \<in> ?S. quotas_left h w u k)"
    unfolding objects_set quotas_left_def image_UN
  proof (rule family_remove)
    fix k k' :: string
    assume "k \<noteq> k'"
    then have "quota_name k \<noteq> quota_name k'" by simp
    then show "fst ` part (quotas_of k) (map_of h k) \<inter> fst ` obj_quotas (kc_del_obj (?C k')) = {}"
      by (rule singletons_apart [OF part_owned(2) own(2)])
  qed
  show ?thesis
    unfolding families_def
    by (rule trans [OF run_delete_objects [OF d]]) (simp_all only: nft_table.simps there unnamed left qleft)
qed

lemma phase_objects_in:
  assumes ok: "state_ok h" "state_ok w"
  shows "nft_run (map AddObject (concat (map kc_add_obj (map (key_change_of h w u) (change_keys h w)))))
       (families (set (change_keys h w)) (counters_left h w u) (quotas_left h w u) ch d e) =
     Some (families (set (change_keys h w)) (\<lambda>k. part (counters_of k) (kc_next (key_change_of h w u k)))
       (\<lambda>k. part (quotas_of k) (kc_next (key_change_of h w u k))) ch d e)"
proof -
  let ?S = "set (change_keys h w)"
  let ?C = "key_change_of h w u"
  let ?os = "concat (map kc_add_obj (map ?C (change_keys h w)))"
  have d: "distinct (map obj_name ?os)" using objects_distinct [OF ok, of kc_add_obj u] by (simp add: o_def)
  have own: "obj_counters (kc_add_obj (?C k)) \<subseteq> owned_counters k" "fst ` obj_quotas (kc_add_obj (?C k)) \<subseteq> {quota_name k}" for k
    using key_objects_owned [OF ok, of u k] by auto
  have fresh: "obj_counters (kc_add_obj (?C k)) \<inter> counters_left h w u j = {}" "fst ` obj_quotas (kc_add_obj (?C k)) \<inter> fst ` quotas_left h w u j = {}"
    if k: "k \<in> ?S" "j \<in> ?S" for k j
  proof -
    have sub: "counters_left h w u j \<subseteq> owned_counters j" "fst ` quotas_left h w u j \<subseteq> {quota_name j}"
      using part_owned unfolding counters_left_def quotas_left_def by blast+
    have same: "obj_counters (kc_add_obj (?C k)) \<inter> counters_left h w u k = {}" "fst ` obj_quotas (kc_add_obj (?C k)) \<inter> fst ` quotas_left h w u k = {}"
      using key_counters [OF ok, of u k] key_quotas [of h w u k] unfolding counters_left_def quotas_left_def by blast+
    show "obj_counters (kc_add_obj (?C k)) \<inter> counters_left h w u j = {}"
      using same(1) own(1) [of k] sub(1) owned_disjoint [OF valid_changed [OF ok k(1)] valid_changed [OF ok k(2)]] by (cases "k = j") auto
    show "fst ` obj_quotas (kc_add_obj (?C k)) \<inter> fst ` quotas_left h w u j = {}"
    proof (cases "k = j")
      case False
      then have "quota_name k \<noteq> quota_name j" by simp
      then show ?thesis by (rule singletons_apart [OF own(2) sub(2)])
    qed (use same(2) in simp)
  qed
  have free: "obj_counters ?os \<inter> (\<Union>k \<in> ?S. counters_left h w u k) = {}" "fst ` obj_quotas ?os \<inter> fst ` (\<Union>k \<in> ?S. quotas_left h w u k) = {}"
    unfolding objects_set image_UN by (rule family_disjoint; rule fresh; assumption)+
  have un: "(\<Union>k \<in> ?S. counters_left h w u k) \<union> obj_counters ?os = (\<Union>k \<in> ?S. part (counters_of k) (kc_next (?C k)))"
    "(\<Union>k \<in> ?S. quotas_left h w u k) \<union> obj_quotas ?os = (\<Union>k \<in> ?S. part (quotas_of k) (kc_next (?C k)))"
    unfolding objects_set counters_left_def quotas_left_def UN_Un_distrib [symmetric]
    using key_counters [OF ok] key_quotas by (simp_all cong: SUP_cong)
  show ?thesis
    unfolding families_def
    by (subst run_add_objects) (simp_all only: nft_table.simps d free un)
qed

definition chains_made :: "table_state \<Rightarrow> table_state \<Rightarrow> (string \<Rightarrow> nat option) \<Rightarrow> string \<Rightarrow> (string \<times> nft_rule list) set" where
  "chains_made h w u k = chains_left h w u k \<union> (\<lambda>n. (n, [])) ` set (kc_add_chain (key_change_of h w u k))"

lemma new_chains_absent:
  "n \<in> set (kc_add_chain (key_change_of h w u k)) \<Longrightarrow> chains_left h w u k = {}"
  by (cases rule: key_change_cases [of h k w u]) (auto simp: chains_left_cases key_gone_def key_new_def key_kept_chains)

lemma phase_chains_in:
  assumes ok: "state_ok h" "state_ok w"
  shows "nft_run (map AddChain (concat (map kc_add_chain (map (key_change_of h w u) (change_keys h w)))))
       (families (set (change_keys h w)) c q (chains_left h w u) d e) =
     Some (families (set (change_keys h w)) c q (chains_made h w u) d e)"
proof -
  let ?S = "set (change_keys h w)"
  let ?C = "key_change_of h w u"
  let ?ns = "concat (map kc_add_chain (map ?C (change_keys h w)))"
  have s: "set ?ns = (\<Union>k \<in> ?S. set (kc_add_chain (?C k)))" by (simp add: set_over)
  have d: "distinct ?ns"
    unfolding map_map o_def
  proof (rule distinct_concat_map)
    fix k k' :: string
    assume "k \<noteq> k'"
    then show "set (kc_add_chain (?C k)) \<inter> set (kc_add_chain (?C k')) = {}"
      using key_chain_names(2) [of h w u k] key_chain_names(2) [of h w u k'] chain_key by blast
  qed (use change_keys_props(1) [OF ok] key_chain_names(5) in auto)
  have fresh: "set (kc_add_chain (?C k)) \<inter> fst ` chains_left h w u j = {}" for k j
  proof (rule ccontr)
    assume "\<not> ?thesis"
    then obtain n where n: "n \<in> set (kc_add_chain (?C k))" "n \<in> fst ` chains_left h w u j" by blast
    then have "n \<in> {down_chain k, up_chain k}" "n \<in> {down_chain j, up_chain j}"
      using key_chain_names(2) [of h w u k] chains_left_names [of h w u j] by blast+
    then have "j = k" by (rule chain_key)
    then show False using new_chains_absent [OF n(1)] n(2) by simp
  qed
  have free: "set ?ns \<inter> fst ` (\<Union>k \<in> ?S. chains_left h w u k) = {}"
    unfolding s image_UN by (rule family_disjoint) (rule fresh)
  have un: "(\<Union>k \<in> ?S. chains_left h w u k) \<union> (\<lambda>n. (n, [])) ` set ?ns = (\<Union>k \<in> ?S. chains_made h w u k)"
    unfolding s chains_made_def image_UN UN_Un_distrib ..
  show ?thesis
    unfolding families_def by (rule trans [OF run_add_chains [OF d]]) (simp_all only: nft_table.simps free un)
qed

lemma chains_made_names: "fst ` chains_made h w u k \<subseteq> {down_chain k, up_chain k}"
  using chains_left_names [of h w u k] key_chain_names(2) [of h w u k] unfolding chains_made_def by force

lemma rules_of_append: "rules_of c (xs @ ys) = rules_of c xs @ rules_of c ys"
  by (simp add: rules_of_def)

lemma rules_of_none: "c \<notin> fst ` set xs \<Longrightarrow> rules_of c xs = []"
  by (auto simp: rules_of_def filter_empty_conv)

lemma rules_of_key:
  assumes "distinct ks" "k \<in> set ks" "\<And>j. j \<in> set ks \<Longrightarrow> j \<noteq> k \<Longrightarrow> c \<notin> fst ` set (f j)"
  shows "rules_of c (concat (map f ks)) = rules_of c (f k)"
  using assms
proof (induction ks)
  case (Cons j ks)
  show ?case
  proof (cases "j = k")
    case True
    have "rules_of c (concat (map f ks)) = []"
      using Cons.prems(1,3) True by (intro rules_of_none) auto
    then show ?thesis using True by (simp add: rules_of_append)
  next
    case False
    then have "rules_of c (f j) = []" using Cons.prems(3) by (intro rules_of_none) auto
    moreover have "rules_of c (concat (map f ks)) = rules_of c (f k)"
      using Cons.prems False by (intro Cons.IH) auto
    ultimately show ?thesis by (simp add: rules_of_append)
  qed
qed simp

lemma rules_have_chains:
  "(n, r) \<in> set (kc_add_rule (key_change_of h w u k)) \<Longrightarrow> n \<in> fst ` chains_made h w u k"
  unfolding chains_made_def chains_left_cases
  by (cases rule: key_change_cases [of h k w u])
    (auto simp: key_gone_def key_new_def key_kept_chains rules_for_def split: if_splits)

lemma phase_rules_in:
  assumes ok: "state_ok h" "state_ok w"
  shows "nft_run (map (\<lambda>(c, r). AddRule c r) (concat (map kc_add_rule (map (key_change_of h w u) (change_keys h w)))))
       (families (set (change_keys h w)) (\<lambda>k. part (counters_of k) (kc_next (key_change_of h w u k)))
         (\<lambda>k. part (quotas_of k) (kc_next (key_change_of h w u k))) (chains_made h w u) d e) =
     Some (families (set (change_keys h w)) (\<lambda>k. part (counters_of k) (kc_next (key_change_of h w u k)))
       (\<lambda>k. part (quotas_of k) (kc_next (key_change_of h w u k))) (\<lambda>k. part (chains_of k) (kc_next (key_change_of h w u k))) d e)"
proof -
  let ?S = "set (change_keys h w)"
  let ?C = "key_change_of h w u"
  let ?rs = "concat (map kc_add_rule (map ?C (change_keys h w)))"
  let ?t = "families ?S (\<lambda>k. part (counters_of k) (kc_next (?C k))) (\<lambda>k. part (quotas_of k) (kc_next (?C k))) (chains_made h w u) d e"
  have named: "\<forall>(c, r) \<in> set ?rs. c \<in> fst ` nt_chains ?t \<and> rule_counters r \<subseteq> nt_counters ?t \<and> rule_quotas r \<subseteq> fst ` nt_quotas ?t"
  proof clarify
    fix n r
    assume "(n, r) \<in> set ?rs"
    then obtain k where k: "k \<in> ?S" "(n, r) \<in> set (kc_add_rule (?C k))" by auto
    show "n \<in> fst ` nt_chains ?t \<and> rule_counters r \<subseteq> nt_counters ?t \<and> rule_quotas r \<subseteq> fst ` nt_quotas ?t"
      using key_rules_named [OF ok(2) k(2)] rules_have_chains [OF k(2)] k(1) unfolding families_def nft_table.simps image_UN by blast
  qed
  have "map_chains (\<lambda>c l. l @ rules_of c ?rs) (\<Union>k \<in> ?S. chains_made h w u k) =
      (\<Union>k \<in> ?S. map_chains (\<lambda>c l. l @ rules_of c (kc_add_rule (?C k))) (chains_made h w u k))"
  proof (rule family_map_chains)
    fix k c and rs :: "nft_rule list"
    assume k: "k \<in> ?S" "(c, rs) \<in> chains_made h w u k"
    have "c \<in> {down_chain k, up_chain k}" using k(2) chains_made_names [of h w u k] by force
    then have "c \<notin> fst ` set (kc_add_rule (?C j))" if "j \<noteq> k" for j
      using key_chain_names(6) [of h w u j] chain_key that by blast
    then have "rules_of c (concat (map (\<lambda>k. kc_add_rule (?C k)) (change_keys h w))) = rules_of c (kc_add_rule (?C k))"
      by (intro rules_of_key change_keys_props(1) [OF ok] k(1)) blast
    then show "rs @ rules_of c ?rs = rs @ rules_of c (kc_add_rule (?C k))" by (simp add: o_def)
  qed
  also have "\<dots> = (\<Union>k \<in> ?S. part (chains_of k) (kc_next (?C k)))"
    unfolding chains_made_def key_chains ..
  finally have un: "map_chains (\<lambda>c l. l @ rules_of c ?rs) (\<Union>k \<in> ?S. chains_made h w u k) = (\<Union>k \<in> ?S. part (chains_of k) (kc_next (?C k)))" .
  show ?thesis
    by (rule trans [OF run_add_rules [OF named]]) (simp only: families_def nft_table.simps un)
qed

lemma phase_elements_in:
  assumes ok: "state_ok h" "state_ok w"
  shows "nft_run (elements_cmd AddElements (concat (map kc_in (map (key_change_of h w u) (change_keys h w)))))
       (families (set (change_keys h w)) c q (\<lambda>k. part (chains_of k) (kc_next (key_change_of h w u k)))
         (elements_left dl_of h w u) (elements_left ul_of h w u)) =
     Some (families (set (change_keys h w)) c q (\<lambda>k. part (chains_of k) (kc_next (key_change_of h w u k)))
       (\<lambda>k. part (dl_of k) (kc_next (key_change_of h w u k))) (\<lambda>k. part (ul_of k) (kc_next (key_change_of h w u k))))"
proof -
  let ?S = "set (change_keys h w)"
  let ?C = "key_change_of h w u"
  let ?es = "concat (map kc_in (map ?C (change_keys h w)))"
  have s: "set ?es = (\<Union>k \<in> ?S. set (kc_in (?C k)))" by (simp add: set_over)
  have apart: "fst ` set (kc_in (?C k)) \<inter> fst ` set (kc_in (?C j)) = {}" if "k \<noteq> j" for k j
    using key_in(2) [OF ok(2), of h u k] key_in(2) [OF ok(2), of h u j] state_ok_addresses [OF ok(2) _ _ that]
    by (force simp: part_iff)
  have d: "distinct (map fst ?es)"
    unfolding map_concat map_map o_def
  proof (rule distinct_concat_map)
    fix k j :: string
    assume "k \<noteq> j"
    then show "set (map fst (kc_in (?C k))) \<inter> set (map fst (kc_in (?C j))) = {}" using apart by simp
  qed (use change_keys_props(1) [OF ok] key_in(1) [OF ok(2)] in auto)
  have fresh: "fst ` set (kc_in (?C k)) \<inter> fst ` elements_left f h w u j = {}" if f: "f = dl_of \<or> f = ul_of" for k j f
  proof (rule ccontr)
    assume "\<not> ?thesis"
    then obtain a where a: "a \<in> fst ` set (kc_in (?C k))" "a \<in> fst ` elements_left f h w u j" by blast
    obtain t where t: "map_of w j = Some t" "a \<in> snd ` set (cs_files t)" "kc_in (?C j) = []"
      using stayed_elements [OF ok(2), of a j h u] a(2) f unfolding elements_left_def by blast
    have "a \<in> part (\<lambda>s. snd ` set (cs_files s)) (map_of w k)" using a(1) key_in(2) [OF ok(2), of h u k] by blast
    then obtain t' where t': "map_of w k = Some t'" "a \<in> snd ` set (cs_files t')" unfolding part_iff by blast
    have "k \<noteq> j" using a(1) t(3) by auto
    then show False using state_ok_addresses [OF ok(2) t'(1) t(1)] t(2) t'(2) by force
  qed
  have free: "fst ` set ?es \<inter> fst ` (\<Union>k \<in> ?S. elements_left dl_of h w u k) = {}" "fst ` set ?es \<inter> fst ` (\<Union>k \<in> ?S. elements_left ul_of h w u k) = {}"
    unfolding s image_UN by (rule family_disjoint; rule fresh; simp)+
  have named: "\<forall>(a, k) \<in> set ?es. down_chain k \<in> fst ` (\<Union>k \<in> ?S. part (chains_of k) (kc_next (?C k))) \<and>
      up_chain k \<in> fst ` (\<Union>k \<in> ?S. part (chains_of k) (kc_next (?C k)))"
  proof clarify
    fix a k
    assume "(a, k) \<in> set ?es"
    then obtain j where j: "j \<in> ?S" "(a, k) \<in> set (kc_in (?C j))" unfolding s by blast
    then have kj: "k = j" using key_in(3) [OF ok(2), of h u j] by force
    have "kc_next (?C j) \<noteq> None"
      using j(2) by (cases rule: key_change_cases [of h j w u]) (auto simp: key_gone_def key_new_def key_kept_fields)
    then have "down_chain k \<in> fst ` part (chains_of j) (kc_next (?C j))" "up_chain k \<in> fst ` part (chains_of j) (kc_next (?C j))"
      by (auto simp: kj part_def chains_of_def)
    with j(1) show "down_chain k \<in> fst ` (\<Union>k \<in> ?S. part (chains_of k) (kc_next (?C k))) \<and>
      up_chain k \<in> fst ` (\<Union>k \<in> ?S. part (chains_of k) (kc_next (?C k)))" unfolding image_UN by blast
  qed
  have un: "(\<Union>k \<in> ?S. elements_left dl_of h w u k) \<union> (\<lambda>(a, k). (a, down_chain k)) ` set ?es = (\<Union>k \<in> ?S. part (dl_of k) (kc_next (?C k)))"
    "(\<Union>k \<in> ?S. elements_left ul_of h w u k) \<union> (\<lambda>(a, k). (a, up_chain k)) ` set ?es = (\<Union>k \<in> ?S. part (ul_of k) (kc_next (?C k)))"
    unfolding s image_UN UN_Un_distrib [symmetric] elements_left_def key_elements by (rule refl)+
  show ?thesis
    unfolding families_def by (rule trans [OF run_add_elements [OF d]]) (simp_all only: nft_table.simps free un, rule named)
qed

text \<open>The whole transaction.\<close>

lemma change_runs:
  assumes ok: "state_ok h" "state_ok w"
  shows "nft_run (change_cmds h w u) (table_of h) = Some (table_of (change_next h w u))"
proof -
  let ?S = "set (change_keys h w)"
  have start: "table_of h = families ?S (\<lambda>k. part (counters_of k) (map_of h k)) (\<lambda>k. part (quotas_of k) (map_of h k))
      (\<lambda>k. part (chains_of k) (map_of h k)) (\<lambda>k. part (dl_of k) (map_of h k)) (\<lambda>k. part (ul_of k) (map_of h k))"
    unfolding families_def by (rule table_of_family [OF ok(1)]) (use change_keys_props(2) [OF ok] in auto)
  have finish: "table_of (change_next h w u) = families ?S (\<lambda>k. part (counters_of k) (kc_next (key_change_of h w u k)))
      (\<lambda>k. part (quotas_of k) (kc_next (key_change_of h w u k))) (\<lambda>k. part (chains_of k) (kc_next (key_change_of h w u k)))
      (\<lambda>k. part (dl_of k) (kc_next (key_change_of h w u k))) (\<lambda>k. part (ul_of k) (kc_next (key_change_of h w u k)))"
    unfolding families_def table_of_next Let_def ..
  show ?thesis
    unfolding start finish change_cmds_def Let_def
    by (simp only: nft_run_append option.simps phase_elements_out [OF ok] phase_flush [OF ok] phase_chains_out [OF ok]
        phase_objects_out [OF ok] phase_objects_in [OF ok] phase_chains_in [OF ok] phase_rules_in [OF ok] phase_elements_in [OF ok])
qed

section \<open>What is wanted can be written\<close>

lemma own_files_seen:
  "own_files seen fs = (out, seen') \<Longrightarrow> distinct (map snd out) \<and> snd ` set out \<inter> set seen = {} \<and> set seen' = set seen \<union> snd ` set out"
proof (induction seen fs arbitrary: out seen' rule: own_files.induct)
  case (2 seen f fs)
  show ?case
  proof (cases "ip_unmap (ef_addr f)")
    case (IP4 a)
    show ?thesis
    proof (cases "a \<in> set seen \<or> ef_account f = 0")
      case True
      then show ?thesis using "2.IH"(2) [OF IP4 True] "2.prems" IP4 by simp
    next
      case False
      obtain o' s' where o: "own_files (a # seen) fs = (o', s')" by fastforce
      have "out = (ef_account f, a) # o'" "seen' = s'" using "2.prems" IP4 False o by auto
      then show ?thesis using "2.IH"(3) [OF IP4 False o] False by auto
    qed
  qed (use "2.IH"(1,4) "2.prems" in auto)
qed simp

lemma own_files_accounts:
  "own_files seen fs = (out, seen') \<Longrightarrow> distinct (map ef_account fs) \<Longrightarrow>
     distinct (map fst out) \<and> fst ` set out \<subseteq> ef_account ` set fs"
proof (induction seen fs arbitrary: out seen' rule: own_files.induct)
  case (2 seen f fs)
  show ?case
  proof (cases "ip_unmap (ef_addr f)")
    case (IP4 a)
    show ?thesis
    proof (cases "a \<in> set seen \<or> ef_account f = 0")
      case True
      then show ?thesis using "2.IH"(2) [OF IP4 True] "2.prems" IP4 by auto
    next
      case False
      obtain o' s' where o: "own_files (a # seen) fs = (o', s')" by fastforce
      have "out = (ef_account f, a) # o'" using "2.prems" IP4 False o by auto
      moreover have "ef_account f \<notin> ef_account ` set fs" using "2.prems"(2) by simp
      ultimately show ?thesis using "2.IH"(3) [OF IP4 False o] "2.prems"(2) by auto
    qed
  qed (use "2.IH"(1,4) "2.prems" in auto)
qed simp

text \<open>The rules a caller gives: every customer once, and every account of one once.\<close>

definition rules_wf :: "enforce_rule list \<Rightarrow> bool" where
  "rules_wf rules \<longleftrightarrow> distinct (map er_key rules) \<and> list_all (\<lambda>r. distinct (map ef_account (er_files r))) rules"

definition own_step :: "(string \<Rightarrow> owned_file list) \<times> bytes list \<Rightarrow> enforce_rule \<Rightarrow> (string \<Rightarrow> owned_file list) \<times> bytes list" where
  "own_step p r = (case p of (out, seen) \<Rightarrow> case own_files seen (er_files r) of
     (kept, seen') \<Rightarrow> (out(er_key r := out (er_key r) @ kept), seen'))"

lemma owned_files_step: "owned_files rules = fst (foldl own_step (\<lambda>_. [], []) rules)"
  unfolding owned_files_def own_step_def by (simp add: case_prod_unfold)

definition owned_ok :: "enforce_rule list \<Rightarrow> (string \<Rightarrow> owned_file list) \<times> bytes list \<Rightarrow> bool" where
  "owned_ok rules p \<longleftrightarrow> (\<forall>k. files_ok (fst p k) \<and> snd ` set (fst p k) \<subseteq> set (snd p)) \<and>
     (\<forall>k k'. k \<noteq> k' \<longrightarrow> snd ` set (fst p k) \<inter> snd ` set (fst p k') = {}) \<and> (\<forall>k. k \<notin> er_key ` set rules \<longrightarrow> fst p k = [])"

lemma owned_rules_ok: "rules_wf rules \<Longrightarrow> owned_ok rules (foldl own_step (\<lambda>_. [], []) rules)"
proof (induction rules rule: rev_induct)
  case (snoc r rs)
  obtain out seen where p: "foldl own_step (\<lambda>_. [], []) rs = (out, seen)" by fastforce
  obtain kept seen' where o: "own_files seen (er_files r) = (kept, seen')" by fastforce
  have ih: "owned_ok rs (out, seen)" using snoc unfolding p by (auto simp: rules_wf_def)
  have new: "out (er_key r) = []" using ih snoc.prems by (auto simp: owned_ok_def rules_wf_def)
  have seen: "distinct (map snd kept)" "snd ` set kept \<inter> set seen = {}" "set seen' = set seen \<union> snd ` set kept"
    using own_files_seen [OF o] by auto
  have acc: "distinct (map fst kept)" using own_files_accounts [OF o] snoc.prems by (simp add: rules_wf_def)
  have e: "foldl own_step (\<lambda>_. [], []) (rs @ [r]) = (out(er_key r := kept), seen')"
    by (simp add: p own_step_def o new)
  have old: "snd ` set (out k) \<inter> snd ` set kept = {}" for k using ih seen(2) by (auto simp: owned_ok_def)
  show ?case
    unfolding e owned_ok_def fst_conv snd_conv
  proof (intro conjI allI impI)
    fix k
    show "files_ok ((out(er_key r := kept)) k)" using ih seen(1) acc by (simp add: owned_ok_def files_ok_def)
    have "snd ` set (out k) \<subseteq> set seen" using ih by (simp add: owned_ok_def)
    then show "snd ` set ((out(er_key r := kept)) k) \<subseteq> set seen'" using seen(3) by auto
    show "k \<notin> er_key ` set (rs @ [r]) \<Longrightarrow> (out(er_key r := kept)) k = []" using ih by (auto simp: owned_ok_def)
    fix k'
    assume "k \<noteq> k'"
    then show "snd ` set ((out(er_key r := kept)) k) \<inter> snd ` set ((out(er_key r := kept)) k') = {}"
      using ih old [of k] old [of k'] by (auto simp: owned_ok_def)
  qed
qed (simp add: owned_ok_def files_ok_def)

lemma optional_rule: "y \<in> set (if p then (case x of None \<Rightarrow> [] | Some m \<Rightarrow> [f m]) else []) \<Longrightarrow> \<exists>m. y = f m"
  by (cases p; cases x) auto

lemma either_rules: "x \<in> set (if p then [a] else ys @ zs) \<Longrightarrow> x = a \<or> x \<in> set ys \<or> x \<in> set zs"
  by (cases p) auto

lemma chain_rules_named:
  assumes "x \<in> set (chain_rules r files caps_quota side counter)"
  shows "rule_counters x \<subseteq> counter (er_key r) ` fst ` set files"
    "rule_quotas x \<subseteq> (if caps_quota \<and> er_quota r \<noteq> 0 then {quota_name (er_key r)} else {})"
proof -
  let ?k = "er_key r"
  let ?prio = "if \<not> er_blocked r \<and> er_rate r > 0 then (case shaper_minor ?k of None \<Rightarrow> [] | Some m \<Rightarrow> [SetPriority (class_id m)]) else []"
  let ?quota = "if caps_quota \<and> er_quota r \<noteq> 0 then [QuotaDrop (quota_name ?k)] else []"
  let ?count = "map (\<lambda>(a, addr). CountFile side addr (counter ?k a)) files"
  let ?ok = "\<lambda>x. rule_counters x \<subseteq> counter ?k ` fst ` set files \<and> rule_quotas x \<subseteq> (if caps_quota \<and> er_quota r \<noteq> 0 then {quota_name ?k} else {})"
  have "y \<in> set ?prio \<Longrightarrow> ?ok y" for y
  proof -
    assume "y \<in> set ?prio"
    then obtain m where "y = SetPriority (class_id m)" by (rule exE [OF optional_rule])
    then show "?ok y" by (simp add: rule_counters_def rule_quotas_def)
  qed
  moreover have "y \<in> set ?quota \<Longrightarrow> ?ok y" for y
    by (auto simp: rule_counters_def rule_quotas_def split: if_splits)
  moreover have "y \<in> set ?count \<Longrightarrow> ?ok y" for y
    by (force simp: rule_counters_def rule_quotas_def)
  moreover have "?ok DropRule" by (simp add: rule_counters_def rule_quotas_def)
  moreover have "x \<in> set ?prio \<or> x \<in> set (if er_blocked r then [DropRule] else ?quota @ ?count)"
    using assms unfolding chain_rules_def set_append Un_iff .
  then have "x \<in> set ?prio \<or> x = DropRule \<or> x \<in> set ?quota \<or> x \<in> set ?count"
    by (rule disj_forward) (assumption, rule either_rules)
  ultimately have "?ok x" by blast
  then show "rule_counters x \<subseteq> counter ?k ` fst ` set files"
    "rule_quotas x \<subseteq> (if caps_quota \<and> er_quota r \<noteq> 0 then {quota_name ?k} else {})" by blast+
qed

lemma chain_rules_ok: "rules_ok (er_key r) (state_of_rule caps_quota owned r)"
  unfolding rules_ok_def
proof
  fix x
  let ?s = "state_of_rule caps_quota owned r"
  assume "x \<in> set (cs_down ?s) \<union> set (cs_up ?s)"
  then obtain side counter where m: "x \<in> set (chain_rules r (cs_files ?s) caps_quota side counter)" "counter = down_counter \<or> counter = up_counter"
    by (auto simp: state_of_rule_def Let_def)
  have "counter (er_key r) ` fst ` set (cs_files ?s) \<subseteq> counters_of (er_key r) ?s"
    using m(2) by (auto simp: counters_of_names file_names_def)
  moreover have "(if caps_quota \<and> er_quota r \<noteq> 0 then {quota_name (er_key r)} else {}) = fst ` quotas_of (er_key r) ?s"
    by (simp add: quotas_of_def state_of_rule_def Let_def)
  ultimately show "rule_counters x \<subseteq> counters_of (er_key r) ?s \<and> rule_quotas x \<subseteq> fst ` quotas_of (er_key r) ?s"
    using chain_rules_named [OF m(1)] by auto
qed

lemma rules_wf_sort: "rules_wf (sort_key er_key rules) = rules_wf rules"
  by (simp add: rules_wf_def list_all_iff distinct_map)

lemma foldl_update_map:
  "distinct (map f xs) \<Longrightarrow> map_of (foldl (\<lambda>out x. AList.update (f x) (g x) out) acc xs) k =
     (case find (\<lambda>x. f x = k) xs of None \<Rightarrow> map_of acc k | Some x \<Rightarrow> Some (g x))"
proof (induction xs arbitrary: acc)
  case (Cons x xs)
  have "f x \<notin> f ` set xs" using Cons.prems by simp
  then have "find (\<lambda>y. f y = f x) xs = None" unfolding find_None_iff by (metis imageI)
  with Cons show ?case by (auto simp: update_conv' split: option.split)
qed simp

lemma foldl_update_distinct: "distinct (map fst acc) \<Longrightarrow> distinct (map fst (foldl (\<lambda>out x. AList.update (f x) (g x) out) acc xs))"
  by (induction xs arbitrary: acc) (simp_all add: distinct_update)

lemma desired_map:
  assumes "desired_state rules caps_quota = Some w" "rules_wf rules"
  shows "map_of w k = map_option (state_of_rule caps_quota (owned_files (sort_key er_key rules))) (find (\<lambda>r. er_key r = k) (sort_key er_key rules))"
    "distinct (map fst w)" "list_all (\<lambda>r. valid_key (er_key r)) rules"
proof -
  let ?s = "sort_key er_key rules"
  have w: "w = foldl (\<lambda>out r. AList.update (er_key r) (state_of_rule caps_quota (owned_files ?s) r) out) [] ?s" and v: "list_all (\<lambda>r. valid_key (er_key r)) rules"
    using assms(1) by (auto simp: desired_state_def sorted_rules_def Let_def list_all_iff split: if_splits)
  have d: "distinct (map er_key ?s)" using assms(2) rules_wf_sort unfolding rules_wf_def by blast
  show "map_of w k = map_option (state_of_rule caps_quota (owned_files ?s)) (find (\<lambda>r. er_key r = k) ?s)"
    unfolding w foldl_update_map [OF d] by (simp split: option.split)
  show "distinct (map fst w)" unfolding w by (rule foldl_update_distinct) simp
  show "list_all (\<lambda>r. valid_key (er_key r)) rules" by (rule v)
qed

lemma desired_state_ok:
  assumes "desired_state rules caps_quota = Some w" "rules_wf rules"
  shows "state_ok w"
proof -
  let ?s = "sort_key er_key rules"
  have own: "owned_ok ?s (foldl own_step (\<lambda>_. [], []) ?s)" using owned_rules_ok rules_wf_sort assms(2) by blast
  have of: "\<exists>r. er_key r = k \<and> r \<in> set rules \<and> s = state_of_rule caps_quota (owned_files ?s) r" if "(k, s) \<in> set w" for k s
  proof -
    have "map_of w k = Some s" using that desired_map(2) [OF assms] by simp
    then obtain r where "find (\<lambda>r. er_key r = k) ?s = Some r" "s = state_of_rule caps_quota (owned_files ?s) r"
      unfolding desired_map(1) [OF assms] by auto
    then have "er_key r = k" "r \<in> set ?s" unfolding find_Some_iff by (metis, metis nth_mem)
    then show ?thesis using \<open>s = _\<close> by auto
  qed
  have files: "(k, s) \<in> set w \<Longrightarrow> cs_files s = owned_files ?s k" for k s
    using of by (fastforce simp: state_of_rule_def Let_def)
  show ?thesis
    unfolding state_ok_def
  proof (intro conjI ballI, goal_cases)
    case 1
    show ?case by (rule desired_map(2) [OF assms])
  next
    case (2 p)
    obtain k s where p: "p = (k, s)" by (cases p)
    obtain r where r: "er_key r = k" "r \<in> set rules" "s = state_of_rule caps_quota (owned_files ?s) r" using of 2 p by blast
    have "files_ok (cs_files s)" using files 2 own unfolding p owned_files_step owned_ok_def by metis
    then show ?case using desired_map(3) [OF assms] r chain_rules_ok [of r] by (auto simp: p list_all_iff)
  next
    case (3 p)
    obtain k s where p: "p = (k, s)" by (cases p)
    show ?case
      unfolding p case_prod_conv
    proof (clarify)
      fix k' s'
      assume q: "(k', s') \<in> set w" "k \<noteq> k'"
      have "cs_files s = owned_files ?s k" "cs_files s' = owned_files ?s k'" using files 3 q p by auto
      then show "snd ` set (cs_files s) \<inter> snd ` set (cs_files s') = {}"
        using own q(2) unfolding owned_files_step owned_ok_def by metis
    qed
  qed
qed

section \<open>What is remembered is what was asked for\<close>

text \<open>Two states that ask for the same, whatever usage their quotas were written with.\<close>

definition asks_same :: "client_state \<Rightarrow> client_state \<Rightarrow> bool" where
  "asks_same s t \<longleftrightarrow> s\<lparr>cs_used := 0\<rparr> = t\<lparr>cs_used := 0\<rparr>"

definition written_as :: "table_state \<Rightarrow> table_state \<Rightarrow> bool" where
  "written_as st w \<longleftrightarrow> rel_fun (=) (rel_option asks_same) (map_of st) (map_of w)"

lemma written_as_iff: "written_as st w \<longleftrightarrow> (\<forall>k. rel_option asks_same (map_of st k) (map_of w k))"
  by (simp add: written_as_def rel_fun_def)

lemma asks_same_refl [simp]: "asks_same s s"
  by (simp add: asks_same_def)

lemma asks_same_used [simp]: "asks_same (s\<lparr>cs_used := n\<rparr>) s"
  by (simp add: asks_same_def)

lemma asks_sameD:
  assumes "asks_same s t"
  shows "cs_files s = cs_files t" "cs_down s = cs_down t" "cs_up s = cs_up t" "cs_quota s = cs_quota t" "cs_seen s = cs_seen t"
  using assms by (cases s; cases t; simp add: asks_same_def)+

lemma written_as_refl [simp]: "written_as st st"
  by (simp add: written_as_iff option.rel_refl)

lemma map_of_by_key: "distinct ks \<Longrightarrow>
    map_of (concat (map (\<lambda>k. case f k of None \<Rightarrow> [] | Some s \<Rightarrow> [(k, s)]) ks)) k = (if k \<in> set ks then f k else None)"
  by (induction ks) (auto split: option.split)

lemma distinct_by_key: "distinct ks \<Longrightarrow> distinct (map fst (concat (map (\<lambda>k. case f k of None \<Rightarrow> [] | Some s \<Rightarrow> [(k, s)]) ks)))"
proof (induction ks)
  case (Cons k ks)
  have "fst ` set (concat (map (\<lambda>k. case f k of None \<Rightarrow> [] | Some s \<Rightarrow> [(k, s)]) ks)) \<subseteq> set ks"
    by (auto split: option.splits)
  with Cons show ?case by (auto split: option.split)
qed simp

lemma change_next_map:
  assumes ok: "state_ok h" "state_ok w"
  shows "map_of (change_next h w u) k = kc_next (key_change_of h w u k)"
proof (cases "k \<in> set (change_keys h w)")
  case False
  then have "key_change_of h w u k = no_change" using change_keys_props(2) [OF ok] by (auto simp: key_change_of_def)
  with False show ?thesis unfolding change_next_def map_of_by_key [OF change_keys_props(1) [OF ok]] by simp
qed (simp add: change_next_def map_of_by_key [OF change_keys_props(1) [OF ok]])

lemma change_next_written:
  assumes ok: "state_ok h" "state_ok w"
  shows "written_as (change_next h w u) w"
  unfolding written_as_iff change_next_map [OF ok]
proof
  fix k
  show "rel_option asks_same (kc_next (key_change_of h w u k)) (map_of w k)"
    by (cases rule: key_change_cases [of h k w u]) (simp_all add: key_gone_def key_new_def key_kept_fields)
qed

lemma written_ok:
  assumes "distinct (map fst st)" "written_as st w" "state_ok w"
  shows "state_ok st"
proof -
  have of: "\<exists>t. map_of w k = Some t \<and> asks_same s t" if "(k, s) \<in> set st" for k s
  proof -
    have "map_of st k = Some s" using that assms(1) by simp
    then show ?thesis using assms(2) unfolding written_as_iff by (metis option_rel_Some1)
  qed
  have one: "valid_key k \<and> files_ok (cs_files s) \<and> rules_ok k s" if m: "(k, s) \<in> set st" for k s
  proof -
    obtain t where t: "map_of w k = Some t" "asks_same s t" using of [OF m] by blast
    note same = asks_sameD [OF t(2)]
    have "counters_of k s = counters_of k t" "fst ` quotas_of k s = fst ` quotas_of k t"
      by (simp_all add: counters_of_def quotas_of_def same)
    then show ?thesis using state_okD [OF assms(3) t(1)] by (simp add: rules_ok_def same)
  qed
  have two: "snd ` set (cs_files s) \<inter> snd ` set (cs_files s') = {}" if m: "(k, s) \<in> set st" "(k', s') \<in> set st" "k \<noteq> k'" for k s k' s'
  proof -
    obtain t t' where t: "map_of w k = Some t" "asks_same s t" "map_of w k' = Some t'" "asks_same s' t'" using of [OF m(1)] of [OF m(2)] by blast
    show ?thesis
      using state_ok_addresses [OF assms(3) t(1,3) m(3)] asks_sameD(1) [OF t(2)] asks_sameD(1) [OF t(4)] by force
  qed
  show ?thesis unfolding state_ok_def using assms(1) one two by blast
qed

lemma change_next_ok:
  assumes "state_ok h" "state_ok w"
  shows "state_ok (change_next h w u)"
proof (rule written_ok [OF _ change_next_written [OF assms] assms(2)])
  show "distinct (map fst (change_next h w u))"
    unfolding change_next_def by (rule distinct_by_key [OF change_keys_props(1) [OF assms]])
qed

section \<open>The whole table\<close>

text \<open>
  The program for the whole table (BuildRulesetWithCaps): the objects, the chains with their rules
  and the entries of both maps, in the order they are declared. The three chains that hook the maps
  in are the same in every program.
\<close>

record whole_table =
  wt_objects :: "nft_object list"
  wt_chains :: "(string \<times> nft_rule list) list"
  wt_elements :: "(bytes \<times> string) list"

definition rule_objects :: "bool \<Rightarrow> (string \<Rightarrow> owned_file list) \<Rightarrow> enforce_rule \<Rightarrow> nft_object list" where
  "rule_objects caps_quota owned r =
     concat (map (\<lambda>(a, addr). [CounterObj (down_counter (er_key r) a), CounterObj (up_counter (er_key r) a)]) (owned (er_key r))) @
     (if caps_quota \<and> er_quota r \<noteq> 0 then [QuotaObj (quota_name (er_key r)) (er_quota r) (min (er_used r) (er_quota r))] else [])"

definition client_chains :: "bool \<Rightarrow> (string \<Rightarrow> owned_file list) \<Rightarrow> enforce_rule \<Rightarrow> (string \<times> nft_rule list) list" where
  "client_chains caps_quota owned r =
     [(down_chain (er_key r), chain_rules r (owned (er_key r)) caps_quota Daddr down_counter),
      (up_chain (er_key r), chain_rules r (owned (er_key r)) caps_quota Saddr up_counter)]"

definition map_elements :: "enforce_rule list \<Rightarrow> (string \<Rightarrow> owned_file list) \<Rightarrow> (bytes \<times> string) list" where
  "map_elements rules owned = concat (map (\<lambda>r. map (\<lambda>(a, addr). (addr, er_key r)) (owned (er_key r))) rules)"

definition build_ruleset :: "enforce_rule list \<Rightarrow> bool \<Rightarrow> whole_table option" where
  "build_ruleset rules caps_quota =
     (case sorted_rules rules of
        None \<Rightarrow> None
      | Some rs \<Rightarrow>
          let owned = owned_files rs
          in Some \<lparr>wt_objects = concat (map (rule_objects caps_quota owned) rs),
                   wt_chains = concat (map (client_chains caps_quota owned) rs), wt_elements = map_elements rs owned\<rparr>)"

text \<open>The program's text.\<close>

definition object_text :: "nft_object \<Rightarrow> string" where
  "object_text ob = (case ob of
     CounterObj n \<Rightarrow> line (tab @ ''counter '' @ n @ '' { }'')
   | QuotaObj n l u \<Rightarrow> line (tab @ ''quota '' @ n @ '' { over '' @ dec l @ '' bytes used '' @ dec u @ '' bytes }''))"

definition chain_text :: "string \<times> nft_rule list \<Rightarrow> string" where
  "chain_text c = line (tab @ ''chain '' @ fst c @ '' {'') @
     concat (map (\<lambda>x. line (tab @ tab @ rule_text x)) (snd c)) @ line (tab @ ''}'')"

definition verdict_map :: "string \<Rightarrow> (string \<Rightarrow> string) \<Rightarrow> (bytes \<times> string) list \<Rightarrow> string" where
  "verdict_map name chain es =
     line (tab @ ''map '' @ name @ '' {'') @ line (tab @ tab @ ''type ipv4_addr : verdict'') @
     (if es = [] then []
      else line (tab @ tab @ ''elements = { '' @ join '', '' (map (\<lambda>(a, k). ip4_text a @ '' : jump '' @ chain k) es) @ '' }'')) @
     line (tab @ ''}'')"

definition hook_chain :: "string \<Rightarrow> string list \<Rightarrow> string" where
  "hook_chain name jumps =
     line [] @ line (tab @ ''chain '' @ name @ '' {'') @
     line (tab @ tab @ ''type filter hook '' @ name @ '' priority filter; policy accept;'') @
     concat (map (\<lambda>j. line (tab @ tab @ j)) jumps) @ line (tab @ ''}'')"

definition whole_text :: "whole_table \<Rightarrow> string" where
  "whole_text wt =
     line (''add table '' @ inet_wui) @ line (''delete table '' @ inet_wui) @ line (''table '' @ inet_wui @ '' {'') @
     concat (map object_text (wt_objects wt)) @
     line [] @
     concat (map chain_text (wt_chains wt)) @
     line [] @ verdict_map ''dl'' down_chain (wt_elements wt) @ verdict_map ''ul'' up_chain (wt_elements wt) @
     hook_chain ''forward'' [''ip daddr vmap @dl'', ''ip saddr vmap @ul''] @
     hook_chain ''input'' [''ip saddr vmap @ul''] @
     hook_chain ''output'' [''ip daddr vmap @dl''] @
     line ''}''"

text \<open>
  What nft does with the block: its declarations, each before what names it, on a table that holds
  nothing, the one before having been deleted.
\<close>

definition whole_cmds :: "whole_table \<Rightarrow> nft_cmd list" where
  "whole_cmds wt =
     map AddObject (wt_objects wt) @
     map (\<lambda>c. AddChain (fst c)) (wt_chains wt) @
     concat (map (\<lambda>c. map (AddRule (fst c)) (snd c)) (wt_chains wt)) @
     elements_cmd AddElements (wt_elements wt)"

definition empty_table :: nft_table where
  "empty_table = \<lparr>nt_counters = {}, nt_quotas = {}, nt_chains = {}, nt_dl = {}, nt_ul = {}\<rparr>"

lemma table_of_Nil: "table_of [] = empty_table"
  by (simp add: table_of_def empty_table_def)

lemma state_ok_Nil: "state_ok []"
  by (simp add: state_ok_def)

lemma foldl_update_fresh:
  "distinct (map fst acc @ map f xs) \<Longrightarrow> foldl (\<lambda>out x. AList.update (f x) (g x) out) acc xs = acc @ map (\<lambda>x. (f x, g x)) xs"
proof (induction xs arbitrary: acc)
  case (Cons x xs)
  have "f x \<notin> fst ` set acc" using Cons.prems by auto
  then have "AList.update (f x) (g x) acc = acc @ [(f x, g x)]"
    by (induction acc) auto
  with Cons show ?case by simp
qed simp

lemma desired_list:
  assumes "desired_state rules caps_quota = Some w" "rules_wf rules"
  shows "w = map (\<lambda>r. (er_key r, state_of_rule caps_quota (owned_files (sort_key er_key rules)) r)) (sort_key er_key rules)"
proof -
  have "distinct (map er_key (sort_key er_key rules))" using assms(2) rules_wf_sort unfolding rules_wf_def by blast
  then show ?thesis
    using assms(1) by (auto simp: desired_state_def sorted_rules_def Let_def foldl_update_fresh split: if_splits)
qed

text \<open>
  The whole program is the change from a table that holds nothing, so what it leaves is the table
  of what the rules ask for.
\<close>

lemma key_changes_new:
  "distinct (map fst w) \<Longrightarrow> map (key_change_of [] w u) (map fst w) = map (\<lambda>(k, s). key_new k s) w"
  by (auto simp: key_change_of_def)

lemma change_keys_new: "sorted (map fst w) \<Longrightarrow> change_keys [] w = map fst w"
  by (simp add: change_keys_def sorted_sort_id)

lemma change_next_new:
  "distinct (map fst w) \<Longrightarrow> sorted (map fst w) \<Longrightarrow> change_next [] w u = w"
proof -
  assume d: "distinct (map fst w)" and s: "sorted (map fst w)"
  have "map (\<lambda>k. case kc_next (key_change_of [] w u k) of None \<Rightarrow> [] | Some s \<Rightarrow> [(k, s)]) (map fst w) = map (\<lambda>p. [p]) w"
    using d by (auto simp: key_change_of_def key_new_def)
  moreover have "concat (map (\<lambda>p. [p]) w) = w" by (induction w) simp_all
  ultimately show ?thesis unfolding change_next_def change_keys_new [OF s] by (simp only:)
qed

lemma nothing_gone: "(\<And>x. x \<in> set xs \<Longrightarrow> f x = []) \<Longrightarrow> concat (map f xs) = []"
  by (induction xs) simp_all

lemma change_cmds_new:
  assumes "distinct (map fst w)" "sorted (map fst w)"
  shows "change_cmds [] w u =
    map AddObject (concat (map (\<lambda>(k, s). kc_add_obj (key_new k s)) w)) @
    map AddChain (concat (map (\<lambda>(k, s). [down_chain k, up_chain k]) w)) @
    map (\<lambda>(c, r). AddRule c r) (concat (map (\<lambda>(k, s). rules_for k s) w)) @
    elements_cmd AddElements (concat (map (\<lambda>(k, s). map (\<lambda>(a, addr). (addr, k)) (cs_files s)) w))"
proof -
  let ?cs = "map (\<lambda>(k, s). key_new k s) w"
  have gone: "concat (map kc_out ?cs) = []" "concat (map kc_flush ?cs) = []" "concat (map kc_del_chain ?cs) = []" "concat (map kc_del_obj ?cs) = []"
    by (rule nothing_gone; auto simp: key_new_def)+
  have new: "map kc_add_obj ?cs = map (\<lambda>(k, s). kc_add_obj (key_new k s)) w" "map kc_add_chain ?cs = map (\<lambda>(k, s). [down_chain k, up_chain k]) w"
    "map kc_add_rule ?cs = map (\<lambda>(k, s). rules_for k s) w" "map kc_in ?cs = map (\<lambda>(k, s). map (\<lambda>(a, addr). (addr, k)) (cs_files s)) w"
    by (auto simp: key_new_def)
  show ?thesis
    unfolding change_cmds_def Let_def change_keys_new [OF assms(2)] key_changes_new [OF assms(1)] gone new
    by (simp add: elements_cmd_def)
qed

lemma rules_of_chains:
  "map (\<lambda>(c, r). AddRule c r) (rules_for k (state_of_rule caps_quota owned r)) =
     concat (map (\<lambda>c. map (AddRule (fst c)) (snd c)) (client_chains caps_quota owned r))" if "er_key r = k"
  using that by (simp add: rules_for_def client_chains_def state_of_rule_def Let_def)

lemma objects_of_new:
  "kc_add_obj (key_new (er_key r) (state_of_rule caps_quota owned r)) = rule_objects caps_quota owned r"
  by (simp add: key_new_def state_of_rule_def rule_objects_def counters_added_def quota_line_def Let_def)

lemma whole_is_change:
  assumes "build_ruleset rules caps_quota = Some wt" "desired_state rules caps_quota = Some w" "rules_wf rules"
  shows "whole_cmds wt = change_cmds [] w u"
proof -
  let ?s = "sort_key er_key rules"
  let ?o = "owned_files ?s"
  have w: "w = map (\<lambda>r. (er_key r, state_of_rule caps_quota ?o r)) ?s" by (rule desired_list [OF assms(2,3)])
  have wt: "wt = \<lparr>wt_objects = concat (map (rule_objects caps_quota ?o) ?s), wt_chains = concat (map (client_chains caps_quota ?o) ?s),
      wt_elements = map_elements ?s ?o\<rparr>"
    using assms(1) by (auto simp: build_ruleset_def sorted_rules_def Let_def split: if_splits)
  have keys: "map fst w = map er_key ?s" by (simp add: w)
  have d: "distinct (map fst w)" "sorted (map fst w)"
    unfolding keys using assms(3) rules_wf_sort unfolding rules_wf_def by (blast, simp)
  have chains: "map (\<lambda>c. AddChain (fst c)) (concat (map (client_chains caps_quota ?o) ?s)) = map AddChain (concat (map (\<lambda>(k, s). [down_chain k, up_chain k]) w))"
    by (simp add: w map_concat o_def client_chains_def)
  have rules: "concat (map (\<lambda>c. map (AddRule (fst c)) (snd c)) (concat (map (client_chains caps_quota ?o) xs))) =
      map (\<lambda>(c, r). AddRule c r) (concat (map (\<lambda>r. rules_for (er_key r) (state_of_rule caps_quota ?o r)) xs))" for xs
    by (induction xs) (simp_all add: rules_of_chains)
  have elements: "map_elements ?s ?o = concat (map (\<lambda>(k, s). map (\<lambda>(a, addr). (addr, k)) (cs_files s)) w)"
    by (simp add: map_elements_def w o_def state_of_rule_def Let_def)
  show ?thesis
    unfolding whole_cmds_def change_cmds_new [OF d] wt whole_table.simps chains rules elements
    by (simp add: w o_def objects_of_new)
qed

lemma whole_runs:
  assumes "build_ruleset rules caps_quota = Some wt" "desired_state rules caps_quota = Some w" "rules_wf rules"
  shows "nft_run (whole_cmds wt) empty_table = Some (table_of w)"
proof -
  have keys: "map fst w = map er_key (sort_key er_key rules)" unfolding desired_list [OF assms(2,3)] by simp
  have d: "distinct (map fst w)" "sorted (map fst w)"
    unfolding keys using assms(3) rules_wf_sort unfolding rules_wf_def by (blast, simp)
  show ?thesis
    using change_runs [OF state_ok_Nil desired_state_ok [OF assms(2,3)], of "\<lambda>_. None"]
    unfolding whole_is_change [OF assms, where u = "\<lambda>_. None"] table_of_Nil change_next_new [OF d] .
qed

lemma ruleset_built: "build_ruleset rules caps_quota = None \<longleftrightarrow> desired_state rules caps_quota = None"
  by (simp add: build_ruleset_def desired_state_def Let_def split: option.split)

end
