(* ===== verification/Traffic.thy ===== *)
theory Traffic imports Keys "HOL-Library.AList" begin

text \<open>
  Usage on its way to the database: the buffer of internal/reconciler/traffic.go (submit, flush,
  restore) and the batched writes of traffic_batch.go, over the tables they touch. Amounts are
  uint64 and add as such. The transaction of gorm is a parameter of flush: it commits all of
  writeFlush's writes or none.
\<close>

section \<open>Amounts\<close>

text \<open>
  usageDelta, with the code's add as its addition and the zero value of the struct as zero.
\<close>

datatype usage_delta = Usage (ud_bytes: u64) (ud_up: u64) (ud_down: u64)

definition usage_add :: "usage_delta \<Rightarrow> usage_delta \<Rightarrow> usage_delta" where
  "usage_add a b = Usage (ud_bytes a + ud_bytes b) (ud_up a + ud_up b) (ud_down a + ud_down b)"

instantiation usage_delta :: comm_monoid_add
begin

definition zero_usage_delta :: usage_delta where
  "0 = Usage 0 0 0"

definition plus_usage_delta :: "usage_delta \<Rightarrow> usage_delta \<Rightarrow> usage_delta" where
  "a + b = usage_add a b"

instance
  by standard (simp_all add: plus_usage_delta_def usage_add_def zero_usage_delta_def ac_simps)

end

lemma ud_plus [simp]:
  "ud_bytes (a + b) = ud_bytes a + ud_bytes b" "ud_up (a + b) = ud_up a + ud_up b" "ud_down (a + b) = ud_down a + ud_down b"
  by (simp_all add: plus_usage_delta_def usage_add_def)

lemma ud_zero [simp]: "ud_bytes 0 = 0" "ud_up 0 = 0" "ud_down 0 = 0"
  by (simp_all add: zero_usage_delta_def)

text \<open>model.Directions.\<close>

definition directions :: "u64 \<Rightarrow> u64 \<Rightarrow> u64 \<Rightarrow> u64 \<times> u64" where
  "directions spent up down =
     (if up + down = spent then (up, down) else if up \<ge> spent then (spent, 0) else (up, spent - up))"

lemma directions_sum: "fst (directions spent up down) + snd (directions spent up down) = spent"
  by (simp add: directions_def)

section \<open>The buffer\<close>

text \<open>A Go map from ids: an association list with distinct keys.\<close>

type_synonym 'a idmap = "(nat \<times> 'a) list"

definition amount_of :: "'a::zero idmap \<Rightarrow> nat \<Rightarrow> 'a" where
  "amount_of m i = (case map_of m i of None \<Rightarrow> 0 | Some d \<Rightarrow> d)"

definition add_amount :: "'a::comm_monoid_add idmap \<Rightarrow> nat \<Rightarrow> 'a \<Rightarrow> 'a idmap" where
  "add_amount m i d = AList.update i (amount_of m i + d) m"

record traffic_update =
  tu_key :: string
  tu_bytes :: u64
  tu_up :: u64
  tu_down :: u64
  tu_account :: nat
  tu_handshake :: instant
  tu_endpoint :: string
  tu_dev_up :: u64
  tu_dev_down :: u64
  tu_at :: instant

record traffic_batch =
  tb_usage :: "usage_delta idmap"
  tb_devices :: "usage_delta idmap"
  tb_liveness :: "traffic_update idmap"

definition empty_batch :: traffic_batch where
  "empty_batch = \<lparr>tb_usage = [], tb_devices = [], tb_liveness = []\<rparr>"

text \<open>What an update says of usage: the client and the amount, or nothing.\<close>

definition usage_of :: "traffic_update \<Rightarrow> (nat \<times> usage_delta) option" where
  "usage_of u =
     (if tu_key u \<noteq> [] \<and> tu_bytes u > 0
      then map_option (\<lambda>i. (i, case directions (tu_bytes u) (tu_up u) (tu_down u) of (up, down) \<Rightarrow> Usage (tu_bytes u) up down))
        (client_id_from_key (tu_key u))
      else None)"

definition absorb :: "traffic_batch \<Rightarrow> traffic_update \<Rightarrow> traffic_batch" where
  "absorb b u =
     (let b = (case usage_of u of None \<Rightarrow> b | Some (i, d) \<Rightarrow> b\<lparr>tb_usage := add_amount (tb_usage b) i d\<rparr>) in
      if tu_account u = 0 then b
      else if tu_dev_up u > 0 \<or> tu_dev_down u > 0
      then b\<lparr>tb_devices := add_amount (tb_devices b) (tu_account u) (Usage 0 (tu_dev_up u) (tu_dev_down u))\<rparr>
      else b\<lparr>tb_liveness := AList.update (tu_account u) u (tb_liveness b)\<rparr>)"

definition submit :: "traffic_batch \<Rightarrow> traffic_update list \<Rightarrow> traffic_batch" where
  "submit b us = foldl absorb b us"

definition restore_amounts :: "'a::comm_monoid_add idmap \<Rightarrow> 'a idmap \<Rightarrow> 'a idmap" where
  "restore_amounts m taken = foldl (\<lambda>m (i, d). add_amount m i d) m taken"

definition restore :: "traffic_batch \<Rightarrow> traffic_batch \<Rightarrow> traffic_batch" where
  "restore b taken =
     \<lparr>tb_usage = restore_amounts (tb_usage b) (tb_usage taken),
      tb_devices = restore_amounts (tb_devices b) (tb_devices taken),
      tb_liveness = foldl (\<lambda>m (i, u). if map_of m i = None then AList.update i u m else m) (tb_liveness b) (tb_liveness taken)\<rparr>"

section \<open>The tables\<close>

record account_row =
  ac_up :: u64
  ac_down :: u64
  ac_seen :: instant
  ac_handshake :: instant
  ac_endpoint :: string

text \<open>A sample's id is its place in the list: rows are only appended.\<close>

record sample_row =
  sa_client :: nat
  sa_bucket :: instant
  sa_fine :: bool
  sa_rx :: u64
  sa_tx :: u64

record traffic_db =
  td_clients :: "nat \<rightharpoonup> usage_delta"
  td_operators :: "nat \<rightharpoonup> nat \<times> nat"
  td_accounts :: "nat \<rightharpoonup> account_row"
  td_samples :: "sample_row list"
  td_admins :: "nat \<rightharpoonup> u64"

abbreviation (input) writeChunk :: nat where "writeChunk \<equiv> 400"

definition sorted_ids :: "'a idmap \<Rightarrow> nat list" where
  "sorted_ids m = sort (map fst m)"

function chunks :: "nat list \<Rightarrow> nat list list" where
  "chunks ids = (if length ids > writeChunk then take writeChunk ids # chunks (drop writeChunk ids)
     else if ids = [] then [] else [ids])"
  by auto
termination by (relation "measure length") auto

declare chunks.simps [simp del]

text \<open>addToRows: one UPDATE, which leaves ids without a row alone.\<close>

definition add_to_rows :: "('row \<Rightarrow> 'amount \<Rightarrow> 'row) \<Rightarrow> (nat \<rightharpoonup> 'row) \<Rightarrow> nat list \<Rightarrow> (nat \<Rightarrow> 'amount) \<Rightarrow> (nat \<rightharpoonup> 'row)" where
  "add_to_rows gain table ids amount =
     (\<lambda>i. if i \<in> set ids then map_option (\<lambda>r. gain r (amount i)) (table i) else table i)"

text \<open>The operators of the customers of a batch, read before the transaction; none where it failed.\<close>

definition owner_of :: "(nat \<rightharpoonup> nat \<times> nat) \<Rightarrow> nat \<Rightarrow> nat" where
  "owner_of ops i = (case ops i of None \<Rightarrow> 0 | Some (w, a) \<Rightarrow> w)"

definition admin_of :: "(nat \<rightharpoonup> nat \<times> nat) \<Rightarrow> nat \<Rightarrow> nat" where
  "admin_of ops i = (case ops i of None \<Rightarrow> 0 | Some (w, a) \<Rightarrow> a)"

definition by_owner :: "(nat \<rightharpoonup> nat \<times> nat) \<Rightarrow> usage_delta idmap \<Rightarrow> u64 idmap" where
  "by_owner ops usage = foldl (\<lambda>m (i, d). if owner_of ops i \<noteq> 0 then add_amount m (owner_of ops i) (ud_bytes d) else m) [] usage"

definition by_admin :: "(nat \<rightharpoonup> nat \<times> nat) \<Rightarrow> usage_delta idmap \<Rightarrow> u64 idmap" where
  "by_admin ops usage = foldl (\<lambda>m (i, d). if admin_of ops i \<noteq> 0 \<and> admin_of ops i \<noteq> owner_of ops i
     then add_amount m (admin_of ops i) (ud_bytes d) else m) [] usage"

text \<open>The first fine sample of a customer in a bucket.\<close>

definition sample_of :: "sample_row list \<Rightarrow> instant \<Rightarrow> nat \<Rightarrow> nat option" where
  "sample_of samples bucket client =
     map_option fst (find (\<lambda>(k, s). sa_client s = client \<and> sa_bucket s = bucket \<and> sa_fine s) (enumerate 0 samples))"

definition write_samples :: "usage_delta idmap \<Rightarrow> instant \<Rightarrow> sample_row list \<Rightarrow> nat list \<Rightarrow> sample_row list" where
  "write_samples usage bucket samples ids =
     map (\<lambda>(k, s). if sa_client s \<in> set ids \<and> sample_of samples bucket (sa_client s) = Some k
         then s\<lparr>sa_rx := sa_rx s + ud_down (amount_of usage (sa_client s)), sa_tx := sa_tx s + ud_up (amount_of usage (sa_client s))\<rparr>
         else s) (enumerate 0 samples) @
     map (\<lambda>i. \<lparr>sa_client = i, sa_bucket = bucket, sa_fine = True, sa_rx = ud_down (amount_of usage i), sa_tx = ud_up (amount_of usage i)\<rparr>)
       (filter (\<lambda>i. sample_of samples bucket i = None) ids)"

definition add_device :: "account_row \<Rightarrow> usage_delta \<Rightarrow> account_row" where
  "add_device r d = r\<lparr>ac_up := ac_up r + ud_up d, ac_down := ac_down r + ud_down d\<rparr>"

definition set_liveness :: "account_row \<Rightarrow> traffic_update option \<Rightarrow> account_row" where
  "set_liveness r reading =
     (case reading of None \<Rightarrow> r
      | Some u \<Rightarrow> r\<lparr>ac_seen := tu_at u, ac_handshake := (if is_zero (tu_handshake u) then ac_handshake r else tu_handshake u),
          ac_endpoint := (if tu_endpoint u = [] then ac_endpoint r else tu_endpoint u)\<rparr>)"

definition charge_admins :: "(nat \<rightharpoonup> u64) \<Rightarrow> u64 idmap \<Rightarrow> (nat \<rightharpoonup> u64)" where
  "charge_admins admins m = foldl (\<lambda>t i. if amount_of m i = 0 then t
     else t(i := map_option (\<lambda>used. used + amount_of m i) (t i))) admins (sorted_ids m)"

definition write_flush :: "traffic_db \<Rightarrow> traffic_batch \<Rightarrow> (nat \<rightharpoonup> nat \<times> nat) \<Rightarrow> instant \<Rightarrow> traffic_db" where
  "write_flush db b ops bucket =
     (let usage = tb_usage b; devices = tb_devices b; liveness = tb_liveness b;
          clients = foldl (\<lambda>t ids. add_to_rows (+) t ids (amount_of usage)) (td_clients db) (chunks (sorted_ids usage));
          samples = foldl (write_samples usage bucket) (td_samples db) (chunks (sorted_ids usage));
          accounts = foldl (\<lambda>t ids. add_to_rows add_device t ids (amount_of devices)) (td_accounts db) (chunks (sorted_ids devices));
          accounts = foldl (\<lambda>t ids. add_to_rows set_liveness t ids (map_of liveness)) accounts (chunks (sorted_ids liveness));
          admins = foldl charge_admins (td_admins db) [by_owner ops usage, by_admin ops usage]
      in db\<lparr>td_clients := clients, td_samples := samples, td_accounts := accounts, td_admins := admins\<rparr>)"

section \<open>The writer\<close>

text \<open>
  What is held, what running flushes have taken, and the failures counted so far. A flush is its
  swap and, later, its end: submissions come between the two.
\<close>

record traffic_writer =
  tw_held :: traffic_batch
  tw_failing :: bool
  tw_failures :: nat

definition new_traffic_writer :: traffic_writer where
  "new_traffic_writer = \<lparr>tw_held = empty_batch, tw_failing = False, tw_failures = 0\<rparr>"

definition flush_take :: "traffic_writer \<Rightarrow> traffic_batch \<times> traffic_writer" where
  "flush_take w = (tw_held w, w\<lparr>tw_held := empty_batch\<rparr>)"

definition flush_end :: "traffic_writer \<Rightarrow> traffic_db \<Rightarrow> traffic_batch \<Rightarrow> bool \<Rightarrow> bool \<Rightarrow> instant \<Rightarrow> traffic_writer \<times> traffic_db" where
  "flush_end w db taken operators_read commits bucket =
     (if tb_usage taken = [] \<and> tb_liveness taken = [] \<and> tb_devices taken = [] then (w, db)
      else if commits
      then (w\<lparr>tw_failing := False\<rparr>,
        write_flush db taken (if operators_read then td_operators db else Map.empty) bucket)
      else (w\<lparr>tw_held := restore (tw_held w) taken, tw_failing := True, tw_failures := tw_failures w + 1\<rparr>, db))"
section \<open>Facts about the buffer\<close>

definition keys_ok :: "'a idmap \<Rightarrow> bool" where
  "keys_ok m \<longleftrightarrow> distinct (map fst m)"

lemma amount_of_Nil [simp]: "amount_of [] i = 0"
  by (simp add: amount_of_def)

lemma keys_ok_Nil [simp]: "keys_ok []"
  by (simp add: keys_ok_def)

lemma amount_of_add: "amount_of (add_amount m i d) j = amount_of m j + (if j = i then d else 0)"
  by (simp add: amount_of_def add_amount_def update_conv' fun_upd_def split: option.split)

lemma keys_ok_add [simp]: "keys_ok m \<Longrightarrow> keys_ok (add_amount m i d)"
  by (simp add: keys_ok_def add_amount_def distinct_update)

lemma restore_amounts_amount:
  "keys_ok t \<Longrightarrow> amount_of (restore_amounts m t) j = amount_of m j + amount_of t j"
proof (induction t arbitrary: m)
  case (Cons x t)
  obtain i d where x: "x = (i, d)" by (cases x)
  from Cons.prems have t: "keys_ok t" "i \<notin> fst ` set t" by (simp_all add: keys_ok_def x)
  have "amount_of t i = 0" using t(2) by (simp add: amount_of_def map_of_eq_None_iff [THEN iffD2])
  then have e: "amount_of (x # t) j = (if j = i then d else 0) + amount_of t j"
    by (auto simp: amount_of_def x)
  have "restore_amounts m (x # t) = restore_amounts (add_amount m i d) t"
    by (simp add: restore_amounts_def x)
  then show ?case
    using Cons.IH [OF t(1), of "add_amount m i d"] by (simp add: e amount_of_add ac_simps)
qed (simp add: restore_amounts_def)

lemma keys_ok_restore: "keys_ok m \<Longrightarrow> keys_ok (restore_amounts m t)"
  unfolding restore_amounts_def by (induction t arbitrary: m) (auto split: prod.split)

section \<open>Facts about the writes\<close>

lemma concat_chunks: "concat (chunks ids) = ids"
proof (induction ids rule: chunks.induct)
  case (1 ids)
  then show ?case by (subst chunks.simps) simp
qed

lemma sorted_ids_props: "keys_ok m \<Longrightarrow> distinct (sorted_ids m) \<and> set (sorted_ids m) = fst ` set m"
  by (simp add: sorted_ids_def keys_ok_def)

lemma fold_add_to_rows:
  "distinct (concat idss) \<Longrightarrow>
     foldl (\<lambda>t ids. add_to_rows gain t ids amount) table idss = add_to_rows gain table (concat idss) amount"
proof (induction idss arbitrary: table)
  case Nil
  then show ?case by (simp add: add_to_rows_def)
next
  case (Cons ids idss)
  then have d: "distinct (concat idss)" "set ids \<inter> set (concat idss) = {}" by auto
  have "add_to_rows gain (add_to_rows gain table ids amount) (concat idss) amount
      = add_to_rows gain table (concat (ids # idss)) amount"
    using d(2) by (auto simp: add_to_rows_def fun_eq_iff)
  then show ?case using Cons.IH [OF d(1)] by simp
qed

lemma rows_by_chunks:
  assumes "keys_ok m"
  shows "foldl (\<lambda>t ids. add_to_rows gain t ids amount) table (chunks (sorted_ids m)) =
    add_to_rows gain table (sorted_ids m) amount"
  using fold_add_to_rows [of "chunks (sorted_ids m)" gain amount table] sorted_ids_props [OF assms]
  by (simp add: concat_chunks)

lemma rows_written:
  assumes "keys_ok m" "\<And>r i. map_of m i = None \<Longrightarrow> gain r (amount i) = r"
  shows "foldl (\<lambda>t ids. add_to_rows gain t ids amount) table (chunks (sorted_ids m)) i
     = map_option (\<lambda>r. gain r (amount i)) (table i)"
proof (cases "i \<in> set (sorted_ids m)")
  case False
  then have "map_of m i = None"
    using sorted_ids_props [OF assms(1)] by (simp add: map_of_eq_None_iff)
  then have "map_option (\<lambda>r. gain r (amount i)) (table i) = table i"
    using assms(2) by (simp add: map_option_idI)
  with False show ?thesis
    unfolding rows_by_chunks [OF assms(1)] by (simp add: add_to_rows_def)
next
  case True
  then show ?thesis
    unfolding rows_by_chunks [OF assms(1)] by (simp add: add_to_rows_def)
qed

lemma charge_admins_written:
  assumes "keys_ok m"
  shows "charge_admins admins m i = map_option (\<lambda>used. used + amount_of m i) (admins i)"
proof -
  have "foldl (\<lambda>t i. if amount_of m i = 0 then t else t(i := map_option (\<lambda>used. used + amount_of m i) (t i))) t ids i
      = (if i \<in> set ids then map_option (\<lambda>used. used + amount_of m i) (t i) else t i)"
    if "distinct ids" for ids t
    using that by (induction ids arbitrary: t) (auto simp: map_option_idI option.map_comp)
  moreover have "amount_of m i = 0" if "i \<notin> set (sorted_ids m)"
    using that sorted_ids_props [OF assms] by (simp add: amount_of_def map_of_eq_None_iff [THEN iffD2])
  ultimately show ?thesis
    using sorted_ids_props [OF assms] by (simp add: charge_admins_def map_option_idI)
qed

text \<open>What a batch owes an operator: the bytes of the customers charged to it.\<close>

definition owes :: "(nat \<Rightarrow> nat \<Rightarrow> bool) \<Rightarrow> nat \<Rightarrow> usage_delta idmap \<Rightarrow> u64" where
  "owes charged p usage = sum_list (map (\<lambda>(i, d). if charged p i then ud_bytes d else 0) usage)"

lemma fold_charges:
  "amount_of (foldl (\<lambda>m (i, d). if q i then add_amount m (f i) (ud_bytes d) else m) m usage) p
     = amount_of m p + owes (\<lambda>p i. q i \<and> f i = p) p usage"
  by (induction usage arbitrary: m) (auto simp: owes_def amount_of_add)

lemma fold_charges_keys:
  "keys_ok m \<Longrightarrow> keys_ok (foldl (\<lambda>m (i, d). if q i then add_amount m (f i) (ud_bytes d) else m) m usage)"
  by (induction usage arbitrary: m) auto

subsection \<open>Samples\<close>

definition sample_matches :: "instant \<Rightarrow> nat \<Rightarrow> sample_row \<Rightarrow> bool" where
  "sample_matches bucket client s \<longleftrightarrow> sa_client s = client \<and> sa_bucket s = bucket \<and> sa_fine s"

definition sample_gains :: "sample_row \<Rightarrow> usage_delta \<Rightarrow> sample_row" where
  "sample_gains s d = s\<lparr>sa_rx := sa_rx s + ud_down d, sa_tx := sa_tx s + ud_up d\<rparr>"

definition new_sample :: "instant \<Rightarrow> nat \<Rightarrow> usage_delta \<Rightarrow> sample_row" where
  "new_sample bucket i d = \<lparr>sa_client = i, sa_bucket = bucket, sa_fine = True, sa_rx = ud_down d, sa_tx = ud_up d\<rparr>"

text \<open>One customer's sample, looked for and added to or made, a row at a time; the rows are in the order they were made.\<close>

fun sample_once :: "instant \<Rightarrow> nat \<Rightarrow> usage_delta \<Rightarrow> sample_row list \<Rightarrow> sample_row list" where
  "sample_once bucket i d [] = [new_sample bucket i d]"
| "sample_once bucket i d (s # ss) =
     (if sample_matches bucket i s then sample_gains s d # ss else s # sample_once bucket i d ss)"

text \<open>All of them in one pass over the rows: the customers still to be found go along.\<close>

fun samples_pass :: "instant \<Rightarrow> (nat \<Rightarrow> usage_delta) \<Rightarrow> nat list \<Rightarrow> sample_row list \<Rightarrow> sample_row list" where
  "samples_pass bucket amount ids [] = map (\<lambda>i. new_sample bucket i (amount i)) ids"
| "samples_pass bucket amount ids (s # ss) =
     (if sa_client s \<in> set ids \<and> sample_matches bucket (sa_client s) s
      then sample_gains s (amount (sa_client s)) # samples_pass bucket amount (filter (\<lambda>i. i \<noteq> sa_client s) ids) ss
      else s # samples_pass bucket amount ids ss)"

lemma samples_once_Nil:
  "distinct ids \<Longrightarrow> (\<forall>r \<in> set rows. sa_client r \<notin> set ids) \<Longrightarrow>
    foldl (\<lambda>ss i. sample_once bucket i (amount i) ss) rows ids = rows @ map (\<lambda>i. new_sample bucket i (amount i)) ids"
proof (induction ids arbitrary: rows)
  case (Cons i ids)
  have "sample_once bucket i d rows = rows @ [new_sample bucket i d]" if "\<forall>r \<in> set rows. sa_client r \<noteq> i" for d rows
    using that by (induction rows) (auto simp: sample_matches_def)
  then show ?case using Cons by (auto simp: new_sample_def)
qed simp

lemma samples_once_Cons:
  assumes "distinct ids"
  shows "foldl (\<lambda>ss i. sample_once bucket i (amount i) ss) (s # ss) ids =
    (if sa_client s \<in> set ids \<and> sample_matches bucket (sa_client s) s
     then sample_gains s (amount (sa_client s)) # foldl (\<lambda>ss i. sample_once bucket i (amount i) ss) ss (filter (\<lambda>i. i \<noteq> sa_client s) ids)
     else s # foldl (\<lambda>ss i. sample_once bucket i (amount i) ss) ss ids)"
  using assms
proof (induction ids arbitrary: s ss)
  case (Cons i ids)
  show ?case
  proof (cases "sample_matches bucket i s")
    case True
    then have c: "sa_client s = i" by (simp add: sample_matches_def)
    have "sa_client (sample_gains s d) = i" for d by (simp add: sample_gains_def c)
    moreover have "filter (\<lambda>j. j \<noteq> i) ids = ids" using Cons.prems by (auto simp: filter_id_conv)
    ultimately show ?thesis using Cons.IH [of "sample_gains s (amount i)" ss] Cons.prems True c by simp
  next
    case False
    then show ?thesis using Cons.IH [of s "sample_once bucket i (amount i) ss"] Cons.prems by (auto simp: sample_matches_def)
  qed
qed simp

lemma samples_pass_once:
  "distinct ids \<Longrightarrow> foldl (\<lambda>ss i. sample_once bucket i (amount i) ss) ss ids = samples_pass bucket amount ids ss"
  by (induction ss arbitrary: ids) (simp_all add: samples_once_Nil samples_once_Cons)

definition sample_from :: "nat \<Rightarrow> sample_row list \<Rightarrow> instant \<Rightarrow> nat \<Rightarrow> nat option" where
  "sample_from n samples bucket client =
     map_option fst (find (\<lambda>(k, s). sample_matches bucket client s) (enumerate n samples))"

lemma sample_from_simps:
  "sample_from n [] bucket c = None"
  "sample_from n (s # ss) bucket c = (if sample_matches bucket c s then Some n else sample_from (Suc n) ss bucket c)"
  by (simp_all add: sample_from_def)

lemma sample_from_ge: "sample_from n ss bucket c = Some k \<Longrightarrow> n \<le> k"
  by (induction ss arbitrary: n) (auto simp: sample_from_simps split: if_splits dest: Suc_leD)

lemma samples_pass_from:
  "map (\<lambda>(k, s). if sa_client s \<in> set ids \<and> sample_from n ss bucket (sa_client s) = Some k then sample_gains s (amount (sa_client s)) else s) (enumerate n ss) @
   map (\<lambda>i. new_sample bucket i (amount i)) (filter (\<lambda>i. sample_from n ss bucket i = None) ids) = samples_pass bucket amount ids ss"
proof (induction ss arbitrary: n ids)
  case Nil
  then show ?case by (simp add: sample_from_simps)
next
  case (Cons s ss)
  let ?c = "sa_client s" and ?so = "\<lambda>c. sample_from (Suc n) ss bucket c"
  let ?F = "\<lambda>ids' k t. if sa_client t \<in> set ids' \<and> ?so (sa_client t) = Some k then sample_gains t (amount (sa_client t)) else t"
  have up: "k \<ge> Suc n" if "(k, t) \<in> set (enumerate (Suc n) ss)" for k t using that by (simp add: in_set_enumerate_eq)
  have notn: "?so c \<noteq> Some n" for c using sample_from_ge [of "Suc n" ss bucket c n] by auto
  show ?case
  proof (cases "?c \<in> set ids \<and> sample_matches bucket ?c s")
    case True
    let ?ids = "filter (\<lambda>i. i \<noteq> ?c) ids"
    have m: "sample_matches bucket c s \<longleftrightarrow> c = ?c" for c using True by (auto simp: sample_matches_def)
    have e1: "map (\<lambda>(k, t). if sa_client t \<in> set ids \<and> sample_from n (s # ss) bucket (sa_client t) = Some k then sample_gains t (amount (sa_client t)) else t) (enumerate (Suc n) ss)
        = map (\<lambda>(k, t). ?F ?ids k t) (enumerate (Suc n) ss)"
      by (rule map_cong [OF refl]) (auto simp: sample_from_simps m dest: up)
    have e2: "filter (\<lambda>i. sample_from n (s # ss) bucket i = None) ids = filter (\<lambda>i. ?so i = None) ?ids"
      by (simp add: sample_from_simps m conj_commute) (rule filter_cong, auto)
    have e3: "sample_from n (s # ss) bucket ?c = Some n" using True by (simp add: sample_from_simps)
    show ?thesis unfolding enumerate_simps list.map append_Cons prod.case e1 e2 e3 Cons.IH samples_pass.simps if_P [OF True] using True by simp
  next
    case False
    then have "\<not> sample_matches bucket c s" if "c \<in> set ids" for c using that by (auto simp: sample_matches_def)
    then have e: "c \<in> set ids \<Longrightarrow> sample_from n (s # ss) bucket c = ?so c" for c by (simp add: sample_from_simps)
    have e1: "map (\<lambda>(k, t). if sa_client t \<in> set ids \<and> sample_from n (s # ss) bucket (sa_client t) = Some k then sample_gains t (amount (sa_client t)) else t) (enumerate (Suc n) ss)
        = map (\<lambda>(k, t). ?F ids k t) (enumerate (Suc n) ss)"
      by (rule map_cong [OF refl]) (auto simp: e)
    have e2: "filter (\<lambda>i. sample_from n (s # ss) bucket i = None) ids = filter (\<lambda>i. ?so i = None) ids" by (rule filter_cong) (auto simp: e)
    have e3: "\<not> (?c \<in> set ids \<and> sample_from n (s # ss) bucket ?c = Some n)" using e notn by auto
    show ?thesis unfolding enumerate_simps list.map append_Cons prod.case e1 e2 if_not_P [OF e3] Cons.IH samples_pass.simps if_not_P [OF False] ..
  qed
qed

lemma write_samples_once:
  assumes "distinct ids"
  shows "write_samples usage bucket samples ids = foldl (\<lambda>ss i. sample_once bucket i (amount_of usage i) ss) samples ids"
proof -
  have "sample_of samples bucket c = sample_from 0 samples bucket c" for c
    by (simp add: sample_of_def sample_from_def sample_matches_def)
  then show ?thesis
    using samples_pass_from [of ids 0 samples bucket "amount_of usage"] 
    unfolding samples_pass_once [OF assms] write_samples_def sample_gains_def new_sample_def by simp
qed

lemma fold_samples_once:
  "distinct (concat idss) \<Longrightarrow> foldl (write_samples usage bucket) samples idss =
    foldl (\<lambda>ss i. sample_once bucket i (amount_of usage i) ss) samples (concat idss)"
  by (induction idss arbitrary: samples) (simp_all add: write_samples_once)

section \<open>The batch written\<close>

definition batch_ok :: "traffic_batch \<Rightarrow> bool" where
  "batch_ok b \<longleftrightarrow> keys_ok (tb_usage b) \<and> keys_ok (tb_devices b) \<and> keys_ok (tb_liveness b)"

lemma amount_none: "map_of m i = None \<Longrightarrow> amount_of m i = 0"
  by (simp add: amount_of_def)

lemma write_flush_written:
  assumes "batch_ok b"
  shows "let db' = write_flush db b ops bucket in
    td_clients db' i = map_option (\<lambda>r. r + amount_of (tb_usage b) i) (td_clients db i) \<and>
    td_samples db' = foldl (\<lambda>ss j. sample_once bucket j (amount_of (tb_usage b) j) ss) (td_samples db) (sorted_ids (tb_usage b)) \<and>
    td_accounts db' i = map_option (\<lambda>r. set_liveness (add_device r (amount_of (tb_devices b) i)) (map_of (tb_liveness b) i)) (td_accounts db i) \<and>
    td_admins db' i = map_option (\<lambda>used. used +
      owes (\<lambda>p c. owner_of ops c \<noteq> 0 \<and> owner_of ops c = p) i (tb_usage b) +
      owes (\<lambda>p c. (admin_of ops c \<noteq> 0 \<and> admin_of ops c \<noteq> owner_of ops c) \<and> admin_of ops c = p) i (tb_usage b)) (td_admins db i)"
proof -
  let ?u = "tb_usage b"
  have k: "keys_ok ?u" "keys_ok (tb_devices b)" "keys_ok (tb_liveness b)"
    using assms by (simp_all add: batch_ok_def)
  note ids = sorted_ids_props [OF k(1)]
  have z: "map_of ?u i = None \<Longrightarrow> i \<notin> fst ` set ?u \<Longrightarrow> amount_of ?u i = 0" by (rule amount_none)
  have sam: "foldl (write_samples ?u bucket) (td_samples db) (chunks (sorted_ids ?u)) =
      foldl (\<lambda>ss j. sample_once bucket j (amount_of ?u j) ss) (td_samples db) (sorted_ids ?u)"
    using fold_samples_once [of "chunks (sorted_ids ?u)" ?u bucket "td_samples db"] ids by (simp add: concat_chunks)
  have cl: "foldl (\<lambda>t ids. add_to_rows (+) t ids (amount_of ?u)) (td_clients db) (chunks (sorted_ids ?u)) i =
      map_option (\<lambda>r. r + amount_of ?u i) (td_clients db i)"
    by (rule rows_written [OF k(1)]) (simp add: amount_none)
  have ac: "foldl (\<lambda>t ids. add_to_rows add_device t ids (amount_of (tb_devices b))) (td_accounts db) (chunks (sorted_ids (tb_devices b))) i =
      map_option (\<lambda>r. add_device r (amount_of (tb_devices b) i)) (td_accounts db i)"
    by (rule rows_written [OF k(2)]) (simp add: amount_none add_device_def)
  have lv: "foldl (\<lambda>t ids. add_to_rows set_liveness t ids (map_of (tb_liveness b))) t (chunks (sorted_ids (tb_liveness b))) i =
      map_option (\<lambda>r. set_liveness r (map_of (tb_liveness b) i)) (t i)" for t
    by (rule rows_written [OF k(3)]) (simp add: set_liveness_def)
  have bo: "keys_ok (by_owner ops ?u)" "amount_of (by_owner ops ?u) i = owes (\<lambda>p c. owner_of ops c \<noteq> 0 \<and> owner_of ops c = p) i ?u"
    unfolding by_owner_def by (rule fold_charges_keys, simp) (simp add: fold_charges)
  have ba: "keys_ok (by_admin ops ?u)"
    "amount_of (by_admin ops ?u) i = owes (\<lambda>p c. (admin_of ops c \<noteq> 0 \<and> admin_of ops c \<noteq> owner_of ops c) \<and> admin_of ops c = p) i ?u"
    unfolding by_admin_def by (rule fold_charges_keys, simp) (simp add: fold_charges)
  show ?thesis
    unfolding write_flush_def Let_def
    by (simp add: cl sam ac lv charge_admins_written [OF bo(1)] charge_admins_written [OF ba(1)] bo(2) ba(2)
        option.map_comp o_def add.assoc)
qed

lemma write_flush_rows:
  assumes "batch_ok b"
  shows "td_clients (write_flush db b ops bucket) i = map_option (\<lambda>r. r + amount_of (tb_usage b) i) (td_clients db i)"
    "td_accounts (write_flush db b ops bucket) i =
      map_option (\<lambda>r. set_liveness (add_device r (amount_of (tb_devices b) i)) (map_of (tb_liveness b) i)) (td_accounts db i)"
  using write_flush_written [OF assms, of db ops bucket i] by (simp_all add: Let_def)

text \<open>
  C6. Batching changes nothing: whatever the number of customers and however their samples stand,
  writeFlush in its chunks leaves every row as writing each customer, file and operator once would:
  a customer gains their amount, the first made of their fine samples of the bucket gains it or one is
  made, all other samples being left alone, a file gains its
  directions and takes its reading, and an operator gains the bytes of the customers they own and,
  once, of those of their resellers.
\<close>
theorem write_flush_exact:
  assumes "batch_ok b"
  shows "let db' = write_flush db b ops bucket in
    td_clients db' i = map_option (\<lambda>r. r + amount_of (tb_usage b) i) (td_clients db i) \<and>
    td_samples db' = foldl (\<lambda>ss j. sample_once bucket j (amount_of (tb_usage b) j) ss) (td_samples db) (sorted_ids (tb_usage b)) \<and>
    td_accounts db' i = map_option (\<lambda>r. set_liveness (add_device r (amount_of (tb_devices b) i)) (map_of (tb_liveness b) i)) (td_accounts db i) \<and>
    td_admins db' i = map_option (\<lambda>used. used +
      owes (\<lambda>p c. owner_of ops c \<noteq> 0 \<and> owner_of ops c = p) i (tb_usage b) +
      owes (\<lambda>p c. (admin_of ops c \<noteq> 0 \<and> admin_of ops c \<noteq> owner_of ops c) \<and> admin_of ops c = p) i (tb_usage b)) (td_admins db i)"
  by (rule write_flush_written [OF assms])

definition toy_usage :: traffic_batch where
  "toy_usage = \<lparr>tb_usage = [(7, Usage 3 1 2)], tb_devices = [], tb_liveness = []\<rparr>"

definition toy_db :: traffic_db where
  "toy_db = \<lparr>td_clients = [7 \<mapsto> Usage 10 4 6], td_operators = [7 \<mapsto> (2, 1)], td_accounts = Map.empty, td_samples = [], td_admins = [1 \<mapsto> 0, 2 \<mapsto> 5]\<rparr>"

theorem write_flush_exact_witness:
  "td_admins (write_flush toy_db toy_usage (td_operators toy_db) 0) 2 = Some 8 \<and>
   td_clients (write_flush toy_db toy_usage (td_operators toy_db) 0) 7 = Some (Usage 13 5 8)"
  using write_flush_exact [of toy_usage toy_db "td_operators toy_db" 0 2] write_flush_exact [of toy_usage toy_db "td_operators toy_db" 0 7]
  by (simp add: toy_usage_def toy_db_def batch_ok_def keys_ok_def owes_def owner_of_def admin_of_def amount_of_def plus_usage_delta_def usage_add_def Let_def)

section \<open>Nothing is lost\<close>

text \<open>
  The writer at work: updates handed in, flushes that take what is held and end later, with their
  transaction committed or not. The customers and files themselves stay as they are.
\<close>

record traffic_sys =
  ts_writer :: traffic_writer
  ts_db :: traffic_db
  ts_running :: "traffic_batch list"
  ts_sent :: "traffic_update list"

inductive traffic_step :: "traffic_sys \<Rightarrow> traffic_sys \<Rightarrow> bool" where
  submitted: "traffic_step s (s\<lparr>ts_writer := (ts_writer s)\<lparr>tw_held := submit (tw_held (ts_writer s)) us\<rparr>,
     ts_sent := us @ ts_sent s\<rparr>)"
| flush_begins: "flush_take (ts_writer s) = (taken, w) \<Longrightarrow>
     traffic_step s (s\<lparr>ts_writer := w, ts_running := taken # ts_running s\<rparr>)"
| flush_ends: "ts_running s = xs @ taken # ys \<Longrightarrow>
     flush_end (ts_writer s) (ts_db s) taken operators_read commits bucket = (w, db) \<Longrightarrow>
     traffic_step s (s\<lparr>ts_writer := w, ts_db := db, ts_running := xs @ ys\<rparr>)"

inductive traffic_reachable :: "traffic_db \<Rightarrow> traffic_sys \<Rightarrow> bool" for db where
  start: "traffic_reachable db \<lparr>ts_writer = new_traffic_writer, ts_db = db, ts_running = [], ts_sent = []\<rparr>"
| step: "traffic_reachable db s \<Longrightarrow> traffic_step s t \<Longrightarrow> traffic_reachable db t"

text \<open>What the updates say a customer spent, and what they say a file carried.\<close>

definition sent_usage :: "traffic_update list \<Rightarrow> nat \<Rightarrow> usage_delta" where
  "sent_usage us i = sum_list (map (\<lambda>u. case usage_of u of None \<Rightarrow> 0 | Some (j, d) \<Rightarrow> if i = j then d else 0) us)"

definition sent_device :: "traffic_update list \<Rightarrow> nat \<Rightarrow> usage_delta" where
  "sent_device us i = sum_list (map (\<lambda>u. if tu_account u = i \<and> i \<noteq> 0 then Usage 0 (tu_dev_up u) (tu_dev_down u) else 0) us)"

definition held_usage :: "traffic_sys \<Rightarrow> nat \<Rightarrow> usage_delta" where
  "held_usage s i = amount_of (tb_usage (tw_held (ts_writer s))) i + sum_list (map (\<lambda>b. amount_of (tb_usage b) i) (ts_running s))"

definition directions_only :: "usage_delta \<Rightarrow> usage_delta" where
  "directions_only d = Usage 0 (ud_up d) (ud_down d)"

definition held_device :: "traffic_sys \<Rightarrow> nat \<Rightarrow> usage_delta" where
  "held_device s i = directions_only (amount_of (tb_devices (tw_held (ts_writer s))) i) +
     sum_list (map (\<lambda>b. directions_only (amount_of (tb_devices b) i)) (ts_running s))"

lemma absorb_usage: "amount_of (tb_usage (absorb b u)) i = amount_of (tb_usage b) i + sent_usage [u] i"
  by (simp add: absorb_def sent_usage_def Let_def amount_of_add split: option.split prod.split)

lemma usage_delta_0: "Usage 0 0 0 = 0"
  by (simp add: zero_usage_delta_def)

lemma absorb_devices: "amount_of (tb_devices (absorb b u)) i = amount_of (tb_devices b) i + sent_device [u] i"
proof -
  let ?b = "case usage_of u of None \<Rightarrow> b | Some (i, d) \<Rightarrow> b\<lparr>tb_usage := add_amount (tb_usage b) i d\<rparr>"
  have d: "tb_devices ?b = tb_devices b" by (simp split: option.split prod.split)
  have z: "\<not> (tu_dev_up u > 0 \<or> tu_dev_down u > 0) \<Longrightarrow> Usage 0 (tu_dev_up u) (tu_dev_down u) = 0"
    by (simp add: zero_usage_delta_def word_neq_0_conv [symmetric] del: word_neq_0_conv)
  show ?thesis
    using z by (auto simp: absorb_def sent_device_def Let_def amount_of_add d)
qed

lemma absorb_ok: "batch_ok b \<Longrightarrow> batch_ok (absorb b u)"
  by (auto simp: absorb_def Let_def batch_ok_def keys_ok_def add_amount_def distinct_update split: option.split prod.split)

lemma sent_usage_Cons: "sent_usage (u # us) i = sent_usage [u] i + sent_usage us i"
  by (simp add: sent_usage_def)

lemma sent_device_Cons: "sent_device (u # us) i = sent_device [u] i + sent_device us i"
  by (simp add: sent_device_def)

lemma sent_append: "sent_usage (us @ vs) i = sent_usage us i + sent_usage vs i" "sent_device (us @ vs) i = sent_device us i + sent_device vs i"
  by (simp_all add: sent_usage_def sent_device_def)

lemma submit_amounts:
  "amount_of (tb_usage (submit b us)) i = amount_of (tb_usage b) i + sent_usage us i"
  "amount_of (tb_devices (submit b us)) i = amount_of (tb_devices b) i + sent_device us i"
  "batch_ok b \<Longrightarrow> batch_ok (submit b us)"
proof (induction us arbitrary: b)
  case (Cons u us)
  have s: "submit b (u # us) = submit (absorb b u) us" for b by (simp add: submit_def)
  { case 1 show ?case unfolding s Cons.IH(1) sent_usage_Cons [of u us] by (simp add: absorb_usage ac_simps) }
  { case 2 show ?case unfolding s Cons.IH(2) sent_device_Cons [of u us] by (simp add: absorb_devices ac_simps) }
  { case 3 then show ?case unfolding s by (intro Cons.IH(3) absorb_ok) }
qed (simp_all add: submit_def sent_usage_def sent_device_def)

lemma restore_amounts_all:
  assumes "batch_ok t"
  shows "amount_of (tb_usage (restore b t)) i = amount_of (tb_usage b) i + amount_of (tb_usage t) i"
    "amount_of (tb_devices (restore b t)) i = amount_of (tb_devices b) i + amount_of (tb_devices t) i"
  using assms by (simp_all add: restore_def restore_amounts_amount batch_ok_def)

lemma restore_ok: "batch_ok b \<Longrightarrow> batch_ok (restore b t)"
proof -
  assume b: "batch_ok b"
  have "keys_ok m \<Longrightarrow> keys_ok (foldl (\<lambda>m (i, u). if map_of m i = None then AList.update i u m else m) m l)" for m :: "traffic_update idmap" and l
    by (induction l arbitrary: m) (auto simp: keys_ok_def distinct_update split: prod.split)
  with b show ?thesis
    by (simp add: batch_ok_def restore_def keys_ok_restore)
qed

text \<open>The balance: what a row had and what was sent is what it has and what is still held.\<close>

definition device_row :: "account_row \<Rightarrow> usage_delta" where
  "device_row r = Usage 0 (ac_up r) (ac_down r)"

definition traffic_inv :: "traffic_db \<Rightarrow> traffic_sys \<Rightarrow> bool" where
  "traffic_inv db s \<longleftrightarrow>
     batch_ok (tw_held (ts_writer s)) \<and> list_all batch_ok (ts_running s) \<and>
     (\<forall>i. map_option (\<lambda>r. r + held_usage s i) (td_clients (ts_db s) i) = map_option (\<lambda>r. r + sent_usage (ts_sent s) i) (td_clients db i)) \<and>
     (\<forall>i. map_option (\<lambda>r. device_row r + held_device s i) (td_accounts (ts_db s) i) = map_option (\<lambda>r. device_row r + sent_device (ts_sent s) i) (td_accounts db i))"

lemma directions_only_plus: "directions_only (a + b) = directions_only a + directions_only b" "directions_only 0 = 0"
  by (simp_all add: directions_only_def plus_usage_delta_def usage_add_def zero_usage_delta_def)

lemma directions_only_sent: "directions_only (sent_device us i) = sent_device us i"
proof (induction us)
  case (Cons u us)
  have "directions_only (sent_device [u] i) = sent_device [u] i"
    by (simp add: sent_device_def directions_only_def zero_usage_delta_def plus_usage_delta_def usage_add_def)
  with Cons show ?case
    unfolding sent_device_Cons [of u us] directions_only_plus by simp
qed (simp add: sent_device_def directions_only_plus)

lemma device_row_written:
  "device_row (set_liveness (add_device r d) l) = device_row r + directions_only d"
  by (simp add: device_row_def set_liveness_def add_device_def plus_usage_delta_def usage_add_def directions_only_def split: option.split)

text \<open>Both sides of a balance move together.\<close>

lemma balance_add:
  "map_option (\<lambda>r. f r + h) x = map_option (\<lambda>r. f r + s) y \<Longrightarrow>
     map_option (\<lambda>r. f r + (h + c)) x = map_option (\<lambda>r. f r + (s + (c :: 'a::comm_monoid_add))) y"
  by (cases x; cases y) (auto simp: add.assoc [symmetric])

lemma balance_move:
  "map_option (\<lambda>r. f r + (h + c)) x = z \<Longrightarrow> x' = map_option g x \<Longrightarrow> (\<And>r. f (g r) = f r + c) \<Longrightarrow>
     map_option (\<lambda>r. f r + (h :: 'a::comm_monoid_add)) x' = z"
  by (simp add: option.map_comp o_def ac_simps)

lemma traffic_step_inv: "traffic_step s t \<Longrightarrow> traffic_inv db s \<Longrightarrow> traffic_inv db t"
proof (induction rule: traffic_step.induct)
  case (submitted s us)
  have "held_usage (s\<lparr>ts_writer := (ts_writer s)\<lparr>tw_held := submit (tw_held (ts_writer s)) us\<rparr>, ts_sent := us @ ts_sent s\<rparr>) i
      = held_usage s i + sent_usage us i" for i
    by (simp add: held_usage_def submit_amounts ac_simps)
  moreover have "held_device (s\<lparr>ts_writer := (ts_writer s)\<lparr>tw_held := submit (tw_held (ts_writer s)) us\<rparr>, ts_sent := us @ ts_sent s\<rparr>) i
      = held_device s i + sent_device us i" for i
    by (simp add: held_device_def submit_amounts directions_only_plus directions_only_sent ac_simps)
  moreover have "sent_usage (us @ ts_sent s) i = sent_usage (ts_sent s) i + sent_usage us i"
    "sent_device (us @ ts_sent s) i = sent_device (ts_sent s) i + sent_device us i" for i
    by (simp_all add: sent_append add.commute)
  moreover have "map_option (\<lambda>r. r + (held_usage s i + sent_usage us i)) (td_clients (ts_db s) i) =
      map_option (\<lambda>r. r + (sent_usage (ts_sent s) i + sent_usage us i)) (td_clients db i)"
    "map_option (\<lambda>r. device_row r + (held_device s i + sent_device us i)) (td_accounts (ts_db s) i) =
      map_option (\<lambda>r. device_row r + (sent_device (ts_sent s) i + sent_device us i)) (td_accounts db i)" for i
    by (rule balance_add; use submitted in \<open>simp add: traffic_inv_def\<close>)+
  ultimately show ?case
    using submitted by (simp add: traffic_inv_def submit_amounts)
next
  case (flush_begins s taken w)
  then have e: "taken = tw_held (ts_writer s)" "tw_held w = empty_batch" by (auto simp: flush_take_def)
  have "held_usage (s\<lparr>ts_writer := w, ts_running := taken # ts_running s\<rparr>) i = held_usage s i"
    "held_device (s\<lparr>ts_writer := w, ts_running := taken # ts_running s\<rparr>) i = held_device s i" for i
    by (simp_all add: held_usage_def held_device_def e empty_batch_def directions_only_plus)
  then show ?case
    using flush_begins(2) by (simp add: traffic_inv_def e batch_ok_def empty_batch_def)
next
  case (flush_ends s xs taken ys operators_read commits bucket w db')
  let ?t = "s\<lparr>ts_writer := w, ts_db := db', ts_running := xs @ ys\<rparr>"
  have ok: "batch_ok (tw_held (ts_writer s))" "batch_ok taken" "list_all batch_ok (xs @ ys)"
    and bal: "map_option (\<lambda>r. r + held_usage s i) (td_clients (ts_db s) i) = map_option (\<lambda>r. r + sent_usage (ts_sent s) i) (td_clients db i)"
      "map_option (\<lambda>r. device_row r + held_device s i) (td_accounts (ts_db s) i) = map_option (\<lambda>r. device_row r + sent_device (ts_sent s) i) (td_accounts db i)" for i
    using flush_ends(1,3) by (auto simp: traffic_inv_def)
  consider (empty) "tb_usage taken = []" "tb_devices taken = []" "w = ts_writer s" "db' = ts_db s"
    | (committed) ops where "tw_held w = tw_held (ts_writer s)" "db' = write_flush (ts_db s) taken ops bucket"
    | (failed) "tw_held w = restore (tw_held (ts_writer s)) taken" "db' = ts_db s"
    using flush_ends(2) by (auto simp: flush_end_def split: if_splits)
  then show ?case
  proof cases
    case empty
    then have "held_usage ?t i = held_usage s i" "held_device ?t i = held_device s i" for i
      using flush_ends(1) by (simp_all add: held_usage_def held_device_def directions_only_plus)
    then show ?thesis using ok bal empty by (simp add: traffic_inv_def)
  next
    case failed
    then have "held_usage ?t i = held_usage s i" "held_device ?t i = held_device s i" for i
      using flush_ends(1) restore_amounts_all [OF ok(2)]
      by (simp_all add: held_usage_def held_device_def directions_only_plus ac_simps)
    then show ?thesis using ok bal failed restore_ok by (simp add: traffic_inv_def)
  next
    case (committed ops)
    note wr = write_flush_rows [OF ok(2), where db = "ts_db s" and ops = ops and bucket = bucket]
    have h: "held_usage s i = held_usage ?t i + amount_of (tb_usage taken) i"
      "held_device s i = held_device ?t i + directions_only (amount_of (tb_devices taken) i)" for i
      using flush_ends(1) committed by (simp_all add: held_usage_def held_device_def ac_simps)
    have "map_option (\<lambda>r. r + held_usage ?t i) (td_clients db' i) = map_option (\<lambda>r. r + sent_usage (ts_sent s) i) (td_clients db i)" for i
      by (rule balance_move [where f = "\<lambda>r. r", OF bal(1) [unfolded h(1)], of _ "\<lambda>r. r + amount_of (tb_usage taken) i"])
        (simp_all add: wr committed)
    moreover have "map_option (\<lambda>r. device_row r + held_device ?t i) (td_accounts db' i) = map_option (\<lambda>r. device_row r + sent_device (ts_sent s) i) (td_accounts db i)" for i
      by (rule balance_move [where f = device_row, OF bal(2) [unfolded h(2)], of _ "\<lambda>r. set_liveness (add_device r (amount_of (tb_devices taken) i)) (map_of (tb_liveness taken) i)"])
        (simp_all add: wr committed device_row_written)
    ultimately show ?thesis using ok committed by (simp add: traffic_inv_def)
  qed
qed

lemma traffic_reachable_inv: "traffic_reachable db s \<Longrightarrow> traffic_inv db s"
proof (induction rule: traffic_reachable.induct)
  case start
  show ?case
    by (simp add: traffic_inv_def held_usage_def held_device_def new_traffic_writer_def empty_batch_def batch_ok_def
        sent_usage_def sent_device_def directions_only_plus)
next
  case (step s t)
  then show ?case by (blast intro: traffic_step_inv)
qed

text \<open>The two directions of what was sent add up to its bytes.\<close>

lemma sent_directions: "ud_up (sent_usage us i) + ud_down (sent_usage us i) = ud_bytes (sent_usage us i)"
proof (induction us)
  case (Cons u us)
  have "ud_up (sent_usage [u] i) + ud_down (sent_usage [u] i) = ud_bytes (sent_usage [u] i)"
    using directions_sum [of "tu_bytes u" "tu_up u" "tu_down u"]
    by (auto simp: sent_usage_def usage_of_def split: option.split prod.split)
  with Cons show ?case
    unfolding sent_usage_Cons [of u us] by (simp add: ac_simps)
qed (simp add: sent_usage_def)

text \<open>
  C5. No traffic is lost or charged twice: at every moment, whatever submissions come between a
  flush's swap and its end, however many flushes run and whichever of their transactions fail, a
  customer's row and what is still held for it make exactly what the row had at the start and all
  that was submitted for the customer, in bytes and in each direction, and the two directions
  submitted add up to the bytes.
\<close>
theorem traffic_conserved:
  assumes "traffic_reachable db s" "td_clients db i = Some r"
  shows "(\<exists>r'. td_clients (ts_db s) i = Some r' \<and> r' + held_usage s i = r + sent_usage (ts_sent s) i) \<and>
    ud_up (sent_usage (ts_sent s) i) + ud_down (sent_usage (ts_sent s) i) = ud_bytes (sent_usage (ts_sent s) i)"
proof -
  have "map_option (\<lambda>r. r + held_usage s i) (td_clients (ts_db s) i) = Some (r + sent_usage (ts_sent s) i)"
    using traffic_reachable_inv [OF assms(1)] assms(2) by (simp add: traffic_inv_def)
  then show ?thesis using sent_directions by auto
qed

text \<open>An update handed in while a flush runs that then fails: both amounts are held.\<close>

definition toy_update :: traffic_update where
  "toy_update = \<lparr>tu_key = ''c7'', tu_bytes = 3, tu_up = 1, tu_down = 0, tu_account = 0, tu_handshake = 0, tu_endpoint = [],
     tu_dev_up = 0, tu_dev_down = 0, tu_at = 0\<rparr>"

lemma toy_update_usage: "usage_of toy_update = Some (7, Usage 3 1 2)"
proof -
  have "enforce_key 7 = ''c7''" by code_simp
  then have "client_id_from_key ''c7'' = Some 7" using client_id_roundtrip [of 7] by simp
  then show ?thesis by (simp add: usage_of_def toy_update_def directions_def word_le_nat_alt)
qed

lemma toy_conserved_reachable:
  "\<exists>s. traffic_reachable toy_db s \<and> ts_sent s = [toy_update] \<and> held_usage s 7 = Usage 3 1 2"
proof -
  let ?s0 = "\<lparr>ts_writer = new_traffic_writer, ts_db = toy_db, ts_running = [], ts_sent = []\<rparr>"
  let ?s1 = "?s0\<lparr>ts_writer := (ts_writer ?s0)\<lparr>tw_held := submit (tw_held (ts_writer ?s0)) [toy_update]\<rparr>, ts_sent := [toy_update] @ ts_sent ?s0\<rparr>"
  let ?s2 = "?s1\<lparr>ts_writer := snd (flush_take (ts_writer ?s1)), ts_running := fst (flush_take (ts_writer ?s1)) # ts_running ?s1\<rparr>"
  have "traffic_reachable toy_db ?s1"
    by (rule traffic_reachable.step [OF traffic_reachable.start traffic_step.submitted])
  then have "traffic_reachable toy_db ?s2"
    by (rule traffic_reachable.step) (rule traffic_step.flush_begins, simp)
  moreover have "held_usage ?s2 7 = Usage 3 1 2"
    by (simp add: held_usage_def flush_take_def submit_amounts new_traffic_writer_def empty_batch_def sent_usage_def toy_update_usage)
  moreover have "ts_sent ?s2 = [toy_update]" by simp
  ultimately show ?thesis by blast
qed

theorem traffic_conserved_witness:
  "\<exists>(s :: traffic_sys) r'. ts_sent s = [toy_update] \<and> td_clients (ts_db s) 7 = Some r' \<and> r' + Usage 3 1 2 = Usage 10 4 6 + sent_usage [toy_update] 7"
proof -
  obtain s where s: "traffic_reachable toy_db s" "ts_sent s = [toy_update]" "held_usage s 7 = Usage 3 1 2"
    using toy_conserved_reachable by blast
  have "td_clients toy_db 7 = Some (Usage 10 4 6)" by (simp add: toy_db_def)
  from traffic_conserved [OF s(1) this] obtain r' where "td_clients (ts_db s) 7 = Some r'"
    "r' + held_usage s 7 = Usage 10 4 6 + sent_usage (ts_sent s) 7" by blast
  with s(2,3) show ?thesis by (intro exI [of _ s] exI [of _ r']) simp
qed

text \<open>
  When the read of the operators failed the batch is written all the same, and no operator is
  charged for it, now or later.
\<close>

lemma operators_uncharged:
  assumes "batch_ok b" "b \<noteq> empty_batch" "flush_end w db b False True bucket = (w', db')"
  shows "td_admins db' p = td_admins db p \<and> tw_held w' = tw_held w"
proof -
  have z: "owes (\<lambda>p c. False) p u = 0" for u :: "usage_delta idmap"
    unfolding owes_def by (induction u) auto
  have "td_admins (write_flush db b Map.empty bucket) p = td_admins db p"
    using write_flush_written [OF assms(1), of db Map.empty bucket p]
    by (simp add: Let_def z owner_of_def admin_of_def map_option_idI)
  then show ?thesis
    using assms(3) by (auto simp: flush_end_def split: if_splits)
qed

end
