(* ===== verification/Enforcer.thy ===== *)
theory Enforcer imports Enforce Traffic begin

text \<open>
  The enforcer around the table: what a drain of the counters comes to (nftjson.go
  usageOfCounters, usageOfQuotas), what the reconciler hands to the writer of it (reconciler.go
  collect), whether the kernel still holds what was written (verify.go) and Apply, which changes
  the table in place or writes it whole (nftables_linux.go), as a system of the enforcer's memory
  and the kernel's table.
\<close>

section \<open>What a drain comes to\<close>

record usage_entry =
  ue_amount :: usage_delta
  ue_files :: "usage_delta idmap"

type_synonym named_value = "string \<times> u64"

definition counted :: "bool \<Rightarrow> u64 \<Rightarrow> usage_delta" where
  "counted down n = Usage n (if down then 0 else n) (if down then n else 0)"

text \<open>What a file carried has no total of its own.\<close>

definition counted_file :: "bool \<Rightarrow> u64 \<Rightarrow> usage_delta" where
  "counted_file down n = Usage 0 (if down then 0 else n) (if down then n else 0)"

definition count_object :: "(string \<times> usage_entry) list \<Rightarrow> named_value \<Rightarrow> (string \<times> usage_entry) list" where
  "count_object out obj = (case obj of (name, n) \<Rightarrow>
     case parse_counter name of
       None \<Rightarrow> out
     | Some (key, account, down) \<Rightarrow>
         let e = (case map_of out key of None \<Rightarrow> \<lparr>ue_amount = 0, ue_files = []\<rparr> | Some e \<Rightarrow> e);
             e = e\<lparr>ue_amount := ue_amount e + counted down n\<rparr>
         in AList.update key
              (if account = 0 then e else e\<lparr>ue_files := add_amount (ue_files e) account (counted_file down n)\<rparr>) out)"

definition usage_of_counters :: "named_value list \<Rightarrow> (string \<times> usage_entry) list" where
  "usage_of_counters objs = foldl count_object [] objs"

definition usage_of_quotas :: "named_value list \<Rightarrow> (string \<times> u64) list" where
  "usage_of_quotas objs = concat (map (\<lambda>(name, n).
     if take 2 name = ''q_'' \<and> valid_key (drop 2 name) then [(drop 2 name, n)] else []) objs)"

text \<open>What the counters of a key say, added up.\<close>

definition said_of :: "string \<Rightarrow> named_value list \<Rightarrow> usage_delta" where
  "said_of k objs = sum_list (map (\<lambda>(name, n). case parse_counter name of
     None \<Rightarrow> 0 | Some (k', a, down) \<Rightarrow> if k' = k then counted down n else 0) objs)"

definition said_of_file :: "string \<Rightarrow> nat \<Rightarrow> named_value list \<Rightarrow> usage_delta" where
  "said_of_file k a objs = sum_list (map (\<lambda>(name, n). case parse_counter name of
     None \<Rightarrow> 0 | Some (k', a', down) \<Rightarrow> if k' = k \<and> a' = a then counted_file down n else 0) objs)"

definition entry_of :: "(string \<times> usage_entry) list \<Rightarrow> string \<Rightarrow> usage_entry" where
  "entry_of out k = (case map_of out k of None \<Rightarrow> \<lparr>ue_amount = 0, ue_files = []\<rparr> | Some e \<Rightarrow> e)"

lemma entry_of_count:
  "entry_of (count_object out (name, n)) k =
     (case parse_counter name of
        None \<Rightarrow> entry_of out k
      | Some (k', a, down) \<Rightarrow>
          if k' = k then
            \<lparr>ue_amount = ue_amount (entry_of out k) + counted down n,
             ue_files = (if a = 0 then ue_files (entry_of out k) else add_amount (ue_files (entry_of out k)) a (counted_file down n))\<rparr>
          else entry_of out k)"
  by (auto simp: count_object_def entry_of_def update_conv' Let_def split: option.split prod.split)

lemma usage_snoc: "usage_of_counters (objs @ [x]) = count_object (usage_of_counters objs) x"
  by (simp add: usage_of_counters_def)

lemma usage_said:
  "ue_amount (entry_of (usage_of_counters objs) k) = said_of k objs \<and>
   (a \<noteq> 0 \<longrightarrow> amount_of (ue_files (entry_of (usage_of_counters objs) k)) a = said_of_file k a objs)"
proof (induction objs rule: rev_induct)
  case Nil
  show ?case by (simp add: usage_of_counters_def entry_of_def said_of_def said_of_file_def amount_of_def)
next
  case (snoc x objs)
  obtain name n where x: "x = (name, n)" by (cases x)
  show ?case
  proof (cases "parse_counter name")
    case None
    then show ?thesis using snoc by (simp add: usage_snoc x entry_of_count said_of_def said_of_file_def)
  next
    case (Some p)
    obtain k' a' down where "p = (k', a', down)" by (cases p)
    with Some show ?thesis
      using snoc by (simp add: usage_snoc x entry_of_count said_of_def said_of_file_def amount_of_add)
  qed
qed

lemma usage_keys: "distinct (map fst (usage_of_counters objs)) \<and>
    (k \<in> fst ` set (usage_of_counters objs) \<longleftrightarrow> (\<exists>name n a down. (name, n) \<in> set objs \<and> parse_counter name = Some (k, a, down)))"
proof (induction objs rule: rev_induct)
  case Nil
  show ?case by (simp add: usage_of_counters_def)
next
  case (snoc x objs)
  obtain name n where x: "x = (name, n)" by (cases x)
  show ?case
  proof (cases "parse_counter name")
    case None
    then show ?thesis using snoc by (auto simp: usage_snoc x count_object_def)
  next
    case (Some p)
    obtain k' a' down where p: "p = (k', a', down)" by (cases p)
    have e: "\<exists>e. usage_of_counters (objs @ [x]) = AList.update k' e (usage_of_counters objs)"
      by (cases "a' = 0") (auto simp: usage_snoc x count_object_def Some p Let_def)
    then obtain e where e: "usage_of_counters (objs @ [x]) = AList.update k' e (usage_of_counters objs)" by blast
    have "fst ` set (usage_of_counters (objs @ [x])) = insert k' (fst ` set (usage_of_counters objs))"
      unfolding e by (simp add: dom_update)
    moreover have "distinct (map fst (usage_of_counters (objs @ [x])))"
      unfolding e by (rule distinct_update) (use snoc in blast)
    moreover have "(k = k' \<or> (\<exists>name n a down. (name, n) \<in> set objs \<and> parse_counter name = Some (k, a, down))) \<longleftrightarrow>
        (\<exists>name n a down. (name, n) \<in> set (objs @ [x]) \<and> parse_counter name = Some (k, a, down))"
      using Some p by (auto simp: x)
    ultimately show ?thesis using snoc by blast
  qed
qed
section \<open>What is handed to the writer\<close>

definition no_update :: traffic_update where
  "no_update = \<lparr>tu_key = [], tu_bytes = 0, tu_up = 0, tu_down = 0, tu_account = 0, tu_handshake = 0, tu_endpoint = [],
     tu_dev_up = 0, tu_dev_down = 0, tu_at = 0\<rparr>"

definition collect_one :: "instant \<Rightarrow> string \<Rightarrow> usage_entry \<Rightarrow> traffic_update list" where
  "collect_one now key e =
     (if client_id_from_key key = None \<or> ud_bytes (ue_amount e) = 0 then []
      else no_update\<lparr>tu_key := key, tu_bytes := ud_bytes (ue_amount e), tu_up := ud_up (ue_amount e),
             tu_down := ud_down (ue_amount e), tu_at := now\<rparr> #
        concat (map (\<lambda>(a, f). if a = 0 \<or> ud_up f + ud_down f = 0 then []
          else [no_update\<lparr>tu_account := a, tu_dev_up := ud_up f, tu_dev_down := ud_down f, tu_at := now\<rparr>]) (ue_files e)))"

definition collect_updates :: "instant \<Rightarrow> (string \<times> usage_entry) list \<Rightarrow> traffic_update list" where
  "collect_updates now drained = concat (map (\<lambda>(key, e). collect_one now key e) drained)"

text \<open>A customer's share of a drain: every counter whose key is theirs.\<close>

definition share_of :: "nat \<Rightarrow> named_value list \<Rightarrow> u64" where
  "share_of i objs = sum_list (map (\<lambda>(name, n). case parse_counter name of
     None \<Rightarrow> 0 | Some (k, a, down) \<Rightarrow> if client_id_from_key k = Some i then n else 0) objs)"

lemma sent_none: "usage_of u = None \<Longrightarrow> sent_usage (u # us) i = sent_usage us i"
  by (simp add: sent_usage_def)

lemma usage_of_device: "tu_key u = [] \<Longrightarrow> usage_of u = None"
  by (simp add: usage_of_def)

lemma sent_devices:
  "(\<And>u. u \<in> set us \<Longrightarrow> tu_key u = []) \<Longrightarrow> sent_usage us i = 0"
proof (induction us)
  case (Cons u us)
  then show ?case using sent_none [OF usage_of_device, of u] by simp
qed (simp add: sent_usage_def)

lemma sent_one: "ud_bytes (sent_usage (collect_one now key e) i) =
    (if client_id_from_key key = Some i then ud_bytes (ue_amount e) else 0)"
proof (cases "client_id_from_key key = None \<or> ud_bytes (ue_amount e) = 0")
  case True
  then show ?thesis by (auto simp: collect_one_def sent_usage_def)
next
  case False
  let ?d = "concat (map (\<lambda>(a, f). if a = 0 \<or> ud_up f + ud_down f = 0 then []
     else [no_update\<lparr>tu_account := a, tu_dev_up := ud_up f, tu_dev_down := ud_down f, tu_at := now\<rparr>]) (ue_files e))"
  have "sent_usage ?d i = 0" by (rule sent_devices) (auto simp: no_update_def split: if_splits)
  moreover have "key \<noteq> []" using False by (auto simp: client_id_from_key_def)
  ultimately show ?thesis
    using False unfolding collect_one_def if_not_P [OF False] sent_usage_Cons [of _ ?d]
    by (auto simp: sent_usage_def usage_of_def no_update_def word_gt_0 split: prod.split)
qed

lemma sent_collected:
  "ud_bytes (sent_usage (collect_updates now out) i) =
     sum_list (map (\<lambda>(key, e). if client_id_from_key key = Some i then ud_bytes (ue_amount e) else 0) out)"
  by (induction out) (auto simp: collect_updates_def sent_append sent_one, simp add: sent_usage_def)

lemma said_of_Cons: "said_of k ((name, n) # objs) =
    (case parse_counter name of None \<Rightarrow> 0 | Some (k', a, down) \<Rightarrow> if k' = k then counted down n else 0) + said_of k objs"
  by (simp add: said_of_def)

lemma said_over: "finite K \<Longrightarrow> (\<Sum>k \<in> K. ud_bytes (said_of k objs)) =
    sum_list (map (\<lambda>(name, n). case parse_counter name of None \<Rightarrow> 0 | Some (k', a, down) \<Rightarrow> if k' \<in> K then n else 0) objs)"
proof (induction objs)
  case (Cons x objs)
  obtain name n where x: "x = (name, n)" by (cases x)
  show ?case
  proof (cases "parse_counter name")
    case None
    then show ?thesis using Cons by (simp add: x said_of_Cons)
  next
    case (Some p)
    obtain k' a down where p: "p = (k', a, down)" by (cases p)
    have "(\<Sum>k \<in> K. ud_bytes ((if k' = k then counted down n else 0) + said_of k objs)) =
        (\<Sum>k \<in> K. (if k' = k then n else 0)) + (\<Sum>k \<in> K. ud_bytes (said_of k objs))"
      unfolding sum.distrib [symmetric] by (intro sum.cong refl) (simp add: counted_def)
    then show ?thesis using Cons by (simp add: x said_of_Cons Some p sum.delta)
  qed
qed (simp add: said_of_def)

lemma drain_shares:
  "ud_bytes (sent_usage (collect_updates now (usage_of_counters objs)) i) = share_of i objs"
proof -
  let ?out = "usage_of_counters objs"
  let ?K = "{k \<in> fst ` set ?out. client_id_from_key k = Some i}"
  have d: "distinct (map fst ?out)" using usage_keys by blast
  have e: "(key, e) \<in> set ?out \<Longrightarrow> ue_amount e = said_of key objs" for key e
    using usage_said [of objs key] d by (simp add: entry_of_def)
  have "sum_list (map (\<lambda>(key, e). if client_id_from_key key = Some i then ud_bytes (ue_amount e) else 0) ?out) =
      sum_list (map (\<lambda>k. if client_id_from_key k = Some i then ud_bytes (said_of k objs) else 0) (map fst ?out))"
    unfolding map_map by (intro arg_cong [where f = sum_list] map_cong refl) (auto simp: e)
  also have "\<dots> = (\<Sum>k \<in> fst ` set ?out. if client_id_from_key k = Some i then ud_bytes (said_of k objs) else 0)"
    using sum_list_distinct_conv_sum_set [OF d] by simp
  also have "\<dots> = (\<Sum>k \<in> ?K. ud_bytes (said_of k objs))"
    by (rule sum.inter_filter [symmetric]) simp
  also have "\<dots> = sum_list (map (\<lambda>(name, n). case parse_counter name of None \<Rightarrow> 0 | Some (k', a, down) \<Rightarrow> if k' \<in> ?K then n else 0) objs)"
    by (rule said_over) simp
  also have "\<dots> = share_of i objs"
    unfolding share_of_def using usage_keys [of objs]
    by (intro arg_cong [where f = sum_list] map_cong refl) (fastforce split: option.split)
  finally show ?thesis unfolding sent_collected .
qed

text \<open>
  C7. Nothing drained is lost on its way to the writer's buffer: what a customer's entry grows by
  is the sum of every counter whose name is theirs, whichever files and directions the drain named
  and in whichever order.
\<close>
theorem drained_reaches_buffer:
  "ud_bytes (amount_of (tb_usage (submit b (collect_updates now (usage_of_counters objs)))) i) =
     ud_bytes (amount_of (tb_usage b) i) + share_of i objs"
  by (simp add: submit_amounts(1) drain_shares)

section \<open>Does the kernel still hold it\<close>

definition rule_keys :: "enforce_rule list \<Rightarrow> string list option" where
  "rule_keys rules = map_option (\<lambda>rs. filter (\<lambda>k. owned_files rs k \<noteq> []) (remdups (map er_key rs))) (sorted_rules rules)"

definition missing_keys :: "string list \<Rightarrow> string list \<Rightarrow> string list" where
  "missing_keys applied seen = sort (filter (\<lambda>k. k \<notin> set seen) applied)"

lemma missing_none: "missing_keys applied seen = [] \<longleftrightarrow> set applied \<subseteq> set seen"
proof -
  have "missing_keys applied seen = [] \<longleftrightarrow> set (missing_keys applied seen) = {}" by simp
  then show ?thesis by (auto simp: missing_keys_def)
qed

section \<open>Apply\<close>

text \<open>
  What is given to nft -f: the program for the whole table, or a change. Loading is one
  transaction, done or refused as the kernel takes its commands; the whole program deletes the table
  and declares it again, so its commands meet a table that holds nothing.
\<close>

datatype nft_program = WholeTable whole_table | ChangeTable "nft_cmd list"

definition program_text :: "nft_program \<Rightarrow> string" where
  "program_text p = (case p of
     WholeTable wt \<Rightarrow> whole_text wt
   | ChangeTable cs \<Rightarrow> concat (map cmd_text cs))"

definition nft_load :: "nft_program \<Rightarrow> nft_table option \<Rightarrow> nft_table option" where
  "nft_load p t = (case p of
     WholeTable wt \<Rightarrow> nft_run (whole_cmds wt) empty_table
   | ChangeTable cs \<Rightarrow> (case t of None \<Rightarrow> None | Some t \<Rightarrow> nft_run cs t))"

record enforcer =
  en_state :: "table_state option"
  en_ready :: bool
  en_applies :: nat
  en_keys :: "string list option"

record enforcer_sys =
  sy_enf :: enforcer
  sy_kernel :: "nft_table option"

datatype apply_error = InvalidRule | NftFailed

definition new_enforcer :: enforcer where
  "new_enforcer = \<lparr>en_state = None, en_ready = False, en_applies = 0, en_keys = None\<rparr>"

text \<open>run, for a program: a failure of nft's own, fault, or a refusal forgets what was written.\<close>

definition run_nft :: "bool \<Rightarrow> nft_program \<Rightarrow> enforcer_sys \<Rightarrow> bool \<times> enforcer_sys" where
  "run_nft fault p s =
     (case (if fault then None else nft_load p (sy_kernel s)) of
        None \<Rightarrow> (False, s\<lparr>sy_enf := (sy_enf s)\<lparr>en_state := None\<rparr>\<rparr>)
      | Some t \<Rightarrow> (True, s\<lparr>sy_kernel := Some t\<rparr>))"

definition write_whole :: "bool \<Rightarrow> enforce_rule list \<Rightarrow> bool \<Rightarrow> table_state \<Rightarrow> enforcer_sys \<Rightarrow> apply_error option \<times> enforcer_sys" where
  "write_whole fault rules caps_quota want s =
     (case build_ruleset rules caps_quota of
        None \<Rightarrow> (Some InvalidRule, s)
      | Some wt \<Rightarrow> (case run_nft fault (WholeTable wt) s of (ok, s') \<Rightarrow>
          if ok then (None, s'\<lparr>sy_enf := (sy_enf s')\<lparr>en_state := Some want, en_keys := rule_keys rules, en_ready := True\<rparr>\<rparr>)
          else (Some NftFailed, s')))"

abbreviation (input) driftEvery :: nat where "driftEvery \<equiv> 15"

text \<open>
  Apply. looks is what tablePresent answers, tallies what reading the quotas gives, fault1 and
  fault2 whether nft itself fails on the change and on the whole table.
\<close>

definition enforcer_apply :: "enforce_rule list \<Rightarrow> bool \<Rightarrow> bool \<Rightarrow> (string \<Rightarrow> nat option) \<Rightarrow> bool \<Rightarrow> bool \<Rightarrow> enforcer_sys
    \<Rightarrow> apply_error option \<times> enforcer_sys" where
  "enforcer_apply rules caps_quota looks tallies fault1 fault2 s =
     (case desired_state rules caps_quota of
        None \<Rightarrow> (Some InvalidRule, s)
      | Some want \<Rightarrow>
          let e = sy_enf s;
              present = (\<not> en_ready e \<or> looks)
          in case (if present then en_state e else None) of
              None \<Rightarrow> write_whole fault2 rules caps_quota want s
            | Some have_st \<Rightarrow>
                let n = en_applies e + 1;
                    u = (if n mod driftEvery = 0 then tallies else (\<lambda>_. None));
                    s1 = s\<lparr>sy_enf := e\<lparr>en_applies := n\<rparr>\<rparr>;
                    cmds = change_cmds have_st want u;
                    nx = change_next have_st want u
                in if cmds = [] then (None, s1\<lparr>sy_enf := (sy_enf s1)\<lparr>en_state := Some nx\<rparr>\<rparr>)
                   else case run_nft fault1 (ChangeTable cmds) s1 of (ok, s2) \<Rightarrow>
                     if ok then (None, s2\<lparr>sy_enf := (sy_enf s2)\<lparr>en_state := Some nx, en_keys := rule_keys rules\<rparr>\<rparr>)
                     else write_whole fault2 rules caps_quota want s2)"

text \<open>forget and ResetQuota: the next apply writes the table whole.\<close>

definition forget_table :: "enforcer \<Rightarrow> enforcer" where
  "forget_table e = e\<lparr>en_state := None, en_keys := None\<rparr>"

definition verify_drained :: "named_value list \<Rightarrow> enforcer \<Rightarrow> enforcer" where
  "verify_drained objs e =
     (case en_keys e of
        None \<Rightarrow> e
      | Some keys \<Rightarrow> if missing_keys keys (map fst (usage_of_counters objs)) = [] then e else forget_table e)"

text \<open>
  What can happen: a tick, with whatever answers and failures; a drain; quotas reset; another call
  of nft that fails; and the table being removed by another program.
\<close>

inductive enforcer_step :: "enforcer_sys \<Rightarrow> enforcer_sys \<Rightarrow> bool" where
  tick: "rules_wf rules \<Longrightarrow> enforcer_step s (snd (enforcer_apply rules caps_quota looks tallies fault1 fault2 s))"
| drained: "enforcer_step s (s\<lparr>sy_enf := verify_drained objs (sy_enf s)\<rparr>)"
| reset: "enforcer_step s (s\<lparr>sy_enf := forget_table (sy_enf s)\<rparr>)"
| failed: "enforcer_step s (s\<lparr>sy_enf := (sy_enf s)\<lparr>en_state := None\<rparr>\<rparr>)"
| removed: "enforcer_step s (s\<lparr>sy_kernel := None\<rparr>)"

inductive enforcer_reachable :: "enforcer_sys \<Rightarrow> bool" where
  start: "enforcer_reachable \<lparr>sy_enf = new_enforcer, sy_kernel = t\<rparr>"
| step: "enforcer_reachable s \<Longrightarrow> enforcer_step s s' \<Longrightarrow> enforcer_reachable s'"

definition enforcer_inv :: "enforcer_sys \<Rightarrow> bool" where
  "enforcer_inv s \<longleftrightarrow> (case en_state (sy_enf s) of
     None \<Rightarrow> True
   | Some st \<Rightarrow> en_ready (sy_enf s) \<and> state_ok st \<and> (sy_kernel s = None \<or> sy_kernel s = Some (table_of st)))"

text \<open>
  The change an apply finds to make: the difference of what is remembered and what the rules ask
  for, with the tallies read every fifteenth time.
\<close>

definition change_found :: "table_state \<Rightarrow> (string \<Rightarrow> nat option) \<Rightarrow> enforcer_sys \<Rightarrow> nft_cmd list option" where
  "change_found want tallies s = map_option (\<lambda>h. change_cmds h want (if (en_applies (sy_enf s) + 1) mod driftEvery = 0 then tallies else (\<lambda>_. None)))
     (en_state (sy_enf s))"

text \<open>What an apply with valid rules comes to.\<close>

definition applied_well :: "enforce_rule list \<Rightarrow> bool \<Rightarrow> enforcer_sys \<Rightarrow> bool" where
  "applied_well rules caps_quota s \<longleftrightarrow> (\<exists>st w. desired_state rules caps_quota = Some w \<and> en_state (sy_enf s) = Some st \<and>
     written_as st w \<and> sy_kernel s = Some (table_of st))"

lemma write_whole_cases:
  assumes "desired_state rules caps_quota = Some want" "rules_wf rules" "write_whole fault rules caps_quota want s = (r, s')"
  shows "enforcer_inv s' \<and> r = (if fault then Some NftFailed else None) \<and> (r = None \<longrightarrow> applied_well rules caps_quota s')"
proof -
  obtain wt where wt: "build_ruleset rules caps_quota = Some wt" using assms(1) ruleset_built by fastforce
  show ?thesis
    using assms desired_state_ok [OF assms(1,2)] whole_runs [OF wt assms(1,2)]
    by (auto simp: write_whole_def wt run_nft_def nft_load_def enforcer_inv_def applied_well_def split: if_splits)
qed

lemma write_whole_done:
  assumes "desired_state rules caps_quota = Some want" "rules_wf rules"
  shows "write_whole False rules caps_quota want s =
    (None, s\<lparr>sy_enf := (sy_enf s)\<lparr>en_state := Some want, en_keys := rule_keys rules, en_ready := True\<rparr>, sy_kernel := Some (table_of want)\<rparr>)"
proof -
  obtain wt where wt: "build_ruleset rules caps_quota = Some wt" using assms(1) ruleset_built by fastforce
  show ?thesis using whole_runs [OF wt assms] by (simp add: write_whole_def wt run_nft_def nft_load_def)
qed

lemma apply_cases:
  assumes inv: "enforcer_inv s" and wf: "rules_wf rules" and want: "desired_state rules caps_quota = Some w"
    and a: "enforcer_apply rules caps_quota looks tallies fault1 fault2 s = (r, s')"
  shows "enforcer_inv s' \<and>
    r = (if \<not> fault2 then None
         else case change_found w tallies s of
             None \<Rightarrow> Some NftFailed
           | Some cmds \<Rightarrow> if looks \<and> (cmds = [] \<or> \<not> fault1 \<and> sy_kernel s \<noteq> None) then None else Some NftFailed) \<and>
    (r = None \<longrightarrow> looks = (sy_kernel s \<noteq> None) \<longrightarrow> applied_well rules caps_quota s')"
proof (cases "if \<not> en_ready (sy_enf s) \<or> looks then en_state (sy_enf s) else None")
  case None
  then have "write_whole fault2 rules caps_quota w s = (r, s')" using a want by (simp add: enforcer_apply_def Let_def)
  moreover have "en_state (sy_enf s) = None \<or> \<not> looks" using None by (auto split: if_splits)
  ultimately show ?thesis using write_whole_cases [OF want wf, of fault2 s r s'] by (auto simp: change_found_def split: option.split)
next
  case (Some h)
  let ?n = "en_applies (sy_enf s) + 1"
  let ?u = "if ?n mod driftEvery = 0 then tallies else (\<lambda>_. None)"
  let ?s1 = "s\<lparr>sy_enf := (sy_enf s)\<lparr>en_applies := ?n\<rparr>\<rparr>"
  have st: "en_state (sy_enf s) = Some h" using Some by (auto split: if_splits)
  then have ready: "en_ready (sy_enf s)" "state_ok h" and k: "sy_kernel s = None \<or> sy_kernel s = Some (table_of h)"
    using inv by (auto simp: enforcer_inv_def)
  then have looks: "looks" using Some by (auto split: if_splits)
  have okw: "state_ok w" by (rule desired_state_ok [OF want wf])
  note run = change_runs [OF ready(2) okw, of ?u]
  have nx: "state_ok (change_next h w ?u)" "written_as (change_next h w ?u) w"
    using change_next_ok [OF ready(2) okw] change_next_written [OF ready(2) okw] by blast+
  have found: "change_found w tallies s = Some (change_cmds h w ?u)" by (simp add: change_found_def st)
  show ?thesis
  proof (cases "change_cmds h w ?u = []")
    case True
    then have s': "r = None" "s' = ?s1\<lparr>sy_enf := (sy_enf ?s1)\<lparr>en_state := Some (change_next h w ?u)\<rparr>\<rparr>"
      using a want Some by (auto simp: enforcer_apply_def Let_def)
    have "table_of h = table_of (change_next h w ?u)" using run True by simp
    then show ?thesis using s' k nx ready want looks found True by (auto simp: enforcer_inv_def applied_well_def)
  next
    case False
    obtain ok s2 where r: "run_nft fault1 (ChangeTable (change_cmds h w ?u)) ?s1 = (ok, s2)" by fastforce
    show ?thesis
    proof (cases ok)
      case True
      then have s': "r = None" "s' = s2\<lparr>sy_enf := (sy_enf s2)\<lparr>en_state := Some (change_next h w ?u), en_keys := rule_keys rules\<rparr>\<rparr>"
        using a want Some False r by (auto simp: enforcer_apply_def Let_def)
      have "sy_kernel s \<noteq> None" "s2 = ?s1\<lparr>sy_kernel := Some (table_of (change_next h w ?u))\<rparr>"
        and "\<not> fault1"
        using r True k run by (auto simp: run_nft_def nft_load_def split: if_splits option.splits)
      then show ?thesis using s' nx ready want found looks by (auto simp: enforcer_inv_def applied_well_def)
    next
      case no: False
      then have "write_whole fault2 rules caps_quota w s2 = (r, s')"
        using a want Some False r by (simp add: enforcer_apply_def Let_def)
      moreover have "fault1 \<or> sy_kernel s = None"
        using r no k run by (auto simp: run_nft_def nft_load_def split: if_splits option.splits)
      ultimately show ?thesis using write_whole_cases [OF want wf, of fault2 s2 r s'] found False by auto
    qed
  qed
qed

lemma step_inv:
  assumes "enforcer_step s s'" "enforcer_inv s"
  shows "enforcer_inv s'"
  using assms
proof (cases rule: enforcer_step.cases)
  case (tick rules caps_quota looks tallies fault1 fault2)
  obtain r s'' where a: "enforcer_apply rules caps_quota looks tallies fault1 fault2 s = (r, s'')" by fastforce
  show ?thesis
  proof (cases "desired_state rules caps_quota")
    case None
    then show ?thesis using tick assms(2) by (simp add: enforcer_apply_def)
  next
    case (Some w)
    then show ?thesis using apply_cases [OF assms(2) tick(2) Some a] tick(1) a by simp
  qed
qed (auto simp: enforcer_inv_def verify_drained_def forget_table_def split: option.splits)

lemma reachable_inv: "enforcer_reachable s \<Longrightarrow> enforcer_inv s"
proof (induction rule: enforcer_reachable.induct)
  case (step s s')
  then show ?case using step_inv by blast
qed (simp add: enforcer_inv_def new_enforcer_def)

text \<open>
  C2. Whatever happened before - ticks with failures, drains, resets, the table removed by another
  program - an Apply of rules with each key and each of a rule's files once, that returns no error
  and was told truly whether the table is there, leaves in the kernel exactly the table of what is
  remembered, which asks for what the rules ask for: every customer's chains, counters, limit and
  addresses, and nothing of anybody else's. Whether the table was changed or written whole, it is
  what the commands of the program sent leave in the kernel.
\<close>
theorem applied_is_enforced:
  assumes "enforcer_reachable s" "rules_wf rules"
    and "enforcer_apply rules caps_quota looks tallies fault1 fault2 s = (None, s')" "looks = (sy_kernel s \<noteq> None)"
  shows "\<exists>st w. desired_state rules caps_quota = Some w \<and> en_state (sy_enf s') = Some st \<and> written_as st w \<and>
    sy_kernel s' = Some (table_of st)"
proof -
  obtain w where w: "desired_state rules caps_quota = Some w"
    using assms(3) by (auto simp: enforcer_apply_def split: option.splits)
  show ?thesis
    using apply_cases [OF reachable_inv [OF assms(1)] assms(2) w assms(3)] assms(4) by (simp add: applied_well_def)
qed

text \<open>
  C3. When an Apply fails, whatever happened before, for rules with each key and each of a rule's
  files once: for a key the package does not make, and else only when nft itself fails on the whole
  table and the whole table had to be written - nothing was remembered, the table looked gone, or
  there was a change to make and nft itself failed on it or the table was gone. So the kernel
  refuses neither a change that is sent to a table still there nor the program for the whole table.
\<close>
theorem apply_succeeds:
  assumes "enforcer_reachable s" "rules_wf rules"
  shows "fst (enforcer_apply rules caps_quota looks tallies fault1 fault2 s) =
    (case desired_state rules caps_quota of
       None \<Rightarrow> Some InvalidRule
     | Some want \<Rightarrow>
         if \<not> fault2 then None
         else case change_found want tallies s of
             None \<Rightarrow> Some NftFailed
           | Some cmds \<Rightarrow> if looks \<and> (cmds = [] \<or> \<not> fault1 \<and> sy_kernel s \<noteq> None) then None else Some NftFailed) \<and>
    (desired_state rules caps_quota = None \<longleftrightarrow> (\<exists>r \<in> set rules. \<not> valid_key (er_key r)))"
proof -
  have v: "desired_state rules caps_quota = None \<longleftrightarrow> (\<exists>r \<in> set rules. \<not> valid_key (er_key r))"
    by (auto simp: desired_state_def sorted_rules_def Let_def list_all_iff)
  obtain r s' where a: "enforcer_apply rules caps_quota looks tallies fault1 fault2 s = (r, s')" by fastforce
  show ?thesis
  proof (cases "desired_state rules caps_quota")
    case None
    then show ?thesis using v by (simp add: enforcer_apply_def)
  next
    case (Some w)
    then show ?thesis using apply_cases [OF reachable_inv [OF assms(1)] assms(2) Some a] a v by simp
  qed
qed

section \<open>Counters outlive a change\<close>

lemma wanted_not_deleted:
  assumes ok: "state_ok h" "state_ok w"
    and n: "n \<in> nt_counters (table_of h)" "n \<in> nt_counters (table_of w)" and c: "c \<in> set (change_cmds h w u)"
  shows "c \<noteq> DeleteObject (CounterObj n) \<and> c \<noteq> AddObject (CounterObj n)"
proof -
  let ?C = "key_change_of h w u"
  obtain j s where j: "map_of h j = Some s" "n \<in> counters_of j s"
    using n(1) in_state [OF ok(1)] by (auto simp: table_of_def)
  obtain k t where k: "map_of w k = Some t" "n \<in> counters_of k t"
    using n(2) in_state [OF ok(2)] by (auto simp: table_of_def)
  have jk: "j = k"
    using owned_disjoint [OF state_okD(1) [OF ok(1) j(1)] state_okD(1) [OF ok(2) k(1)]]
      subsetD [OF counters_owned j(2)] subsetD [OF counters_owned k(2)] by blast
  obtain t' where t': "kc_next (?C k) = Some t'" "asks_same t' t"
    using change_next_written [OF ok, of u] k(1) unfolding written_as_iff change_next_map [OF ok]
    by (metis option_rel_Some2)
  have next_n: "n \<in> part (counters_of k) (kc_next (?C k))"
    using t' k(2) asks_sameD(1) [OF t'(2)] by (simp add: part_def counters_of_def)
  have had_n: "n \<in> part (counters_of k) (map_of h k)" using j jk by (simp add: part_def)
  have not_here: "n \<notin> obj_counters (kc_del_obj (?C k))" "n \<notin> obj_counters (kc_add_obj (?C k))"
    using key_counters [OF ok, of u k] next_n had_n by blast+
  have not_there: "n \<notin> obj_counters (kc_del_obj (?C i)) \<and> n \<notin> obj_counters (kc_add_obj (?C i))"
    if "i \<in> set (change_keys h w)" "i \<noteq> k" for i
  proof -
    have "owned_counters i \<inter> owned_counters k = {}" by (rule owned_disjoint [OF valid_changed [OF ok that(1)] state_okD(1) [OF ok(2) k(1)] that(2)])
    then have "n \<notin> owned_counters i" using subsetD [OF counters_owned k(2)] by blast
    then show ?thesis using key_objects_owned [OF ok, of u i] by blast
  qed
  have none: "n \<notin> obj_counters (concat (map kc_del_obj (map ?C (change_keys h w))))" "n \<notin> obj_counters (concat (map kc_add_obj (map ?C (change_keys h w))))"
    unfolding objects_set using not_here not_there by blast+
  have "c \<in> set (map DeleteObject (concat (map kc_del_obj (map ?C (change_keys h w))))) \<Longrightarrow> c \<noteq> DeleteObject (CounterObj n)"
    "c \<in> set (map AddObject (concat (map kc_add_obj (map ?C (change_keys h w))))) \<Longrightarrow> c \<noteq> AddObject (CounterObj n)"
    using none by (auto simp: obj_counters_def)
  then show ?thesis
    using c unfolding change_cmds_def Let_def set_append Un_iff by (auto simp: elements_cmd_def split: if_splits)
qed

text \<open>
  C4. No byte between two drains is lost to a change: a counter that is in the table and is still
  wanted is neither deleted nor made anew by any command of the change.
\<close>
theorem counters_survive_change:
  assumes "enforcer_reachable s" "en_state (sy_enf s) = Some h" "rules_wf rules" "desired_state rules caps_quota = Some w"
    and "n \<in> nt_counters (table_of h)" "n \<in> nt_counters (table_of w)" "c \<in> set (change_cmds h w u)"
  shows "c \<noteq> DeleteObject (CounterObj n) \<and> c \<noteq> AddObject (CounterObj n)"
proof (rule wanted_not_deleted [OF _ desired_state_ok [OF assms(4,3)] assms(5-7)])
  show "state_ok h" using reachable_inv [OF assms(1)] assms(2) by (simp add: enforcer_inv_def)
qed

section \<open>A drain of what was written\<close>

lemma own_files_account: "own_files seen fs = (out, seen') \<Longrightarrow> (a, x) \<in> set out \<Longrightarrow> a \<noteq> 0 \<and> a \<in> ef_account ` set fs"
proof (induction seen fs arbitrary: out seen' rule: own_files.induct)
  case (2 seen f fs)
  show ?case
  proof (cases "ip_unmap (ef_addr f)")
    case (IP4 b)
    show ?thesis
    proof (cases "b \<in> set seen \<or> ef_account f = 0")
      case True
      then show ?thesis using "2.IH"(2) [OF IP4 True] "2.prems" IP4 by auto
    next
      case False
      obtain o' s' where o: "own_files (b # seen) fs = (o', s')" by fastforce
      have "out = (ef_account f, b) # o'" using "2.prems" IP4 False o by auto
      then show ?thesis using "2.IH"(3) [OF IP4 False o] "2.prems"(2) False by auto
    qed
  qed (use "2.IH"(1,4) "2.prems" in auto)
qed simp

lemma owned_account:
  "(a, x) \<in> set (fst (foldl own_step (\<lambda>_. [], []) rs) k) \<Longrightarrow> a \<noteq> 0 \<and> (\<exists>r \<in> set rs. a \<in> ef_account ` set (er_files r))"
proof (induction rs rule: rev_induct)
  case (snoc r rs)
  obtain out seen where p: "foldl own_step (\<lambda>_. [], []) rs = (out, seen)" by fastforce
  obtain kept seen' where o: "own_files seen (er_files r) = (kept, seen')" by fastforce
  have "foldl own_step (\<lambda>_. [], []) (rs @ [r]) = own_step (out, seen) r" by (simp only: foldl_append foldl.simps p)
  then have "foldl own_step (\<lambda>_. [], []) (rs @ [r]) = (out(er_key r := out (er_key r) @ kept), seen')" by (simp add: own_step_def o)
  then have "(a, x) \<in> set (out k) \<or> (a, x) \<in> set kept" using snoc.prems by (auto split: if_splits)
  then show ?case using snoc.IH own_files_account [OF o] by (auto simp: p)
qed simp

text \<open>
  What was written is recognised when it is drained: a drain that names every counter of the
  table of the rules just written finds no key missing, so the enforcer does not write the table
  again for its own sake.
\<close>
lemma verify_accepts_own_table:
  assumes "rules_wf rules" "desired_state rules caps_quota = Some w" "\<forall>r \<in> set rules. \<forall>f \<in> set (er_files r). ef_account f < 2 ^ 64"
    and "nt_counters (table_of w) \<subseteq> fst ` set objs" "en_keys e = rule_keys rules"
  shows "verify_drained objs e = e"
proof -
  let ?s = "sort_key er_key rules"
  have srt: "sorted_rules rules = Some ?s" using assms(2) by (auto simp: desired_state_def sorted_rules_def Let_def split: if_splits)
  have "k \<in> fst ` set (usage_of_counters objs)" if k: "k \<in> er_key ` set rules" "owned_files ?s k \<noteq> []" for k
  proof -
    obtain r where r: "find (\<lambda>r. er_key r = k) ?s = Some r"
      using k(1) find_None_iff [of "\<lambda>r. er_key r = k" ?s] by (cases "find (\<lambda>r. er_key r = k) ?s") auto
    then have rk: "er_key r = k" by (auto simp: find_Some_iff)
    obtain a x where f: "(a, x) \<in> set (owned_files ?s k)" using k(2) by (cases "owned_files ?s k") auto
    have w: "map_of w k = Some (state_of_rule caps_quota (owned_files ?s) r)"
      unfolding desired_map(1) [OF assms(2,1)] r by simp
    have "down_counter k a \<in> counters_of k (state_of_rule caps_quota (owned_files ?s) r)"
      using f rk by (force simp: counters_of_def state_of_rule_def Let_def)
    then have "down_counter k a \<in> nt_counters (table_of w)"
      using map_of_SomeD [OF w] by (force simp: table_of_def)
    then obtain n where n: "(down_counter k a, n) \<in> set objs" using assms(4) by force
    have "a \<noteq> 0" "a < 2 ^ 64"
      using owned_account [of a x ?s k] f assms(3) unfolding owned_files_step by auto
    moreover have "valid_key k" using desired_map(3) [OF assms(2,1)] k(1) by (auto simp: list_all_iff)
    ultimately have "parse_counter (down_counter k a) = Some (k, a, True)" by (intro parse_file_counter(1)) auto
    then show ?thesis using n usage_keys [of objs k] by blast
  qed
  then have "missing_keys (filter (\<lambda>k. owned_files ?s k \<noteq> []) (remdups (map er_key ?s))) (map fst (usage_of_counters objs)) = []"
    unfolding missing_none by auto
  then show ?thesis using assms(5) by (simp add: verify_drained_def rule_keys_def srt)
qed

section \<open>On concrete rules\<close>

definition toy_rules :: "nat \<Rightarrow> enforce_rule list" where
  "toy_rules limit = [\<lparr>er_key = ''c7'', er_files = [\<lparr>ef_account = 12, ef_addr = IP4 [10, 0, 0, 2]\<rparr>], er_quota = limit, er_used = 10,
     er_rate = 0, er_blocked = False\<rparr>]"

definition toy_want :: "nat \<Rightarrow> table_state" where
  "toy_want limit = [(''c7'', \<lparr>cs_files = [(12, [10, 0, 0, 2])],
     cs_down = [QuotaDrop (quota_name ''c7''), CountFile Daddr [10, 0, 0, 2] (down_counter ''c7'' 12)],
     cs_up = [QuotaDrop (quota_name ''c7''), CountFile Saddr [10, 0, 0, 2] (up_counter ''c7'' 12)], cs_quota = limit, cs_used = 10,
     cs_seen = 10\<rparr>)]"

definition toy_start :: enforcer_sys where
  "toy_start = \<lparr>sy_enf = new_enforcer, sy_kernel = None\<rparr>"

lemma toy_facts:
  "desired_state (toy_rules 1000) True = Some (toy_want 1000)" "desired_state (toy_rules 2000) True = Some (toy_want 2000)"
  "rules_wf (toy_rules 1000)" "rules_wf (toy_rules 2000)" "enforcer_reachable toy_start"
  by (code_simp, code_simp, code_simp, code_simp, simp add: toy_start_def enforcer_reachable.start)

definition toy_written :: enforcer_sys where
  "toy_written = snd (enforcer_apply (toy_rules 1000) True False (\<lambda>_. None) False False toy_start)"

lemma toy_apply: "enforcer_apply (toy_rules 1000) True False (\<lambda>_. None) False False toy_start = (None, toy_written)"
  by (simp add: toy_written_def enforcer_apply_def toy_facts(1) toy_start_def new_enforcer_def Let_def write_whole_done [OF toy_facts(1,3)])

lemma toy_written: "enforcer_reachable toy_written" "en_state (sy_enf toy_written) = Some (toy_want 1000)"
  "en_keys (sy_enf toy_written) = rule_keys (toy_rules 1000)" "sy_kernel toy_written = Some (table_of (toy_want 1000))"
  unfolding toy_written_def by (rule enforcer_reachable.step [OF toy_facts(5) enforcer_step.tick [OF toy_facts(3)]])
    (simp_all add: enforcer_apply_def toy_facts(1) toy_start_def new_enforcer_def Let_def write_whole_done [OF toy_facts(1,3)])

theorem applied_is_enforced_witness:
  "\<exists>st. en_state (sy_enf toy_written) = Some st \<and> written_as st (toy_want 1000) \<and> sy_kernel toy_written = Some (table_of st)"
  using applied_is_enforced [OF toy_facts(5,3) toy_apply] by (simp add: toy_facts(1) toy_start_def)

theorem apply_succeeds_witness:
  "fst (enforcer_apply (toy_rules 2000) True True (\<lambda>_. None) False True toy_written) = None"
  using apply_succeeds [OF toy_written(1) toy_facts(4), of True True "\<lambda>_. None" False True]
  by (simp add: toy_facts(2) toy_written(2,4) change_found_def)

lemma toy_counter: "down_counter ''c7'' 12 \<in> nt_counters (table_of (toy_want limit))"
  by (simp add: toy_want_def table_of_def counters_of_def)

lemma toy_change: "AddObject (QuotaObj ''q_c7'' 2000 10) \<in> set (change_cmds (toy_want 1000) (toy_want 2000) (\<lambda>_. None))"
  by code_simp

theorem counters_survive_change_witness:
  "AddObject (QuotaObj ''q_c7'' 2000 10) \<noteq> DeleteObject (CounterObj (down_counter ''c7'' 12)) \<and>
   AddObject (QuotaObj ''q_c7'' 2000 10) \<noteq> AddObject (CounterObj (down_counter ''c7'' 12))"
  by (rule counters_survive_change [OF toy_written(1,2) toy_facts(4,2) toy_counter toy_counter toy_change])

end
