(* ===== verification/Seal.thy ===== *)
theory Seal imports Chunk begin

text \<open>
  Archives sealed with the operator's password (internal/backup/seal.go): the writer that seals
  them a chunk at a time and the reader that opens them. scrypt with AES-256-GCM under the derived
  key is a parameter that gives an AEAD or fails; the io.Writer below the sealer takes of every
  write as many bytes as the parameter says, and fails where it takes fewer; the file an opener
  reads is its bytes.
\<close>

abbreviation (input) sealChunk :: nat where "sealChunk \<equiv> 65536"
abbreviation (input) sealSaltSize :: nat where "sealSaltSize \<equiv> 16"
abbreviation (input) sealNonceBase :: nat where "sealNonceBase \<equiv> 7"

definition seal_magic :: bytes where
  "seal_magic = [0x57, 0x55, 0x49, 0x42, 0x41, 0x4B, 0x31, 0x0A]"

datatype seal_error = ErrTooShort | ErrNotSealed | ErrNoPassword | ErrKey | ErrWrongPassword
  | ErrWriteAfterClose | ErrTooLarge | ErrWriter | SlicePanic

definition seal_nonce :: "bytes \<Rightarrow> u32 \<Rightarrow> bool \<Rightarrow> bytes" where
  "seal_nonce base counter final = base @ be_bytes 4 counter @ [if final then 1 else 0]"

section \<open>Sealing\<close>

record archive_sealer =
  as_out :: bytes
  as_aead :: aead
  as_base :: bytes
  as_counter :: u32
  as_buf :: bytes
  as_closed :: bool

type_synonym key_derive = "bytes \<Rightarrow> bytes \<Rightarrow> aead option"

type_synonym takes = "bytes \<Rightarrow> bytes \<Rightarrow> nat"

text \<open>A Write of data after out: what is then there, and whether it was all taken.\<close>

definition put_out :: "takes \<Rightarrow> bytes \<Rightarrow> bytes \<Rightarrow> bytes \<times> bool" where
  "put_out w out data = (out @ take (w out data) data, length data \<le> w out data)"

definition new_archive_sealer :: "key_derive \<Rightarrow> takes \<Rightarrow> bytes \<Rightarrow> bytes \<Rightarrow> bytes \<Rightarrow> seal_error + archive_sealer" where
  "new_archive_sealer derive w password salt base =
     (case derive password salt of
        None \<Rightarrow> Inl ErrKey
      | Some a \<Rightarrow>
          (case put_out w [] (seal_magic @ salt @ base) of (out, ok) \<Rightarrow>
             if ok then Inr \<lparr>as_out = out, as_aead = a, as_base = base, as_counter = 0, as_buf = [], as_closed = False\<rparr>
             else Inl ErrWriter))"

definition seal_flush :: "takes \<Rightarrow> archive_sealer \<Rightarrow> bool \<Rightarrow> seal_error option \<times> archive_sealer" where
  "seal_flush w s final =
     (if as_counter s = - 1 then (Some ErrTooLarge, s)
      else case put_out w (as_out s) (aead_seal (as_aead s) (seal_nonce (as_base s) (as_counter s) final) (as_buf s)) of (out, ok) \<Rightarrow>
        (if ok then None else Some ErrWriter, s\<lparr>as_out := out, as_counter := as_counter s + 1, as_buf := []\<rparr>))"

text \<open>
  The loop of Write on what is left of p. A buffer longer than a chunk cannot be; there the slice
  of p would panic.
\<close>

function seal_loop :: "takes \<Rightarrow> archive_sealer \<Rightarrow> bytes \<Rightarrow> seal_error option \<times> archive_sealer" where
  "seal_loop w s p =
     (if p = [] then (None, s)
      else case (if length (as_buf s) = sealChunk then seal_flush w s False else (None, s)) of
          (Some e, s') \<Rightarrow> (Some e, s')
        | (None, s') \<Rightarrow>
            if length (as_buf s') \<ge> sealChunk then (Some SlicePanic, s')
            else let k = min (sealChunk - length (as_buf s')) (length p)
              in seal_loop w (s'\<lparr>as_buf := as_buf s' @ take k p\<rparr>) (drop k p))"
  by pat_completeness auto
termination by (relation "measure (\<lambda>(w, s, p). length p)") auto

declare seal_loop.simps [simp del]

definition seal_write :: "takes \<Rightarrow> archive_sealer \<Rightarrow> bytes \<Rightarrow> seal_error option \<times> archive_sealer" where
  "seal_write w s p = (if as_closed s then (Some ErrWriteAfterClose, s) else seal_loop w s p)"

definition seal_close :: "takes \<Rightarrow> archive_sealer \<Rightarrow> seal_error option \<times> archive_sealer" where
  "seal_close w s = (if as_closed s then (None, s) else seal_flush w (s\<lparr>as_closed := True\<rparr>) True)"

section \<open>Opening\<close>

record archive_opener =
  ao_rest :: bytes
  ao_aead :: aead
  ao_base :: bytes
  ao_counter :: u32
  ao_plain :: bytes
  ao_done :: bool

definition is_sealed :: "bytes \<Rightarrow> bool" where
  "is_sealed r = (length r \<ge> 8 \<and> take 8 r = seal_magic)"

definition open_next :: "archive_opener \<Rightarrow> seal_error option \<times> archive_opener" where
  "open_next o' =
     (let n = min (length (ao_rest o')) (sealChunk + Overhead);
          sealed = take n (ao_rest o');
          left = o'\<lparr>ao_rest := drop n (ao_rest o')\<rparr>
      in if n < Overhead then (Some ErrWrongPassword, left)
         else case aead_open (ao_aead o') (seal_nonce (ao_base o') (ao_counter o') True) sealed of
             Some plain \<Rightarrow>
               if ao_rest left \<noteq> [] then (Some ErrWrongPassword, left\<lparr>ao_rest := drop 1 (ao_rest left)\<rparr>)
               else (None, left\<lparr>ao_plain := plain, ao_done := True, ao_counter := ao_counter o' + 1\<rparr>)
           | None \<Rightarrow>
               if n < sealChunk + Overhead then (Some ErrWrongPassword, left)
               else (case aead_open (ao_aead o') (seal_nonce (ao_base o') (ao_counter o') False) sealed of
                   None \<Rightarrow> (Some ErrWrongPassword, left)
                 | Some plain \<Rightarrow> (None, left\<lparr>ao_plain := plain, ao_counter := ao_counter o' + 1\<rparr>)))"

definition open_sealed :: "key_derive \<Rightarrow> bytes \<Rightarrow> bytes \<Rightarrow> seal_error + archive_opener" where
  "open_sealed derive r password =
     (let head = take (8 + sealSaltSize + sealNonceBase) r in
      if length r < 8 + sealSaltSize + sealNonceBase then Inl ErrTooShort
      else if take 8 head \<noteq> seal_magic then Inl ErrNotSealed
      else if password = [] then Inl ErrNoPassword
      else case derive password (take sealSaltSize (drop 8 head)) of
          None \<Rightarrow> Inl ErrKey
        | Some a \<Rightarrow>
            (case open_next \<lparr>ao_rest = drop (8 + sealSaltSize + sealNonceBase) r, ao_aead = a,
                 ao_base = drop (8 + sealSaltSize) head, ao_counter = 0, ao_plain = [], ao_done = False\<rparr> of
               (Some e, _) \<Rightarrow> Inl e
             | (None, o') \<Rightarrow> Inr o'))"

text \<open>Read: the loop until there is something to give, then up to k bytes of it; None is io.EOF.\<close>

lemma open_next_rest:
  "open_next o' = (None, o'') \<Longrightarrow> length (ao_rest o'') < length (ao_rest o')"
  by (auto simp: open_next_def Let_def split: if_splits option.splits)

function open_fill :: "archive_opener \<Rightarrow> seal_error option \<times> archive_opener" where
  "open_fill o' =
     (if ao_plain o' \<noteq> [] \<or> ao_done o' then (None, o')
      else case open_next o' of
          (Some e, o'') \<Rightarrow> (Some e, o'')
        | (None, o'') \<Rightarrow> open_fill o'')"
  by pat_completeness auto
termination
  by (relation "measure (\<lambda>o'. length (ao_rest o'))") (auto dest: open_next_rest [OF sym])

declare open_fill.simps [simp del]

definition open_read :: "archive_opener \<Rightarrow> nat \<Rightarrow> (seal_error + bytes option) \<times> archive_opener" where
  "open_read o' k =
     (case open_fill o' of
        (Some e, o'') \<Rightarrow> (Inl e, o'')
      | (None, o'') \<Rightarrow>
          if ao_plain o'' = [] then (Inr None, o'')
          else (Inr (Some (take k (ao_plain o''))), o''\<lparr>ao_plain := drop k (ao_plain o'')\<rparr>))"

section \<open>What a sealed archive is\<close>

text \<open>Everything an opener gives, read to the end.\<close>

function open_all :: "archive_opener \<Rightarrow> seal_error + bytes" where
  "open_all o' =
     (if ao_done o' then Inr (ao_plain o')
      else case open_next o' of
          (Some e, o'') \<Rightarrow> Inl e
        | (None, o'') \<Rightarrow> map_sum id ((@) (ao_plain o')) (open_all o''))"
  by pat_completeness auto
termination
  by (relation "measure (\<lambda>o'. length (ao_rest o'))") (auto dest: open_next_rest [OF sym])

declare open_all.simps [simp del]

fun sealed_archive :: "aead \<Rightarrow> bytes \<Rightarrow> u32 \<Rightarrow> bytes list \<Rightarrow> bytes" where
  "sealed_archive a base i [] = []"
| "sealed_archive a base i [c] = aead_seal a (seal_nonce base i True) c"
| "sealed_archive a base i (c # d # cs) = aead_seal a (seal_nonce base i False) c @ sealed_archive a base (i + 1) (d # cs)"

fun chunks_ok :: "bytes list \<Rightarrow> bool" where
  "chunks_ok [] = False"
| "chunks_ok [c] = (length c \<le> sealChunk)"
| "chunks_ok (c # cs) = (length c = sealChunk \<and> chunks_ok cs)"

text \<open>What is relied on of GCM: what was sealed under one nonce was not sealed under another.\<close>

definition nonces_apart :: "aead \<Rightarrow> bool" where
  "nonces_apart a \<longleftrightarrow> (\<forall>n n' p p'. length n = 12 \<longrightarrow> length n' = 12 \<longrightarrow> aead_seal a n p = aead_seal a n' p' \<longrightarrow> n = n')"

lemma seal_nonce_facts:
  "length (seal_nonce base i f) = length base + 5" "seal_nonce base i f = seal_nonce base j g \<Longrightarrow> f = g"
  by (auto simp: seal_nonce_def split: if_splits)

lemma chunks_ok_Cons: "chunks_ok (c # cs) = (if cs = [] then length c \<le> sealChunk else length c = sealChunk \<and> chunks_ok cs)"
  by (cases cs) auto

lemma sealed_archive_Cons: "sealed_archive a base i (c # cs) =
    (if cs = [] then aead_seal a (seal_nonce base i True) c else aead_seal a (seal_nonce base i False) c @ sealed_archive a base (i + 1) cs)"
  by (cases cs) auto

lemma sealed_archive_length: "aead_laws a \<Longrightarrow> chunks_ok cs \<Longrightarrow> length (sealed_archive a base i cs) \<ge> Overhead"
  by (induction cs arbitrary: i) (auto simp: chunks_ok_Cons sealed_archive_Cons aead_laws_def)

lemma open_next_final:
  assumes "aead_laws a" "nonces_apart a" "length base = 7"
    and o': "ao_aead o' = a" "ao_base o' = base" and that: "\<not> ao_done o'"
  shows "open_next o' = (None, o'') \<and> ao_done o'' \<longleftrightarrow>
    (\<exists>c. length c \<le> sealChunk \<and> ao_rest o' = aead_seal a (seal_nonce base (ao_counter o') True) c \<and>
      o'' = o'\<lparr>ao_rest := [], ao_plain := c, ao_done := True, ao_counter := ao_counter o' + 1\<rparr>)"
proof -
  have law: "aead_open a n c = Some p \<longleftrightarrow> c = aead_seal a n p" "length (aead_seal a n p) = length p + Overhead" for n c p
    using assms(1) by (auto simp: aead_laws_def)
  show ?thesis
  proof
    assume l: "open_next o' = (None, o'') \<and> ao_done o''"
    let ?n = "min (length (ao_rest o')) (sealChunk + Overhead)"
    have "\<exists>c. take ?n (ao_rest o') = aead_seal a (seal_nonce base (ao_counter o') True) c \<and> drop ?n (ao_rest o') = [] \<and>
        o'' = o'\<lparr>ao_rest := [], ao_plain := c, ao_done := True, ao_counter := ao_counter o' + 1\<rparr>"
      using l that by (auto simp: open_next_def Let_def o' law split: if_splits option.splits)
    then obtain c where c: "take ?n (ao_rest o') = aead_seal a (seal_nonce base (ao_counter o') True) c" "drop ?n (ao_rest o') = []"
      "o'' = o'\<lparr>ao_rest := [], ao_plain := c, ao_done := True, ao_counter := ao_counter o' + 1\<rparr>" by blast
    have r: "ao_rest o' = aead_seal a (seal_nonce base (ao_counter o') True) c"
      using c(1,2) by (metis append_take_drop_id append_Nil2)
    then have "length c \<le> sealChunk" using c(2) by (auto simp: law(2))
    with r c(3) show "\<exists>c. length c \<le> sealChunk \<and> ao_rest o' = aead_seal a (seal_nonce base (ao_counter o') True) c \<and>
      o'' = o'\<lparr>ao_rest := [], ao_plain := c, ao_done := True, ao_counter := ao_counter o' + 1\<rparr>" by blast
  next
    assume "\<exists>c. length c \<le> sealChunk \<and> ao_rest o' = aead_seal a (seal_nonce base (ao_counter o') True) c \<and>
      o'' = o'\<lparr>ao_rest := [], ao_plain := c, ao_done := True, ao_counter := ao_counter o' + 1\<rparr>"
    then obtain c where c: "length c \<le> sealChunk" "ao_rest o' = aead_seal a (seal_nonce base (ao_counter o') True) c"
      "o'' = o'\<lparr>ao_rest := [], ao_plain := c, ao_done := True, ao_counter := ao_counter o' + 1\<rparr>" by blast
    have "min (length (ao_rest o')) (sealChunk + Overhead) = length (ao_rest o')" using c(1,2) by (simp add: law(2))
    moreover have "aead_open a (seal_nonce base (ao_counter o') True) (ao_rest o') = Some c" using c(2) law(1) by blast
    moreover have "\<not> length (ao_rest o') < Overhead" by (simp add: c(2) law(2))
    ultimately show "open_next o' = (None, o'') \<and> ao_done o''"
      using c(3) by (simp add: open_next_def Let_def o')
  qed
qed

lemma open_next_middle:
  assumes "aead_laws a" "nonces_apart a" "length base = 7"
    and o': "ao_aead o' = a" "ao_base o' = base" and that: "\<not> ao_done o'"
  shows "open_next o' = (None, o'') \<and> \<not> ao_done o'' \<longleftrightarrow>
    (\<exists>c rest. length c = sealChunk \<and> ao_rest o' = aead_seal a (seal_nonce base (ao_counter o') False) c @ rest \<and>
      o'' = o'\<lparr>ao_rest := rest, ao_plain := c, ao_counter := ao_counter o' + 1\<rparr>)"
proof -
  have law: "aead_open a n c = Some p \<longleftrightarrow> c = aead_seal a n p" "length (aead_seal a n p) = length p + Overhead" for n c p
    using assms(1) by (auto simp: aead_laws_def)
  show ?thesis
  proof
    assume l: "open_next o' = (None, o'') \<and> \<not> ao_done o''"
    let ?n = "min (length (ao_rest o')) (sealChunk + Overhead)"
    have "\<exists>c. take ?n (ao_rest o') = aead_seal a (seal_nonce base (ao_counter o') False) c \<and> ?n = sealChunk + Overhead \<and>
        o'' = o'\<lparr>ao_rest := drop ?n (ao_rest o'), ao_plain := c, ao_counter := ao_counter o' + 1\<rparr>"
      using l by (auto simp: open_next_def Let_def o' law split: if_splits option.splits)
    then obtain c where c: "take ?n (ao_rest o') = aead_seal a (seal_nonce base (ao_counter o') False) c" "?n = sealChunk + Overhead"
      "o'' = o'\<lparr>ao_rest := drop ?n (ao_rest o'), ao_plain := c, ao_counter := ao_counter o' + 1\<rparr>" by blast
    have "length (take ?n (ao_rest o')) = sealChunk + Overhead" using c(2) by simp
    then have "length c = sealChunk" unfolding c(1) law(2) by simp
    moreover have "ao_rest o' = aead_seal a (seal_nonce base (ao_counter o') False) c @ drop ?n (ao_rest o')"
      using c(1) by (metis append_take_drop_id)
    ultimately show "\<exists>c rest. length c = sealChunk \<and> ao_rest o' = aead_seal a (seal_nonce base (ao_counter o') False) c @ rest \<and>
      o'' = o'\<lparr>ao_rest := rest, ao_plain := c, ao_counter := ao_counter o' + 1\<rparr>" using c(3) by blast
  next
    assume "\<exists>c rest. length c = sealChunk \<and> ao_rest o' = aead_seal a (seal_nonce base (ao_counter o') False) c @ rest \<and>
      o'' = o'\<lparr>ao_rest := rest, ao_plain := c, ao_counter := ao_counter o' + 1\<rparr>"
    then obtain c rest where c: "length c = sealChunk" "ao_rest o' = aead_seal a (seal_nonce base (ao_counter o') False) c @ rest"
      "o'' = o'\<lparr>ao_rest := rest, ao_plain := c, ao_counter := ao_counter o' + 1\<rparr>" by blast
    let ?c = "aead_seal a (seal_nonce base (ao_counter o') False) c"
    have n: "min (length (ao_rest o')) (sealChunk + Overhead) = length ?c" using c(1,2) by (simp add: law(2))
    have twelve: "length (seal_nonce base i f) = 12" for i f using assms(3) by (simp add: seal_nonce_facts(1))
    have "aead_open a (seal_nonce base (ao_counter o') True) ?c = None"
    proof (rule ccontr)
      assume "\<not> ?thesis"
      then obtain p where "?c = aead_seal a (seal_nonce base (ao_counter o') True) p" using law(1) by blast
      then have "seal_nonce base (ao_counter o') False = seal_nonce base (ao_counter o') True"
        using assms(2) unfolding nonces_apart_def by (metis twelve)
      then show False using seal_nonce_facts(2) by blast
    qed
    moreover have "aead_open a (seal_nonce base (ao_counter o') False) ?c = Some c" using law(1) by blast
    moreover have "take (length ?c) (ao_rest o') = ?c" "drop (length ?c) (ao_rest o') = rest" using c(2) by simp_all
    moreover have "\<not> length ?c < sealChunk + Overhead" "\<not> length ?c < Overhead" using c(1) by (simp_all add: law(2))
    ultimately show "open_next o' = (None, o'') \<and> \<not> ao_done o''"
      using c(3) that unfolding open_next_def Let_def n o' by simp
  qed
qed

lemma open_all_exact:
  assumes "aead_laws a" "nonces_apart a" "length base = 7"
    and "ao_aead o' = a" "ao_base o' = base" "\<not> ao_done o'"
  shows "open_all o' = Inr d \<longleftrightarrow>
    (\<exists>cs. chunks_ok cs \<and> ao_rest o' = sealed_archive a base (ao_counter o') cs \<and> d = ao_plain o' @ concat cs)"
  using assms(4-6)
proof (induction "length (ao_rest o')" arbitrary: o' d rule: less_induct)
  case less
  note fin = open_next_final [OF assms(1-3) less.prems(1,2,3)]
  note mid = open_next_middle [OF assms(1-3) less.prems(1,2,3)]
  have law: "aead_seal a n p = aead_seal a n p' \<longleftrightarrow> p = p'" for n p p'
    using assms(1) unfolding aead_laws_def by (metis option.inject)
  show ?case
  proof
    assume d: "open_all o' = Inr d"
    then obtain o'' where n: "open_next o' = (None, o'')"
      using less.prems(3) by (subst (asm) open_all.simps) (auto split: prod.splits option.splits)
    then have e: "map_sum id ((@) (ao_plain o')) (open_all o'') = Inr d"
      using d less.prems(3) by (subst (asm) open_all.simps) simp
    show "\<exists>cs. chunks_ok cs \<and> ao_rest o' = sealed_archive a base (ao_counter o') cs \<and> d = ao_plain o' @ concat cs"
    proof (cases "ao_done o''")
      case True
      then obtain c where c: "length c \<le> sealChunk" "ao_rest o' = aead_seal a (seal_nonce base (ao_counter o') True) c"
        "o'' = o'\<lparr>ao_rest := [], ao_plain := c, ao_done := True, ao_counter := ao_counter o' + 1\<rparr>" using fin n by blast
      have "open_all o'' = Inr c" using c(3) by (subst open_all.simps) simp
      then show ?thesis using e c(1,2) by (intro exI [of _ "[c]"]) simp
    next
      case False
      then obtain c rest where c: "length c = sealChunk" "ao_rest o' = aead_seal a (seal_nonce base (ao_counter o') False) c @ rest"
        "o'' = o'\<lparr>ao_rest := rest, ao_plain := c, ao_counter := ao_counter o' + 1\<rparr>" using mid n by blast
      obtain d' where d': "open_all o'' = Inr d'" "d = ao_plain o' @ d'" using e by (cases "open_all o''") auto
      have "\<exists>cs. chunks_ok cs \<and> ao_rest o'' = sealed_archive a base (ao_counter o'') cs \<and> d' = ao_plain o'' @ concat cs"
        using less.hyps [OF open_next_rest [OF n], of d'] d'(1) less.prems(1,2) False c(3) by simp
      then obtain cs where cs: "chunks_ok cs" "rest = sealed_archive a base (ao_counter o' + 1) cs" "d' = c @ concat cs"
        using c(3) by auto
      then have "cs \<noteq> []" by auto
      then show ?thesis
        using cs c(1,2) d'(2) by (intro exI [of _ "c # cs"]) (simp add: chunks_ok_Cons sealed_archive_Cons)
    qed
  next
    assume "\<exists>cs. chunks_ok cs \<and> ao_rest o' = sealed_archive a base (ao_counter o') cs \<and> d = ao_plain o' @ concat cs"
    then obtain cs where cs: "chunks_ok cs" "ao_rest o' = sealed_archive a base (ao_counter o') cs" "d = ao_plain o' @ concat cs" by blast
    then obtain c cs' where cons: "cs = c # cs'" by (cases cs) auto
    show "open_all o' = Inr d"
    proof (cases "cs' = []")
      case True
      have "open_next o' = (None, o'\<lparr>ao_rest := [], ao_plain := c, ao_done := True, ao_counter := ao_counter o' + 1\<rparr>)"
        using cs cons True fin by auto
      then show ?thesis
        using less.prems(3) cs(3) cons True by (subst open_all.simps) (simp add: open_all.simps)
    next
      case False
      let ?o = "o'\<lparr>ao_rest := sealed_archive a base (ao_counter o' + 1) cs', ao_plain := c, ao_counter := ao_counter o' + 1\<rparr>"
      have n: "open_next o' = (None, ?o)"
      proof -
        have "length c = sealChunk" "ao_rest o' = aead_seal a (seal_nonce base (ao_counter o') False) c @ sealed_archive a base (ao_counter o' + 1) cs'"
          using cs cons False by (simp_all add: chunks_ok_Cons sealed_archive_Cons)
        then show ?thesis using mid by blast
      qed
      have "open_all ?o = Inr (c @ concat cs')"
        using less.hyps [OF open_next_rest [OF n], of "c @ concat cs'"] less.prems cs(1) cons False
        by (auto simp: chunks_ok_Cons)
      then show ?thesis
        using less.prems(3) cs(3) cons n by (subst open_all.simps) simp
    qed
  qed
qed

text \<open>A file as the sealer writes it, with its header.\<close>

definition sealed_file :: "aead \<Rightarrow> bytes \<Rightarrow> bytes \<Rightarrow> bytes list \<Rightarrow> bytes" where
  "sealed_file a salt base cs = seal_magic @ salt @ base @ sealed_archive a base 0 cs"

definition derive_ok :: "key_derive \<Rightarrow> bool" where
  "derive_ok derive \<longleftrightarrow> (\<forall>pw salt a. derive pw salt = Some a \<longrightarrow> aead_laws a \<and> nonces_apart a)"

text \<open>Opened and read to the end.\<close>

definition open_archive :: "key_derive \<Rightarrow> bytes \<Rightarrow> bytes \<Rightarrow> seal_error + bytes" where
  "open_archive derive r password = (case open_sealed derive r password of Inl e \<Rightarrow> Inl e | Inr o' \<Rightarrow> open_all o')"

lemma seal_magic_length [simp]: "length seal_magic = 8"
  by (simp add: seal_magic_def)

lemma open_archive_exact:
  assumes ok: "derive_ok derive"
  shows "open_archive derive r pw = Inr d \<longleftrightarrow>
    pw \<noteq> [] \<and> (\<exists>salt base a cs. length salt = 16 \<and> length base = 7 \<and> derive pw salt = Some a \<and> chunks_ok cs \<and>
      concat cs = d \<and> r = sealed_file a salt base cs)"
proof -
  let ?salt = "take 16 (drop 8 (take 31 r))"
  let ?base = "drop 24 (take 31 r)"
  let ?o = "\<lambda>a. \<lparr>ao_rest = drop 31 r, ao_aead = a, ao_base = ?base, ao_counter = 0, ao_plain = [], ao_done = False\<rparr>"
  have split: "r = take 8 (take 31 r) @ ?salt @ ?base @ drop 31 r"
  proof -
    have "take 31 r = take 8 (take 31 r) @ take 16 (drop 8 (take 31 r)) @ drop 16 (drop 8 (take 31 r))"
      by (metis append_take_drop_id)
    then have "take 31 r = take 8 (take 31 r) @ ?salt @ ?base" by (simp add: drop_drop)
    then show ?thesis by (metis append.assoc append_take_drop_id)
  qed
  have run: "open_archive derive r pw = Inr d \<longleftrightarrow> length r \<ge> 31 \<and> take 8 (take 31 r) = seal_magic \<and> pw \<noteq> [] \<and>
      (\<exists>a. derive pw ?salt = Some a \<and> open_all (?o a) = Inr d)"
  proof (cases "length r \<ge> 31 \<and> take 8 (take 31 r) = seal_magic \<and> pw \<noteq> []")
    case False
    then show ?thesis by (auto simp: open_archive_def open_sealed_def Let_def)
  next
    case True
    show ?thesis
    proof (cases "derive pw ?salt")
      case None
      with True show ?thesis by (simp add: open_archive_def open_sealed_def Let_def)
    next
      case (Some a)
      have "open_all (?o a) = (case open_next (?o a) of (Some e, _) \<Rightarrow> Inl e | (None, o'') \<Rightarrow> open_all o'')"
        by (subst open_all.simps) (simp add: map_sum.id split: prod.split option.split sum.split, auto simp: map_sum_def split: sum.split)
      then show ?thesis
        using True Some by (auto simp: open_archive_def open_sealed_def Let_def split: prod.split option.split)
    qed
  qed
  show ?thesis
  proof
    assume "open_archive derive r pw = Inr d"
    then obtain a where a: "length r \<ge> 31" "take 8 (take 31 r) = seal_magic" "pw \<noteq> []" "derive pw ?salt = Some a" "open_all (?o a) = Inr d"
      using run by blast
    have laws: "aead_laws a" "nonces_apart a" using ok a(4) by (auto simp: derive_ok_def)
    have "length ?base = 7" using a(1) by simp
    from open_all_exact [OF laws this, of "?o a" d] a(5)
    obtain cs where cs: "chunks_ok cs" "drop 31 r = sealed_archive a ?base 0 cs" "d = concat cs" by auto
    have "r = sealed_file a ?salt ?base cs" using split unfolding sealed_file_def a(2) cs(2) [symmetric] .
    moreover have "length ?salt = 16" "length ?base = 7" using a(1) by simp_all
    ultimately show "pw \<noteq> [] \<and> (\<exists>salt base a cs. length salt = 16 \<and> length base = 7 \<and> derive pw salt = Some a \<and> chunks_ok cs \<and>
      concat cs = d \<and> r = sealed_file a salt base cs)" using a(3,4) cs(1,3) by blast
  next
    assume "pw \<noteq> [] \<and> (\<exists>salt base a cs. length salt = 16 \<and> length base = 7 \<and> derive pw salt = Some a \<and> chunks_ok cs \<and>
      concat cs = d \<and> r = sealed_file a salt base cs)"
    then obtain salt base a cs where x: "pw \<noteq> []" "length salt = 16" "length base = 7" "derive pw salt = Some a" "chunks_ok cs"
      "concat cs = d" "r = sealed_file a salt base cs" by blast
    have p: "take 8 (take 31 r) = seal_magic" "?salt = salt" "?base = base" "drop 31 r = sealed_archive a base 0 cs" "length r \<ge> 31"
      using x(2,3) by (simp_all add: x(7) sealed_file_def)
    have laws: "aead_laws a" "nonces_apart a" using ok x(4) by (auto simp: derive_ok_def)
    have "open_all (?o a) = Inr d"
      using open_all_exact [OF laws x(3), of "?o a" d] p x(5,6) by auto
    then show "open_archive derive r pw = Inr d" using run p x(1,4) by auto
  qed
qed

section \<open>What the sealer writes\<close>

fun seal_writes :: "takes \<Rightarrow> archive_sealer \<Rightarrow> bytes list \<Rightarrow> seal_error option \<times> archive_sealer" where
  "seal_writes w s [] = (None, s)"
| "seal_writes w s (p # ps) = (case seal_write w s p of (Some e, s') \<Rightarrow> (Some e, s') | (None, s') \<Rightarrow> seal_writes w s' ps)"

definition seal_archive :: "key_derive \<Rightarrow> takes \<Rightarrow> bytes \<Rightarrow> bytes \<Rightarrow> bytes \<Rightarrow> bytes list \<Rightarrow> seal_error + bytes" where
  "seal_archive derive w password salt base ps =
     (case new_archive_sealer derive w password salt base of
        Inl e \<Rightarrow> Inl e
      | Inr s \<Rightarrow> (case seal_writes w s ps of
          (Some e, _) \<Rightarrow> Inl e
        | (None, s') \<Rightarrow> (case seal_close w s' of (Some e, _) \<Rightarrow> Inl e | (None, s'') \<Rightarrow> Inr (as_out s''))))"

fun middle_chunks :: "aead \<Rightarrow> bytes \<Rightarrow> u32 \<Rightarrow> bytes list \<Rightarrow> bytes" where
  "middle_chunks a base i [] = []"
| "middle_chunks a base i (c # cs) = aead_seal a (seal_nonce base i False) c @ middle_chunks a base (i + 1) cs"

lemma middle_chunks_snoc: "middle_chunks a base i (cs @ [d]) =
    middle_chunks a base i cs @ aead_seal a (seal_nonce base (i + of_nat (length cs)) False) d"
  by (induction cs arbitrary: i) (simp_all add: ac_simps)

lemma sealed_archive_snoc: "sealed_archive a base i (cs @ [d]) =
    middle_chunks a base i cs @ aead_seal a (seal_nonce base (i + of_nat (length cs)) True) d"
  by (induction cs arbitrary: i) (simp_all add: sealed_archive_Cons ac_simps)

lemma chunks_ok_snoc: "chunks_ok (cs @ [d]) \<longleftrightarrow> list_all (\<lambda>c. length c = sealChunk) cs \<and> length d \<le> sealChunk"
  by (induction cs) (auto simp: chunks_ok_Cons)

text \<open>An open sealer after some data: full chunks sealed, the rest in the buffer.\<close>

definition sealer_inv :: "aead \<Rightarrow> bytes \<Rightarrow> bytes \<Rightarrow> bytes \<Rightarrow> archive_sealer \<Rightarrow> bool" where
  "sealer_inv a salt base d s \<longleftrightarrow> \<not> as_closed s \<and> as_aead s = a \<and> as_base s = base \<and> length (as_buf s) \<le> sealChunk \<and>
     (\<exists>cs. list_all (\<lambda>c. length c = sealChunk) cs \<and> as_out s = seal_magic @ salt @ base @ middle_chunks a base 0 cs \<and>
       as_counter s = of_nat (length cs) \<and> d = concat cs @ as_buf s)"

lemma put_out_ok: "put_out w out data = (out', True) \<Longrightarrow> out' = out @ data"
  by (auto simp: put_out_def)

lemma flush_inv:
  assumes "sealer_inv a salt base d s" "length (as_buf s) = sealChunk" "seal_flush w s False = (None, s')"
  shows "sealer_inv a salt base d s' \<and> as_buf s' = []"
proof -
  obtain cs where cs: "list_all (\<lambda>c. length c = sealChunk) cs" "as_out s = seal_magic @ salt @ base @ middle_chunks a base 0 cs"
    "as_counter s = of_nat (length cs)" "d = concat cs @ as_buf s" using assms(1) by (auto simp: sealer_inv_def)
  have s: "as_aead s = a" "as_base s = base" "\<not> as_closed s" using assms(1) by (auto simp: sealer_inv_def)
  have s': "s' = s\<lparr>as_out := as_out s @ aead_seal a (seal_nonce base (as_counter s) False) (as_buf s),
      as_counter := as_counter s + 1, as_buf := []\<rparr>"
    using assms(3) put_out_ok [of w "as_out s"] by (auto simp: seal_flush_def s split: if_splits prod.splits)
  show ?thesis
    unfolding sealer_inv_def s' using cs s assms(2)
    by (auto intro!: exI [of _ "cs @ [as_buf s]"] simp: middle_chunks_snoc)
qed

lemma seal_loop_inv:
  "sealer_inv a salt base d s \<Longrightarrow> seal_loop w s p = (None, s') \<Longrightarrow> sealer_inv a salt base (d @ p) s'"
proof (induction w s p arbitrary: d rule: seal_loop.induct)
  case (1 w s p)
  show ?case
  proof (cases "p = []")
    case True
    then show ?thesis using "1.prems" by (simp add: seal_loop.simps)
  next
    case False
    obtain r s1 where f: "(if length (as_buf s) = sealChunk then seal_flush w s False else (None, s)) = (r, s1)" by fastforce
    have r: "r = None" using "1.prems"(2) False f by (subst (asm) seal_loop.simps) (auto split: option.splits)
    have i1: "sealer_inv a salt base d s1" "length (as_buf s1) < sealChunk"
      using flush_inv [OF "1.prems"(1), of w s1] f r "1.prems"(1) by (auto simp: sealer_inv_def split: if_splits)
    let ?k = "min (sealChunk - length (as_buf s1)) (length p)"
    let ?s2 = "s1\<lparr>as_buf := as_buf s1 @ take ?k p\<rparr>"
    have run: "seal_loop w ?s2 (drop ?k p) = (None, s')"
      using "1.prems"(2) False f r i1(2) by (subst (asm) seal_loop.simps) (simp add: Let_def)
    have i2: "sealer_inv a salt base (d @ take ?k p) ?s2"
      using i1 unfolding sealer_inv_def by (auto simp: min_def)
    show ?thesis
      using "1.IH" [OF False f [symmetric] r _ refl i2 run] i1(2) by simp
  qed
qed

lemma seal_writes_inv:
  "sealer_inv a salt base d s \<Longrightarrow> seal_writes w s ps = (None, s') \<Longrightarrow> sealer_inv a salt base (d @ concat ps) s'"
proof (induction ps arbitrary: s d)
  case (Cons p ps)
  obtain s1 where s1: "seal_write w s p = (None, s1)" "seal_writes w s1 ps = (None, s')"
    using Cons.prems(2) by (auto split: prod.splits option.splits)
  have "\<not> as_closed s" using Cons.prems(1) by (simp add: sealer_inv_def)
  then have "sealer_inv a salt base (d @ p) s1" using seal_loop_inv [OF Cons.prems(1)] s1(1) by (simp add: seal_write_def)
  from Cons.IH [OF this s1(2)] show ?case by simp
qed simp

lemma seal_archive_file:
  assumes "seal_archive derive w password salt base ps = Inr r"
  shows "\<exists>a cs. derive password salt = Some a \<and> chunks_ok cs \<and> concat cs = concat ps \<and> r = sealed_file a salt base cs"
proof -
  obtain s where s: "new_archive_sealer derive w password salt base = Inr s"
    using assms by (auto simp: seal_archive_def split: sum.splits)
  then obtain a where a: "derive password salt = Some a" by (auto simp: new_archive_sealer_def split: option.splits)
  have "sealer_inv a salt base [] s"
    using s a put_out_ok by (fastforce simp: new_archive_sealer_def sealer_inv_def split: prod.splits if_splits intro!: exI [of _ "[]"])
  moreover obtain s1 where s1: "seal_writes w s ps = (None, s1)"
    using assms s by (auto simp: seal_archive_def split: prod.splits option.splits)
  ultimately have i: "sealer_inv a salt base (concat ps) s1" using seal_writes_inv by fastforce
  obtain s2 where s2: "seal_close w s1 = (None, s2)" "r = as_out s2"
    using assms s s1 by (auto simp: seal_archive_def split: prod.splits option.splits)
  obtain cs where cs: "list_all (\<lambda>c. length c = sealChunk) cs" "as_out s1 = seal_magic @ salt @ base @ middle_chunks a base 0 cs"
    "as_counter s1 = of_nat (length cs)" "concat ps = concat cs @ as_buf s1" "length (as_buf s1) \<le> sealChunk"
    using i by (auto simp: sealer_inv_def)
  have "as_aead s1 = a" "as_base s1 = base" "\<not> as_closed s1" using i by (auto simp: sealer_inv_def)
  then have "r = as_out s1 @ aead_seal a (seal_nonce base (as_counter s1) True) (as_buf s1)"
    using s2 put_out_ok by (fastforce simp: seal_close_def seal_flush_def split: prod.splits if_splits)
  then have "r = sealed_file a salt base (cs @ [as_buf s1])"
    by (simp add: sealed_file_def cs(2,3) sealed_archive_snoc)
  then show ?thesis using a cs by (intro exI [of _ a] exI [of _ "cs @ [as_buf s1]"]) (simp add: chunks_ok_snoc)
qed

section \<open>Reading in pieces\<close>

fun open_reads :: "archive_opener \<Rightarrow> nat list \<Rightarrow> bytes \<times> (seal_error + bool) \<times> archive_opener" where
  "open_reads o' [] = ([], Inr False, o')"
| "open_reads o' (k # ks) =
     (case open_read o' k of
        (Inl e, o'') \<Rightarrow> ([], Inl e, o'')
      | (Inr None, o'') \<Rightarrow> ([], Inr True, o'')
      | (Inr (Some d), o'') \<Rightarrow> (case open_reads o'' ks of (d', st, o3) \<Rightarrow> (d @ d', st, o3)))"

lemma open_fill_all:
  "open_fill o' = (r, o'') \<Longrightarrow> (case r of None \<Rightarrow> open_all o'' = open_all o' \<and> (ao_plain o'' = [] \<longrightarrow> ao_done o'') | Some e \<Rightarrow> open_all o' = Inl e)"
proof (induction o' rule: open_fill.induct)
  case (1 o')
  show ?case
  proof (cases "ao_plain o' \<noteq> [] \<or> ao_done o'")
    case True
    then show ?thesis using "1.prems" by (auto simp: open_fill.simps)
  next
    case False
    obtain e o1 where n: "open_next o' = (e, o1)" by fastforce
    have all: "open_all o' = (case e of None \<Rightarrow> open_all o1 | Some e \<Rightarrow> Inl e)"
      using False n by (subst open_all.simps) (auto split: option.split simp: map_sum_def split: sum.split)
    show ?thesis
    proof (cases e)
      case None
      then have "open_fill o1 = (r, o'')" using "1.prems" False n by (subst (asm) open_fill.simps) simp
      then show ?thesis using "1.IH" [OF False n [symmetric] None] all None by (cases r) simp_all
    next
      case (Some x)
      then show ?thesis using "1.prems" False n all by (subst (asm) open_fill.simps) auto
    qed
  qed
qed

text \<open>What a next chunk comes to does not depend on what the last one left.\<close>

definition next_chunk :: "aead \<Rightarrow> bytes \<Rightarrow> u32 \<Rightarrow> bytes \<Rightarrow> bytes \<Rightarrow> (bytes \<times> bool) option" where
  "next_chunk a base i sealed rest =
     (if length sealed < Overhead then None
      else case aead_open a (seal_nonce base i True) sealed of
          Some plain \<Rightarrow> if rest \<noteq> [] then None else Some (plain, True)
        | None \<Rightarrow> if length sealed < sealChunk + Overhead then None
            else map_option (\<lambda>plain. (plain, False)) (aead_open a (seal_nonce base i False) sealed))"

lemma open_next_chunk:
  "open_next o' = (let n = min (length (ao_rest o')) (sealChunk + Overhead) in
     case next_chunk (ao_aead o') (ao_base o') (ao_counter o') (take n (ao_rest o')) (drop n (ao_rest o')) of
       None \<Rightarrow> (Some ErrWrongPassword, snd (open_next o'))
     | Some (plain, fin) \<Rightarrow> (None, o'\<lparr>ao_rest := drop n (ao_rest o'), ao_plain := plain, ao_done := ao_done o' \<or> fin, ao_counter := ao_counter o' + 1\<rparr>))"
proof -
  define n where "n = min (length (ao_rest o')) (sealChunk + Overhead)"
  have l: "length (take n (ao_rest o')) = n" by (simp add: n_def)
  show ?thesis
    unfolding open_next_def next_chunk_def Let_def n_def [symmetric] l
    by (cases "n < Overhead"; cases "aead_open (ao_aead o') (seal_nonce (ao_base o') (ao_counter o') True) (take n (ao_rest o'))";
        cases "n < sealChunk + Overhead"; cases "aead_open (ao_aead o') (seal_nonce (ao_base o') (ao_counter o') False) (take n (ao_rest o'))";
        cases "drop n (ao_rest o') = []") simp_all
qed

lemma open_all_plain:
  "ao_plain o' \<noteq> [] \<Longrightarrow> open_all o' = map_sum id ((@) (take k (ao_plain o'))) (open_all (o'\<lparr>ao_plain := drop k (ao_plain o')\<rparr>))"
proof -
  let ?p = "o'\<lparr>ao_plain := drop k (ao_plain o')\<rparr>"
  have n: "fst (open_next ?p) = fst (open_next o')" "fst (open_next o') = None \<Longrightarrow> snd (open_next ?p) = snd (open_next o')"
  proof -
    define n where "n = min (length (ao_rest o')) (sealChunk + Overhead)"
    define c where "c = next_chunk (ao_aead o') (ao_base o') (ao_counter o') (take n (ao_rest o')) (drop n (ao_rest o'))"
    have f: "ao_aead ?p = ao_aead o'" "ao_base ?p = ao_base o'" "ao_counter ?p = ao_counter o'" "ao_rest ?p = ao_rest o'" "ao_done ?p = ao_done o'"
      by simp_all
    have e: "open_next o' = (case c of None \<Rightarrow> (Some ErrWrongPassword, snd (open_next o')) | Some (plain, fin) \<Rightarrow>
        (None, o'\<lparr>ao_rest := drop n (ao_rest o'), ao_plain := plain, ao_done := ao_done o' \<or> fin, ao_counter := ao_counter o' + 1\<rparr>))"
      using open_next_chunk [of o'] unfolding Let_def n_def [symmetric] c_def [symmetric] .
    have ep: "open_next ?p = (case c of None \<Rightarrow> (Some ErrWrongPassword, snd (open_next ?p)) | Some (plain, fin) \<Rightarrow>
        (None, ?p\<lparr>ao_rest := drop n (ao_rest o'), ao_plain := plain, ao_done := ao_done o' \<or> fin, ao_counter := ao_counter o' + 1\<rparr>))"
      using open_next_chunk [of ?p] unfolding Let_def f n_def [symmetric] c_def [symmetric] .
    have "fst (open_next ?p) = fst (open_next o') \<and> (fst (open_next o') = None \<longrightarrow> snd (open_next ?p) = snd (open_next o'))"
    proof (cases c)
      case None
      then have "fst (open_next ?p) = Some ErrWrongPassword" "fst (open_next o') = Some ErrWrongPassword"
        using e ep by (metis fst_conv option.case(1))+
      then show "fst (open_next ?p) = fst (open_next o') \<and> (fst (open_next o') = None \<longrightarrow> snd (open_next ?p) = snd (open_next o'))" by simp_all
    next
      case (Some x)
      obtain plain fin where x: "x = (plain, fin)" by (cases x)
      have "open_next ?p = (None, ?p\<lparr>ao_rest := drop n (ao_rest o'), ao_plain := plain, ao_done := ao_done o' \<or> fin, ao_counter := ao_counter o' + 1\<rparr>)"
        using ep by (simp only: Some x option.case prod.case)
      moreover have "open_next o' = (None, o'\<lparr>ao_rest := drop n (ao_rest o'), ao_plain := plain, ao_done := ao_done o' \<or> fin, ao_counter := ao_counter o' + 1\<rparr>)"
        using e by (simp only: Some x option.case prod.case)
      ultimately have "open_next ?p = open_next o'" by simp
      then show "fst (open_next ?p) = fst (open_next o') \<and> (fst (open_next o') = None \<longrightarrow> snd (open_next ?p) = snd (open_next o'))" by simp_all
    qed
    then show "fst (open_next ?p) = fst (open_next o')" "fst (open_next o') = None \<Longrightarrow> snd (open_next ?p) = snd (open_next o')" by auto
  qed
  obtain e o1 where o1: "open_next o' = (e, o1)" by fastforce
  then obtain o2 where o2: "open_next ?p = (e, o2)" "e = None \<Longrightarrow> o2 = o1" using n by (cases "open_next ?p") auto
  show ?thesis
  proof (cases "ao_done o'")
    case True
    then show ?thesis by (subst (1 2) open_all.simps) simp
  next
    case False
    then show ?thesis
      using o1 o2 by (subst (1 2) open_all.simps) (auto simp: map_sum_def split: option.split sum.split)
  qed
qed

lemma open_reads_all:
  "open_reads o' ks = (d, st, o'') \<Longrightarrow>
     (case st of Inl e \<Rightarrow> open_all o' = Inl e | Inr True \<Rightarrow> open_all o' = Inr d
      | Inr False \<Rightarrow> open_all o' = map_sum id ((@) d) (open_all o''))"
proof (induction o' ks arbitrary: d rule: open_reads.induct)
  case (1 o')
  then show ?case by (auto simp: map_sum_def split: sum.split)
next
  case (2 o' k ks)
  obtain r o1 where f: "open_fill o' = (r, o1)" by fastforce
  note fill = open_fill_all [OF f]
  show ?case
  proof (cases r)
    case (Some e)
    then show ?thesis using "2.prems" f fill by (auto simp: open_read_def)
  next
    case None
    show ?thesis
    proof (cases "ao_plain o1 = []")
      case True
      then have "open_all o1 = Inr []" using fill None by (subst open_all.simps) simp
      then show ?thesis using "2.prems" f fill None True by (auto simp: open_read_def)
    next
      case False
      let ?o2 = "o1\<lparr>ao_plain := drop k (ao_plain o1)\<rparr>"
      have r: "open_read o' k = (Inr (Some (take k (ao_plain o1))), ?o2)" using f None False by (simp add: open_read_def)
      obtain d' where d': "open_reads ?o2 ks = (d', st, o'')" "d = take k (ao_plain o1) @ d'"
        using "2.prems" r by (auto split: prod.splits)
      have a: "open_all o' = map_sum id ((@) (take k (ao_plain o1))) (open_all ?o2)"
        using fill None open_all_plain [OF False, of k] by simp
      show ?thesis
        using "2.IH" [OF r [symmetric] refl refl d'(1)] a d'(2)
        by (auto simp: map_sum_def split: sum.splits bool.splits)
    qed
  qed
qed

section \<open>Properties\<close>

text \<open>
  C24. A file opens to some data exactly when it is the sealing of that data, its chunks in their
  places and the last one marked: a file cut short, with chunks dropped, reordered, repeated or
  changed, or with anything after its last chunk, never reads as an archive.
\<close>
theorem opens_exactly:
  assumes "derive_ok derive"
  shows "open_archive derive r pw = Inr d \<longleftrightarrow>
    pw \<noteq> [] \<and> (\<exists>salt base a cs. length salt = 16 \<and> length base = 7 \<and> derive pw salt = Some a \<and> chunks_ok cs \<and>
      concat cs = d \<and> r = sealed_file a salt base cs)"
  by (rule open_archive_exact [OF assms])

text \<open>
  An archive written in any pieces to a sealer that reports no error, and closed, is given
  back whole by an opener with the password, however it is read: the reads give it from its
  beginning, and an end of file only after all of it.
\<close>
lemma seal_roundtrip:
  assumes "derive_ok derive" "pw \<noteq> []" "length salt = 16" "length base = 7"
    and "seal_archive derive w pw salt base ps = Inr r"
  shows "\<exists>o'. open_sealed derive r pw = Inr o' \<and>
    (\<forall>ks. case open_reads o' ks of (d, st, o'') \<Rightarrow> (st = Inr True \<and> d = concat ps) \<or> (st = Inr False \<and> (\<exists>d'. concat ps = d @ d')))"
proof -
  have all: "open_archive derive r pw = Inr (concat ps)"
    using open_archive_exact [OF assms(1)] seal_archive_file [OF assms(5)] assms(2-4) by blast
  then obtain o' where o': "open_sealed derive r pw = Inr o'" "open_all o' = Inr (concat ps)"
    by (auto simp: open_archive_def split: sum.splits)
  have "case open_reads o' ks of (d, st, o'') \<Rightarrow> (st = Inr True \<and> d = concat ps) \<or> (st = Inr False \<and> (\<exists>d'. concat ps = d @ d'))" for ks
  proof -
    obtain d st o'' where r: "open_reads o' ks = (d, st, o'')" by (metis prod_cases3)
    have c: "case st of Inl e \<Rightarrow> open_all o' = Inl e | Inr True \<Rightarrow> open_all o' = Inr d
      | Inr False \<Rightarrow> open_all o' = map_sum id ((@) d) (open_all o'')" using open_reads_all [OF r] .
    show ?thesis
    proof (cases st)
      case (Inl e)
      then show ?thesis using c o'(2) by simp
    next
      case (Inr b)
      show ?thesis
      proof (cases b)
        case True
        then show ?thesis using c o'(2) Inr r by simp
      next
        case False
        then obtain d' where "open_all o'' = Inr d'" "concat ps = d @ d'"
          using c o'(2) Inr by (cases "open_all o''") auto
        then show ?thesis using False Inr r by auto
      qed
    qed
  qed
  with o'(1) show ?thesis by blast
qed

lemma demo_nonces_apart: "nonces_apart demo_aead"
  unfolding nonces_apart_def
proof (intro allI impI)
  fix n n' p p' :: bytes
  assume l: "length n = 12" "length n' = 12" and e: "aead_seal demo_aead n p = aead_seal demo_aead n' p'"
  have "p @ n @ replicate 4 0 = p' @ n' @ replicate 4 0" using e l by (simp add: demo_aead_def tag_of_def)
  then show "n = n'" using l by (metis append_eq_append_conv append.assoc length_append)
qed

definition demo_derive :: key_derive where
  "demo_derive pw salt = Some demo_aead"

lemma demo_derive_ok: "derive_ok demo_derive"
  by (simp add: derive_ok_def demo_derive_def demo_aead_laws demo_nonces_apart)

lemma demo_sealed: "seal_archive demo_derive (\<lambda>out data. length data) [1] (replicate 16 5) (replicate 7 6) [[1, 2], [3]] =
    Inr (sealed_file demo_aead (replicate 16 5) (replicate 7 6) [[1, 2, 3]])"
  by (simp add: seal_archive_def demo_derive_def new_archive_sealer_def put_out_def seal_write_def seal_loop.simps
      seal_close_def seal_flush_def sealed_file_def Let_def)

theorem opens_exactly_witness:
  "open_archive demo_derive (sealed_file demo_aead (replicate 16 5) (replicate 7 6) [[1, 2, 3]]) [1] = Inr [1, 2, 3]"
  unfolding opens_exactly [OF demo_derive_ok]
  by (intro conjI exI [of _ "replicate 16 5"] exI [of _ "replicate 7 6"] exI [of _ demo_aead] exI [of _ "[[1, 2, 3]]"])
    (simp_all add: demo_derive_def)

end
