(* ===== verification/Throttle.thy ===== *)
theory Throttle imports Prelude "HOL-Library.AList" begin

text \<open>
  Slowing down guesses (internal/api/throttle.go): the table of failed attempts, a record for every
  key. A time is the moment an operation is given; the lock makes each operation one step.
\<close>

section \<open>The table of attempts\<close>

abbreviation (input) freeAttempts :: nat where "freeAttempts \<equiv> 5"
abbreviation (input) baseLockout :: duration where "baseLockout \<equiv> 30 * second"
abbreviation (input) maxLockout :: duration where "maxLockout \<equiv> 900 * second"
abbreviation (input) forgetAfter :: duration where "forgetAfter \<equiv> 3600 * second"

record attempt_record =
  ar_failures :: nat
  ar_last :: instant
  ar_until :: instant

type_synonym throttle = "(string \<times> attempt_record) list"

definition new_throttle :: throttle where
  "new_throttle = []"

definition retry_after :: "throttle \<Rightarrow> string \<Rightarrow> instant \<Rightarrow> duration \<times> throttle" where
  "retry_after t key now =
     (case map_of t key of
        None \<Rightarrow> (0, t)
      | Some r \<Rightarrow>
          if time_sub now (ar_last r) > forgetAfter then (0, AList.delete key t)
          else if now < ar_until r then (time_sub (ar_until r) now, t)
          else (0, t))"

text \<open>sweep: a flood of keys does not grow the table without limit.\<close>

definition sweep :: "throttle \<Rightarrow> instant \<Rightarrow> throttle" where
  "sweep t now = (if length t < 1024 then t else filter (\<lambda>(k, r). \<not> time_sub now (ar_last r) > forgetAfter) t)"

text \<open>The shift is of an int64: bits pushed out are lost and the top one is the sign.\<close>

definition earned_wait :: "nat \<Rightarrow> duration" where
  "earned_wait failures =
     (let wait = sint (push_bit (failures - freeAttempts - 1) (word_of_int baseLockout :: 64 word))
      in if wait > maxLockout \<or> wait \<le> 0 then maxLockout else wait)"

definition throttle_fail :: "throttle \<Rightarrow> string \<Rightarrow> instant \<Rightarrow> duration \<times> throttle" where
  "throttle_fail t key now =
     (let r = (case map_of t key of
            Some r \<Rightarrow> if time_sub now (ar_last r) > forgetAfter then \<lparr>ar_failures = 0, ar_last = 0, ar_until = 0\<rparr> else r
          | None \<Rightarrow> \<lparr>ar_failures = 0, ar_last = 0, ar_until = 0\<rparr>);
          r = r\<lparr>ar_failures := ar_failures r + 1, ar_last := now\<rparr>
      in if ar_failures r \<le> freeAttempts then (0, AList.update key r t)
         else let wait = earned_wait (ar_failures r);
                  r = r\<lparr>ar_until := now + wait\<rparr>
              in (wait, sweep (AList.update key r t) now))"

definition succeed :: "throttle \<Rightarrow> string \<Rightarrow> throttle" where
  "succeed t key = AList.delete key t"

section \<open>The wait\<close>

lemma wait_table: "k < 60 \<Longrightarrow> earned_wait (k + 6) = min (baseLockout * 2 ^ k) maxLockout"
proof -
  have "list_all (\<lambda>k. earned_wait (k + 6) = min (baseLockout * 2 ^ k) maxLockout) [0..<60]"
    by (simp add: earned_wait_def Let_def upt_rec)
  then show "k < 60 \<Longrightarrow> earned_wait (k + 6) = min (baseLockout * 2 ^ k) maxLockout" by (simp add: list_all_iff)
qed

lemma wait_exact: "earned_wait (k + 6) = min (baseLockout * 2 ^ k) maxLockout"
proof (cases "k < 60")
  case True
  then show ?thesis by (rule wait_table)
next
  case False
  have b: "(word_of_int baseLockout :: 64 word) = push_bit 10 29296875"
    by (simp add: push_bit_eq_mult)
  have "push_bit k (word_of_int baseLockout :: 64 word) = push_bit (k + 10) 29296875"
    unfolding b push_bit_push_bit ..
  also have "\<dots> = 0"
    by (rule bit_word_eqI) (use False in \<open>simp add: bit_simps\<close>)
  finally have z: "push_bit k (word_of_int baseLockout :: 64 word) = 0" .
  have "(2 :: int) ^ 60 \<le> 2 ^ k" by (rule power_increasing) (use False in auto)
  then have "maxLockout \<le> baseLockout * 2 ^ k" by simp
  moreover have "earned_wait (k + 6) = maxLockout"
    using z by (simp add: earned_wait_def Let_def)
  ultimately show ?thesis by simp
qed

text \<open>What a run of failures has earned, and none for the free ones.\<close>

definition wait_of :: "nat \<Rightarrow> duration" where
  "wait_of n = (if n \<le> freeAttempts then 0 else min (baseLockout * 2 ^ (n - 6)) maxLockout)"

lemma wait_of_earned: "n > freeAttempts \<Longrightarrow> earned_wait n = wait_of n"
  using wait_exact [of "n - 6"] by (simp add: wait_of_def)

lemma wait_of_bounds: "0 \<le> wait_of n" "wait_of n \<le> maxLockout" "n > freeAttempts \<Longrightarrow> 0 < wait_of n"
  by (auto simp: wait_of_def)

lemma wait_of_mono: "m \<le> n \<Longrightarrow> wait_of m \<le> wait_of n"
proof -
  assume le: "m \<le> n"
  then have p: "(2 :: int) ^ (m - 6) \<le> 2 ^ (n - 6)" by (intro power_increasing) auto
  show ?thesis
  proof (cases "n \<le> freeAttempts")
    case True
    then show ?thesis using le by (simp add: wait_of_def)
  next
    case False
    have "min (baseLockout * 2 ^ (m - 6)) maxLockout \<le> min (baseLockout * 2 ^ (n - 6)) maxLockout"
      by (intro min.mono mult_left_mono p) auto
    then show ?thesis using False wait_of_bounds(1) [of n] unfolding wait_of_def by simp
  qed
qed

section \<open>What a key has earned\<close>

text \<open>
  The reference: a key's failures in a row, each within an hour of the one before, and the last of
  them. Nothing is ever dropped.
\<close>

type_synonym tally = "string \<Rightarrow> (nat \<times> instant) option"

definition recent :: "tally \<Rightarrow> string \<Rightarrow> instant \<Rightarrow> (nat \<times> instant) option" where
  "recent h key now = (case h key of None \<Rightarrow> None | Some (n, l) \<Rightarrow> if now - l > forgetAfter then None else Some (n, l))"

definition tally_wait :: "tally \<Rightarrow> string \<Rightarrow> instant \<Rightarrow> duration" where
  "tally_wait h key now = (case recent h key now of None \<Rightarrow> 0 | Some (n, l) \<Rightarrow> max 0 (l + wait_of n - now))"

definition tally_fail :: "tally \<Rightarrow> string \<Rightarrow> instant \<Rightarrow> tally" where
  "tally_fail h key now = h(key \<mapsto> (case recent h key now of None \<Rightarrow> (1, now) | Some (n, l) \<Rightarrow> (n + 1, now)))"

definition record_of :: "nat \<times> instant \<Rightarrow> attempt_record" where
  "record_of p = (case p of (n, l) \<Rightarrow> \<lparr>ar_failures = n, ar_last = l, ar_until = (if n \<le> freeAttempts then 0 else l + wait_of n)\<rparr>)"

definition live :: "throttle \<Rightarrow> string \<Rightarrow> instant \<Rightarrow> attempt_record option" where
  "live t key now = (case map_of t key of None \<Rightarrow> None | Some r \<Rightarrow> if now - ar_last r > forgetAfter then None else Some r)"

text \<open>A table stands for a tally when what is recent of the one is live in the other.\<close>

definition stands_for :: "throttle \<Rightarrow> tally \<Rightarrow> instant \<Rightarrow> bool" where
  "stands_for t h now \<longleftrightarrow> distinct (map fst t) \<and> 0 \<le> now \<and> (\<forall>k. live t k now = map_option record_of (recent h k now)) \<and>
     (\<forall>k n l. recent h k now = Some (n, l) \<longrightarrow> l \<le> now)"

lemma quiet_iff: "time_sub now l > forgetAfter \<longleftrightarrow> now - l > forgetAfter"
  by (rule time_sub_gt_iff) (simp_all add: min_duration_def max_duration_def)

lemmas quiet_numeral = quiet_iff [simplified]

lemma live_later: "now \<le> now' \<Longrightarrow> live t k now' = (case live t k now of None \<Rightarrow> None | Some r \<Rightarrow> if now' - ar_last r > forgetAfter then None else Some r)"
  by (auto simp: live_def split: option.split)

lemma recent_later: "now \<le> now' \<Longrightarrow> recent h k now' = (case recent h k now of None \<Rightarrow> None | Some (n, l) \<Rightarrow> if now' - l > forgetAfter then None else Some (n, l))"
  by (auto simp: recent_def split: option.split prod.split)

lemma stands_later: "stands_for t h now \<Longrightarrow> now \<le> now' \<Longrightarrow> stands_for t h now'"
  unfolding stands_for_def
  by (force simp: live_later recent_later record_of_def split: option.splits prod.splits if_splits)

lemma live_sweep: "distinct (map fst t) \<Longrightarrow> live (sweep t now) k now = live t k now"
proof -
  assume d: "distinct (map fst t)"
  have "map_of (filter (\<lambda>(k, r). \<not> now - ar_last r > forgetAfter) t) k =
      (case map_of t k of None \<Rightarrow> None | Some r \<Rightarrow> if now - ar_last r > forgetAfter then None else Some r)"
    using d by (induction t) (auto split: option.split dest: map_of_SomeD simp: map_of_eq_None_iff)
  moreover have "sweep t now = (if length t < 1024 then t else filter (\<lambda>(k, r). \<not> now - ar_last r > forgetAfter) t)"
    by (simp only: sweep_def quiet_iff)
  ultimately show ?thesis unfolding live_def by (auto split: option.split)
qed

lemma live_update: "live (AList.update key r t) k now = (if k = key then (if now - ar_last r > forgetAfter then None else Some r) else live t k now)"
  by (simp add: live_def update_conv')

lemma live_delete: "live (AList.delete key t) k now = (if k = key then None else live t k now)"
  by (simp add: live_def delete_conv')

lemma distinct_sweep: "distinct (map fst t) \<Longrightarrow> distinct (map fst (sweep t now))"
  by (simp add: sweep_def distinct_map_filter)

lemma retry_stands:
  assumes "stands_for t h now"
  shows "fst (retry_after t key now) = tally_wait h key now \<and> stands_for (snd (retry_after t key now)) h now"
proof -
  have s: "time_sub (l + wait_of n) now = l + wait_of n - now" if "l \<le> now" "now < l + wait_of n" for n l
    using wait_of_bounds(2) [of n] that by (simp add: time_sub_def min_duration_def max_duration_def)
  have lv: "live t key now = map_option record_of (recent h key now)" using assms by (simp add: stands_for_def)
  show ?thesis
  proof (cases "map_of t key")
    case None
    then show ?thesis using lv assms by (simp add: retry_after_def live_def tally_wait_def)
  next
    case (Some r)
    show ?thesis
    proof (cases "now - ar_last r > forgetAfter")
      case True
      then have "recent h key now = None" using lv Some by (simp add: live_def)
      moreover from this have "stands_for (AList.delete key t) h now"
        using assms by (auto simp: stands_for_def live_delete distinct_delete)
      ultimately show ?thesis using Some True by (simp add: retry_after_def quiet_numeral tally_wait_def)
    next
      case False
      then obtain n l where r: "recent h key now = Some (n, l)" "r = record_of (n, l)"
        using lv Some by (cases "recent h key now") (auto simp: live_def)
      have "l \<le> now" "0 \<le> now" using assms r(1) by (auto simp: stands_for_def)
      moreover have "wait_of n = 0" if "n \<le> freeAttempts" using that by (simp add: wait_of_def)
      ultimately show ?thesis
        using Some False r assms s [of l n]
        by (cases "n \<le> freeAttempts") (simp_all add: retry_after_def quiet_numeral tally_wait_def record_of_def)
    qed
  qed
qed

lemma fail_stands:
  assumes "stands_for t h now"
  shows "stands_for (snd (throttle_fail t key now)) (tally_fail h key now) now"
proof -
  define p where "p = (case recent h key now of None \<Rightarrow> (1, now) | Some (n, l) \<Rightarrow> (n + 1, now))"
  have lv: "live t key now = map_option record_of (recent h key now)" using assms by (simp add: stands_for_def)
  have "\<exists>t'. snd (throttle_fail t key now) = t' \<and> distinct (map fst t') \<and> (\<forall>k. live t' k now = live (AList.update key (record_of p) t) k now)"
  proof -
    define r where "r = (case map_of t key of
            Some r \<Rightarrow> if time_sub now (ar_last r) > forgetAfter then \<lparr>ar_failures = 0, ar_last = 0, ar_until = 0\<rparr> else r
          | None \<Rightarrow> \<lparr>ar_failures = 0, ar_last = 0, ar_until = 0\<rparr>)"
    have r: "ar_failures r + 1 = fst p \<and> snd p = now \<and> (ar_failures r + 1 \<le> freeAttempts \<longrightarrow> ar_until r = 0)"
    proof (cases "live t key now")
      case None
      then show ?thesis
        using lv unfolding r_def p_def quiet_iff by (auto simp: live_def split: option.splits if_splits)
    next
      case (Some r')
      then obtain n l where p': "recent h key now = Some (n, l)" "r' = record_of (n, l)" using lv by auto
      have "r = r'" using Some unfolding r_def quiet_iff by (auto simp: live_def split: option.splits if_splits)
      then show ?thesis using p' by (simp add: p_def record_of_def)
    qed
    have d: "distinct (map fst t)" using assms by (simp add: stands_for_def)
    show ?thesis
    proof (cases "ar_failures r + 1 \<le> freeAttempts")
      case True
      then have "record_of p = r\<lparr>ar_failures := ar_failures r + 1, ar_last := now\<rparr>"
        using r by (cases p; cases r) (auto simp: record_of_def)
      then show ?thesis
        using True d unfolding throttle_fail_def r_def [symmetric] Let_def by (simp add: distinct_update)
    next
      case False
      then have "record_of p = r\<lparr>ar_failures := ar_failures r + 1, ar_last := now, ar_until := now + earned_wait (ar_failures r + 1)\<rparr>"
        using r wait_of_earned [of "ar_failures r + 1"] by (cases p; cases r) (auto simp: record_of_def)
      then show ?thesis
        using False d unfolding throttle_fail_def r_def [symmetric] Let_def
        by (simp add: distinct_update distinct_sweep live_sweep)
    qed
  qed
  then obtain t' where t': "snd (throttle_fail t key now) = t'" "distinct (map fst t')" "\<And>k. live t' k now = live (AList.update key (record_of p) t) k now" by blast
  have now: "ar_last (record_of p) = now" "snd p = now" by (auto simp: p_def record_of_def split: option.split)
  have "recent (tally_fail h key now) k now = (if k = key then Some p else recent h k now)" for k
    using now(2) unfolding tally_fail_def p_def [symmetric] by (cases p) (simp add: recent_def)
  then show ?thesis
    using assms t' now unfolding stands_for_def live_update by (auto split: if_splits)
qed

lemma succeed_stands: "stands_for t h now \<Longrightarrow> stands_for (succeed t key) (h(key := None)) now"
  unfolding stands_for_def succeed_def live_delete by (auto simp: recent_def distinct_delete)

end
