(* ===== verification/Totp.thy ===== *)
theory Totp imports Prelude begin

text \<open>
  The six-digit codes of an authenticator app (internal/totp/totp.go). HMAC-SHA-1 is a parameter;
  base32 without padding is the standard library's. Secrets and codes are ASCII.
\<close>

abbreviation (input) Step :: nat where "Step \<equiv> 30"
abbreviation (input) Digits :: nat where "Digits \<equiv> 6"
abbreviation (input) Skew :: nat where "Skew \<equiv> 1"
abbreviation (input) secretBytes :: nat where "secretBytes \<equiv> 20"

section \<open>Base32 without padding\<close>

definition b32_char :: "5 word \<Rightarrow> char" where
  "b32_char w = (let n = unat w in char_of (if n < 26 then 65 + n else 24 + n))"

definition b32_val :: "char \<Rightarrow> 5 word option" where
  "b32_val c =
     (if char_range (CHR ''A'') (CHR ''Z'') c then Some (of_nat (of_char c - 65))
      else if char_range (CHR ''2'') (CHR ''7'') c then Some (of_nat (of_char c - 24))
      else None)"

text \<open>
  EncodeToString: five bytes are eight letters, and what is left at the end is written in as many
  letters as it needs.
\<close>

definition b32_quantum :: "bytes \<Rightarrow> 5 word list" where
  "b32_quantum bs =
     (let w = (rd_be (take 5 (bs @ replicate 5 0)) :: 40 word)
      in map (\<lambda>i. ucast (drop_bit (35 - 5 * i) w)) [0..<8])"

fun b32_encode :: "bytes \<Rightarrow> string" where
  "b32_encode bs =
     (if bs = [] then ''''
      else map b32_char (take (if length bs \<ge> 5 then 8 else (8 * length bs + 4) div 5) (b32_quantum bs)) @ b32_encode (drop 5 bs))"

declare b32_encode.simps [simp del]

text \<open>
  DecodeString: line ends are dropped first. A last group of 2, 4, 5 or 7 letters gives 1 to 4
  bytes, one of 1, 3 or 6 letters gives none, and bits over are not looked at.
\<close>

definition b32_bytes :: "nat \<Rightarrow> nat" where
  "b32_bytes k = (if k = 8 then 5 else if k = 7 then 4 else if k = 5 then 3 else if k = 4 then 2 else if k = 2 then 1 else 0)"

definition b32_pack :: "5 word list \<Rightarrow> bytes" where
  "b32_pack ws =
     (let w = foldl (\<lambda>a v. push_bit 5 a OR ucast v) (0 :: 40 word) (take 8 (ws @ replicate 8 0))
      in take (b32_bytes (length ws)) (be_bytes 5 w))"

fun b32_groups :: "5 word list \<Rightarrow> bytes" where
  "b32_groups ws = (if ws = [] then [] else b32_pack (take 8 ws) @ b32_groups (drop 8 ws))"

declare b32_groups.simps [simp del]

definition b32_decode :: "string \<Rightarrow> bytes option" where
  "b32_decode s = map_option b32_groups (those (map b32_val (filter (\<lambda>c. c \<noteq> CHR 0x0D \<and> c \<noteq> CHR 0x0A) s)))"

section \<open>Codes\<close>

definition new_secret :: "bytes \<Rightarrow> string" where
  "new_secret raw = b32_encode raw"

definition ascii_upper :: "char \<Rightarrow> char" where
  "ascii_upper c = (if char_range (CHR ''a'') (CHR ''z'') c then char_of (of_char c - 32 :: nat) else c)"

definition trim_right :: "char \<Rightarrow> string \<Rightarrow> string" where
  "trim_right c s = rev (dropWhile ((=) c) (rev s))"

definition decode_secret :: "string \<Rightarrow> bytes option" where
  "decode_secret secret =
     (let s = map ascii_upper (filter (\<lambda>c. c \<noteq> CHR '' '') (trim_space secret)) in
      case b32_decode (trim_right (CHR ''='') s) of
        None \<Rightarrow> None
      | Some key \<Rightarrow> if key = [] then None else Some key)"

type_synonym hmac_sha1 = "bytes \<Rightarrow> bytes \<Rightarrow> bytes"

text \<open>%0*d of a number of at most that many digits.\<close>

definition padded :: "nat \<Rightarrow> nat \<Rightarrow> string" where
  "padded k n = replicate (k - length (dec n)) (CHR ''0'') @ dec n"

definition totp_code :: "hmac_sha1 \<Rightarrow> bytes \<Rightarrow> u64 \<Rightarrow> string" where
  "totp_code hm key counter =
     (let sum = hm key (be_bytes 8 counter);
          offset = unat (last sum AND 0x0F);
          value = (rd_be (take 4 (drop offset sum)) :: u32) AND 0x7FFFFFFF
      in padded Digits (unat (value mod 10 ^ Digits)))"

text \<open>Unix: whole seconds since 1970, as the unsigned number a time before it comes to as well.\<close>

abbreviation (input) unixEpoch :: instant where "unixEpoch \<equiv> 62135596800 * second"

definition unix :: "instant \<Rightarrow> u64" where
  "unix t = word_of_int ((t - unixEpoch) div second)"

definition totp_generate :: "hmac_sha1 \<Rightarrow> string \<Rightarrow> instant \<Rightarrow> string option" where
  "totp_generate hm secret at =
     (case decode_secret secret of
        None \<Rightarrow> None
      | Some key \<Rightarrow> Some (totp_code hm key (unix at div of_nat Step)))"

text \<open>The loop over delta, and the counter each one looks at; before the first step there is none.\<close>

definition counters_at :: "u64 \<Rightarrow> u64 list" where
  "counters_at counter =
     concat (map (\<lambda>delta. if delta < 0 then if counter < word_of_int (- delta) then [] else [counter - word_of_int (- delta)]
         else [counter + word_of_int delta]) [- int Skew..int Skew])"

definition totp_validate :: "hmac_sha1 \<Rightarrow> string \<Rightarrow> string \<Rightarrow> instant \<Rightarrow> bool" where
  "totp_validate hm secret entered now =
     (let entered = trim_space entered in
      if length entered \<noteq> Digits then False
      else case decode_secret secret of
          None \<Rightarrow> False
        | Some key \<Rightarrow> list_ex (\<lambda>c. totp_code hm key c = entered) (counters_at (unix now div of_nat Step)))"

section \<open>Base32 read back\<close>

text \<open>What a letter says, and that none is one of the characters dropped or cut on the way in.\<close>

definition b32_alphabet :: string where
  "b32_alphabet = ''ABCDEFGHIJKLMNOPQRSTUVWXYZ234567''"

lemma b32_chars: "map (\<lambda>n. b32_char (of_nat n)) [0..<32] = b32_alphabet"
  by (simp add: b32_char_def b32_alphabet_def Let_def upt_rec unat_of_nat char_of_def bit_Suc_0_iff)

lemma b32_vals: "map b32_val b32_alphabet = map (\<lambda>n. Some (of_nat n)) [0..<32]"
  by (simp add: b32_val_def b32_alphabet_def char_range_def upt_rec)

lemma b32_plain: "list_all (\<lambda>c. ascii_upper c = c \<and> \<not> go_space c \<and> c \<notin> {CHR '' '', CHR ''='', CHR 0x0D, CHR 0x0A}) b32_alphabet"
  by (simp add: b32_alphabet_def ascii_upper_def char_range_def go_space_def)

lemma b32_letter: "b32_val (b32_char w) = Some w \<and> ascii_upper (b32_char w) = b32_char w \<and> \<not> go_space (b32_char w) \<and>
    b32_char w \<notin> {CHR '' '', CHR ''='', CHR 0x0D, CHR 0x0A}"
proof -
  have n: "unat w < 32" using unsigned_less [of w] by simp
  have c: "b32_char w = b32_alphabet ! unat w"
    using arg_cong [OF b32_chars, of "\<lambda>s. s ! unat w"] n by simp
  have "length b32_alphabet = 32" using arg_cong [OF b32_chars, of length] by simp
  moreover have "b32_val (b32_alphabet ! unat w) = Some w"
    using arg_cong [OF b32_vals, of "\<lambda>s. s ! unat w"] n calculation by simp
  ultimately show ?thesis using b32_plain n unfolding c list_all_length by auto
qed

lemma fold_letters:
  fixes w :: "40 word"
  assumes "j \<le> 8"
  shows "foldl (\<lambda>a v. push_bit 5 a OR ucast v) (0 :: 40 word) (map (\<lambda>i. ucast (drop_bit (35 - 5 * i) w) :: 5 word) [0..<j]) =
    drop_bit (40 - 5 * j) w"
  using assms
proof (induction j)
  case 0
  then show ?case by (intro bit_word_eqI) (auto simp: bit_simps dest: bit_imp_le_length)
next
  case (Suc j)
  then have "push_bit 5 (drop_bit (40 - 5 * j) w) OR ucast (ucast (drop_bit (35 - 5 * j) w) :: 5 word) = drop_bit (40 - 5 * Suc j) w"
    by (intro bit_word_eqI) (auto simp: bit_simps less_diff_conv algebra_simps dest: bit_imp_le_length)
  then show ?case using Suc by simp
qed

lemma fold_zeros: "foldl (\<lambda>a (v :: 5 word). push_bit 5 a OR ucast v) (x :: 40 word) (replicate n 0) = push_bit (5 * n) x"
  by (induction n arbitrary: x) (simp_all add: push_bit_push_bit add.commute)

lemma rd_be_padded: "rd_be (bs @ replicate n 0) = (push_bit (8 * n) (rd_be bs) :: 40 word)"
proof (induction n)
  case (Suc n)
  have "rd_be (bs @ replicate (Suc n) 0) = (rd_be ((bs @ replicate n 0) @ [0]) :: 40 word)"
    by (simp add: replicate_append_same)
  also have "\<dots> = push_bit 8 (push_bit (8 * n) (rd_be bs))" unfolding rd_be_snoc Suc by simp
  finally show ?case by (simp add: push_bit_push_bit)
qed simp

lemma be_bytes_take:
  fixes w :: "40 word"
  assumes "length bs \<le> 5" "w = rd_be (bs @ replicate (5 - length bs) 0)"
  shows "take (length bs) (be_bytes 5 w) = bs"
proof -
  have "be_bytes 5 w = bs @ replicate (5 - length bs) 0"
    unfolding assms(2) by (rule be_bytes_rd_be) (use assms(1) in simp_all)
  then show ?thesis by simp
qed

definition letters_for :: "nat \<Rightarrow> nat" where
  "letters_for k = (if k \<ge> 5 then 8 else (8 * k + 4) div 5)"

lemma letters_for: "k \<le> 5 \<Longrightarrow> letters_for k \<le> 8 \<and> b32_bytes (letters_for k) = k \<and> 8 * k \<le> 5 * letters_for k \<and> (letters_for k = 0 \<longleftrightarrow> k = 0)"
proof -
  assume "k \<le> 5"
  then have "k \<in> {0, 1, 2, 3, 4, 5}" by auto
  then show ?thesis by (elim insertE emptyE) (simp_all add: letters_for_def b32_bytes_def)
qed

lemma quantum_alt: "b32_quantum bs = map (\<lambda>i. ucast (drop_bit (35 - 5 * i) (rd_be (take 5 (bs @ replicate 5 0)) :: 40 word))) [0..<8]"
  by (simp only: b32_quantum_def Let_def)

lemma pack_quantum:
  assumes "length bs \<le> 5"
  shows "b32_pack (take (letters_for (length bs)) (b32_quantum bs)) = bs"
proof -
  let ?k = "length bs" let ?m = "letters_for ?k"
  define w :: "40 word" where "w = rd_be (bs @ replicate (5 - ?k) 0)"
  note m = letters_for [OF assms]
  have pad: "take 5 (bs @ replicate 5 0) = bs @ replicate (5 - ?k) 0" using assms by simp
  have q: "take ?m (b32_quantum bs) = map (\<lambda>i. ucast (drop_bit (35 - 5 * i) w)) [0..<?m]"
    using m unfolding quantum_alt pad w_def [symmetric] by (simp add: take_map)
  have "foldl (\<lambda>a v. push_bit 5 a OR ucast v) (0 :: 40 word) (take 8 (take ?m (b32_quantum bs) @ replicate 8 0)) =
      push_bit (5 * (8 - ?m)) (drop_bit (40 - 5 * ?m) w)"
    unfolding q using m fold_letters [of ?m w] by (simp add: fold_zeros)
  also have "\<dots> = push_bit (40 - 5 * ?m) (drop_bit (40 - 5 * ?m) (push_bit (40 - 8 * ?k) (rd_be bs)))"
    unfolding w_def rd_be_padded by (simp add: diff_mult_distrib2)
  also have "\<dots> = push_bit (40 - 8 * ?k) (rd_be bs)"
    using m by (intro bit_word_eqI) (auto simp: bit_simps)
  also have "\<dots> = w" unfolding w_def rd_be_padded by (simp add: diff_mult_distrib2)
  finally have f: "foldl (\<lambda>a v. push_bit 5 a OR ucast v) (0 :: 40 word) (take 8 (take ?m (b32_quantum bs) @ replicate 8 0)) = w" .
  have "length (take ?m (b32_quantum bs)) = ?m" unfolding q by simp
  then show ?thesis
    using m be_bytes_take [OF assms, of w] w_def unfolding b32_pack_def Let_def f by simp
qed

fun b32_letters :: "bytes \<Rightarrow> 5 word list" where
  "b32_letters bs = (if bs = [] then [] else take (letters_for (length bs)) (b32_quantum bs) @ b32_letters (drop 5 bs))"

declare b32_letters.simps [simp del]

lemma encode_letters: "b32_encode bs = map b32_char (b32_letters bs)"
  by (induction bs rule: b32_letters.induct)
    (subst b32_encode.simps, subst b32_letters.simps, simp add: letters_for_def)

lemma quantum_take: "take 5 bs = take 5 bs' \<Longrightarrow> b32_quantum bs = b32_quantum bs'" if "5 \<le> length bs" "5 \<le> length bs'"
  using that by (simp add: b32_quantum_def)

lemma groups_letters: "b32_groups (b32_letters bs) = bs"
proof (induction bs rule: b32_letters.induct)
  case (1 bs)
  show ?case
  proof (cases "5 < length bs")
    case False
    then have "b32_letters (drop 5 bs) = []" by (simp add: b32_letters.simps)
    then have l: "b32_letters bs = take (letters_for (length bs)) (b32_quantum bs)"
      by (subst b32_letters.simps) (simp add: letters_for_def)
    have len: "length (take (letters_for (length bs)) (b32_quantum bs)) = letters_for (length bs)"
      using False letters_for [of "length bs"] by (simp add: b32_quantum_def)
    show ?thesis
    proof (cases "bs = []")
      case True
      then show ?thesis by (simp add: b32_letters.simps b32_groups.simps)
    next
      case ne: False
      have 8: "letters_for (length bs) \<le> 8" "letters_for (length bs) \<noteq> 0" using False ne letters_for [of "length bs"] by auto
      then have "b32_letters bs \<noteq> []" using l len by auto
      moreover have "take 8 (b32_letters bs) = b32_letters bs" "drop 8 (b32_letters bs) = []" using l len 8 by auto
      ultimately show ?thesis
        using pack_quantum [of bs] False l by (subst b32_groups.simps) (simp add: b32_groups.simps)
    qed
  next
    case True
    then have "length (take 8 (b32_quantum bs)) = 8" by (simp add: b32_quantum_def)
    moreover have "b32_letters bs = take 8 (b32_quantum bs) @ b32_letters (drop 5 bs)"
      using True by (subst b32_letters.simps) (auto simp: letters_for_def)
    ultimately have t: "take 8 (b32_letters bs) = take 8 (b32_quantum bs)" "drop 8 (b32_letters bs) = b32_letters (drop 5 bs)" "b32_letters bs \<noteq> []"
      by auto
    have "b32_quantum bs = b32_quantum (take 5 bs)" using True by (simp add: b32_quantum_def)
    then have "b32_pack (take 8 (b32_quantum bs)) = take 5 bs"
      using pack_quantum [of "take 5 bs"] True by (simp add: letters_for_def)
    moreover from True have "bs \<noteq> []" by auto
    ultimately show ?thesis using t 1 by (subst b32_groups.simps) simp
  qed
qed

lemma letters_chars: "c \<in> set (b32_encode bs) \<Longrightarrow>
    ascii_upper c = c \<and> \<not> go_space c \<and> c \<notin> {CHR '' '', CHR ''='', CHR 0x0D, CHR 0x0A}"
  using b32_letter by (auto simp: encode_letters)

lemma those_letters: "those (map b32_val (map b32_char ws)) = Some ws"
  using b32_letter by (induction ws) simp_all

lemma decode_encode: "b32_decode (b32_encode bs) = Some bs"
proof -
  have "filter (\<lambda>c. c \<noteq> CHR 0x0D \<and> c \<noteq> CHR 0x0A) (b32_encode bs) = b32_encode bs"
    using letters_chars by (auto simp: filter_id_conv)
  then have "b32_decode (b32_encode bs) = map_option b32_groups (those (map b32_val (map b32_char (b32_letters bs))))"
    by (simp only: b32_decode_def encode_letters)
  then show ?thesis by (simp only: those_letters groups_letters option.map)
qed

lemma decode_new_secret: "raw \<noteq> [] \<Longrightarrow> decode_secret (new_secret raw) = Some raw"
proof -
  assume raw: "raw \<noteq> []"
  let ?e = "b32_encode raw"
  have "trim_space ?e = ?e" using letters_chars by (intro trim_space_id) (auto simp: list_all_iff)
  moreover have "filter (\<lambda>c. c \<noteq> CHR '' '') ?e = ?e" using letters_chars by (auto simp: filter_id_conv)
  moreover have "map ascii_upper ?e = ?e" using letters_chars by (auto intro: map_idI)
  moreover have "trim_right (CHR ''='') ?e = ?e"
  proof -
    have "CHR ''='' \<noteq> c" if "c \<in> set (rev ?e)" for c using letters_chars [of c raw] that by auto
    then have "dropWhile ((=) (CHR ''='')) (rev ?e) = rev ?e" by (intro dropWhile_id) auto
    then show ?thesis by (simp add: trim_right_def)
  qed
  ultimately show ?thesis
    using raw by (simp add: decode_secret_def new_secret_def decode_encode Let_def)
qed

section \<open>Which codes are taken\<close>

lemma code_shape: "length (totp_code hm key c) = Digits \<and> trim_space (totp_code hm key c) = totp_code hm key c"
proof -
  let ?v = "(rd_be (take 4 (drop (unat (last (hm key (be_bytes 8 c)) AND 0x0F)) (hm key (be_bytes 8 c)))) :: u32) AND 0x7FFFFFFF"
  have c: "totp_code hm key c = padded Digits (unat (?v mod 10 ^ Digits))" by (simp only: totp_code_def Let_def)
  have "unat (?v mod 10 ^ Digits) < 10 ^ Digits" by (simp add: unat_mod)
  then have "length (dec (unat (?v mod 10 ^ Digits))) \<le> Digits" by (rule dec_length) simp
  moreover have "list_all (\<lambda>d. \<not> go_space d) (padded Digits (unat (?v mod 10 ^ Digits)))"
    using dec_digits [of "unat (?v mod 10 ^ Digits)"]
    by (auto simp: padded_def list_all_iff is_digit_def go_space_def)
  ultimately show ?thesis unfolding c by (simp add: padded_def trim_space_id)
qed

text \<open>The number of the step a moment is in.\<close>

definition step_of :: "instant \<Rightarrow> nat" where
  "step_of now = nat ((now - unixEpoch) div second) div Step"

definition in_range :: "instant \<Rightarrow> bool" where
  "in_range now \<longleftrightarrow> unixEpoch \<le> now \<and> now < unixEpoch + 2 ^ 63 * second"

lemma word_of_nat_unat_self: "of_nat (unat (w :: 'a::len word)) = w"
  by (rule word_unat_eq_iff [THEN iffD2]) (simp add: unat_of_nat take_bit_eq_mod [symmetric])

lemma step_counter:
  assumes "in_range now"
  shows "unix now div of_nat Step = of_nat (step_of now)" "step_of now < 2 ^ 60"
proof -
  define n where "n = nat ((now - unixEpoch) div second)"
  have i: "(now - unixEpoch) div second = int n" using assms unfolding n_def in_range_def by simp
  have "now - unixEpoch < 2 ^ 63 * second" using assms unfolding in_range_def by linarith
  then have "(now - unixEpoch) div second < 2 ^ 63" by linarith
  then have n: "n < 2 ^ 63" using i by simp
  then have u: "unat (of_nat n :: u64) = n" by (simp add: unat_of_nat)
  have un: "unix now = of_nat n" unfolding unix_def i by simp
  have "unat ((of_nat n :: u64) div of_nat Step) = n div Step" by (simp add: unat_div u)
  then have "(of_nat n :: u64) div of_nat Step = of_nat (n div Step)" by (metis word_of_nat_unat_self)
  then show "unix now div of_nat Step = of_nat (step_of now)" by (simp add: un step_of_def n_def)
  have "step_of now = n div Step" by (simp only: step_of_def n_def)
  then show "step_of now < 2 ^ 60" using n by simp
qed

lemma counters_near:
  assumes "n < 2 ^ 60"
  shows "c \<in> set (counters_at (of_nat n)) \<longleftrightarrow> (\<exists>k. n \<le> k + Skew \<and> k \<le> n + Skew \<and> c = of_nat k)"
proof -
  have d: "[- int Skew..int Skew] = [-1, 0, 1]" by (simp add: upto.simps)
  have u: "unat (of_nat n :: u64) = n" using assms by (simp add: unat_of_nat)
  have z: "(of_nat n :: u64) < 1 \<longleftrightarrow> n = 0" using u by (simp add: word_less_nat_alt)
  have "(\<exists>k. n \<le> k + Skew \<and> k \<le> n + Skew \<and> c = of_nat k) \<longleftrightarrow>
      (n \<noteq> 0 \<and> c = of_nat (n - 1)) \<or> c = of_nat n \<or> c = of_nat (n + 1)" (is "?l \<longleftrightarrow> ?r")
  proof
    assume ?l
    then obtain k where k: "n \<le> k + 1" "k \<le> n + 1" "c = of_nat k" by auto
    then have "k + 1 = n \<or> k = n \<or> k = n + 1" by arith
    with k show ?r by auto
  next
    assume ?r
    then show ?l by (elim disjE conjE) (auto intro: exI [of _ "n - 1"] exI [of _ n] exI [of _ "n + 1"])
  qed
  moreover have "c \<in> set (counters_at (of_nat n)) \<longleftrightarrow> (n \<noteq> 0 \<and> c = of_nat n - 1) \<or> c = of_nat n \<or> c = of_nat n + 1"
    unfolding counters_at_def d using z by (cases "n = 0") simp_all
  moreover have "n \<noteq> 0 \<Longrightarrow> (of_nat (n - 1) :: u64) = of_nat n - 1" by (simp add: of_nat_diff)
  ultimately show ?thesis by (auto simp: add.commute)
qed

lemma validate_exact:
  assumes "in_range now"
  shows "totp_validate hm secret entered now \<longleftrightarrow>
    (\<exists>key k. decode_secret secret = Some key \<and> step_of now \<le> k + Skew \<and> k \<le> step_of now + Skew \<and>
      trim_space entered = totp_code hm key (of_nat k))"
proof -
  have "list_ex (\<lambda>c. totp_code hm key c = e) (counters_at (unix now div of_nat Step)) \<longleftrightarrow>
      (\<exists>k. step_of now \<le> k + Skew \<and> k \<le> step_of now + Skew \<and> e = totp_code hm key (of_nat k))" for key e
    unfolding step_counter(1) [OF assms] list_ex_iff Bex_def counters_near [OF step_counter(2) [OF assms]] by metis
  then show ?thesis
    using code_shape by (auto simp: totp_validate_def Let_def split: option.split)
qed

text \<open>
  With a usable clock, a code is taken exactly when, its spaces trimmed, it is the code of the
  step the moment is in, of the one before or of the one after; before the first step there is
  none. Nothing is taken against a secret that does not decode.
\<close>
lemma totp_validate_exact:
  assumes "in_range now"
  shows "totp_validate hm secret entered now \<longleftrightarrow>
    (\<exists>key k. decode_secret secret = Some key \<and> step_of now \<le> k + Skew \<and> k \<le> step_of now + Skew \<and>
      trim_space entered = totp_code hm key (of_nat k))"
  by (rule validate_exact [OF assms])

text \<open>
  A new secret, of whatever bytes were drawn, reads back as those bytes, and the code an app
  shows for it at some moment is taken for half a minute before and after.
\<close>
lemma totp_generated_accepted:
  assumes "raw \<noteq> []" "in_range at" "in_range now" "\<bar>now - at\<bar> \<le> int Step * second"
  shows "decode_secret (new_secret raw) = Some raw \<and>
    (\<exists>c. totp_generate hm (new_secret raw) at = Some c \<and> totp_validate hm (new_secret raw) c now)"
proof -
  have near: "x div second div 30 \<le> y div second div 30 + 1" if "x \<le> y + 30 * second" for x y :: int
  proof -
    have "x div second div 30 \<le> (y + 30 * second) div second div 30" using that by (intro zdiv_mono1) auto
    also have "\<dots> = y div second div 30 + 1" by simp
    finally show ?thesis .
  qed
  have s: "int (step_of t) = (t - unixEpoch) div second div 30" if "in_range t" for t
    using that by (simp add: step_of_def in_range_def zdiv_int)
  have "int (step_of now) \<le> int (step_of at) + 1" "int (step_of at) \<le> int (step_of now) + 1"
    unfolding s [OF assms(2)] s [OF assms(3)] using assms(4) by (intro near; simp)+
  then have "step_of now \<le> step_of at + Skew" "step_of at \<le> step_of now + Skew" by simp_all
  then show ?thesis
    unfolding validate_exact [OF assms(3)]
    using step_counter(1) [OF assms(2)] decode_new_secret [OF assms(1)] code_shape
    by (auto simp: totp_generate_def)
qed

text \<open>A stand-in for HMAC-SHA-1, for the witnesses.\<close>

definition toy_hmac :: hmac_sha1 where
  "toy_hmac key msg = drop 4 msg @ replicate 16 0"

lemma toy_codes: "totp_code toy_hmac key 2 = ''000002'' \<and> totp_code toy_hmac key 3 = ''000003''"
proof -
  have "totp_code toy_hmac key c = totp_code toy_hmac [] c" for c by (simp add: totp_code_def toy_hmac_def)
  moreover have "totp_code toy_hmac [] 2 = ''000002'' \<and> totp_code toy_hmac [] 3 = ''000003''" by code_simp
  ultimately show ?thesis by metis
qed

lemma toy_validates:
  assumes "unixEpoch + 60 * second \<le> now" "now < unixEpoch + 90 * second" "code \<in> {''000002'', ''000003''}" "raw \<noteq> []"
  shows "totp_validate toy_hmac (new_secret raw) code now"
proof -
  have r: "in_range now" using assms(1,2) by (simp add: in_range_def)
  have "60 \<le> (now - unixEpoch) div second" "(now - unixEpoch) div second < 90" using assms(1,2) by auto
  then have st: "step_of now = 2" unfolding step_of_def by linarith
  have "trim_space code = totp_code toy_hmac raw (of_nat 2) \<or> trim_space code = totp_code toy_hmac raw (of_nat 3)"
    using assms(3) toy_codes [of raw] by (auto simp: trim_space_def go_space_def)
  then show ?thesis
    unfolding validate_exact [OF r] st using decode_new_secret [OF assms(4)]
    by (auto intro: exI [of _ 2] exI [of _ 3])
qed

end
