(* ===== verification/Login.thy ===== *)
theory Login imports Throttle Totp begin

text \<open>
  The places a password or a code is asked for (internal/api/auth.go handleLogin and
  handleTOTPDisable, internal/api/settings.go handleChangePassword): the throttle in front of them
  and the codes already used. bcrypt and HMAC-SHA-1 are parameters; what the database answers, whether
  a token could be issued or a change be stored, the address a request is from and the clock are
  arguments of a request. A name, a password and a code are ASCII.
\<close>

section \<open>Requests\<close>

record panel_admin =
  pa_id :: nat
  pa_hash :: string
  pa_secret :: string
  pa_owner :: bool
  pa_enabled :: bool

datatype lookup = NotFound | LookupFailed | Found panel_admin

record login_request =
  lr_username :: string
  lr_password :: string
  lr_code :: string

record used_code =
  uc_code :: string
  uc_at :: instant

record front =
  fr_throttle :: throttle
  fr_used :: "nat \<Rightarrow> used_code option"

definition new_front :: front where
  "new_front = \<lparr>fr_throttle = new_throttle, fr_used = (\<lambda>_. None)\<rparr>"

record proofs =
  pf_bcrypt :: "string \<Rightarrow> string \<Rightarrow> bool"
  pf_hmac :: hmac_sha1

text \<open>Answers, an error of the server told apart by where it comes from; all of those are a 500.\<close>

datatype answer = TooMany duration | WrongProof | SwitchedOff | NeedCode | LoadError | TokenError | StoreError | Accepted

definition ascii_lower :: "char \<Rightarrow> char" where
  "ascii_lower c = (if char_range (CHR ''A'') (CHR ''Z'') c then char_of (of_char c + 32 :: nat) else c)"

definition ip_key :: "string \<Rightarrow> string" where
  "ip_key ip = ''ip:'' @ ip"

definition user_key :: "string \<Rightarrow> string" where
  "user_key username = ''user:'' @ map ascii_lower (trim_space username)"

definition totp_key :: "nat \<Rightarrow> string" where
  "totp_key i = ''totpoff:'' @ dec i"

definition pwchange_key :: "nat \<Rightarrow> string" where
  "pwchange_key i = ''pwchange:'' @ dec i"

section \<open>What the handlers do\<close>

definition totp_replayed :: "front \<Rightarrow> nat \<Rightarrow> string \<Rightarrow> instant \<Rightarrow> bool \<times> front" where
  "totp_replayed s i code now =
     (let code = trim_space code in
      if (case fr_used s i of None \<Rightarrow> False | Some u \<Rightarrow> uc_code u = code \<and> time_sub now (uc_at u) < 120 * second) then (True, s)
      else (False, s\<lparr>fr_used := (fr_used s)(i \<mapsto> \<lparr>uc_code = code, uc_at = now\<rparr>)\<rparr>))"

text \<open>The second factor: a code that validates and was not just used; only one that validates is asked after.\<close>

definition code_taken :: "proofs \<Rightarrow> front \<Rightarrow> panel_admin \<Rightarrow> string \<Rightarrow> instant \<Rightarrow> instant \<Rightarrow> bool \<times> front" where
  "code_taken pf s a code now clock =
     (if \<not> totp_validate (pf_hmac pf) (pa_secret a) code clock then (False, s)
      else case totp_replayed s (pa_id a) code now of (replayed, s) \<Rightarrow> (\<not> replayed, s))"

definition sign_in_refusal :: "panel_admin \<Rightarrow> bool" where
  "sign_in_refusal a = (if pa_owner a then False else \<not> pa_enabled a)"

text \<open>The loop over the keys: the first that has to wait is answered.\<close>

fun first_wait :: "throttle \<Rightarrow> string list \<Rightarrow> instant \<Rightarrow> duration \<times> throttle" where
  "first_wait t [] now = (0, t)"
| "first_wait t (k # ks) now =
     (case retry_after t k now of (wait, t) \<Rightarrow> if wait > 0 then (wait, t) else first_wait t ks now)"

definition fail_keys :: "string list \<Rightarrow> instant \<Rightarrow> front \<Rightarrow> front" where
  "fail_keys ks now s = s\<lparr>fr_throttle := fold (\<lambda>k t. snd (throttle_fail t k now)) ks (fr_throttle s)\<rparr>"

definition clear_keys :: "string list \<Rightarrow> front \<Rightarrow> front" where
  "clear_keys ks s = s\<lparr>fr_throttle := fold (\<lambda>k t. succeed t k) ks (fr_throttle s)\<rparr>"

text \<open>
  A handler is two steps, each under the throttle's lock, with the password hashed in between: the
  request enters, and is told to wait or is looked at; and what was looked at is decided. Requests
  in flight together may have their steps in any order (theory Flights); a handler alone is
  the one step after the other.
\<close>

definition enter :: "front \<Rightarrow> string list \<Rightarrow> instant \<Rightarrow> duration \<times> front" where
  "enter s keys now = (case first_wait (fr_throttle s) keys now of (wait, t) \<Rightarrow> (wait, s\<lparr>fr_throttle := t\<rparr>))"

definition decide_login :: "proofs \<Rightarrow> front \<Rightarrow> string \<Rightarrow> login_request \<Rightarrow> (string \<Rightarrow> lookup) \<Rightarrow> instant \<Rightarrow> instant \<Rightarrow> bool \<Rightarrow> answer \<times> front" where
  "decide_login pf s ip req by_name now clock token_ok =
     (let keys = [ip_key ip, user_key (lr_username req)] in
      case by_name (trim_space (lr_username req)) of
          NotFound \<Rightarrow> (WrongProof, fail_keys keys now s)
        | LookupFailed \<Rightarrow> (LoadError, s)
        | Found a \<Rightarrow>
            if \<not> pf_bcrypt pf (pa_hash a) (lr_password req) then (WrongProof, fail_keys keys now s)
            else if sign_in_refusal a then (SwitchedOff, s)
            else if pa_secret a \<noteq> '''' \<and> trim_space (lr_code req) = '''' then (NeedCode, s)
            else case (if pa_secret a \<noteq> '''' then code_taken pf s a (lr_code req) now clock else (True, s)) of (ok, s) \<Rightarrow>
              if \<not> ok then (WrongProof, fail_keys keys now s)
              else if \<not> token_ok then (TokenError, s)
              else (Accepted, clear_keys keys s))"

definition handle_login :: "proofs \<Rightarrow> front \<Rightarrow> string \<Rightarrow> login_request \<Rightarrow> (string \<Rightarrow> lookup) \<Rightarrow> instant \<Rightarrow> instant \<Rightarrow> bool \<Rightarrow> answer \<times> front" where
  "handle_login pf s ip req by_name now clock token_ok =
     (case enter s [ip_key ip, user_key (lr_username req)] now of (wait, s) \<Rightarrow>
      if wait > 0 then (TooMany wait, s) else decide_login pf s ip req by_name now clock token_ok)"

definition decide_totp_disable :: "proofs \<Rightarrow> front \<Rightarrow> nat \<Rightarrow> string \<Rightarrow> string \<Rightarrow> panel_admin \<Rightarrow> instant \<Rightarrow> bool \<Rightarrow> answer \<times> front" where
  "decide_totp_disable pf s i password code a now stored_ok =
     (case (if password \<noteq> '''' \<and> pf_bcrypt pf (pa_hash a) password then (True, s)
            else if code \<noteq> '''' \<and> pa_secret a \<noteq> '''' then code_taken pf s a code now now
            else (False, s)) of (ok, s) \<Rightarrow>
        if \<not> ok then (WrongProof, fail_keys [totp_key i] now s)
        else let s = clear_keys [totp_key i] s in
          (if stored_ok then Accepted else StoreError, s))"

definition handle_totp_disable :: "proofs \<Rightarrow> front \<Rightarrow> nat \<Rightarrow> string \<Rightarrow> string \<Rightarrow> panel_admin option \<Rightarrow> instant \<Rightarrow> bool \<Rightarrow> answer \<times> front" where
  "handle_totp_disable pf s i password code stored now stored_ok =
     (case stored of
        None \<Rightarrow> (LoadError, s)
      | Some a \<Rightarrow>
          case enter s [totp_key i] now of (wait, s) \<Rightarrow>
          if wait > 0 then (TooMany wait, s) else decide_totp_disable pf s i password code a now stored_ok)"

text \<open>handleChangePassword from where it asks for the current password.\<close>

definition decide_change_password :: "proofs \<Rightarrow> front \<Rightarrow> panel_admin \<Rightarrow> string \<Rightarrow> instant \<Rightarrow> bool \<Rightarrow> answer \<times> front" where
  "decide_change_password pf s a password now stored_ok =
     (let key = pwchange_key (pa_id a) in
      if \<not> pf_bcrypt pf (pa_hash a) password then (WrongProof, fail_keys [key] now s)
      else (if stored_ok then Accepted else StoreError, clear_keys [key] s))"

definition handle_change_password :: "proofs \<Rightarrow> front \<Rightarrow> panel_admin \<Rightarrow> string \<Rightarrow> instant \<Rightarrow> bool \<Rightarrow> answer \<times> front" where
  "handle_change_password pf s a password now stored_ok =
     (case enter s [pwchange_key (pa_id a)] now of (wait, s) \<Rightarrow>
      if wait > 0 then (TooMany wait, s) else decide_change_password pf s a password now stored_ok)"

lemmas handler_defs = handle_login_def handle_totp_disable_def handle_change_password_def enter_def
  decide_login_def decide_totp_disable_def decide_change_password_def

section \<open>Requests one after another\<close>

datatype panel_request =
    SignIn string login_request "string \<Rightarrow> lookup" instant bool
  | TotpOff nat string string "panel_admin option" bool
  | PwChange panel_admin string bool

fun panel_step :: "proofs \<Rightarrow> front \<Rightarrow> instant \<Rightarrow> panel_request \<Rightarrow> answer \<times> front" where
  "panel_step pf s now (SignIn ip req by_name clock token_ok) = handle_login pf s ip req by_name now clock token_ok"
| "panel_step pf s now (TotpOff i password code stored ok) = handle_totp_disable pf s i password code stored now ok"
| "panel_step pf s now (PwChange a password ok) = handle_change_password pf s a password now ok"

text \<open>A run, newest last: every request with its moment and the answer it got.\<close>

type_synonym exchange = "instant \<times> panel_request \<times> answer"

fun panel_run :: "proofs \<Rightarrow> front \<Rightarrow> (instant \<times> panel_request) list \<Rightarrow> exchange list \<times> front" where
  "panel_run pf s [] = ([], s)"
| "panel_run pf s ((now, r) # rs) =
     (case panel_step pf s now r of (a, s) \<Rightarrow>
      case panel_run pf s rs of (es, s) \<Rightarrow> ((now, r, a) # es, s))"

section \<open>What the answers are by what has happened\<close>

fun keys_of :: "panel_request \<Rightarrow> string list" where
  "keys_of (SignIn ip req by_name clock token_ok) = [ip_key ip, user_key (lr_username req)]"
| "keys_of (TotpOff i password code stored ok) = [totp_key i]"
| "keys_of (PwChange a password ok) = [pwchange_key (pa_id a)]"

text \<open>A wrong proof counts against the request's keys; one accepted, stored or not, clears them.\<close>

fun clears :: "answer \<Rightarrow> bool" where
  "clears Accepted = True"
| "clears StoreError = True"
| "clears _ = False"

definition tally_exchange :: "exchange \<Rightarrow> tally \<Rightarrow> tally" where
  "tally_exchange e h =
     (case e of (now, r, a) \<Rightarrow>
      if a = WrongProof then fold (\<lambda>k h. tally_fail h k now) (keys_of r) h
      else if clears a then fold (\<lambda>k h. h(k := None)) (keys_of r) h
      else h)"

fun tally_first :: "tally \<Rightarrow> string list \<Rightarrow> instant \<Rightarrow> duration" where
  "tally_first h [] now = 0"
| "tally_first h (k # ks) now = (if tally_wait h k now > 0 then tally_wait h k now else tally_first h ks now)"

text \<open>A request whose proof is not looked at before the throttle: all but one whose row could not be read.\<close>

fun asked :: "panel_request \<Rightarrow> bool" where
  "asked (TotpOff i password code None ok) = False"
| "asked _ = True"

lemma first_wait_stands:
  "stands_for t h now \<Longrightarrow> fst (first_wait t ks now) = tally_first h ks now \<and> stands_for (snd (first_wait t ks now)) h now"
proof (induction ks arbitrary: t)
  case (Cons k ks)
  obtain w t' where r: "retry_after t k now = (w, t')" by fastforce
  show ?case using retry_stands [OF Cons.prems, of k] Cons.IH [of t'] r by auto
qed simp

lemma fail_keys_stands: "stands_for (fr_throttle s) h now \<Longrightarrow>
    stands_for (fr_throttle (fail_keys ks now s)) (fold (\<lambda>k h. tally_fail h k now) ks h) now"
proof -
  have "stands_for t h now \<Longrightarrow> stands_for (fold (\<lambda>k t. snd (throttle_fail t k now)) ks t) (fold (\<lambda>k h. tally_fail h k now) ks h) now" for t
    by (induction ks arbitrary: t h) (auto intro: fail_stands)
  then show "stands_for (fr_throttle s) h now \<Longrightarrow> ?thesis" by (simp add: fail_keys_def)
qed

lemma clear_keys_stands: "stands_for (fr_throttle s) h now \<Longrightarrow>
    stands_for (fr_throttle (clear_keys ks s)) (fold (\<lambda>k h. h(k := None)) ks h) now"
proof -
  have "stands_for t h now \<Longrightarrow> stands_for (fold (\<lambda>k t. succeed t k) ks t) (fold (\<lambda>k h. h(k := None)) ks h) now" for t
    by (induction ks arbitrary: t h) (auto intro: succeed_stands)
  then show "stands_for (fr_throttle s) h now \<Longrightarrow> ?thesis" by (simp add: clear_keys_def)
qed

lemma code_taken_throttle: "fr_throttle (snd (code_taken pf s a code now clock)) = fr_throttle s"
  by (simp add: code_taken_def totp_replayed_def Let_def)

lemma tally_first_nonneg: "0 \<le> tally_first h ks now"
  by (induction ks) (auto simp: tally_wait_def)

lemma tally_first_zero: "tally_first h ks now \<le> 0 \<Longrightarrow> k \<in> set ks \<Longrightarrow> tally_wait h k now = 0"
proof (induction ks)
  case (Cons k' ks)
  have "0 \<le> tally_wait h k' now" by (auto simp: tally_wait_def split: option.split)
  with Cons show ?case by (auto split: if_splits)
qed simp

text \<open>What follows the throttle: the answer is not TooMany, and the keys fare as the answer says.\<close>

lemma past_throttle:
  assumes "stands_for (fr_throttle s) h now" "fr_throttle s' = fr_throttle s"
  shows "stands_for (fr_throttle (fail_keys ks now s')) (fold (\<lambda>k h. tally_fail h k now) ks h) now"
    and "stands_for (fr_throttle (clear_keys ks s')) (fold (\<lambda>k h. h(k := None)) ks h) now"
  using assms fail_keys_stands [of s' h now ks] clear_keys_stands [of s' h now ks] by simp_all

definition step_ok :: "tally \<Rightarrow> instant \<Rightarrow> panel_request \<Rightarrow> answer \<Rightarrow> front \<Rightarrow> bool" where
  "step_ok h now r a s \<longleftrightarrow>
     (\<forall>w. a = TooMany w \<longleftrightarrow> asked r \<and> 0 < w \<and> tally_first h (keys_of r) now = w) \<and>
     (a = WrongProof \<longrightarrow> asked r) \<and> stands_for (fr_throttle s) (tally_exchange (now, r, a) h) now"

lemma login_ok:
  assumes "stands_for (fr_throttle s) h now" "handle_login pf s ip req by_name now clock token_ok = (a, s')"
  shows "step_ok h now (SignIn ip req by_name clock token_ok) a s'"
proof -
  let ?ks = "[ip_key ip, user_key (lr_username req)]"
  obtain w t where fw: "first_wait (fr_throttle s) ?ks now = (w, t)" by fastforce
  have st: "w = tally_first h ?ks now" "stands_for t h now" using first_wait_stands [OF assms(1), of ?ks] fw by auto
  define s1 where "s1 = s\<lparr>fr_throttle := t\<rparr>"
  have s1: "stands_for (fr_throttle s1) h now" using st(2) by (simp add: s1_def)
  show ?thesis
  proof (cases "w > 0")
    case True
    then have "a = TooMany w" "s' = s1" using assms(2) fw by (simp_all add: handler_defs Let_def s1_def)
    then show ?thesis using True st s1 by (auto simp: step_ok_def tally_exchange_def)
  next
    case False
    have r: "handle_login pf s ip req by_name now clock token_ok =
       (case by_name (trim_space (lr_username req)) of
          NotFound \<Rightarrow> (WrongProof, fail_keys ?ks now s1)
        | LookupFailed \<Rightarrow> (LoadError, s1)
        | Found a \<Rightarrow>
            if \<not> pf_bcrypt pf (pa_hash a) (lr_password req) then (WrongProof, fail_keys ?ks now s1)
            else if sign_in_refusal a then (SwitchedOff, s1)
            else if pa_secret a \<noteq> '''' \<and> trim_space (lr_code req) = '''' then (NeedCode, s1)
            else case (if pa_secret a \<noteq> '''' then code_taken pf s1 a (lr_code req) now clock else (True, s1)) of (ok, s2) \<Rightarrow>
              if \<not> ok then (WrongProof, fail_keys ?ks now s2)
              else if \<not> token_ok then (TokenError, s2)
              else (Accepted, clear_keys ?ks s2))"
      using False unfolding handler_defs Let_def fw s1_def by simp
    note thr = code_taken_throttle [of pf s1 _ "lr_code req" now clock]
    have "\<exists>s2. fr_throttle s2 = fr_throttle s1 \<and> ((a = WrongProof \<and> s' = fail_keys ?ks now s2) \<or>
        (a = Accepted \<and> s' = clear_keys ?ks s2) \<or> (a \<in> {LoadError, SwitchedOff, NeedCode, TokenError} \<and> s' = s2))"
      using assms(2) thr unfolding r by (auto split: lookup.splits if_splits prod.splits) (metis snd_conv)+
    moreover have "\<not> 0 < tally_first h ?ks now" using False st(1) by simp
    ultimately show ?thesis
      using past_throttle [OF s1, of _ ?ks] s1 by (auto simp: step_ok_def tally_exchange_def)
  qed
qed

lemma totp_off_ok:
  assumes "stands_for (fr_throttle s) h now" "handle_totp_disable pf s i password code stored now stored_ok = (a, s')"
  shows "step_ok h now (TotpOff i password code stored stored_ok) a s'"
proof (cases stored)
  case None
  then show ?thesis using assms by (auto simp: handler_defs step_ok_def tally_exchange_def)
next
  case (Some adm)
  let ?ks = "[totp_key i]"
  obtain w t where fw: "first_wait (fr_throttle s) ?ks now = (w, t)" by fastforce
  have st: "w = tally_first h ?ks now" "stands_for t h now" using first_wait_stands [OF assms(1), of ?ks] fw by auto
  define s1 where "s1 = s\<lparr>fr_throttle := t\<rparr>"
  have s1: "stands_for (fr_throttle s1) h now" using st(2) by (simp add: s1_def)
  show ?thesis
  proof (cases "w > 0")
    case True
    then have "a = TooMany w" "s' = s1" using assms(2) fw Some by (simp_all add: handler_defs Let_def s1_def)
    then show ?thesis using True st s1 Some by (auto simp: step_ok_def tally_exchange_def)
  next
    case False
    have r: "handle_totp_disable pf s i password code stored now stored_ok =
       (case (if password \<noteq> '''' \<and> pf_bcrypt pf (pa_hash adm) password then (True, s1)
                     else if code \<noteq> '''' \<and> pa_secret adm \<noteq> '''' then code_taken pf s1 adm code now now
                     else (False, s1)) of (ok, s) \<Rightarrow>
            if \<not> ok then (WrongProof, fail_keys ?ks now s)
            else (if stored_ok then Accepted else StoreError, clear_keys ?ks s))"
      using False Some unfolding handler_defs Let_def by (simp add: fw s1_def [symmetric] del: first_wait.simps)
    note thr = code_taken_throttle [of pf s1 adm code now now]
    have "\<exists>s2. fr_throttle s2 = fr_throttle s1 \<and> ((a = WrongProof \<and> s' = fail_keys ?ks now s2) \<or>
        (a \<in> {Accepted, StoreError} \<and> s' = clear_keys ?ks s2))"
      using assms(2) thr unfolding r by (cases "code_taken pf s1 adm code now now") (auto split: if_splits)
    moreover have "\<not> 0 < tally_first h ?ks now" using False st(1) by simp
    ultimately show ?thesis
      using past_throttle [OF s1, of _ ?ks] s1 Some by (auto simp: step_ok_def tally_exchange_def)
  qed
qed

lemma pwchange_ok:
  assumes "stands_for (fr_throttle s) h now" "handle_change_password pf s adm password now stored_ok = (a, s')"
  shows "step_ok h now (PwChange adm password stored_ok) a s'"
proof -
  let ?ks = "[pwchange_key (pa_id adm)]"
  obtain w t where fw: "first_wait (fr_throttle s) ?ks now = (w, t)" by fastforce
  have st: "w = tally_first h ?ks now" "stands_for t h now" using first_wait_stands [OF assms(1), of ?ks] fw by auto
  define s1 where "s1 = s\<lparr>fr_throttle := t\<rparr>"
  have s1: "stands_for (fr_throttle s1) h now" using st(2) by (simp add: s1_def)
  have "(0 < w \<and> a = TooMany w \<and> s' = s1) \<or> (\<not> 0 < w \<and> a = WrongProof \<and> s' = fail_keys ?ks now s1) \<or>
      (\<not> 0 < w \<and> a \<in> {Accepted, StoreError} \<and> s' = clear_keys ?ks s1)"
    using assms(2) unfolding handler_defs Let_def fw by (auto simp: s1_def split: if_splits)
  then show ?thesis
    using past_throttle [OF s1 refl, of ?ks] s1 st by (auto simp: step_ok_def tally_exchange_def)
qed

lemma panel_step_ok:
  assumes "stands_for (fr_throttle s) h now" "panel_step pf s now r = (a, s')"
  shows "step_ok h now r a s'"
  using assms by (cases r) (simp_all add: login_ok totp_off_ok pwchange_ok)

section \<open>Runs\<close>

text \<open>Answers as the tally has them, exchange after exchange.\<close>

fun lawful :: "tally \<Rightarrow> exchange list \<Rightarrow> bool" where
  "lawful h [] \<longleftrightarrow> True"
| "lawful h ((now, r, a) # es) \<longleftrightarrow>
     (\<forall>w. a = TooMany w \<longleftrightarrow> asked r \<and> 0 < w \<and> tally_first h (keys_of r) now = w) \<and>
     (a = WrongProof \<longrightarrow> asked r) \<and> lawful (tally_exchange (now, r, a) h) es"

lemma run_lawful:
  assumes "stands_for (fr_throttle s) h t" "sorted_wrt (\<le>) (t # map fst rs)" "panel_run pf s rs = (es, s')"
  shows "lawful h es"
  using assms
proof (induction rs arbitrary: s h t es)
  case (Cons x rs)
  obtain now r where x: "x = (now, r)" by fastforce
  obtain a s1 where st: "panel_step pf s now r = (a, s1)" by fastforce
  obtain es' where es: "panel_run pf s1 rs = (es', s')" "es = (now, r, a) # es'"
    using Cons.prems(3) st x by (auto split: prod.splits)
  have "stands_for (fr_throttle s) h now" using Cons.prems(1,2) x by (auto intro: stands_later)
  then have ok: "step_ok h now r a s1" by (rule panel_step_ok [OF _ st])
  have "lawful (tally_exchange (now, r, a) h) es'"
    by (rule Cons.IH [OF _ _ es(1), of _ now]) (use ok Cons.prems(2) x in \<open>auto simp: step_ok_def\<close>)
  then show ?case using ok es(2) unfolding step_ok_def by simp
qed simp

lemma new_front_stands: "0 \<le> t \<Longrightarrow> stands_for (fr_throttle new_front) (\<lambda>_. None) t"
  by (simp add: stands_for_def new_front_def new_throttle_def live_def recent_def)

lemma lawful_append: "lawful h (es1 @ es2) \<longleftrightarrow> lawful h es1 \<and> lawful (fold tally_exchange es1 h) es2"
  by (induction h es1 rule: lawful.induct) auto

section \<open>Properties\<close>

text \<open>
  C26. Of requests served one after another: whether one is told to wait, and how long, is decided by
  the guesses before it alone: the first of its keys that its run of wrong proofs has locked. A run
  is what a key failed at no more than an hour apart since it last got in. What the table forgets or
  sweeps changes no answer.
\<close>
theorem lockout_exact:
  assumes "panel_run pf new_front rs = (es, s)" "sorted_wrt (\<le>) (0 # map fst rs)"
    and "i < length es" "es ! i = (now, r, a)"
  shows "a = TooMany w \<longleftrightarrow> asked r \<and> 0 < w \<and> tally_first (fold tally_exchange (take i es) (\<lambda>_. None)) (keys_of r) now = w"
proof -
  have "lawful (\<lambda>_. None) (take i es @ drop i es)"
    using run_lawful [OF new_front_stands assms(2,1)] by simp
  then have "lawful (fold tally_exchange (take i es) (\<lambda>_. None)) ((now, r, a) # drop (Suc i) es)"
    unfolding lawful_append using Cons_nth_drop_Suc [OF assms(3)] assms(4) by simp
  then show ?thesis by simp
qed

section \<open>Codes already used\<close>

text \<open>The administrator and the code a request got past the second factor with.\<close>

definition proved_code :: "panel_admin \<Rightarrow> string \<Rightarrow> (nat \<times> string) option" where
  "proved_code a code = (if pa_secret a = '''' then None else Some (pa_id a, trim_space code))"

fun code_used :: "proofs \<Rightarrow> panel_request \<Rightarrow> answer \<Rightarrow> (nat \<times> string) option" where
  "code_used pf (SignIn ip req by_name clock token_ok) a =
     (case by_name (trim_space (lr_username req)) of
        Found adm \<Rightarrow> if a \<in> {Accepted, TokenError} then proved_code adm (lr_code req) else None
      | _ \<Rightarrow> None)"
| "code_used pf (TotpOff i password code stored ok) a =
     (case stored of
        Some adm \<Rightarrow> if a \<in> {Accepted, StoreError} \<and> \<not> (password \<noteq> '''' \<and> pf_bcrypt pf (pa_hash adm) password)
          then proved_code adm code else None
      | None \<Rightarrow> None)"
| "code_used pf (PwChange adm password ok) a = None"

definition just_used :: "front \<Rightarrow> nat \<Rightarrow> string \<Rightarrow> instant \<Rightarrow> bool" where
  "just_used s i c now \<longleftrightarrow> (\<exists>u. fr_used s i = Some u \<and> uc_code u = c \<and> now - uc_at u < 120 * second)"

definition used_ok :: "proofs \<Rightarrow> front \<Rightarrow> instant \<Rightarrow> panel_request \<Rightarrow> answer \<Rightarrow> front \<Rightarrow> bool" where
  "used_ok pf s now r a s' \<longleftrightarrow>
     (case code_used pf r a of
        None \<Rightarrow> fr_used s' = fr_used s
      | Some (i, c) \<Rightarrow> \<not> just_used s i c now \<and> fr_used s' = (fr_used s)(i \<mapsto> \<lparr>uc_code = c, uc_at = now\<rparr>))"

lemma code_taken_used:
  "code_taken pf s a code now clock = (ok, s') \<Longrightarrow>
    (if ok then \<not> just_used s (pa_id a) (trim_space code) now \<and>
       fr_used s' = (fr_used s)(pa_id a \<mapsto> \<lparr>uc_code = trim_space code, uc_at = now\<rparr>)
     else fr_used s' = fr_used s)"
proof -
  have "time_sub now l < 120 * second \<longleftrightarrow> now - l < 120 * second" for l
    by (rule time_sub_less_iff) (simp_all add: min_duration_def max_duration_def)
  then show "code_taken pf s a code now clock = (ok, s') \<Longrightarrow> ?thesis"
    by (auto simp: code_taken_def totp_replayed_def Let_def just_used_def split: if_splits option.splits)
qed

lemma keys_used [simp]: "fr_used (fail_keys ks now s) = fr_used s" "fr_used (clear_keys ks s) = fr_used s"
  by (simp_all add: fail_keys_def clear_keys_def)

lemma login_used:
  assumes "handle_login pf s ip req by_name now clock token_ok = (a, s')"
  shows "used_ok pf s now (SignIn ip req by_name clock token_ok) a s'"
proof -
  obtain w t where fw: "first_wait (fr_throttle s) [ip_key ip, user_key (lr_username req)] now = (w, t)" by fastforce
  note [simp del] = first_wait.simps
  show ?thesis
  proof (cases "w > 0")
    case True
    then show ?thesis using assms fw by (auto simp: handler_defs Let_def used_ok_def split: lookup.split)
  next
    case False
    show ?thesis
    proof (cases "by_name (trim_space (lr_username req))")
      case (Found adm)
      obtain ok s2 where ct: "code_taken pf (s\<lparr>fr_throttle := t\<rparr>) adm (lr_code req) now clock = (ok, s2)" by fastforce
      show ?thesis
        using assms False fw Found ct code_taken_used [OF ct]
        by (auto simp: handler_defs Let_def used_ok_def proved_code_def just_used_def split: if_splits)
    qed (use assms False fw in \<open>auto simp: handler_defs Let_def used_ok_def\<close>)
  qed
qed

lemma totp_off_used:
  assumes "handle_totp_disable pf s i password code stored now stored_ok = (a, s')"
  shows "used_ok pf s now (TotpOff i password code stored stored_ok) a s'"
proof (cases stored)
  case None
  then show ?thesis using assms by (auto simp: handler_defs used_ok_def)
next
  case (Some adm)
  obtain w t where fw: "first_wait (fr_throttle s) [totp_key i] now = (w, t)" by fastforce
  note [simp del] = first_wait.simps
  obtain ok s2 where ct: "code_taken pf (s\<lparr>fr_throttle := t\<rparr>) adm code now now = (ok, s2)" by fastforce
  show ?thesis
    using assms fw Some ct code_taken_used [OF ct]
    by (auto simp: handler_defs Let_def used_ok_def proved_code_def just_used_def split: if_splits)
qed

lemma pwchange_used:
  assumes "handle_change_password pf s adm password now stored_ok = (a, s')"
  shows "used_ok pf s now (PwChange adm password stored_ok) a s'"
  using assms by (auto simp: handler_defs Let_def used_ok_def split: if_splits prod.splits)

lemma panel_step_used: "panel_step pf s now r = (a, s') \<Longrightarrow> used_ok pf s now r a s'"
  by (cases r) (simp_all add: login_used totp_off_used pwchange_used)

definition uses :: "proofs \<Rightarrow> nat \<Rightarrow> string \<Rightarrow> exchange \<Rightarrow> bool" where
  "uses pf i c e = (case e of (now, r, a) \<Rightarrow> code_used pf r a = Some (i, c))"

lemma run_append: "panel_run pf s (rs @ rs') =
    (case panel_run pf s rs of (es, s1) \<Rightarrow> case panel_run pf s1 rs' of (es', s2) \<Rightarrow> (es @ es', s2))"
  by (induction pf s rs rule: panel_run.induct) (auto split: prod.splits)

lemma run_requests: "panel_run pf s rs = (es, s') \<Longrightarrow> rs = map (\<lambda>(now, r, a). (now, r)) es"
  by (induction pf s rs arbitrary: es rule: panel_run.induct) (auto split: prod.splits)

lemma run_split:
  assumes "panel_run pf s rs = (es1 @ es2, s')"
  shows "\<exists>s1. panel_run pf s (map (\<lambda>(now, r, a). (now, r)) es1) = (es1, s1) \<and>
    panel_run pf s1 (map (\<lambda>(now, r, a). (now, r)) es2) = (es2, s')"
proof -
  let ?f = "map (\<lambda>(now, r, a). (now, r)) :: exchange list \<Rightarrow> _"
  obtain es1' s1 where r1: "panel_run pf s (?f es1) = (es1', s1)" by fastforce
  obtain es2' s2 where r2: "panel_run pf s1 (?f es2) = (es2', s2)" by fastforce
  have "es1' @ es2' = es1 @ es2" "s2 = s'"
    using assms run_requests [OF assms] by (auto simp: run_append r1 r2)
  moreover have "length es1' = length es1" using run_requests [OF r1] by (metis length_map)
  ultimately show ?thesis using r1 r2 by auto
qed

lemma used_stays:
  assumes "panel_run pf s rs = (es, s')" "fr_used s i = Some \<lparr>uc_code = c, uc_at = t\<rparr>" "sorted_wrt (\<le>) (t # map fst rs)"
    and "\<forall>e \<in> set es. \<forall>c'. uses pf i c' e \<longrightarrow> c' = c"
  shows "\<exists>t'\<ge>t. fr_used s' i = Some \<lparr>uc_code = c, uc_at = t'\<rparr>"
  using assms
proof (induction rs arbitrary: s es t)
  case (Cons x rs)
  obtain now r where x: "x = (now, r)" by fastforce
  obtain a s1 where st: "panel_step pf s now r = (a, s1)" by fastforce
  obtain es' where es: "panel_run pf s1 rs = (es', s')" "es = (now, r, a) # es'"
    using Cons.prems(1) st x by (auto split: prod.splits)
  have ok: "used_ok pf s now r a s1" by (rule panel_step_used [OF st])
  have "\<exists>t1\<ge>t. t1 \<le> now \<and> fr_used s1 i = Some \<lparr>uc_code = c, uc_at = t1\<rparr>"
  proof (cases "code_used pf r a")
    case None
    then show ?thesis using ok Cons.prems(2,3) x by (auto simp: used_ok_def)
  next
    case (Some ic)
    then show ?thesis using ok Cons.prems(2,3,4) x es(2)
      by (cases ic) (auto simp: used_ok_def uses_def)
  qed
  then obtain t1 where t1: "t \<le> t1" "t1 \<le> now" "fr_used s1 i = Some \<lparr>uc_code = c, uc_at = t1\<rparr>" by blast
  have "\<exists>t'\<ge>t1. fr_used s' i = Some \<lparr>uc_code = c, uc_at = t'\<rparr>"
    by (rule Cons.IH [OF es(1) t1(3)]) (use Cons.prems(3,4) t1(2) x es(2) in \<open>auto intro: order_trans\<close>)
  then show ?case using t1(1) by force
qed auto

text \<open>
  C27. Of requests served one after another: one code gets past the second factor of an administrator
  twice within two minutes only when another code of the same administrator was used in between.
\<close>
theorem code_not_repeated:
  assumes "panel_run pf new_front rs = (before @ (t1, r1, a1) # between @ (t2, r2, a2) # rest, s)"
    and "sorted_wrt (\<le>) (map fst rs)" "t2 - t1 < 120 * second"
    and "code_used pf r1 a1 = Some (i, c)" "code_used pf r2 a2 = Some (i, c)"
  shows "\<exists>e \<in> set between. \<exists>c'. c' \<noteq> c \<and> uses pf i c' e"
proof (rule ccontr)
  assume none: "\<not> ?thesis"
  let ?f = "map (\<lambda>(now, r, a). (now, r)) :: exchange list \<Rightarrow> _"
  obtain s1 where "panel_run pf s1 (?f ((t1, r1, a1) # between @ (t2, r2, a2) # rest)) = ((t1, r1, a1) # between @ (t2, r2, a2) # rest, s)"
    using run_split [OF assms(1)] by blast
  then obtain s2 where s2: "panel_step pf s1 t1 r1 = (a1, s2)"
    "panel_run pf s2 (?f (between @ (t2, r2, a2) # rest)) = (between @ (t2, r2, a2) # rest, s)"
    by (auto split: prod.splits)
  obtain s3 where s3: "panel_run pf s2 (?f between) = (between, s3)"
    "panel_run pf s3 (?f ((t2, r2, a2) # rest)) = ((t2, r2, a2) # rest, s)"
    using run_split [OF s2(2)] by blast
  obtain s4 where s4: "panel_step pf s3 t2 r2 = (a2, s4)" using s3(2) by (auto split: prod.splits)
  have times: "sorted_wrt (\<le>) (t1 # map fst (?f between))"
    using assms(2) run_requests [OF assms(1)] by (auto simp: sorted_wrt_append)
  have "fr_used s2 i = Some \<lparr>uc_code = c, uc_at = t1\<rparr>"
    using panel_step_used [OF s2(1)] assms(4) by (simp add: used_ok_def)
  from used_stays [OF s3(1) this times] none
  obtain t' where "t1 \<le> t'" "fr_used s3 i = Some \<lparr>uc_code = c, uc_at = t'\<rparr>" by blast
  then have "just_used s3 i c t2" using assms(3) by (simp add: just_used_def)
  then show False using panel_step_used [OF s4] assms(5) by (simp add: used_ok_def)
qed

section \<open>Concrete runs\<close>

definition toy_proofs :: proofs where
  "toy_proofs = \<lparr>pf_bcrypt = (=), pf_hmac = toy_hmac\<rparr>"

definition toy_admin :: panel_admin where
  "toy_admin = \<lparr>pa_id = 1, pa_hash = ''pw'', pa_secret = new_secret [1, 2, 3], pa_owner = True, pa_enabled = True\<rparr>"

definition toy_noon :: instant where
  "toy_noon = unixEpoch + 60 * second"

definition toy_sign_in :: "string \<Rightarrow> string \<Rightarrow> instant \<Rightarrow> panel_request" where
  "toy_sign_in password code clock =
     SignIn ''192.0.2.1'' \<lparr>lr_username = ''Owner'', lr_password = password, lr_code = code\<rparr> (\<lambda>_. Found toy_admin) clock True"

lemma toy_secret: "new_secret [1, 2, 3] \<noteq> ''''"
  using decode_new_secret [of "[1, 2, 3]"] by (auto simp: decode_secret_def b32_decode_def trim_right_def b32_groups.simps)

lemma toy_codes_taken:
  assumes "toy_noon \<le> t" "t < toy_noon + 30 * second" "code \<in> {''000002'', ''000003''}"
  shows "totp_validate toy_hmac (new_secret [1, 2, 3]) code t \<and> trim_space code = code \<and> code \<noteq> ''''"
  using assms toy_validates [of t code "[1, 2, 3]"]
  by (auto simp: toy_noon_def trim_space_def go_space_def)

lemma toy_in:
  assumes "fr_throttle s = []" "toy_noon \<le> t" "t < toy_noon + 30 * second" "code \<in> {''000002'', ''000003''}" "\<not> just_used s 1 code t"
  shows "panel_step toy_proofs s t (toy_sign_in ''pw'' code t) = (Accepted, s\<lparr>fr_used := (fr_used s)(1 \<mapsto> \<lparr>uc_code = code, uc_at = t\<rparr>)\<rparr>)"
proof -
  obtain ok s2 where ct: "code_taken toy_proofs s toy_admin code t t = (ok, s2)" by fastforce
  have "time_sub t l < 120 * second \<longleftrightarrow> t - l < 120 * second" for l
    by (rule time_sub_less_iff) (simp_all add: min_duration_def max_duration_def)
  then have "code_taken toy_proofs s toy_admin code t t = (True, s\<lparr>fr_used := (fr_used s)(1 \<mapsto> \<lparr>uc_code = code, uc_at = t\<rparr>)\<rparr>)"
    using toy_codes_taken [OF assms(2-4)] assms(5)
    by (auto simp: code_taken_def toy_proofs_def toy_admin_def totp_replayed_def just_used_def Let_def split: option.split)
  moreover obtain u where "s = \<lparr>fr_throttle = [], fr_used = u\<rparr>" using assms(1) by (cases s) simp
  ultimately show ?thesis
    using toy_secret toy_codes_taken [OF assms(2-4)]
    by (simp add: toy_sign_in_def handler_defs retry_after_def clear_keys_def succeed_def toy_admin_def toy_proofs_def
        sign_in_refusal_def Let_def)
qed

text \<open>
  Only the last code is remembered, while three are good at a time: a code read over a shoulder opens
  a second session once the operator has used the next one.
\<close>

lemma code_opens_twice:
  "map (\<lambda>(now, r, a). a) (fst (panel_run toy_proofs new_front
     [(toy_noon, toy_sign_in ''pw'' ''000002'' toy_noon),
      (toy_noon + second, toy_sign_in ''pw'' ''000003'' (toy_noon + second)),
      (toy_noon + 2 * second, toy_sign_in ''pw'' ''000002'' (toy_noon + 2 * second))])) = [Accepted, Accepted, Accepted]"
  by (simp add: toy_in new_front_def new_throttle_def just_used_def)

definition toy_guess :: "instant \<times> panel_request" where
  "toy_guess = (0, PwChange toy_admin ''no'' True)"

definition toy_record :: "nat \<Rightarrow> attempt_record" where
  "toy_record n = \<lparr>ar_failures = n, ar_last = 0, ar_until = (if n \<le> 5 then 0 else 30 * second)\<rparr>"

lemma toy_key: "pwchange_key (pa_id toy_admin) = ''pwchange:1''"
proof -
  have "pwchange_key 1 = ''pwchange:1''" by code_simp
  then show ?thesis by (simp add: toy_admin_def)
qed

lemma toy_guesses:
  "panel_run toy_proofs new_front (replicate 7 toy_guess) =
    (replicate 6 (0, snd toy_guess, WrongProof) @ [(0, snd toy_guess, TooMany (30 * second))],
     new_front\<lparr>fr_throttle := [(''pwchange:1'', toy_record 6)]\<rparr>)"
proof -
  have bc: "\<not> pf_bcrypt toy_proofs (pa_hash toy_admin) ''no''" by (simp add: toy_proofs_def toy_admin_def)
  have first: "panel_step toy_proofs new_front 0 (PwChange toy_admin ''no'' True) =
      (WrongProof, new_front\<lparr>fr_throttle := [(''pwchange:1'', toy_record 1)]\<rparr>)"
    by (simp add: handler_defs toy_key bc new_front_def new_throttle_def retry_after_def fail_keys_def
        throttle_fail_def toy_record_def Let_def)
  have w: "earned_wait 6 = 30 * second" using wait_exact [of 0] by simp
  have more: "panel_step toy_proofs (new_front\<lparr>fr_throttle := [(''pwchange:1'', toy_record n)]\<rparr>) 0 (PwChange toy_admin ''no'' True) =
      (WrongProof, new_front\<lparr>fr_throttle := [(''pwchange:1'', toy_record (Suc n))]\<rparr>)" if "n \<le> 5" for n
    using that by (cases "n = 5") (auto simp: handler_defs toy_key bc new_front_def retry_after_def fail_keys_def
        throttle_fail_def toy_record_def Let_def sweep_def w)
  have locked: "panel_step toy_proofs (new_front\<lparr>fr_throttle := [(''pwchange:1'', toy_record n)]\<rparr>) 0 (PwChange toy_admin ''no'' True) =
      (TooMany (30 * second), new_front\<lparr>fr_throttle := [(''pwchange:1'', toy_record n)]\<rparr>)" if "n = 6" for n
    using that by (simp add: handler_defs toy_key new_front_def retry_after_def toy_record_def Let_def
        time_sub_def min_duration_def max_duration_def)
  show ?thesis
    by (simp add: toy_guess_def eval_nat_numeral first more locked del: panel_step.simps)
qed

theorem lockout_exact_witness:
  "tally_first (fold tally_exchange (replicate 6 (0, snd toy_guess, WrongProof)) (\<lambda>_. None)) (keys_of (snd toy_guess)) 0 = 30 * second"
  using lockout_exact [OF toy_guesses, of 6 0 "snd toy_guess" "TooMany (30 * second)" "30 * second"]
  by (simp add: toy_guess_def nth_append)

theorem code_not_repeated_witness:
  "\<exists>e \<in> set [(toy_noon + second, toy_sign_in ''pw'' ''000003'' (toy_noon + second), Accepted)].
     \<exists>c'. c' \<noteq> ''000002'' \<and> uses toy_proofs 1 c' e"
proof (rule code_not_repeated)
  show "panel_run toy_proofs new_front
     [(toy_noon, toy_sign_in ''pw'' ''000002'' toy_noon),
      (toy_noon + second, toy_sign_in ''pw'' ''000003'' (toy_noon + second)),
      (toy_noon + 2 * second, toy_sign_in ''pw'' ''000002'' (toy_noon + 2 * second))] =
    ([] @ (toy_noon, toy_sign_in ''pw'' ''000002'' toy_noon, Accepted) #
      [(toy_noon + second, toy_sign_in ''pw'' ''000003'' (toy_noon + second), Accepted)] @
      (toy_noon + 2 * second, toy_sign_in ''pw'' ''000002'' (toy_noon + 2 * second), Accepted) # [],
     new_front\<lparr>fr_used := [1 \<mapsto> \<lparr>uc_code = ''000002'', uc_at = toy_noon + 2 * second\<rparr>]\<rparr>)"
    by (simp add: toy_in new_front_def new_throttle_def just_used_def)
  have used: "code_used toy_proofs (toy_sign_in ''pw'' ''000002'' t) Accepted = Some (1, ''000002'')" for t
    using toy_secret by (simp add: toy_sign_in_def proved_code_def toy_admin_def trim_space_def go_space_def)
  show "code_used toy_proofs (toy_sign_in ''pw'' ''000002'' toy_noon) Accepted = Some (1, ''000002'')" by (rule used)
  show "code_used toy_proofs (toy_sign_in ''pw'' ''000002'' (toy_noon + 2 * second)) Accepted = Some (1, ''000002'')" by (rule used)
qed simp_all

end
