(* ===== verification/Calendar.thy ===== *)
theory Calendar imports Prelude begin

text \<open>
  The part of package time's calendar the schedules read: the proleptic Gregorian date, weekday and
  clock of a moment in a zone, and the same date a year on. The zone is a number of whole minutes east
  of UTC that does not change.
\<close>

section \<open>The calendar\<close>

definition leap :: "int \<Rightarrow> bool" where
  "leap y \<longleftrightarrow> y mod 4 = 0 \<and> (y mod 100 \<noteq> 0 \<or> y mod 400 = 0)"

definition month_lengths :: "int \<Rightarrow> int list" where
  "month_lengths y = [31, if leap y then 29 else 28, 31, 30, 31, 30, 31, 31, 30, 31, 30, 31]"

text \<open>Days since the first of January of year 1, a Monday; a day past the end of its month is one of the next.\<close>

definition year_start :: "int \<Rightarrow> int" where
  "year_start y = 365 * (y - 1) + (y - 1) div 4 - (y - 1) div 100 + (y - 1) div 400"

definition days_of_date :: "int \<Rightarrow> int \<Rightarrow> int \<Rightarrow> int" where
  "days_of_date y m d = year_start y + sum_list (take (nat (m - 1)) (month_lengths y)) + d - 1"

fun month_day :: "int \<Rightarrow> int list \<Rightarrow> int \<Rightarrow> int \<times> int" where
  "month_day m [] r = (m, r + 1)"
| "month_day m (l # ls) r = (if r < l then (m, r + 1) else month_day (m + 1) ls (r - l))"

text \<open>The year of a day and the days of that year before it.\<close>

definition year_day :: "int \<Rightarrow> int \<times> int" where
  "year_day n =
     (let a = n div 146097; r = n mod 146097;
          b = min 3 (r div 36524); r = r - 36524 * b;
          c = r div 1461; r = r mod 1461;
          e = min 3 (r div 365); r = r - 365 * e
      in (400 * a + 100 * b + 4 * c + e + 1, r))"

definition date_of_days :: "int \<Rightarrow> int \<times> int \<times> int" where
  "date_of_days n = (case year_day n of (y, r) \<Rightarrow> (y, month_day 1 (month_lengths y) r))"

abbreviation (input) minute_ns :: duration where "minute_ns \<equiv> 60 * second"
abbreviation (input) day_ns :: duration where "day_ns \<equiv> 86400 * second"

definition local_day :: "int \<Rightarrow> instant \<Rightarrow> int" where
  "local_day z t = (t + z * minute_ns) div day_ns"

definition time_month :: "int \<Rightarrow> instant \<Rightarrow> int" where
  "time_month z t = fst (snd (date_of_days (local_day z t)))"

definition time_mday :: "int \<Rightarrow> instant \<Rightarrow> int" where
  "time_mday z t = snd (snd (date_of_days (local_day z t)))"

definition time_weekday :: "int \<Rightarrow> instant \<Rightarrow> int" where
  "time_weekday z t = (local_day z t + 1) mod 7"

definition time_hour :: "int \<Rightarrow> instant \<Rightarrow> int" where
  "time_hour z t = (t + z * minute_ns) div (3600 * second) mod 24"

definition time_minute :: "int \<Rightarrow> instant \<Rightarrow> int" where
  "time_minute z t = (t + z * minute_ns) div minute_ns mod 60"

definition time_second :: "int \<Rightarrow> instant \<Rightarrow> int" where
  "time_second z t = (t + z * minute_ns) div second mod 60"

text \<open>AddDate(1, 0, 0).\<close>

definition add_year :: "int \<Rightarrow> instant \<Rightarrow> instant" where
  "add_year z t =
     (case date_of_days (local_day z t) of (y, m, d) \<Rightarrow>
        t + (days_of_date (y + 1) m d - local_day z t) * day_ns)"

section \<open>The calendar counts days\<close>

lemma div_step: "0 < k \<Longrightarrow> (y :: int) div k = (y - 1) div k + (if y mod k = 0 then 1 else 0)"
proof -
  assume k: "0 < k"
  define q r where "q = y div k" and "r = y mod k"
  have y: "y = q * k + r" "0 \<le> r" "r < k" using k by (simp_all add: q_def r_def)
  have "(y - 1) div k = (if r = 0 then q - 1 else q)"
  proof (cases "r = 0")
    case True
    then have "y - 1 = (k - 1) + (q - 1) * k" using y(1) by (simp add: algebra_simps)
    then have "(y - 1) div k = (q - 1) + (k - 1) div k" using k by (simp only: div_mult_self1 [of k] less_imp_neq [symmetric] not_False_eq_True)
    then show ?thesis using k True by (simp add: div_pos_pos_trivial)
  next
    case False
    then have "y - 1 = (r - 1) + q * k" using y(1) by simp
    then have "(y - 1) div k = q + (r - 1) div k" using k by (simp only: div_mult_self1 [of k] less_imp_neq [symmetric] not_False_eq_True)
    then show ?thesis using k False y(2,3) by (simp add: div_pos_pos_trivial)
  qed
  then show ?thesis unfolding q_def r_def by simp
qed

lemma year_start_Suc: "year_start (y + 1) = year_start y + 365 + (if leap y then 1 else 0)"
proof -
  have d: "y mod 400 = 0 \<Longrightarrow> y mod 100 = 0" "y mod 100 = 0 \<Longrightarrow> y mod 4 = 0"
    using dvd_trans [of 100 400 y] dvd_trans [of 4 100 y] by (simp_all add: dvd_eq_mod_eq_0)
  obtain a b c where abc: "(y - 1) div 4 = a" "(y - 1) div 100 = b" "(y - 1) div 400 = c" by blast
  have s: "year_start y = 365 * (y - 1) + a - b + c" by (simp only: year_start_def abc)
  have "year_start (y + 1) = 365 * y + y div 4 - y div 100 + y div 400" by (simp add: year_start_def)
  also have "\<dots> = 365 * y + (a + (if y mod 4 = 0 then 1 else 0)) - (b + (if y mod 100 = 0 then 1 else 0)) + (c + (if y mod 400 = 0 then 1 else 0))"
    using div_step [of 4 y] div_step [of 100 y] div_step [of 400 y] by (simp only: abc)
  also have "\<dots> = year_start y + 365 + (if leap y then 1 else 0)"
    using d unfolding s leap_def by (cases "y mod 400 = 0"; cases "y mod 100 = 0"; cases "y mod 4 = 0") simp_all
  finally show ?thesis .
qed

lemma month_day_back:
  assumes "0 \<le> r" "r < sum_list ls" "list_all ((<) 0) ls" "month_day m ls r = (m', d)"
  shows "m \<le> m' \<and> m' < m + int (length ls) \<and> 1 \<le> d \<and> r = sum_list (take (nat (m' - m)) ls) + d - 1"
  using assms
proof (induction ls arbitrary: m r)
  case (Cons l ls)
  show ?case
  proof (cases "r < l")
    case True
    then show ?thesis using Cons.prems by auto
  next
    case False
    have "m + 1 \<le> m' \<and> m' < m + 1 + int (length ls) \<and> 1 \<le> d \<and> r - l = sum_list (take (nat (m' - (m + 1))) ls) + d - 1"
      by (rule Cons.IH) (use Cons.prems False in auto)
    moreover have "nat (m' - m) = Suc (nat (m' - (m + 1)))" if "m + 1 \<le> m'" using that by arith
    ultimately show ?thesis by simp
  qed
qed simp

lemma year_day_back:
  assumes "year_day n = (y, r)"
  shows "n = year_start y + r \<and> 0 \<le> r \<and> r < 365 + (if leap y then 1 else 0)"
proof -
  define a r1 where "a = n div 146097" and "r1 = n mod 146097"
  define b r2 where "b = min 3 (r1 div 36524)" and "r2 = r1 - 36524 * b"
  define c r3 where "c = r2 div 1461" and "r3 = r2 mod 1461"
  define e r4 where "e = min 3 (r3 div 365)" and "r4 = r3 - 365 * e"
  have yr: "y = 400 * a + 100 * b + 4 * c + e + 1" "r = r4"
    using assms unfolding year_day_def Let_def a_def r1_def b_def r2_def c_def r3_def e_def r4_def by auto
  have n: "n = 146097 * a + r1" "0 \<le> r1" "r1 < 146097" by (simp_all add: a_def r1_def)
  have b: "0 \<le> b" "b \<le> 3" "0 \<le> r2" "r2 < 36524 + (if b = 3 then 1 else 0)" "r1 = 36524 * b + r2"
    using n unfolding b_def r2_def by (auto simp: min_def)
  have "r2 < 36525" using b(4) by (auto split: if_splits)
  then have c: "r2 = 1461 * c + r3" "0 \<le> r3" "r3 < 1461" "0 \<le> c" "c \<le> 24" using b(3) by (auto simp: c_def r3_def)
  have e: "0 \<le> e" "e \<le> 3" "0 \<le> r4" "r4 < 365 + (if e = 3 then 1 else 0)" "r3 = 365 * e + r4"
    using c unfolding e_def r4_def by (auto simp: min_def)
  have d4: "(400 * a + 100 * b + 4 * c + e) div 4 = 100 * a + 25 * b + c" using e by linarith
  have d100: "(400 * a + 100 * b + 4 * c + e) div 100 = 4 * a + b" using e c by linarith
  have d400: "(400 * a + 100 * b + 4 * c + e) div 400 = a" using e c b by linarith
  have ys: "year_start y = 146097 * a + 36524 * b + 1461 * c + 365 * e"
    unfolding year_start_def yr(1) using d4 d100 d400 by simp
  have "e = 3 \<Longrightarrow> r4 = 365 \<Longrightarrow> leap y"
  proof -
    assume l: "e = 3" "r4 = 365"
    have "y = 4 * (100 * a + 25 * b + c + 1)" unfolding yr(1) l(1) by simp
    then have m4: "y mod 4 = 0" by simp
    show "leap y"
    proof (cases "c = 24")
      case True
      then have "b = 3" using l e b c by (cases "b = 3") auto
      then have "y = 400 * (a + 1)" unfolding yr(1) l(1) True by simp
      then have "y mod 400 = 0" by simp
      then show ?thesis using m4 by (simp add: leap_def)
    next
      case False
      then have "c \<le> 23" using c by simp
      moreover have "y = (4 * c + 4) + (4 * a + b) * 100" unfolding yr(1) l(1) by simp
      then have "y mod 100 = (4 * c + 4) mod 100" by (simp only: mod_mult_self1)
      ultimately have "y mod 100 \<noteq> 0" using c(4) by simp
      then show ?thesis using m4 by (simp add: leap_def)
    qed
  qed
  moreover have "r4 \<le> 365" "e \<noteq> 3 \<Longrightarrow> r4 < 365" using e(4) by (auto split: if_splits)
  ultimately have "r4 < 365 + (if leap y then 1 else 0)" by (cases "r4 = 365") auto
  then show ?thesis using n(1) b(5) c(1) e(3,5) ys yr(2) by simp
qed

lemma month_lengths_sum: "sum_list (month_lengths y) = 365 + (if leap y then 1 else 0)" "length (month_lengths y) = 12" "list_all ((<) 0) (month_lengths y)"
  by (simp_all add: month_lengths_def)

text \<open>A day's date is the date of that day.\<close>

lemma days_of_date_of_days:
  assumes "date_of_days n = (y, m, d)"
  shows "days_of_date y m d = n \<and> 1 \<le> m \<and> m \<le> 12"
proof -
  obtain y' r where yr: "year_day n = (y', r)" by fastforce
  then have md: "y' = y" "month_day 1 (month_lengths y) r = (m, d)" using assms by (auto simp: date_of_days_def)
  note b = year_day_back [OF yr]
  have "1 \<le> m \<and> m < 1 + int (length (month_lengths y)) \<and> 1 \<le> d \<and> r = sum_list (take (nat (m - 1)) (month_lengths y)) + d - 1"
    by (rule month_day_back [OF _ _ month_lengths_sum(3) md(2)]) (use b md(1) month_lengths_sum in auto)
  then show ?thesis using b md(1) by (simp add: days_of_date_def month_lengths_sum(2))
qed

lemma next_year_days:
  assumes "1 \<le> m" "m \<le> 12"
  shows "days_of_date (y + 1) m d - days_of_date y m d \<in> {365, 366}"
proof -
  have m: "m \<in> {1, 2, 3, 4, 5, 6, 7, 8, 9, 10, 11, 12}" using assms by (simp only: insert_iff empty_iff) presburger
  have "y mod 4 = 0 \<Longrightarrow> (y + 1) mod 4 \<noteq> 0" by presburger
  then have nl: "leap y \<Longrightarrow> \<not> leap (y + 1)" by (auto simp: leap_def)
  have "sum_list (take (nat (m - 1)) (month_lengths (y + 1))) - sum_list (take (nat (m - 1)) (month_lengths y)) =
      (if m \<le> 2 then 0 else (if leap (y + 1) then 1 else 0) - (if leap y then 1 else 0))"
    using m by (elim insertE emptyE) (auto simp: month_lengths_def eval_nat_numeral)
  then show ?thesis using nl by (auto simp: days_of_date_def year_start_Suc split: if_splits)
qed

lemma add_year_bounds: "add_year z t - t \<in> {365 * day_ns, 366 * day_ns}"
proof -
  obtain y m d where dt: "date_of_days (local_day z t) = (y, m, d)" by (metis prod_cases3)
  then have a: "add_year z t - t = (days_of_date (y + 1) m d - local_day z t) * day_ns" by (simp add: add_year_def)
  have "days_of_date (y + 1) m d - local_day z t \<in> {365, 366}"
    using next_year_days [of m y d] days_of_date_of_days [OF dt] by simp
  then show ?thesis unfolding a by auto
qed

lemma month_day_length:
  assumes "0 \<le> r" "r < sum_list ls" "month_day m ls r = (m', d)"
  shows "d \<le> ls ! nat (m' - m)"
  using assms
proof (induction ls arbitrary: m r)
  case (Cons l ls)
  show ?case
  proof (cases "r < l")
    case True
    then show ?thesis using Cons.prems by auto
  next
    case False
    then have r: "0 \<le> r - l" "r - l < sum_list ls" "month_day (m + 1) ls (r - l) = (m', d)" using Cons.prems by auto
    then have "d \<le> ls ! nat (m' - (m + 1))" by (rule Cons.IH)
    moreover have "m + 1 \<le> m'" using r(3)
    proof (induction ls arbitrary: m r)
      case (Cons l' ls)
      then show ?case using Cons.IH [of "m + 1" "r - l'"] by (auto split: if_splits simp: algebra_simps)
    qed simp
    moreover from this have "nat (m' - m) = Suc (nat (m' - (m + 1)))" by arith
    ultimately show ?thesis by simp
  qed
qed simp

lemma february_short: "time_month z t = 2 \<Longrightarrow> time_mday z t \<le> 29"
proof -
  obtain y r where yr: "year_day (local_day z t) = (y, r)" by fastforce
  obtain m d where md: "month_day 1 (month_lengths y) r = (m, d)" by fastforce
  have "d \<le> month_lengths y ! nat (m - 1)"
    by (rule month_day_length [OF _ _ md]) (use year_day_back [OF yr] month_lengths_sum(1) in auto)
  then show "time_month z t = 2 \<Longrightarrow> ?thesis"
    using yr md by (auto simp: time_month_def time_mday_def date_of_days_def month_lengths_def split: if_splits)
qed

end
