(* ===== verification/Schedule.thy ===== *)
theory Schedule imports Calendar Texts begin

text \<open>
  When something recurring happens (internal/notify/schedule.go): the crontab lines, shorthands and
  intervals, and the next moment one fires. time.ParseDuration, which rounds fractions in floating
  point, is a parameter.
\<close>

section \<open>Reading a schedule\<close>

record field_set =
  fs_any :: bool
  fs_set :: "int set"

record schedule =
  sc_every :: duration
  sc_fields :: "field_set list"

definition has :: "field_set \<Rightarrow> int \<Rightarrow> bool" where
  "has f v = (fs_any f \<or> v \<in> fs_set f)"

datatype schedule_error = BadInterval | BadFieldCount | BadStep | BadRange | OutOfRange

definition cut_first :: "char \<Rightarrow> string \<Rightarrow> string \<times> string" where
  "cut_first c s = (takeWhile (\<lambda>x. x \<noteq> c) s, tl (dropWhile (\<lambda>x. x \<noteq> c) s))"

definition go_rem :: "int \<Rightarrow> int \<Rightarrow> int" where
  "go_rem v m = (if v < 0 then - ((- v) mod m) else v mod m)"

text \<open>The loop over a part's values; None is a loop that does not end.\<close>

partial_function (option) field_loop :: "int \<Rightarrow> int \<Rightarrow> int \<Rightarrow> int \<Rightarrow> int set \<Rightarrow> int set option" where
  "field_loop v b step hi out =
     (if v \<le> b then field_loop (wrap64 (v + step)) b step hi (insert (go_rem v (hi + 1)) out) else Some out)"

text \<open>A part: its step, then its range.\<close>

definition part_step :: "string \<Rightarrow> (schedule_error + int \<times> string)" where
  "part_step part =
     (if CHR ''/'' \<in> set part then
        case cut_first (CHR ''/'') part of (before, after) \<Rightarrow>
          case atoi after of
            None \<Rightarrow> Inl BadStep
          | Some n \<Rightarrow> if n < 1 then Inl BadStep else Inr (n, before)
      else Inr (1, part))"

definition part_range :: "int \<Rightarrow> int \<Rightarrow> int \<Rightarrow> string \<Rightarrow> (schedule_error + int \<times> int)" where
  "part_range lo hi step part =
     (if part = ''*'' then Inr (lo, hi)
      else if CHR ''-'' \<in> set part then
        case cut_first (CHR ''-'') part of (l, r) \<Rightarrow>
          case (atoi l, atoi r) of
            (Some x, Some y) \<Rightarrow> if x < lo \<or> y > hi \<or> x > y then Inl BadRange else Inr (x, y)
          | _ \<Rightarrow> Inl BadRange
      else case atoi part of
          None \<Rightarrow> Inl OutOfRange
        | Some x \<Rightarrow> if x < lo \<or> x > hi then Inl OutOfRange else Inr (x, if step > 1 then hi else x))"

fun parse_parts :: "int \<Rightarrow> int \<Rightarrow> string list \<Rightarrow> int set \<Rightarrow> (schedule_error + field_set) option" where
  "parse_parts lo hi [] out = Some (Inr \<lparr>fs_any = False, fs_set = out\<rparr>)"
| "parse_parts lo hi (p # ps) out =
     (case part_step p of
        Inl e \<Rightarrow> Some (Inl e)
      | Inr (step, part) \<Rightarrow>
          case part_range lo hi step part of
            Inl e \<Rightarrow> Some (Inl e)
          | Inr (a, b) \<Rightarrow>
              (case field_loop a b step hi out of
                 None \<Rightarrow> None
               | Some out' \<Rightarrow> parse_parts lo hi ps out'))"

definition parse_field :: "string \<Rightarrow> int \<Rightarrow> int \<Rightarrow> (schedule_error + field_set) option" where
  "parse_field p lo hi =
     (if p = ''*'' then Some (Inr \<lparr>fs_any = True, fs_set = {}\<rparr>) else parse_parts lo hi (split_on (CHR '','') p) {})"

definition field_limits :: "(int \<times> int) list" where
  "field_limits = [(0, 59), (0, 59), (0, 23), (1, 31), (1, 12), (0, 6)]"

fun parse_fields :: "(string \<times> int \<times> int) list \<Rightarrow> field_set list \<Rightarrow> (schedule_error + schedule) option" where
  "parse_fields [] fs = Some (Inr \<lparr>sc_every = 0, sc_fields = fs\<rparr>)"
| "parse_fields ((p, lo, hi) # ps) fs =
     (case parse_field p lo hi of
        None \<Rightarrow> None
      | Some (Inl e) \<Rightarrow> Some (Inl e)
      | Some (Inr f) \<Rightarrow> parse_fields ps (fs @ [f]))"

definition parse_cron :: "string \<Rightarrow> (schedule_error + schedule) option" where
  "parse_cron s =
     (let parts = split_words s in
      if length parts = 5 then parse_fields (zip (''0'' # parts) field_limits) []
      else if length parts = 6 then parse_fields (zip parts field_limits) []
      else Some (Inl BadFieldCount))"

definition has_prefix :: "string \<Rightarrow> string \<Rightarrow> bool" where
  "has_prefix p s = (take (length p) s = p)"

definition parse_schedule :: "(string \<Rightarrow> duration option) \<Rightarrow> string \<Rightarrow> (schedule_error + schedule) option" where
  "parse_schedule pd s =
     (let s = trim_space s in
      if s = ''@hourly'' then parse_cron ''0 0 * * * *''
      else if s = ''@daily'' \<or> s = ''@midnight'' then parse_cron ''0 0 0 * * *''
      else if s = ''@weekly'' then parse_cron ''0 0 0 * * 0''
      else if s = ''@monthly'' then parse_cron ''0 0 0 1 * *''
      else if s = ''@yearly'' \<or> s = ''@annually'' then parse_cron ''0 0 0 1 1 *''
      else if has_prefix ''@every '' s then
        case pd (trim_space (drop 7 s)) of
          None \<Rightarrow> Some (Inl BadInterval)
        | Some d \<Rightarrow> if d < second then Some (Inl BadInterval) else Some (Inr \<lparr>sc_every = d, sc_fields = []\<rparr>)
      else parse_cron s)"

section \<open>The next moment\<close>

definition match_minute :: "int \<Rightarrow> schedule \<Rightarrow> instant \<Rightarrow> bool" where
  "match_minute z sc t =
     (has (sc_fields sc ! 4) (time_month z t) \<and> has (sc_fields sc ! 3) (time_mday z t) \<and> has (sc_fields sc ! 5) (time_weekday z t) \<and>
      has (sc_fields sc ! 2) (time_hour z t) \<and> has (sc_fields sc ! 1) (time_minute z t))"

definition first_second :: "schedule \<Rightarrow> int \<Rightarrow> int option" where
  "first_second sc from = find (has (sc_fields sc ! 0)) [from..59]"

function next_minutes :: "int \<Rightarrow> schedule \<Rightarrow> instant \<Rightarrow> instant \<Rightarrow> instant" where
  "next_minutes z sc t e =
     (if t < e then
        if \<not> match_minute z sc t then next_minutes z sc (t + minute_ns) e
        else case first_second sc 0 of
            Some sec \<Rightarrow> t + sec * second
          | None \<Rightarrow> next_minutes z sc (t + minute_ns) e
      else e)"
  by pat_completeness auto
termination by (relation "measure (\<lambda>(z, sc, t, e). nat (e - t))") auto

declare next_minutes.simps [simp del]

definition sched_next :: "int \<Rightarrow> schedule \<Rightarrow> instant \<Rightarrow> instant" where
  "sched_next z sc now =
     (if sc_every sc > 0 then now + sc_every sc
      else let base = now - now mod minute_ns in
        case (if match_minute z sc base then first_second sc (time_second z now + 1) else None) of
          Some sec \<Rightarrow> base + sec * second
        | None \<Rightarrow> let t = base + minute_ns in next_minutes z sc t (add_year z t))"

section \<open>Reading ends\<close>

lemma wrap64_small: "- (2 ^ 63) \<le> v \<Longrightarrow> v < 2 ^ 63 \<Longrightarrow> wrap64 v = v"
  by (simp add: wrap64_def)

lemma wrap64_over: "2 ^ 63 \<le> v \<Longrightarrow> v < 2 ^ 64 \<Longrightarrow> wrap64 v = v - 2 ^ 64"
proof -
  assume v: "2 ^ 63 \<le> v" "v < 2 ^ 64"
  have "(v + 2 ^ 63) mod 2 ^ 64 = ((v - 2 ^ 63) + 2 ^ 64) mod 2 ^ 64" by (simp add: add.commute)
  also have "\<dots> = (v - 2 ^ 63) mod 2 ^ 64" by (rule mod_add_self2)
  also have "\<dots> = v - 2 ^ 63" using v by (intro mod_pos_pos_trivial) simp_all
  finally show ?thesis by (simp add: wrap64_def)
qed

text \<open>
  A step so large that the sum overflows takes two turns to come back, at least two lower than it
  was: the measure counts the turns left.
\<close>

definition turns :: "int \<Rightarrow> int \<Rightarrow> int \<Rightarrow> nat" where
  "turns b step v =
     (if v > b then 0
      else if step < 2 ^ 63 - 60 then nat (b - v + 1)
      else if v \<ge> 1 then nat (2 * v + 3)
      else if v + step > b then 1
      else if v + step \<ge> 1 then nat (2 * (v + step) + 4)
      else 2)"

lemma turns_less:
  assumes "1 \<le> step" "step < 2 ^ 63" "0 \<le> b" "b \<le> 59" "- (2 ^ 63) \<le> v" "v \<le> b"
  shows "turns b step (wrap64 (v + step)) < turns b step v" "- (2 ^ 63) \<le> wrap64 (v + step)"
proof -
  have "(turns b step (wrap64 (v + step)) < turns b step v) \<and> - (2 ^ 63) \<le> wrap64 (v + step)"
  proof (cases "v + step < 2 ^ 63")
    case True
    then have w: "wrap64 (v + step) = v + step" using assms by (intro wrap64_small) simp_all
    show ?thesis unfolding w using assms True by (auto simp: turns_def)
  next
    case False
    then have w: "wrap64 (v + step) = v + step - 2 ^ 64" using assms by (intro wrap64_over) simp_all
    show ?thesis unfolding w using assms False by (auto simp: turns_def)
  qed
  then show "turns b step (wrap64 (v + step)) < turns b step v" "- (2 ^ 63) \<le> wrap64 (v + step)" by auto
qed

lemma field_loop_ends:
  assumes "1 \<le> step" "step < 2 ^ 63" "0 \<le> b" "b \<le> 59" "- (2 ^ 63) \<le> v"
  shows "\<exists>out'. field_loop v b step hi out = Some out' \<and> out \<subseteq> out' \<and> (v \<le> b \<longrightarrow> go_rem v (hi + 1) \<in> out')"
  using assms(5)
proof (induction "turns b step v" arbitrary: v out rule: less_induct)
  case less
  show ?case
  proof (cases "v \<le> b")
    case True
    note t = turns_less [OF assms(1-4) less.prems True]
    obtain out' where "field_loop (wrap64 (v + step)) b step hi (insert (go_rem v (hi + 1)) out) = Some out'"
      "insert (go_rem v (hi + 1)) out \<subseteq> out'"
      using less.hyps [OF t] by blast
    then show ?thesis using True by (subst field_loop.simps) auto
  next
    case False
    then show ?thesis by (subst field_loop.simps) auto
  qed
qed

text \<open>With a step that cannot overflow the values are every step-th one from the first.\<close>

lemma field_loop_values:
  assumes "1 \<le> step" "step < 2 ^ 62" "b \<le> 59" "b \<le> hi" "0 \<le> v"
  shows "field_loop v b step hi out = Some (out \<union> {w. v \<le> w \<and> w \<le> b \<and> step dvd (w - v)})"
  using assms(5)
proof (induction "nat (b - v + 1)" arbitrary: v out rule: less_induct)
  case less
  show ?case
  proof (cases "v \<le> b")
    case True
    then have w: "wrap64 (v + step) = v + step" using assms less.prems by (intro wrap64_small) simp_all
    have r: "go_rem v (hi + 1) = v" using True assms less.prems by (simp add: go_rem_def)
    have "field_loop (v + step) b step hi (insert v out) =
        Some (insert v out \<union> {w. v + step \<le> w \<and> w \<le> b \<and> step dvd (w - (v + step))})"
      by (rule less.hyps) (use True assms(1) less.prems in auto)
    moreover have "insert v {w. v + step \<le> w \<and> w \<le> b \<and> step dvd (w - (v + step))} = {w. v \<le> w \<and> w \<le> b \<and> step dvd (w - v)}"
    proof (intro equalityI subsetI)
      fix w assume "w \<in> {w. v \<le> w \<and> w \<le> b \<and> step dvd (w - v)}"
      then have w: "v \<le> w" "w \<le> b" "step dvd (w - v)" by auto
      then have "w = v \<or> step \<le> w - v" using zdvd_imp_le [of step "w - v"] by linarith
      moreover have "step dvd (w - (v + step))" using w(3) dvd_diff [OF w(3) dvd_refl] by (simp add: algebra_simps)
      ultimately show "w \<in> insert v {w. v + step \<le> w \<and> w \<le> b \<and> step dvd (w - (v + step))}" using w by auto
    next
      fix w assume "w \<in> insert v {w. v + step \<le> w \<and> w \<le> b \<and> step dvd (w - (v + step))}"
      then show "w \<in> {w. v \<le> w \<and> w \<le> b \<and> step dvd (w - v)}"
        using True assms(1) dvd_add [of step "w - (v + step)" step] by auto
    qed
    ultimately have "field_loop (v + step) b step hi (insert v out) = Some (out \<union> {w. v \<le> w \<and> w \<le> b \<and> step dvd (w - v)})"
      by auto
    then show ?thesis using True by (subst field_loop.simps) (simp add: w r)
  next
    case False
    then have "{w. v \<le> w \<and> w \<le> b \<and> step dvd (w - v)} = {}" by auto
    then show ?thesis using False by (subst field_loop.simps) (simp only: if_False Un_empty_right)
  qed
qed

lemma atoi_bound: "atoi s = Some n \<Longrightarrow> - (2 ^ 63) \<le> n \<and> n < 2 ^ 63"
  by (auto simp: atoi_def Let_def split: if_splits)

lemma part_step_bounds: "part_step p = Inr (step, part) \<Longrightarrow> 1 \<le> step \<and> step < 2 ^ 63"
  by (auto simp: part_step_def dest: atoi_bound split: if_splits option.splits prod.splits)

lemma part_range_bounds: "part_range lo hi step p = Inr (a, b) \<Longrightarrow> lo \<le> hi \<Longrightarrow> lo \<le> a \<and> a \<le> b \<and> b \<le> hi"
  by (auto simp: part_range_def split: if_splits option.splits prod.splits)

definition limits_ok :: "int \<Rightarrow> int \<Rightarrow> bool" where
  "limits_ok lo hi \<longleftrightarrow> 0 \<le> lo \<and> lo \<le> hi \<and> hi \<le> 59"

text \<open>A field that admits one of its values.\<close>

definition field_ok :: "int \<Rightarrow> int \<Rightarrow> field_set \<Rightarrow> bool" where
  "field_ok lo hi f \<longleftrightarrow> (\<exists>v. lo \<le> v \<and> v \<le> hi \<and> has f v)"

lemma parse_parts_ends:
  "limits_ok lo hi \<Longrightarrow> \<exists>r. parse_parts lo hi ps out = Some r \<and>
    (\<forall>f. r = Inr f \<longrightarrow> ps \<noteq> [] \<or> (\<exists>v. lo \<le> v \<and> v \<le> hi \<and> v \<in> out) \<longrightarrow> field_ok lo hi f)"
proof (induction ps arbitrary: out)
  case Nil
  then show ?case by (auto simp: field_ok_def has_def)
next
  case (Cons p ps)
  show ?case
  proof (cases "part_step p")
    case (Inl e)
    then show ?thesis by simp
  next
    case (Inr sp)
    obtain step part where sp: "sp = (step, part)" by fastforce
    note st = part_step_bounds [OF Inr [unfolded sp]]
    show ?thesis
    proof (cases "part_range lo hi step part")
      case (Inl e)
      then show ?thesis using Inr sp by simp
    next
      case r: (Inr ab)
      obtain a b where ab: "ab = (a, b)" by fastforce
      have lim: "lo \<le> hi" "0 \<le> lo" "hi \<le> 59" using Cons.prems by (auto simp: limits_ok_def)
      have bs: "lo \<le> a" "a \<le> b" "b \<le> hi" using part_range_bounds [OF r [unfolded ab] lim(1)] by auto
      have "\<exists>out'. field_loop a b step hi out = Some out' \<and> out \<subseteq> out' \<and> (a \<le> b \<longrightarrow> go_rem a (hi + 1) \<in> out')"
        by (rule field_loop_ends) (use st bs lim in auto)
      then obtain out' where out': "field_loop a b step hi out = Some out'" "out \<subseteq> out'" "go_rem a (hi + 1) \<in> out'"
        using bs by blast
      then have "a \<in> out'" using bs lim by (simp add: go_rem_def)
      then have "\<exists>v\<ge>lo. v \<le> hi \<and> v \<in> out'" using bs by (intro exI [of _ a]) simp
      then show ?thesis using Cons.IH [of out'] Cons.prems Inr sp r ab out'(1) by auto
    qed
  qed
qed

lemma split_on_ne: "split_on c s \<noteq> []"
  by (induction c s rule: split_on.induct) (auto split: list.split)

lemma parse_field_ends:
  assumes "limits_ok lo hi"
  shows "\<exists>r. parse_field p lo hi = Some r \<and> (\<forall>f. r = Inr f \<longrightarrow> field_ok lo hi f)"
  using parse_parts_ends [OF assms, of "split_on (CHR '','') p" "{}"] split_on_ne [of "CHR '',''" p] assms
  by (auto simp: parse_field_def field_ok_def limits_ok_def has_def)

lemma parse_fields_ends:
  "list_all (\<lambda>(p, lo, hi). limits_ok lo hi) ps \<Longrightarrow> \<exists>r. parse_fields ps fs = Some r \<and>
    (\<forall>sc. r = Inr sc \<longrightarrow> sc_every sc = 0 \<and>
       (\<exists>gs. sc_fields sc = fs @ gs \<and> list_all2 (\<lambda>(p, lo, hi) g. field_ok lo hi g) ps gs))"
proof (induction ps arbitrary: fs)
  case (Cons x ps)
  obtain p lo hi where x: "x = (p, lo, hi)" by (metis prod_cases3)
  obtain r where r: "parse_field p lo hi = Some r" "\<And>f. r = Inr f \<Longrightarrow> field_ok lo hi f"
    using parse_field_ends [of lo hi p] Cons.prems x by auto
  show ?case
  proof (cases r)
    case (Inl e)
    then show ?thesis using r x by simp
  next
    case (Inr f)
    obtain r' where r': "parse_fields ps (fs @ [f]) = Some r'"
      "\<And>sc. r' = Inr sc \<Longrightarrow> sc_every sc = 0 \<and>
       (\<exists>gs. sc_fields sc = (fs @ [f]) @ gs \<and> list_all2 (\<lambda>(p, lo, hi) g. field_ok lo hi g) ps gs)"
      using Cons.IH [of "fs @ [f]"] Cons.prems by auto
    show ?thesis
    proof (rule exI [of _ r'], intro conjI allI impI)
      show "parse_fields (x # ps) fs = Some r'" using r r' x Inr by simp
    next
      fix sc assume "r' = Inr sc"
      then show "sc_every sc = 0" using r'(2) by blast
    next
      fix sc assume "r' = Inr sc"
      then obtain gs where "sc_fields sc = (fs @ [f]) @ gs" "list_all2 (\<lambda>(p, lo, hi) g. field_ok lo hi g) ps gs"
        using r'(2) by blast
      then have "sc_fields sc = fs @ (f # gs)" "list_all2 (\<lambda>(p, lo, hi) g. field_ok lo hi g) (x # ps) (f # gs)"
        using r(2) Inr x by auto
      then show "\<exists>gs. sc_fields sc = fs @ gs \<and> list_all2 (\<lambda>(p, lo, hi) g. field_ok lo hi g) (x # ps) gs" by blast
    qed
  qed
qed simp

text \<open>What a schedule is: an interval of a second or more, or six fields that each admit something.\<close>

definition schedule_ok :: "schedule \<Rightarrow> bool" where
  "schedule_ok sc \<longleftrightarrow> sc_every sc \<ge> second \<or>
     (sc_every sc = 0 \<and> list_all2 (\<lambda>(lo, hi) f. field_ok lo hi f) field_limits (sc_fields sc))"

lemma zip_limits: "length xs = 6 \<Longrightarrow> list_all (\<lambda>(p, lo, hi). limits_ok lo hi) (zip xs field_limits)"
  by (auto simp: list_all_iff field_limits_def limits_ok_def dest!: set_zip_rightD)

lemma parse_cron_ends: "\<exists>r. parse_cron s = Some r \<and> (\<forall>sc. r = Inr sc \<longrightarrow> schedule_ok sc)"
proof -
  have six: "\<exists>r. parse_fields (zip xs field_limits) [] = Some r \<and> (\<forall>sc. r = Inr sc \<longrightarrow> schedule_ok sc)"
    if l: "length xs = 6" for xs
  proof -
    have "length (field_limits) = 6" by (simp add: field_limits_def)
    then have "map snd (zip xs field_limits) = field_limits" using l by simp
    moreover have "list_all2 (\<lambda>(p, lo, hi) g. field_ok lo hi g) ps gs \<Longrightarrow> list_all2 (\<lambda>(lo, hi) f. field_ok lo hi f) (map snd ps) gs"
      for ps :: "(string \<times> int \<times> int) list" and gs
      by (auto simp: list_all2_map1 split_beta elim: list_all2_mono)
    ultimately show ?thesis using parse_fields_ends [OF zip_limits [OF l], of "[]"] by (fastforce simp: schedule_ok_def)
  qed
  show ?thesis using six [of "''0'' # split_words s"] six [of "split_words s"] by (auto simp: parse_cron_def Let_def)
qed

lemma parse_schedule_ends: "\<exists>r. parse_schedule pd s = Some r \<and> (\<forall>sc. r = Inr sc \<longrightarrow> schedule_ok sc)"
  using parse_cron_ends [of "trim_space s"] parse_cron_ends [of "''0 0 * * * *''"] parse_cron_ends [of "''0 0 0 * * *''"]
    parse_cron_ends [of "''0 0 0 * * 0''"] parse_cron_ends [of "''0 0 0 1 * *''"] parse_cron_ends [of "''0 0 0 1 1 *''"]
  unfolding parse_schedule_def Let_def by (auto simp: schedule_ok_def split: option.split)

section \<open>What fires\<close>

definition fires :: "int \<Rightarrow> schedule \<Rightarrow> instant \<Rightarrow> bool" where
  "fires z sc u \<longleftrightarrow> u mod second = 0 \<and> match_minute z sc u \<and> has (sc_fields sc ! 0) (time_second z u)"

lemma in_minute:
  assumes "base mod minute_ns = 0" "0 \<le> x" "x < minute_ns" "0 < c"
  shows "(base + x + z * minute_ns) div (minute_ns * c) = (base + z * minute_ns) div (minute_ns * c)"
proof -
  have a: "(base + x + z * minute_ns) div minute_ns = (base + z * minute_ns) div minute_ns"
    using assms(1-3) by (auto simp: div_add1_eq [of base] mod_eq_0_iff_dvd elim!: dvdE)
  show ?thesis using a assms(4) by (simp only: zdiv_zmult2_eq less_imp_le)
qed

lemma minute_parts:
  assumes "base mod minute_ns = 0" "0 \<le> x" "x < minute_ns"
  shows "match_minute z sc (base + x) = match_minute z sc base"
proof -
  have d: "local_day z (base + x) = local_day z base"
    using in_minute [OF assms, of 1440 z] by (simp add: local_day_def)
  have h: "time_hour z (base + x) = time_hour z base"
    using in_minute [OF assms, of 60 z] by (simp add: time_hour_def)
  have m: "time_minute z (base + x) = time_minute z base"
    using in_minute [OF assms, of 1 z] by (simp add: time_minute_def)
  show ?thesis by (simp only: match_minute_def time_month_def time_mday_def time_weekday_def d h m)
qed

lemma second_part:
  assumes "base mod minute_ns = 0" "0 \<le> s" "s < 60" "0 \<le> x" "x < second"
  shows "time_second z (base + (s * second + x)) = s"
proof -
  obtain k where k: "base = minute_ns * k" using assms(1) by (auto simp: mod_eq_0_iff_dvd elim!: dvdE)
  have "base + (s * second + x) + z * minute_ns = x + (60 * (k + z) + s) * second" unfolding k by (simp add: algebra_simps)
  then have "(base + (s * second + x) + z * minute_ns) div second = 60 * (k + z) + s"
    using assms(4,5) by (simp only: div_mult_self1)
  moreover have "(60 * (k + z) + s) mod 60 = s" using assms(2,3) mod_mult_self1 [of s "k + z" 60] by (simp add: algebra_simps)
  ultimately show ?thesis unfolding time_second_def by (simp only:)
qed

text \<open>The moments of a minute that fire are its seconds that the field has, when the minute matches.\<close>

lemma fires_in_minute:
  assumes "base mod minute_ns = 0" "0 \<le> x" "x < minute_ns"
  shows "fires z sc (base + x) \<longleftrightarrow> match_minute z sc base \<and> (\<exists>s. 0 \<le> s \<and> s < 60 \<and> x = s * second \<and> has (sc_fields sc ! 0) s)"
proof -
  obtain k where "base = minute_ns * k" using assms(1) by (auto simp: mod_eq_0_iff_dvd elim!: dvdE)
  then have "base + x = x + (60 * k) * second" by simp
  then have b: "(base + x) mod second = x mod second" by (simp only: mod_mult_self1)
  show ?thesis
  proof (cases "x mod second = 0")
    case True
    then obtain s where s: "x = s * second" by (auto simp: mod_eq_0_iff_dvd elim!: dvdE)
    then have "0 \<le> s" "s < 60" using assms(2,3) by auto
    then show ?thesis
      using b True s minute_parts [OF assms, of z sc] second_part [OF assms(1), of s 0 z] by (auto simp: fires_def)
  next
    case False
    then show ?thesis using b by (auto simp: fires_def)
  qed
qed

lemma first_second_Some: "first_second sc from = Some s \<Longrightarrow>
    from \<le> s \<and> s \<le> 59 \<and> has (sc_fields sc ! 0) s \<and> (\<forall>v. from \<le> v \<longrightarrow> v < s \<longrightarrow> \<not> has (sc_fields sc ! 0) v)"
proof -
  assume "first_second sc from = Some s"
  then obtain i where i: "i < length [from..59]" "has (sc_fields sc ! 0) ([from..59] ! i)" "s = [from..59] ! i"
    "\<And>j. j < i \<Longrightarrow> \<not> has (sc_fields sc ! 0) ([from..59] ! j)"
    by (auto simp: first_second_def find_Some_iff)
  have n: "[from..59] ! j = from + int j" if "j \<le> i" for j using i(1) that by (intro nth_upto) simp
  have "\<not> has (sc_fields sc ! 0) v" if "from \<le> v" "v < s" for v
    using i(4) [of "nat (v - from)"] n [of i] n [of "nat (v - from)"] i(3) that by simp
  then show ?thesis using i n [of i] by auto
qed

lemma first_second_None: "first_second sc from = None \<longleftrightarrow> (\<forall>v. from \<le> v \<longrightarrow> v \<le> 59 \<longrightarrow> \<not> has (sc_fields sc ! 0) v)"
  by (auto simp: first_second_def find_None_iff)

lemma next_minutes_first:
  assumes "t mod minute_ns = 0" "(e - t) mod minute_ns = 0" "t \<le> e"
  shows "t \<le> next_minutes z sc t e \<and> (\<forall>u. t \<le> u \<longrightarrow> u < next_minutes z sc t e \<longrightarrow> \<not> fires z sc u) \<and>
    (fires z sc (next_minutes z sc t e) \<and> next_minutes z sc t e < e \<or> next_minutes z sc t e = e)"
  using assms
proof (induction z sc t e rule: next_minutes.induct)
  case (1 z sc t e)
  show ?case
  proof (cases "t < e")
    case False
    then show ?thesis using "1.prems"(3) by (subst (1 2 3 4 5) next_minutes.simps) auto
  next
    case True
    have full: "minute_ns \<le> e - t" using True "1.prems"(2) zdvd_imp_le [of minute_ns "e - t"] by (simp add: mod_eq_0_iff_dvd)
    show ?thesis
    proof (cases "match_minute z sc t \<and> (\<exists>s. first_second sc 0 = Some s)")
      case m: True
      then obtain s where s: "first_second sc 0 = Some s" by blast
      then have r: "next_minutes z sc t e = t + s * second" using True m by (subst next_minutes.simps) simp
      note fs = first_second_Some [OF s]
      have "\<not> fires z sc u" if "t \<le> u" "u < t + s * second" for u
        using fires_in_minute [OF "1.prems"(1), of "u - t" z sc] fs that by auto
      moreover have "fires z sc (t + s * second)"
        using fires_in_minute [OF "1.prems"(1), of "s * second" z sc] fs m by auto
      ultimately show ?thesis unfolding r using fs full by auto
    next
      case m: False
      then have r: "next_minutes z sc t e = next_minutes z sc (t + minute_ns) e"
        using True by (subst next_minutes.simps) (auto split: option.split)
      have p: "(t + minute_ns) mod minute_ns = 0" "(e - (t + minute_ns)) mod minute_ns = 0" "t + minute_ns \<le> e"
        using "1.prems"(1,2) full minus_mod_self2 [of "e - t" minute_ns] by (simp_all add: algebra_simps)
      have ih: "t + minute_ns \<le> next_minutes z sc (t + minute_ns) e \<and>
        (\<forall>u. t + minute_ns \<le> u \<longrightarrow> u < next_minutes z sc (t + minute_ns) e \<longrightarrow> \<not> fires z sc u) \<and>
        (fires z sc (next_minutes z sc (t + minute_ns) e) \<and> next_minutes z sc (t + minute_ns) e < e \<or> next_minutes z sc (t + minute_ns) e = e)"
        using "1.IH" [OF True] m p by (cases "match_minute z sc t") auto
      have none: "\<not> has (sc_fields sc ! 0) v" if "match_minute z sc t" "0 \<le> v" "v < 60" for v
      proof -
        have "first_second sc 0 = None" using m that(1) by (cases "first_second sc 0") auto
        then show ?thesis using that(2,3) unfolding first_second_None by auto
      qed
      have early: "\<not> fires z sc u" if "t \<le> u" "u < t + minute_ns" for u
      proof -
        have "fires z sc (t + (u - t)) \<longleftrightarrow> match_minute z sc t \<and> (\<exists>s. 0 \<le> s \<and> s < 60 \<and> u - t = s * second \<and> has (sc_fields sc ! 0) s)"
          by (rule fires_in_minute [OF "1.prems"(1)]) (use that in simp_all)
        then show ?thesis using none by auto
      qed
      have "\<not> fires z sc u" if "t \<le> u" "u < next_minutes z sc (t + minute_ns) e" for u
        using early [of u] ih that by (cases "u < t + minute_ns") auto
      moreover have "t \<le> next_minutes z sc (t + minute_ns) e" using ih by linarith
      ultimately show ?thesis unfolding r using ih by blast
    qed
  qed
qed

text \<open>Where the search begins and where it gives up.\<close>

definition search_end :: "int \<Rightarrow> instant \<Rightarrow> instant" where
  "search_end z now = add_year z (now - now mod minute_ns + minute_ns)"

lemma sched_next_first:
  assumes "sc_every sc \<le> 0"
  shows "now < sched_next z sc now \<and> (\<forall>u. now < u \<longrightarrow> u < sched_next z sc now \<longrightarrow> \<not> fires z sc u) \<and>
    (fires z sc (sched_next z sc now) \<and> sched_next z sc now < search_end z now \<or> sched_next z sc now = search_end z now)"
proof -
  define base where "base = now - now mod minute_ns"
  define s0 where "s0 = time_second z now"
  let ?o = "if match_minute z sc base then first_second sc (s0 + 1) else None"
  let ?t = "base + minute_ns"
  have bm: "base mod minute_ns = 0" unfolding base_def by (rule minus_mod_eq_mult_div [THEN arg_cong [of _ _ "\<lambda>x. x mod minute_ns"], THEN trans]) simp
  have nb: "base \<le> now" "now < base + minute_ns" unfolding base_def by simp_all
  obtain x where x: "now - base = (now - base) div second * second + x" "0 \<le> x" "x < second"
    by (rule that [of "(now - base) mod second"]) simp_all
  define q where "q = (now - base) div second"
  have q: "0 \<le> q" "q < 60" "now = base + (q * second + x)" using nb x unfolding q_def by auto
  have s0: "s0 = q" unfolding s0_def q(3) by (rule second_part [OF bm q(1,2) x(2,3)])
  have nx: "sched_next z sc now = (case ?o of Some s \<Rightarrow> base + s * second | None \<Rightarrow> next_minutes z sc ?t (add_year z ?t))"
    using assms by (simp add: sched_next_def Let_def base_def s0_def cong: option.case_cong)
  have yr: "add_year z ?t - ?t \<in> {365 * day_ns, 366 * day_ns}" by (rule add_year_bounds)
  have se: "search_end z now = add_year z ?t" by (simp only: search_end_def base_def)
  have rest: "fires z sc u \<longleftrightarrow> match_minute z sc base \<and> (\<exists>s. s0 < s \<and> s < 60 \<and> u = base + s * second \<and> has (sc_fields sc ! 0) s)"
    if "now < u" "u < base + minute_ns" for u
  proof -
    have "fires z sc (base + (u - base)) \<longleftrightarrow> match_minute z sc base \<and> (\<exists>s. 0 \<le> s \<and> s < 60 \<and> u - base = s * second \<and> has (sc_fields sc ! 0) s)"
      by (rule fires_in_minute [OF bm]) (use that nb in simp_all)
    moreover have "s0 < s" if "u - base = s * second" for s
      using that \<open>now < u\<close> q x unfolding s0 by auto
    ultimately show ?thesis using q(1) s0 by (auto simp: algebra_simps)
  qed
  show ?thesis
  proof (cases ?o)
    case (Some s)
    then have m: "match_minute z sc base" "first_second sc (s0 + 1) = Some s" by (auto split: if_splits)
    note fs = first_second_Some [OF m(2)]
    have r: "sched_next z sc now = base + s * second" using nx Some by simp
    have lt: "now < base + s * second" using fs q x unfolding s0 by linarith
    have "\<not> fires z sc u" if "now < u" "u < base + s * second" for u
      using rest [of u] that fs by auto
    moreover have "fires z sc (base + s * second)" using rest [OF lt] fs m(1) by auto
    moreover have "base + s * second < add_year z ?t" using fs yr by auto
    ultimately show ?thesis unfolding r se using lt by blast
  next
    case None
    have r: "sched_next z sc now = next_minutes z sc ?t (add_year z ?t)" using nx None by simp
    have "?t mod minute_ns = 0" using bm by simp
    moreover have "(add_year z ?t - ?t) mod minute_ns = 0"
    proof -
      have "d \<in> {365 * day_ns, 366 * day_ns} \<Longrightarrow> d mod minute_ns = 0" for d by auto
      from this [OF yr] show ?thesis .
    qed
    moreover have "?t \<le> add_year z ?t" using yr by auto
    ultimately have f: "?t \<le> sched_next z sc now \<and> (\<forall>u. ?t \<le> u \<longrightarrow> u < sched_next z sc now \<longrightarrow> \<not> fires z sc u) \<and>
      (fires z sc (sched_next z sc now) \<and> sched_next z sc now < add_year z ?t \<or> sched_next z sc now = add_year z ?t)"
      unfolding r by (rule next_minutes_first)
    have early: "\<not> fires z sc u" if "now < u" "u < ?t" for u
    proof -
      have "match_minute z sc base \<Longrightarrow> first_second sc (s0 + 1) = None" using None by simp
      then show ?thesis using rest [OF that] unfolding first_second_None by auto
    qed
    have "\<not> fires z sc u" if "now < u" "u < sched_next z sc now" for u
      using early [of u] f that by (cases "u < ?t") auto
    moreover have "now < sched_next z sc now" using f nb by linarith
    ultimately show ?thesis unfolding se using f by blast
  qed
qed

text \<open>
  A day that no month of the schedule has is never met, and Next answers with the end of its search
  all the same, a moment that does not fire.
\<close>

definition feb_31 :: schedule where
  "feb_31 = \<lparr>sc_every = 0, sc_fields = [\<lparr>fs_any = False, fs_set = {0}\<rparr>, \<lparr>fs_any = False, fs_set = {0}\<rparr>, \<lparr>fs_any = False, fs_set = {0}\<rparr>,
     \<lparr>fs_any = False, fs_set = {31}\<rparr>, \<lparr>fs_any = False, fs_set = {2}\<rparr>, \<lparr>fs_any = True, fs_set = {}\<rparr>]\<rparr>"

lemma impossible_day_answered: "sched_next z feb_31 now = search_end z now \<and> \<not> fires z feb_31 (search_end z now)"
proof -
  have "\<not> fires z feb_31 u" for u
    using february_short [of z u] by (auto simp: fires_def match_minute_def feb_31_def has_def)
  then show ?thesis using sched_next_first [of feb_31 now z] by (simp add: feb_31_def)
qed

end
