(* ===== verification/BackupTimes.thy ===== *)
theory BackupTimes imports Schedule begin

text \<open>
  The automatic backup (internal/notify/backup.go): which schedules it takes, and the step of its
  loop that decides whether a backup is due. Reading and writing when the last one went may fail; the
  clock, the settings and those failures are arguments of a step. The sending itself is an effect.
\<close>

section \<open>The code\<close>

abbreviation (input) MinBackupGap :: duration where "MinBackupGap \<equiv> 600 * second"
abbreviation (input) backupCheckEvery :: duration where "backupCheckEvery \<equiv> 60 * second"

datatype schedule_check = ScheduleFine | Unreadable schedule_error | TooOften | NeverComesRound

text \<open>ParseSchedule as its callers have it; that it always returns is schedule_parse_returns.\<close>

definition parsed :: "(string \<Rightarrow> duration option) \<Rightarrow> string \<Rightarrow> (schedule_error + schedule)" where
  "parsed pd s = (case parse_schedule pd s of Some r \<Rightarrow> r | None \<Rightarrow> Inl BadInterval)"

lemma parsed_ok: "parsed pd s = Inr sc \<Longrightarrow> schedule_ok sc"
  using parse_schedule_ends [of pd s] by (auto simp: parsed_def)

lemma sched_next_after: "now < sched_next z sc now"
  using sched_next_first [of sc now z] by (cases "sc_every sc \<le> 0") (simp_all add: sched_next_def)

lemma sched_next_not [simp]: "\<not> sched_next z sc now \<le> now"
  using sched_next_after [of now z sc] by simp

function check_gaps :: "schedule \<Rightarrow> instant \<Rightarrow> instant \<Rightarrow> schedule_check" where
  "check_gaps sc prev e =
     (if prev < e then
        let following = sched_next 0 sc prev in
        if time_sub following prev < MinBackupGap then TooOften else check_gaps sc following e
      else ScheduleFine)"
  by pat_completeness auto
termination
  by (relation "measure (\<lambda>(sc, prev, e). nat (e - prev))") (use sched_next_after in auto)

declare check_gaps.simps [simp del]

definition check_from :: instant where
  "check_from = days_of_date 2025 12 31 * day_ns + 86399 * second"

definition check_backup_schedule :: "(string \<Rightarrow> duration option) \<Rightarrow> string \<Rightarrow> schedule_check" where
  "check_backup_schedule pd s =
     (case parsed pd s of
        Inl e \<Rightarrow> Unreadable e
      | Inr sc \<Rightarrow>
          if sc_every sc > 0 then if sc_every sc < MinBackupGap then TooOften else ScheduleFine
          else let prev = sched_next 0 sc check_from in
            if time_sub prev check_from > 365 * day_ns then NeverComesRound
            else check_gaps sc prev (prev + 48 * 3600 * second))"

record backup_stamp =
  bs_at :: instant
  bs_schedule :: string

definition stamp_backup :: "bool \<Rightarrow> instant \<Rightarrow> string \<Rightarrow> backup_stamp \<Rightarrow> backup_stamp" where
  "stamp_backup written at schedule st = (if written then \<lparr>bs_at = at, bs_schedule = schedule\<rparr> else st)"

text \<open>One round of the loop: the clock, the settings, and which of the reads and writes succeed.\<close>

record backup_tick =
  bt_now :: instant
  bt_on :: bool
  bt_time :: string
  bt_read :: bool
  bt_counted :: bool
  bt_moved :: bool

definition backup_schedule :: "backup_tick \<Rightarrow> string" where
  "backup_schedule b = (if \<not> bt_on b then '''' else trim_space (bt_time b))"

definition backup_step :: "int \<Rightarrow> (string \<Rightarrow> duration option) \<Rightarrow> backup_stamp \<Rightarrow> backup_tick \<Rightarrow> bool \<times> duration \<times> backup_stamp" where
  "backup_step z pd st b =
     (let now = bt_now b; schedule = backup_schedule b in
      if \<not> bt_read b then (False, backupCheckEvery, st)
      else if schedule = '''' then
        (False, backupCheckEvery, if bs_schedule st \<noteq> '''' then stamp_backup (bt_counted b) 0 '''' st else st)
      else case parsed pd schedule of
          Inl _ \<Rightarrow> (False, backupCheckEvery, st)
        | Inr sc \<Rightarrow>
            let fresh = (bs_schedule st \<noteq> schedule \<or> is_zero (bs_at st) \<or> bs_at st > now);
                last = (if fresh then now else bs_at st);
                st = (if fresh then stamp_backup (bt_counted b) now schedule st else st);
                due = sched_next z sc last
            in if now < due then (False, min backupCheckEvery (time_sub due now), st)
               else (True, min backupCheckEvery (time_sub (sched_next z sc now) now), stamp_backup (bt_moved b) now schedule st))"

fun backup_run :: "int \<Rightarrow> (string \<Rightarrow> duration option) \<Rightarrow> backup_stamp \<Rightarrow> backup_tick list \<Rightarrow> bool list \<times> backup_stamp" where
  "backup_run z pd st [] = ([], st)"
| "backup_run z pd st (b # bs) =
     (case backup_step z pd st b of (sent, wait, st) \<Rightarrow>
      case backup_run z pd st bs of (sents, st) \<Rightarrow> (sent # sents, st))"

section \<open>When a backup goes\<close>

text \<open>A moment the schedule means, after one time and not after another.\<close>

definition meant_between :: "int \<Rightarrow> schedule \<Rightarrow> instant \<Rightarrow> instant \<Rightarrow> bool" where
  "meant_between z sc t1 t2 \<longleftrightarrow>
     (if sc_every sc > 0 then t1 + sc_every sc \<le> t2
      else \<exists>u. t1 < u \<and> u \<le> t2 \<and> fires z sc u)"

lemma search_end_late: "now + 365 * day_ns \<le> search_end z now"
proof -
  let ?t = "now - now mod minute_ns + minute_ns"
  have "now < ?t" using pos_mod_bound [of minute_ns now] by simp
  moreover have "d \<in> {365 * day_ns, 366 * day_ns} \<Longrightarrow> 365 * day_ns \<le> d" for d by auto
  from this [OF add_year_bounds [of z ?t]] have "365 * day_ns \<le> add_year z ?t - ?t" .
  ultimately show ?thesis unfolding search_end_def by linarith
qed

lemma due_means: "sched_next z sc l \<le> now \<Longrightarrow> now < l + 365 * day_ns \<Longrightarrow> meant_between z sc l now"
proof (cases "sc_every sc > 0")
  case True
  then show "sched_next z sc l \<le> now \<Longrightarrow> now < l + 365 * day_ns \<Longrightarrow> ?thesis" by (simp add: meant_between_def sched_next_def)
next
  case False
  then show "sched_next z sc l \<le> now \<Longrightarrow> now < l + 365 * day_ns \<Longrightarrow> ?thesis"
    using sched_next_first [of sc l z] search_end_late [of l z] by (force simp: meant_between_def)
qed

lemma meant_earlier: "meant_between z sc l now \<Longrightarrow> t \<le> l \<Longrightarrow> meant_between z sc t now"
  by (force simp: meant_between_def split: if_splits)

lemma step_stamp:
  assumes "backup_step z pd st b = (sent, wait, st')" "t \<le> bt_now b" "bs_schedule st = '''' \<or> t \<le> bs_at st"
  shows "bs_schedule st' = '''' \<or> t \<le> bs_at st'"
  using assms by (auto simp: backup_step_def stamp_backup_def Let_def split: if_splits sum.splits)

lemma step_sends:
  assumes "backup_step z pd st b = (True, wait, st')"
  shows "\<exists>sc. parsed pd (backup_schedule b) = Inr sc \<and> backup_schedule b \<noteq> '''' \<and>
    bs_schedule st = backup_schedule b \<and> bs_at st \<noteq> 0 \<and> sched_next z sc (bs_at st) \<le> bt_now b \<and>
    st' = stamp_backup (bt_moved b) (bt_now b) (backup_schedule b) st"
  using assms
  by (auto simp: backup_step_def Let_def not_less split: if_splits sum.splits)

lemma run_stamp:
  assumes "backup_run z pd st bs = (sents, st')" "\<forall>b \<in> set bs. t \<le> bt_now b" "bs_schedule st = '''' \<or> t \<le> bs_at st"
  shows "bs_schedule st' = '''' \<or> t \<le> bs_at st'"
  using assms
proof (induction bs arbitrary: st sents)
  case (Cons b bs)
  obtain sent wait st1 where s: "backup_step z pd st b = (sent, wait, st1)" by (metis prod_cases3)
  obtain sents' where r: "backup_run z pd st1 bs = (sents', st')" using Cons.prems(1) s by (auto split: prod.splits)
  have "bs_schedule st1 = '''' \<or> t \<le> bs_at st1" by (rule step_stamp [OF s]) (use Cons.prems in auto)
  from Cons.IH [OF r _ this] Cons.prems(2) show ?case by simp
qed simp

section \<open>Properties\<close>

text \<open>
  C28. Reading a schedule returns, whatever the line: the loop over a part's values ends even where
  a step is so large that adding it overflows.
\<close>
theorem schedule_parse_returns: "\<exists>r. parse_schedule pd s = Some r"
  using parse_schedule_ends by blast

text \<open>
  C31. A schedule that is accepted is an interval of a second or more, or six fields that each admit
  a value within the limits of their place.
\<close>
theorem schedule_parse_ok:
  assumes "parse_schedule pd s = Some (Inr sc)"
  shows "schedule_ok sc"
  using parse_schedule_ends [of pd s] assms by auto

text \<open>
  C29. Next is later than now, and no moment between fires. It fires itself, at whole seconds whose
  month, day, weekday, hour, minute and second the fields have, unless nothing does for a year from
  the minute after; then it is the moment the search gave up.
\<close>
theorem next_is_first:
  assumes "sc_every sc \<le> 0"
  shows "now < sched_next z sc now \<and> (\<forall>u. now < u \<longrightarrow> u < sched_next z sc now \<longrightarrow> \<not> fires z sc u) \<and>
    (fires z sc (sched_next z sc now) \<and> sched_next z sc now < search_end z now \<or> sched_next z sc now = search_end z now)"
  by (rule sched_next_first [OF assms])

text \<open>
  C30. Between two backups less than a year apart, the time of the first of them written down and the
  clock never behind it since, there is a moment the second one's schedule means: its interval has
  passed, or one of its moments has come. Changes of the settings and failing reads and writes in
  between make no difference.
\<close>
theorem backups_apart:
  assumes "backup_step z pd st b1 = (True, w, st1)" "bt_moved b1" "backup_run z pd st1 bs = (sents, st2)"
    and "backup_step z pd st2 b2 = (True, w', st3)" "\<forall>b \<in> set bs. bt_now b1 \<le> bt_now b" "bt_now b2 < bt_now b1 + 365 * day_ns"
  shows "\<exists>sc. parsed pd (backup_schedule b2) = Inr sc \<and> meant_between z sc (bt_now b1) (bt_now b2)"
proof -
  have "st1 = \<lparr>bs_at = bt_now b1, bs_schedule = backup_schedule b1\<rparr>"
    using step_sends [OF assms(1)] assms(2) by (auto simp: stamp_backup_def)
  then have "bs_schedule st1 = '''' \<or> bt_now b1 \<le> bs_at st1" by simp
  then have "bs_schedule st2 = '''' \<or> bt_now b1 \<le> bs_at st2" by (rule run_stamp [OF assms(3,5)])
  moreover obtain sc where sc: "parsed pd (backup_schedule b2) = Inr sc" "backup_schedule b2 \<noteq> ''''"
    "bs_schedule st2 = backup_schedule b2" "sched_next z sc (bs_at st2) \<le> bt_now b2"
    using step_sends [OF assms(4)] by blast
  ultimately have "meant_between z sc (bt_now b1) (bt_now b2)"
    by (intro meant_earlier [OF due_means [OF sc(4)]]) (use assms(6) in auto)
  then show ?thesis using sc(1) by blast
qed

text \<open>
  With the stamp read and the schedule as it was, a backup goes exactly when a moment of the
  schedule has come since the last one, as long as that was within the year the search looks ahead.
\<close>
lemma backup_due_exact:
  assumes "bt_read b" "parsed pd (backup_schedule b) = Inr sc" "sc_every sc \<le> 0" "backup_schedule b \<noteq> ''''"
    and "bs_schedule st = backup_schedule b" "bs_at st \<noteq> 0" "bs_at st \<le> bt_now b" "bt_now b < search_end z (bs_at st)"
  shows "fst (backup_step z pd st b) \<longleftrightarrow> (\<exists>u. bs_at st < u \<and> u \<le> bt_now b \<and> fires z sc u)"
proof -
  have "fst (backup_step z pd st b) \<longleftrightarrow> sched_next z sc (bs_at st) \<le> bt_now b"
    using assms(1,2,4-7) by (auto simp: backup_step_def Let_def)
  moreover have "sched_next z sc (bs_at st) \<le> bt_now b \<longleftrightarrow> (\<exists>u. bs_at st < u \<and> u \<le> bt_now b \<and> fires z sc u)"
    using sched_next_first [OF assms(3), of "bs_at st" z] assms(8) by (metis linorder_not_less order_less_le_trans)
  ultimately show ?thesis by simp
qed

section \<open>The hourly backup\<close>

definition any_field :: field_set where
  "any_field = \<lparr>fs_any = True, fs_set = {}\<rparr>"

definition zero_field :: field_set where
  "zero_field = \<lparr>fs_any = False, fs_set = {0}\<rparr>"

definition hourly :: schedule where
  "hourly = \<lparr>sc_every = 0, sc_fields = [zero_field, zero_field, any_field, any_field, any_field, any_field]\<rparr>"

lemma words_hourly: "split_words ''0 0 * * * *'' = [''0'', ''0'', ''*'', ''*'', ''*'', ''*'']"
  by (simp add: split_words_def go_space_def)

lemma zero_parsed: "parse_field ''0'' 0 59 = Some (Inr zero_field)"
proof -
  have "{w. 0 \<le> w \<and> w \<le> (0 :: int) \<and> 1 dvd w - 0} = {0}" by auto
  then have l: "field_loop 0 0 1 59 {} = Some {0}" using field_loop_values [of 1 0 59 0 "{}"] by simp
  have "atoi ''0'' = Some 0" by (simp add: atoi_def undec_def digit_val_def is_digit_def)
  then show ?thesis using l by (simp add: parse_field_def part_step_def part_range_def zero_field_def)
qed

lemma star_parsed: "parse_field ''*'' lo hi = Some (Inr any_field)"
  by (simp add: parse_field_def any_field_def)

lemma hourly_parsed: "parse_schedule pd ''@hourly'' = Some (Inr hourly)"
proof -
  have "trim_space ''@hourly'' = ''@hourly''" by (simp add: trim_space_def go_space_def)
  then show ?thesis
    by (simp add: parse_schedule_def parse_cron_def words_hourly field_limits_def zero_parsed star_parsed hourly_def)
qed

lemma hourly_fires: "fires 0 hourly u \<longleftrightarrow> u mod (3600 * second) = 0"
proof -
  define q where "q = u div second"
  have u: "u mod second = 0 \<longleftrightarrow> u = q * second" unfolding q_def using div_mult_mod_eq [of u second] by linarith
  have m: "u div minute_ns = q div 60" unfolding q_def using zdiv_zmult2_eq [of 60 u second] by (simp add: mult.commute)
  have "fires 0 hourly u \<longleftrightarrow> u = q * second \<and> q mod 60 = 0 \<and> q div 60 mod 60 = 0"
    using m by (auto simp: fires_def u match_minute_def hourly_def any_field_def zero_field_def has_def time_minute_def
        time_second_def q_def [symmetric])
  also have "\<dots> \<longleftrightarrow> u mod (3600 * second) = 0"
  proof
    assume a: "u = q * second \<and> q mod 60 = 0 \<and> q div 60 mod 60 = 0"
    then have "q = 3600 * (q div 60 div 60)"
      using div_mult_mod_eq [of q 60] div_mult_mod_eq [of "q div 60" 60] by linarith
    then obtain k where "q = 3600 * k" by blast
    then have "u = 3600 * second * k" using a by simp
    then show "u mod (3600 * second) = 0" by (simp only: mod_mult_self1_is_0)
  next
    assume "u mod (3600 * second) = 0"
    then obtain k where "u = 3600 * second * k" by (auto simp: mod_eq_0_iff_dvd elim!: dvdE)
    then show "u = q * second \<and> q mod 60 = 0 \<and> q div 60 mod 60 = 0" by (simp add: q_def)
  qed
  finally show ?thesis .
qed

definition hours :: "int \<Rightarrow> int \<Rightarrow> instant" where
  "hours h m = (h * 3600 + m * 60) * second"

definition hourly_tick :: "instant \<Rightarrow> backup_tick" where
  "hourly_tick now = \<lparr>bt_now = now, bt_on = True, bt_time = ''@hourly'', bt_read = True, bt_counted = True, bt_moved = True\<rparr>"

lemma hourly_tick_facts: "backup_schedule (hourly_tick now) = ''@hourly''" "parsed pd ''@hourly'' = Inr hourly" "sc_every hourly = 0"
  by (simp_all add: backup_schedule_def hourly_tick_def trim_space_def go_space_def parsed_def hourly_parsed hourly_def)

lemma hourly_due:
  assumes "0 < l" "l \<le> now" "now \<le> l + 365 * day_ns - 1"
  shows "fst (backup_step 0 pd \<lparr>bs_at = l, bs_schedule = ''@hourly''\<rparr> (hourly_tick now)) \<longleftrightarrow>
    (\<exists>u. l < u \<and> u \<le> now \<and> u mod (3600 * second) = 0)"
proof -
  have "fst (backup_step 0 pd \<lparr>bs_at = l, bs_schedule = ''@hourly''\<rparr> (hourly_tick now)) \<longleftrightarrow> sched_next 0 hourly l \<le> now"
    using assms hourly_tick_facts by (auto simp: backup_step_def Let_def hourly_tick_def)
  moreover have "sched_next 0 hourly l \<le> now \<longleftrightarrow> (\<exists>u. l < u \<and> u \<le> now \<and> fires 0 hourly u)"
  proof -
    have "now < search_end 0 l" using search_end_late [of l 0] assms(3) by linarith
    moreover have "sc_every hourly \<le> 0" using hourly_tick_facts(3) by simp
    ultimately show ?thesis using sched_next_first [of hourly l 0] by (metis linorder_not_less order_less_le_trans)
  qed
  ultimately show ?thesis by (simp add: hourly_fires)
qed

text \<open>
  MinBackupGap does not hold of the backups themselves: one that is late, the panel having been down,
  is stamped with the time it went, and the next moment of the schedule may be close by.
\<close>

lemma late_backup_close:
  "fst (backup_run 0 pd \<lparr>bs_at = hours 9 0, bs_schedule = ''@hourly''\<rparr> [hourly_tick (hours 10 58), hourly_tick (hours 11 0)]) = [True, True]"
proof -
  have e1: "\<exists>u. hours 9 0 < u \<and> u \<le> hours 10 58 \<and> u mod (3600 * second) = 0"
    by (rule exI [of _ "hours 10 0"]) (simp add: hours_def)
  have e2: "\<exists>u. hours 10 58 < u \<and> u \<le> hours 11 0 \<and> u mod (3600 * second) = 0"
    by (rule exI [of _ "hours 11 0"]) (simp add: hours_def)
  obtain w1 s1 where s1: "backup_step 0 pd \<lparr>bs_at = hours 9 0, bs_schedule = ''@hourly''\<rparr> (hourly_tick (hours 10 58)) = (True, w1, s1)"
    using hourly_due [of "hours 9 0" "hours 10 58" pd] e1
    by (cases "backup_step 0 pd \<lparr>bs_at = hours 9 0, bs_schedule = ''@hourly''\<rparr> (hourly_tick (hours 10 58))") (simp add: hours_def)
  have "s1 = \<lparr>bs_at = hours 10 58, bs_schedule = ''@hourly''\<rparr>"
    using step_sends [OF s1] by (auto simp: stamp_backup_def hourly_tick_facts(1)) (simp_all add: hourly_tick_def)
  moreover obtain w2 s2 where "backup_step 0 pd \<lparr>bs_at = hours 10 58, bs_schedule = ''@hourly''\<rparr> (hourly_tick (hours 11 0)) = (True, w2, s2)"
    using hourly_due [of "hours 10 58" "hours 11 0" pd] e2
    by (cases "backup_step 0 pd \<lparr>bs_at = hours 10 58, bs_schedule = ''@hourly''\<rparr> (hourly_tick (hours 11 0))") (simp add: hours_def)
  ultimately show ?thesis using s1 by simp
qed

theorem schedule_parse_ok_witness: "schedule_ok hourly"
  by (rule schedule_parse_ok [OF hourly_parsed])

theorem next_is_first_witness:
  "sched_next 0 hourly (hours 9 30) = hours 10 0"
proof -
  have n: "hours 9 30 < sched_next 0 hourly (hours 9 30)"
    "\<And>u. hours 9 30 < u \<Longrightarrow> u < sched_next 0 hourly (hours 9 30) \<Longrightarrow> \<not> fires 0 hourly u"
    "fires 0 hourly (sched_next 0 hourly (hours 9 30)) \<or> sched_next 0 hourly (hours 9 30) = search_end 0 (hours 9 30)"
    using next_is_first [of hourly "hours 9 30" 0] by (auto simp: hourly_tick_facts(3))
  have "fires 0 hourly (hours 10 0)" by (simp add: hourly_fires hours_def)
  then have le: "sched_next 0 hourly (hours 9 30) \<le> hours 10 0" using n(2) [of "hours 10 0"] by (force simp: hours_def)
  then have "sched_next 0 hourly (hours 9 30) \<noteq> search_end 0 (hours 9 30)"
    using search_end_late [of "hours 9 30" 0] by (auto simp: hours_def)
  then have "sched_next 0 hourly (hours 9 30) mod (3600 * second) = 0" using n(3) hourly_fires by blast
  then show ?thesis using n(1) le by (auto simp: hours_def mod_eq_0_iff_dvd elim!: dvdE)
qed

theorem backups_apart_witness:
  "\<exists>sc. parsed (\<lambda>_. None) ''@hourly'' = Inr sc \<and> meant_between 0 sc (hours 10 58) (hours 11 0)"
proof -
  obtain w1 s1 where s1: "backup_step 0 (\<lambda>_. None) \<lparr>bs_at = hours 9 0, bs_schedule = ''@hourly''\<rparr> (hourly_tick (hours 10 58)) = (True, w1, s1)"
    and r: "fst (backup_run 0 (\<lambda>_. None) s1 [hourly_tick (hours 11 0)]) = [True]"
    using late_backup_close [of "\<lambda>_. None"] by (auto split: prod.splits)
  obtain w2 s2 where s2: "backup_step 0 (\<lambda>_. None) s1 (hourly_tick (hours 11 0)) = (True, w2, s2)"
    using r by (auto split: prod.splits)
  have "\<exists>sc. parsed (\<lambda>_. None) (backup_schedule (hourly_tick (hours 11 0))) = Inr sc \<and>
      meant_between 0 sc (bt_now (hourly_tick (hours 10 58))) (bt_now (hourly_tick (hours 11 0)))"
    by (rule backups_apart [OF s1 _ _ s2, of "[]" "[]"]) (simp_all add: hourly_tick_def hours_def)
  then show ?thesis by (simp only: hourly_tick_facts(1)) (simp add: hourly_tick_def)
qed

end
