(* ===== verification/Steer.thy ===== *)
theory Steer imports Allocator Texts begin

text \<open>
  Where a customer's traffic leaves the server (internal/routing/policy.go): the policy compiled to
  the chains of the table wui_policy, over a packet as those chains see it. A rule of a chain is kept
  as what it matches and does; rule_line is its text. The text of an address is a parameter.
\<close>

section \<open>Policies\<close>

definition MarkBase :: u32 where "MarkBase = 0x00a70000"
definition MarkMask :: u32 where "MarkMask = 0x00ff0000"

record port_range =
  pr_from :: u16
  pr_to :: u16

definition range_valid :: "port_range \<Rightarrow> bool" where
  "range_valid p = (pr_from p > 0 \<and> pr_to p \<ge> pr_from p)"

record mark_rule =
  mr_mark :: u32
  mr_drop :: bool
  mr_addrs :: "prefix list"
  mr_ports :: "port_range list"
  mr_protocol :: string
  mr_sources :: "prefix list"
  mr_source_ports :: "port_range list"
  mr_inbounds :: "string list"
  mr_inbound_nets :: "prefix list"

record hop =
  hp_tag :: string
  hp_mark :: u32
  hp_table :: int
  hp_device :: string
  hp_nexthops :: "string list"
  hp_enabled :: bool

record port_redirect =
  rd_proto :: string
  rd_from :: u16
  rd_to :: u16
  rd_marked :: bool

record policy =
  po_block_addrs :: "prefix list"
  po_direct_addrs :: "prefix list"
  po_block_bittorrent :: bool
  po_block_ports :: "port_range list"
  po_default_mark :: u32
  po_drop_unmatched :: bool
  po_rules :: "mark_rule list"
  po_panel_mark :: u32
  po_panel_uid :: int
  po_panel_exclude :: "prefix list"
  po_no_counters :: bool
  po_hops :: "hop list"
  po_customer_nets :: "prefix list"
  po_tunnel_devices :: "string list"
  po_redirects :: "port_redirect list"

text \<open>netip.PrefixFrom, and the prefixes of each family.\<close>

definition prefix_from :: "addr \<Rightarrow> int \<Rightarrow> prefix" where
  "prefix_from a b =
     (let len = (case a of NoAddr \<Rightarrow> - 1 | V4 _ \<Rightarrow> 32 | V6 _ \<Rightarrow> 128)
      in \<lparr>p_addr = a, p_bits = (if 0 \<le> b \<and> b \<le> len then b else - 1)\<rparr>)"

definition v4 :: "prefix list \<Rightarrow> prefix list" where
  "v4 ps = map (\<lambda>p. prefix_from (unmap (p_addr p)) (p_bits p)) (filter (\<lambda>p. is4 (unmap (p_addr p))) ps)"

definition v6 :: "prefix list \<Rightarrow> prefix list" where
  "v6 ps = filter (\<lambda>p. \<not> is4 (unmap (p_addr p))) ps"

section \<open>Packets and chains\<close>

datatype l4 = Tcp | Udp | Icmp | OtherL4

record flow =
  fl_src :: addr
  fl_dst :: addr
  fl_l4 :: l4
  fl_sport :: u16
  fl_dport :: u16
  fl_iif :: string
  fl_oif :: string
  fl_uid :: int
  fl_reply :: bool
  fl_mark :: u32
  fl_ct :: u32
  fl_local :: bool
  fl_ike_marker :: bool

text \<open>A list of networks is written out in the rule, or is a set of the table.\<close>

datatype nets = Listed "prefix list" | Named string "prefix list"

fun prefixes :: "nets \<Rightarrow> prefix list" where
  "prefixes (Listed ps) = ps"
| "prefixes (Named _ ps) = ps"

text \<open>
  What a rule may ask. In a table of both families ip and ip6 make a rule of that family, so each of
  those asks for it first.
\<close>

datatype match =
    Saddr nets | NotSaddr nets | Daddr4 nets | Daddr6 nets
  | Iif "string list" | L4 l4 | TcpUdp | Sport "port_range list" | Dport "port_range list" | CtOurs | MarkNotOurs
  | Oif string | NotUid int | CtReply
  | Oifs "string list" | FibLocal | PortOf l4 u16 | IkeMarker

datatype action = AcceptIt | DropIt | MarkAccept u32 | MarkOnly u32 | RestoreAccept | ClampMss

type_synonym steer_rule = "match list \<times> action"

datatype outcome = Passes flow | Dropped

definition in_ports :: "u16 \<Rightarrow> port_range list \<Rightarrow> bool" where
  "in_ports x rs = list_ex (\<lambda>r. pr_from r \<le> x \<and> x \<le> pr_to r) rs"

definition in_nets4 :: "addr \<Rightarrow> prefix list \<Rightarrow> bool" where
  "in_nets4 a ps = (is4 a \<and> list_ex (\<lambda>p. contains p a) ps)"

definition is6 :: "addr \<Rightarrow> bool" where
  "is6 a = (case a of V6 _ \<Rightarrow> True | _ \<Rightarrow> False)"

definition in_nets6 :: "addr \<Rightarrow> prefix list \<Rightarrow> bool" where
  "in_nets6 a ps = (is6 a \<and> list_ex (\<lambda>p. contains p a) ps)"

fun matches :: "match \<Rightarrow> flow \<Rightarrow> bool" where
  "matches (Saddr ps) f = in_nets4 (fl_src f) (prefixes ps)"
| "matches (NotSaddr ps) f = (is4 (fl_src f) \<and> \<not> in_nets4 (fl_src f) (prefixes ps))"
| "matches (Daddr4 ps) f = in_nets4 (fl_dst f) (prefixes ps)"
| "matches (Daddr6 ps) f = in_nets6 (fl_dst f) (prefixes ps)"
| "matches (Iif names) f = (fl_iif f \<in> set names)"
| "matches (L4 p) f = (fl_l4 f = p)"
| "matches TcpUdp f = (fl_l4 f = Tcp \<or> fl_l4 f = Udp)"
| "matches (Sport rs) f = in_ports (fl_sport f) rs"
| "matches (Dport rs) f = in_ports (fl_dport f) rs"
| "matches CtOurs f = (fl_ct f AND MarkMask = MarkBase AND MarkMask)"
| "matches MarkNotOurs f = (fl_mark f AND MarkMask \<noteq> MarkBase AND MarkMask)"
| "matches (Oif n) f = (fl_oif f = n)"
| "matches (NotUid u) f = (fl_uid f \<noteq> u)"
| "matches CtReply f = fl_reply f"
| "matches (Oifs ns) f = (fl_oif f \<in> set ns)"
| "matches FibLocal f = fl_local f"
| "matches (PortOf p n) f = (fl_l4 f = p \<and> fl_dport f = n)"
| "matches IkeMarker f = fl_ike_marker f"

text \<open>A chain whose policy is accept: rules in order, until one decides.\<close>

fun run_chain :: "steer_rule list \<Rightarrow> flow \<Rightarrow> outcome" where
  "run_chain [] f = Passes f"
| "run_chain ((ms, act) # rs) f =
     (if list_all (\<lambda>m. matches m f) ms then
        case act of
          AcceptIt \<Rightarrow> Passes f
        | DropIt \<Rightarrow> Dropped
        | MarkAccept m \<Rightarrow> Passes (f\<lparr>fl_mark := m, fl_ct := m\<rparr>)
        | MarkOnly m \<Rightarrow> run_chain rs (f\<lparr>fl_mark := m, fl_ct := m\<rparr>)
        | RestoreAccept \<Rightarrow> Passes (f\<lparr>fl_mark := fl_ct f\<rparr>)
        | ClampMss \<Rightarrow> run_chain rs f
      else run_chain rs f)"

section \<open>Compiling a rule\<close>

datatype policy_error = MatchesNothing | BadProtocol | BadPortRange | IcmpPorts | ForeignMark | BadBlockedPort

definition rule_empty :: "mark_rule \<Rightarrow> bool" where
  "rule_empty r = (mr_addrs r = [] \<and> mr_ports r = [] \<and> mr_protocol r = '''' \<and>
     mr_sources r = [] \<and> mr_source_ports r = [] \<and> mr_inbounds r = [] \<and> mr_inbound_nets r = [])"

definition protocol_l4 :: "string \<Rightarrow> l4 option" where
  "protocol_l4 s = (if s = ''tcp'' then Some Tcp else if s = ''udp'' then Some Udp else if s = ''icmp'' then Some Icmp else None)"

definition rule_action :: "mark_rule \<Rightarrow> action" where
  "rule_action r = (if mr_drop r then DropIt else if mr_mark r = 0 then AcceptIt else MarkAccept (mr_mark r))"

text \<open>A rule of one family and one way in: what it asks, in the order it is written.\<close>

definition match_list :: "mark_rule \<Rightarrow> match list" where
  "match_list r =
     (if mr_sources r \<noteq> [] then [Saddr (Listed (v4 (mr_sources r)))] else []) @
     (if mr_inbounds r \<noteq> [] then [Iif (mr_inbounds r)] else []) @
     (if mr_inbound_nets r \<noteq> [] then [Saddr (Listed (v4 (mr_inbound_nets r)))] else []) @
     (if mr_addrs r \<noteq> [] then [if v6 (mr_addrs r) \<noteq> [] then Daddr6 (Listed (v6 (mr_addrs r))) else Daddr4 (Listed (v4 (mr_addrs r)))] else []) @
     (case protocol_l4 (mr_protocol r) of None \<Rightarrow> [] | Some p \<Rightarrow> [L4 p]) @
     (if (mr_ports r \<noteq> [] \<or> mr_source_ports r \<noteq> []) \<and> mr_protocol r = '''' then [TcpUdp] else []) @
     (if mr_source_ports r \<noteq> [] then [Sport (mr_source_ports r)] else []) @
     (if mr_ports r \<noteq> [] then [Dport (mr_ports r)] else [])"

definition single_rule :: "mark_rule \<Rightarrow> policy_error + steer_rule list" where
  "single_rule r =
     (if mr_sources r \<noteq> [] \<and> v4 (mr_sources r) = [] then Inr []
      else if mr_inbound_nets r \<noteq> [] \<and> v4 (mr_inbound_nets r) = [] then Inr []
      else if mr_protocol r \<noteq> '''' \<and> protocol_l4 (mr_protocol r) = None then Inl BadProtocol
      else if list_ex (\<lambda>p. \<not> range_valid p) (mr_ports r @ mr_source_ports r) then Inl BadPortRange
      else if (mr_ports r \<noteq> [] \<or> mr_source_ports r \<noteq> []) \<and> mr_protocol r = ''icmp'' then Inl IcmpPorts
      else Inr [(match_list r, rule_action r)])"

definition both_of :: "policy_error + 'a list \<Rightarrow> policy_error + 'a list \<Rightarrow> policy_error + 'a list" where
  "both_of a b = (case a of Inl e \<Rightarrow> Inl e | Inr xs \<Rightarrow> (case b of Inl e \<Rightarrow> Inl e | Inr ys \<Rightarrow> Inr (xs @ ys)))"

lemma v4_family: "p \<in> set (v4 ps) \<Longrightarrow> is4 (p_addr p)"
  by (auto simp: v4_def prefix_from_def)

lemma unmap_is4 [simp]: "is4 a \<Longrightarrow> unmap a = a"
  by (cases a) auto

lemma v6_v4 [simp]: "v6 (v4 ps) = []"
  using v4_family by (auto simp: v6_def filter_empty_conv)

lemma v4_v4 [simp]: "v4 (v4 ps) = v4 ps"
proof -
  have "prefix_from (unmap (p_addr p)) (p_bits p) = p \<and> is4 (unmap (p_addr p))" if "p \<in> set (v4 ps)" for p
    using that by (auto simp: v4_def prefix_from_def split: addr.splits if_splits)
  then show ?thesis unfolding v4_def [of "v4 ps"] by (auto simp: filter_id_conv intro: map_idI)
qed

lemma v6_v6 [simp]: "v6 (v6 ps) = v6 ps"
  by (simp add: v6_def)

lemma v4_v6 [simp]: "v4 (v6 ps) = []"
  by (auto simp: v4_def v6_def filter_empty_conv)

function mark_rule_rules :: "mark_rule \<Rightarrow> policy_error + steer_rule list" where
  "mark_rule_rules r =
     (if rule_empty r then Inl MatchesNothing
      else if mr_inbounds r \<noteq> [] \<and> mr_inbound_nets r \<noteq> [] then
        both_of (mark_rule_rules (r\<lparr>mr_inbound_nets := []\<rparr>)) (mark_rule_rules (r\<lparr>mr_inbounds := []\<rparr>))
      else if v4 (mr_addrs r) \<noteq> [] \<and> v6 (mr_addrs r) \<noteq> [] then
        both_of (mark_rule_rules (r\<lparr>mr_addrs := v4 (mr_addrs r)\<rparr>)) (mark_rule_rules (r\<lparr>mr_addrs := v6 (mr_addrs r)\<rparr>))
      else single_rule r)"
  by pat_completeness auto
termination
  by (relation "measure (\<lambda>r. (if mr_inbounds r \<noteq> [] \<and> mr_inbound_nets r \<noteq> [] then 1 else 0) +
      (if v4 (mr_addrs r) \<noteq> [] \<and> v6 (mr_addrs r) \<noteq> [] then 1 else (0 :: nat)))") auto

declare mark_rule_rules.simps [simp del]

section \<open>The chains\<close>

definition bittorrent_ports :: "port_range list" where
  "bittorrent_ports = [\<lparr>pr_from = 6881, pr_to = 6889\<rparr>, \<lparr>pr_from = 6969, pr_to = 6969\<rparr>,
     \<lparr>pr_from = 51413, pr_to = 51413\<rparr>, \<lparr>pr_from = 1337, pr_to = 1337\<rparr>]"

definition policy_validate :: "policy \<Rightarrow> policy_error option" where
  "policy_validate p =
     (if list_ex (\<lambda>h. hp_enabled h \<and> hp_mark h \<noteq> 0 \<and> hp_mark h AND MarkMask \<noteq> MarkBase AND MarkMask) (po_hops p) then Some ForeignMark
      else if list_ex (\<lambda>r. \<not> range_valid r) (po_block_ports p) then Some BadBlockedPort
      else None)"

definition block_named :: "policy \<Rightarrow> steer_rule list" where
  "block_named p =
     (let customers = v4 (po_customer_nets p); blocked4 = v4 (po_block_addrs p); blocked6 = v6 (po_block_addrs p) in
      (if blocked4 \<noteq> [] then [((if customers \<noteq> [] then [Saddr (Named ''customers4'' customers)] else []) @ [Daddr4 (Named ''blocked4'' blocked4)], DropIt)] else []) @
      (if blocked6 \<noteq> [] then [([Daddr6 (Named ''blocked6'' blocked6)], DropIt)] else []))"

definition block_p2p :: "policy \<Rightarrow> steer_rule list" where
  "block_p2p p = (if po_block_bittorrent p then [([TcpUdp, Dport bittorrent_ports], DropIt)] else [])"

definition block_rest :: "policy \<Rightarrow> steer_rule list" where
  "block_rest p =
     (let customers = v4 (po_customer_nets p) in
      (if po_block_ports p \<noteq> [] then [([TcpUdp, Dport (po_block_ports p)], DropIt)] else []) @
      (if po_drop_unmatched p \<and> customers \<noteq> [] then [([Saddr (Named ''customers4'' customers), MarkNotOurs], DropIt)] else []))"

definition block_chain :: "policy \<Rightarrow> steer_rule list" where
  "block_chain p = [([], ClampMss)] @ block_named p @ block_p2p p @ block_rest p"

fun mark_rules :: "mark_rule list \<Rightarrow> policy_error + steer_rule list" where
  "mark_rules [] = Inr []"
| "mark_rules (r # rs) = both_of (mark_rule_rules r) (mark_rules rs)"

definition steer_chain :: "policy \<Rightarrow> policy_error + steer_rule list" where
  "steer_chain p =
     (let customers = v4 (po_customer_nets p); direct4 = v4 (po_direct_addrs p); direct6 = v6 (po_direct_addrs p) in
      if customers = [] then Inr []
      else both_of
        (Inr ([([NotSaddr (Named ''customers4'' customers)], AcceptIt), ([CtOurs], RestoreAccept)] @
           (if direct4 \<noteq> [] then [([Daddr4 (Named ''direct4'' direct4)], AcceptIt)] else []) @
           (if direct6 \<noteq> [] then [([Daddr6 (Named ''direct6'' direct6)], AcceptIt)] else [])))
        (both_of (mark_rules (po_rules p))
           (Inr (if po_default_mark p \<noteq> 0 then [([], MarkOnly (po_default_mark p))] else []))))"

text \<open>
  What the panel process sends itself (writePanelChain): the chain hangs off output, and there is none
  without a mark or a user to tell it by.
\<close>

definition panel_chain :: "policy \<Rightarrow> steer_rule list" where
  "panel_chain p =
     (let ex4 = v4 (po_panel_exclude p); ex6 = v6 (po_panel_exclude p) in
      [([Oif ''lo''], AcceptIt), ([NotUid (po_panel_uid p)], AcceptIt), ([CtReply], AcceptIt)] @
      (if ex4 \<noteq> [] then [([Daddr4 (Named ''panel_direct4'' ex4)], AcceptIt)] else []) @
      (if ex6 \<noteq> [] then [([Daddr6 (Named ''panel_direct6'' ex6)], AcceptIt)] else []) @
      [([CtOurs], RestoreAccept), ([], MarkOnly (po_panel_mark p))])"

text \<open>BuildRuleset: the two chains a customer's packet goes through, or why there is no program.\<close>

definition build_policy :: "policy \<Rightarrow> policy_error + steer_rule list \<times> steer_rule list" where
  "build_policy p =
     (case policy_validate p of
        Some e \<Rightarrow> Inl e
      | None \<Rightarrow> (case steer_chain p of Inl e \<Rightarrow> Inl e | Inr rs \<Rightarrow> Inr (rs, block_chain p)))"

section \<open>What a policy means\<close>

text \<open>A rule is the conjunction of the criteria it sets; a device or a tunnel's subnet is one criterion.\<close>

definition rule_matches :: "mark_rule \<Rightarrow> flow \<Rightarrow> bool" where
  "rule_matches r f \<longleftrightarrow>
     (mr_sources r \<noteq> [] \<longrightarrow> in_nets4 (fl_src f) (v4 (mr_sources r))) \<and>
     (mr_inbounds r \<noteq> [] \<or> mr_inbound_nets r \<noteq> [] \<longrightarrow>
        fl_iif f \<in> set (mr_inbounds r) \<or> in_nets4 (fl_src f) (v4 (mr_inbound_nets r))) \<and>
     (mr_addrs r \<noteq> [] \<longrightarrow> in_nets4 (fl_dst f) (v4 (mr_addrs r)) \<or> in_nets6 (fl_dst f) (v6 (mr_addrs r))) \<and>
     (mr_protocol r \<noteq> '''' \<longrightarrow> protocol_l4 (mr_protocol r) = Some (fl_l4 f)) \<and>
     (mr_ports r \<noteq> [] \<or> mr_source_ports r \<noteq> [] \<longrightarrow> fl_l4 f \<in> {Tcp, Udp}) \<and>
     (mr_source_ports r \<noteq> [] \<longrightarrow> in_ports (fl_sport f) (mr_source_ports r)) \<and>
     (mr_ports r \<noteq> [] \<longrightarrow> in_ports (fl_dport f) (mr_ports r))"

definition rule_outcome :: "mark_rule \<Rightarrow> flow \<Rightarrow> outcome" where
  "rule_outcome r f =
     (if mr_drop r then Dropped
      else Passes (if mr_mark r = 0 then f else f\<lparr>fl_mark := mr_mark r, fl_ct := mr_mark r\<rparr>))"

lemma in_nets_empty [simp]: "\<not> in_nets4 a []" "\<not> in_nets6 a []"
  by (simp_all add: in_nets4_def in_nets6_def)

lemma v4_or_v6: "ps \<noteq> [] \<Longrightarrow> v4 ps \<noteq> [] \<or> v6 ps \<noteq> []"
  by (cases ps) (auto simp: v4_def v6_def filter_empty_conv)

lemma protocol_names: "protocol_l4 s = Some p \<Longrightarrow> s \<noteq> ''''" "protocol_l4 s = Some p \<Longrightarrow> p = Icmp \<longleftrightarrow> s = ''icmp''"
  "protocol_l4 s = Some p \<Longrightarrow> p \<in> {Tcp, Udp, Icmp}" "protocol_l4 '''' = None"
  by (auto simp: protocol_l4_def split: if_splits)

lemma list_all_if [simp]: "list_all P (if c then [x] else []) \<longleftrightarrow> (c \<longrightarrow> P x)"
  by simp

lemma match_list_all:
  "list_all (\<lambda>m. matches m f) (match_list r) \<longleftrightarrow>
     (mr_sources r \<noteq> [] \<longrightarrow> in_nets4 (fl_src f) (v4 (mr_sources r))) \<and>
     (mr_inbounds r \<noteq> [] \<longrightarrow> fl_iif f \<in> set (mr_inbounds r)) \<and>
     (mr_inbound_nets r \<noteq> [] \<longrightarrow> in_nets4 (fl_src f) (v4 (mr_inbound_nets r))) \<and>
     (mr_addrs r \<noteq> [] \<longrightarrow> (if v6 (mr_addrs r) \<noteq> [] then in_nets6 (fl_dst f) (v6 (mr_addrs r)) else in_nets4 (fl_dst f) (v4 (mr_addrs r)))) \<and>
     (\<forall>p. protocol_l4 (mr_protocol r) = Some p \<longrightarrow> fl_l4 f = p) \<and>
     ((mr_ports r \<noteq> [] \<or> mr_source_ports r \<noteq> []) \<and> mr_protocol r = '''' \<longrightarrow> fl_l4 f = Tcp \<or> fl_l4 f = Udp) \<and>
     (mr_source_ports r \<noteq> [] \<longrightarrow> in_ports (fl_sport f) (mr_source_ports r)) \<and>
     (mr_ports r \<noteq> [] \<longrightarrow> in_ports (fl_dport f) (mr_ports r))"
proof -
  have "list_all (\<lambda>m. matches m f) (case protocol_l4 (mr_protocol r) of None \<Rightarrow> [] | Some p \<Rightarrow> [L4 p]) \<longleftrightarrow>
      (\<forall>p. protocol_l4 (mr_protocol r) = Some p \<longrightarrow> fl_l4 f = p)"
    by (auto split: option.split)
  then show ?thesis unfolding match_list_def list_all_append by simp
qed

lemma match_list_exact:
  assumes "mr_inbounds r = [] \<or> mr_inbound_nets r = []" "v4 (mr_addrs r) = [] \<or> v6 (mr_addrs r) = []"
    and "mr_protocol r = '''' \<or> (\<exists>p. protocol_l4 (mr_protocol r) = Some p)"
    and "mr_ports r \<noteq> [] \<or> mr_source_ports r \<noteq> [] \<Longrightarrow> mr_protocol r \<noteq> ''icmp''"
  shows "list_all (\<lambda>m. matches m f) (match_list r) \<longleftrightarrow> rule_matches r f"
proof -
  have way: "(mr_inbounds r \<noteq> [] \<longrightarrow> fl_iif f \<in> set (mr_inbounds r)) \<and> (mr_inbound_nets r \<noteq> [] \<longrightarrow> in_nets4 (fl_src f) (v4 (mr_inbound_nets r))) \<longleftrightarrow>
      (mr_inbounds r \<noteq> [] \<or> mr_inbound_nets r \<noteq> [] \<longrightarrow> fl_iif f \<in> set (mr_inbounds r) \<or> in_nets4 (fl_src f) (v4 (mr_inbound_nets r)))"
    using assms(1) by (auto simp: v4_def)
  have dst: "(mr_addrs r \<noteq> [] \<longrightarrow> (if v6 (mr_addrs r) \<noteq> [] then in_nets6 (fl_dst f) (v6 (mr_addrs r)) else in_nets4 (fl_dst f) (v4 (mr_addrs r)))) \<longleftrightarrow>
      (mr_addrs r \<noteq> [] \<longrightarrow> in_nets4 (fl_dst f) (v4 (mr_addrs r)) \<or> in_nets6 (fl_dst f) (v6 (mr_addrs r)))"
    using assms(2) v4_or_v6 [of "mr_addrs r"] by auto
  have ports: "(\<forall>p. protocol_l4 (mr_protocol r) = Some p \<longrightarrow> fl_l4 f = p) \<and>
      ((mr_ports r \<noteq> [] \<or> mr_source_ports r \<noteq> []) \<and> mr_protocol r = '''' \<longrightarrow> fl_l4 f = Tcp \<or> fl_l4 f = Udp) \<longleftrightarrow>
      (mr_protocol r \<noteq> '''' \<longrightarrow> protocol_l4 (mr_protocol r) = Some (fl_l4 f)) \<and>
      (mr_ports r \<noteq> [] \<or> mr_source_ports r \<noteq> [] \<longrightarrow> fl_l4 f \<in> {Tcp, Udp})"
  proof (cases "mr_protocol r = ''''")
    case True
    then show ?thesis by (auto simp: protocol_names(4))
  next
    case False
    then obtain p where p: "protocol_l4 (mr_protocol r) = Some p" using assms(3) by blast
    then show ?thesis using False assms(4) protocol_names(2,3) [OF p] by auto
  qed
  have "(B \<and> C \<longleftrightarrow> X) \<Longrightarrow> (D \<longleftrightarrow> D') \<Longrightarrow> (E \<and> F \<longleftrightarrow> Y \<and> Z) \<Longrightarrow>
      A \<and> B \<and> C \<and> D \<and> E \<and> F \<and> G \<and> H \<longleftrightarrow> A \<and> X \<and> D' \<and> Y \<and> Z \<and> G \<and> H" for A B C D D' E F G H X Y Z
    by blast
  from this [OF way dst ports] show ?thesis unfolding match_list_all rule_matches_def .
qed

lemma single_rule_exact:
  assumes "single_rule r = Inr rs" "mr_inbounds r = [] \<or> mr_inbound_nets r = []" "v4 (mr_addrs r) = [] \<or> v6 (mr_addrs r) = []"
  shows "run_chain (rs @ rest) f = (if rule_matches r f then rule_outcome r f else run_chain rest f)"
proof (cases "(mr_sources r \<noteq> [] \<and> v4 (mr_sources r) = []) \<or> (mr_inbound_nets r \<noteq> [] \<and> v4 (mr_inbound_nets r) = [])")
  case True
  then have "rs = []" using assms(1) by (auto simp: single_rule_def split: if_splits)
  moreover have "\<not> rule_matches r f"
  proof
    assume m: "rule_matches r f"
    then have s: "mr_sources r \<noteq> [] \<Longrightarrow> in_nets4 (fl_src f) (v4 (mr_sources r))"
      and n: "mr_inbound_nets r \<noteq> [] \<Longrightarrow> fl_iif f \<in> set (mr_inbounds r) \<or> in_nets4 (fl_src f) (v4 (mr_inbound_nets r))"
      unfolding rule_matches_def by blast+
    from True show False
    proof
      assume "mr_sources r \<noteq> [] \<and> v4 (mr_sources r) = []"
      then show False using s by simp
    next
      assume "mr_inbound_nets r \<noteq> [] \<and> v4 (mr_inbound_nets r) = []"
      then show False using n assms(2) by simp
    qed
  qed
  ultimately show ?thesis by simp
next
  case False
  have pick: "c1 \<or> c2 \<or> (\<not> c3 \<and> \<not> c4 \<and> \<not> c5 \<and> rs = z)"
    if "(if c1 then Inr [] else if c2 then Inr [] else if c3 then Inl BadProtocol else if c4 then Inl BadPortRange
      else if c5 then Inl IcmpPorts else Inr z) = Inr rs" for c1 c2 c3 c4 c5 z
    using that by (cases c1; cases c2; cases c3; cases c4; cases c5) simp_all
  have "\<not> (mr_protocol r \<noteq> '''' \<and> protocol_l4 (mr_protocol r) = None) \<and>
      \<not> ((mr_ports r \<noteq> [] \<or> mr_source_ports r \<noteq> []) \<and> mr_protocol r = ''icmp'') \<and> rs = [(match_list r, rule_action r)]"
    using pick [OF assms(1) [unfolded single_rule_def]] False by blast
  then have rs: "rs = [(match_list r, rule_action r)]" and p: "\<not> (mr_protocol r \<noteq> '''' \<and> protocol_l4 (mr_protocol r) = None)"
    and i: "\<not> ((mr_ports r \<noteq> [] \<or> mr_source_ports r \<noteq> []) \<and> mr_protocol r = ''icmp'')" by blast+
  have "mr_protocol r = '''' \<or> (\<exists>p. protocol_l4 (mr_protocol r) = Some p)" using p by auto
  moreover have "mr_ports r \<noteq> [] \<or> mr_source_ports r \<noteq> [] \<Longrightarrow> mr_protocol r \<noteq> ''icmp''" using i by blast
  ultimately have "list_all (\<lambda>m. matches m f) (match_list r) \<longleftrightarrow> rule_matches r f"
    by (intro match_list_exact [OF assms(2,3)])
  then show ?thesis by (simp add: rs rule_outcome_def rule_action_def)
qed

lemma both_of_Inr: "both_of a b = Inr zs \<longleftrightarrow> (\<exists>xs ys. a = Inr xs \<and> b = Inr ys \<and> zs = xs @ ys)"
  by (auto simp: both_of_def split: sum.splits)

lemma mark_rule_compiled:
  "mark_rule_rules r = Inr rs \<Longrightarrow> run_chain (rs @ rest) f = (if rule_matches r f then rule_outcome r f else run_chain rest f)"
proof (induction r arbitrary: rs rest rule: mark_rule_rules.induct)
  case (1 r)
  show ?case
  proof (cases "mr_inbounds r \<noteq> [] \<and> mr_inbound_nets r \<noteq> []")
    case True
    let ?a = "r\<lparr>mr_inbound_nets := []\<rparr>" and ?b = "r\<lparr>mr_inbounds := []\<rparr>"
    have ne: "\<not> rule_empty r" using True by (simp add: rule_empty_def)
    then obtain xs ys where xy: "mark_rule_rules ?a = Inr xs" "mark_rule_rules ?b = Inr ys" "rs = xs @ ys"
      using "1.prems" True by (subst (asm) mark_rule_rules.simps) (auto simp: both_of_Inr)
    have "run_chain (xs @ ys @ rest) f = (if rule_matches ?a f then rule_outcome ?a f else run_chain (ys @ rest) f)"
      by (rule "1.IH"(1) [OF ne True xy(1)])
    moreover have "run_chain (ys @ rest) f = (if rule_matches ?b f then rule_outcome ?b f else run_chain rest f)"
      by (rule "1.IH"(2) [OF ne True xy(2)])
    moreover have "rule_matches r f \<longleftrightarrow> rule_matches ?a f \<or> rule_matches ?b f"
      using True by (simp add: rule_matches_def v4_def [of "[]"]) blast
    moreover have "rule_outcome ?a f = rule_outcome r f" "rule_outcome ?b f = rule_outcome r f" by (simp_all add: rule_outcome_def)
    ultimately show ?thesis using xy(3) by auto
  next
    case one: False
    show ?thesis
    proof (cases "v4 (mr_addrs r) \<noteq> [] \<and> v6 (mr_addrs r) \<noteq> []")
      case True
      let ?a = "r\<lparr>mr_addrs := v4 (mr_addrs r)\<rparr>" and ?b = "r\<lparr>mr_addrs := v6 (mr_addrs r)\<rparr>"
      have ne: "\<not> rule_empty r" using True by (auto simp: rule_empty_def v4_def)
      then obtain xs ys where xy: "mark_rule_rules ?a = Inr xs" "mark_rule_rules ?b = Inr ys" "rs = xs @ ys"
        using "1.prems" True one by (subst (asm) mark_rule_rules.simps) (auto simp: both_of_Inr)
      have "run_chain (xs @ ys @ rest) f = (if rule_matches ?a f then rule_outcome ?a f else run_chain (ys @ rest) f)"
        by (rule "1.IH"(3) [OF ne one True xy(1)])
      moreover have "run_chain (ys @ rest) f = (if rule_matches ?b f then rule_outcome ?b f else run_chain rest f)"
        by (rule "1.IH"(4) [OF ne one True xy(2)])
      moreover have "rule_matches r f \<longleftrightarrow> rule_matches ?a f \<or> rule_matches ?b f"
      proof -
        have "mr_addrs r \<noteq> []" using True by (auto simp: v4_def)
        then show ?thesis using True by (simp add: rule_matches_def) blast
      qed
      moreover have "rule_outcome ?a f = rule_outcome r f" "rule_outcome ?b f = rule_outcome r f" by (simp_all add: rule_outcome_def)
      ultimately show ?thesis using xy(3) by auto
    next
      case False
      then have "single_rule r = Inr rs" using "1.prems" one by (subst (asm) mark_rule_rules.simps) (auto split: if_splits)
      then show ?thesis by (rule single_rule_exact) (use one False in auto)
    qed
  qed
qed

section \<open>The chains do what the policy means\<close>

lemma mark_rules_compiled:
  "mark_rules rs0 = Inr rs \<Longrightarrow> run_chain (rs @ rest) f =
    (case find (\<lambda>r. rule_matches r f) rs0 of Some r \<Rightarrow> rule_outcome r f | None \<Rightarrow> run_chain rest f)"
proof (induction rs0 arbitrary: rs)
  case (Cons r rs0)
  then obtain xs ys where xy: "mark_rule_rules r = Inr xs" "mark_rules rs0 = Inr ys" "rs = xs @ ys" by (auto simp: both_of_Inr)
  show ?case using mark_rule_compiled [OF xy(1), of "ys @ rest" f] Cons.IH [OF xy(2)] xy(3) by simp
qed simp

definition steer_means :: "policy \<Rightarrow> flow \<Rightarrow> outcome" where
  "steer_means p f =
     (let customers = v4 (po_customer_nets p) in
      if customers = [] \<or> is4 (fl_src f) \<and> \<not> in_nets4 (fl_src f) customers then Passes f
      else if fl_ct f AND MarkMask = MarkBase AND MarkMask then Passes (f\<lparr>fl_mark := fl_ct f\<rparr>)
      else if in_nets4 (fl_dst f) (v4 (po_direct_addrs p)) \<or> in_nets6 (fl_dst f) (v6 (po_direct_addrs p)) then Passes f
      else case find (\<lambda>r. rule_matches r f) (po_rules p) of
          Some r \<Rightarrow> rule_outcome r f
        | None \<Rightarrow> Passes (if po_default_mark p = 0 then f else f\<lparr>fl_mark := po_default_mark p, fl_ct := po_default_mark p\<rparr>))"

lemma steer_chain_exact:
  assumes "steer_chain p = Inr rs"
  shows "run_chain rs f = steer_means p f"
proof (cases "v4 (po_customer_nets p) = []")
  case True
  then show ?thesis using assms by (simp add: steer_chain_def steer_means_def)
next
  case False
  let ?d4 = "v4 (po_direct_addrs p)" and ?d6 = "v6 (po_direct_addrs p)" and ?cs = "v4 (po_customer_nets p)"
  let ?last = "if po_default_mark p \<noteq> 0 then [([], MarkOnly (po_default_mark p))] else []"
  obtain ms where ms: "mark_rules (po_rules p) = Inr ms"
    and rs: "rs = ([([NotSaddr (Named ''customers4'' ?cs)], AcceptIt), ([CtOurs], RestoreAccept)] @ (if ?d4 \<noteq> [] then [([Daddr4 (Named ''direct4'' ?d4)], AcceptIt)] else []) @
      (if ?d6 \<noteq> [] then [([Daddr6 (Named ''direct6'' ?d6)], AcceptIt)] else [])) @ (ms @ ?last)"
    using assms False by (auto simp: steer_chain_def Let_def both_of_Inr)
  have tail: "run_chain (ms @ ?last) f = (case find (\<lambda>r. rule_matches r f) (po_rules p) of Some r \<Rightarrow> rule_outcome r f
      | None \<Rightarrow> Passes (if po_default_mark p = 0 then f else f\<lparr>fl_mark := po_default_mark p, fl_ct := po_default_mark p\<rparr>))"
    using mark_rules_compiled [OF ms, of ?last f] by (simp split: option.split)
  have direct: "run_chain ((if ?d4 \<noteq> [] then [([Daddr4 (Named ''direct4'' ?d4)], AcceptIt)] else []) @ (if ?d6 \<noteq> [] then [([Daddr6 (Named ''direct6'' ?d6)], AcceptIt)] else []) @ ms @ ?last) f =
      (if in_nets4 (fl_dst f) ?d4 \<or> in_nets6 (fl_dst f) ?d6 then Passes f else run_chain (ms @ ?last) f)"
    by (cases "?d4 = []"; cases "?d6 = []") (simp_all del: run_chain.simps(1))
  show ?thesis unfolding rs append_assoc steer_means_def Let_def using False tail direct by simp
qed

definition blocked :: "policy \<Rightarrow> flow \<Rightarrow> bool" where
  "blocked p f \<longleftrightarrow>
     in_nets4 (fl_dst f) (v4 (po_block_addrs p)) \<and> (v4 (po_customer_nets p) = [] \<or> in_nets4 (fl_src f) (v4 (po_customer_nets p))) \<or>
     in_nets6 (fl_dst f) (v6 (po_block_addrs p)) \<or>
     fl_l4 f \<in> {Tcp, Udp} \<and> (po_block_bittorrent p \<and> in_ports (fl_dport f) bittorrent_ports \<or> in_ports (fl_dport f) (po_block_ports p)) \<or>
     po_drop_unmatched p \<and> in_nets4 (fl_src f) (v4 (po_customer_nets p)) \<and> fl_mark f AND MarkMask \<noteq> MarkBase AND MarkMask"

lemma run_optional: "run_chain ((if c then [(ms, DropIt)] else []) @ rs) f =
    (if c \<and> list_all (\<lambda>m. matches m f) ms then Dropped else run_chain rs f)"
  by simp

lemma run_optional_last: "run_chain (if c then [(ms, DropIt)] else []) f =
    (if c \<and> list_all (\<lambda>m. matches m f) ms then Dropped else Passes f)"
  by simp

lemma in_ports_empty [simp]: "\<not> in_ports x []"
  by (simp add: in_ports_def)

lemma block_chain_exact: "run_chain (block_chain p) f = (if blocked p f then Dropped else Passes f)"
proof -
  let ?cs = "v4 (po_customer_nets p)" and ?b4 = "v4 (po_block_addrs p)" and ?b6 = "v6 (po_block_addrs p)"
  have clamp: "run_chain (([], ClampMss) # rs) f = run_chain rs f" for rs by simp
  have four: "?b4 \<noteq> [] \<and> list_all (\<lambda>m. matches m f) ((if ?cs \<noteq> [] then [Saddr (Named ''customers4'' ?cs)] else []) @ [Daddr4 (Named ''blocked4'' ?b4)]) \<longleftrightarrow>
      in_nets4 (fl_dst f) ?b4 \<and> (?cs = [] \<or> in_nets4 (fl_src f) ?cs)" by (cases "?b4 = []") auto
  have six: "?b6 \<noteq> [] \<and> list_all (\<lambda>m. matches m f) [Daddr6 (Named ''blocked6'' ?b6)] \<longleftrightarrow> in_nets6 (fl_dst f) ?b6" by (cases "?b6 = []") auto
  have bt: "po_block_bittorrent p \<and> list_all (\<lambda>m. matches m f) [TcpUdp, Dport bittorrent_ports] \<longleftrightarrow>
      fl_l4 f \<in> {Tcp, Udp} \<and> po_block_bittorrent p \<and> in_ports (fl_dport f) bittorrent_ports" by auto
  have ports: "po_block_ports p \<noteq> [] \<and> list_all (\<lambda>m. matches m f) [TcpUdp, Dport (po_block_ports p)] \<longleftrightarrow>
      fl_l4 f \<in> {Tcp, Udp} \<and> in_ports (fl_dport f) (po_block_ports p)" by (cases "po_block_ports p = []") auto
  have down: "(po_drop_unmatched p \<and> ?cs \<noteq> []) \<and> list_all (\<lambda>m. matches m f) [Saddr (Named ''customers4'' ?cs), MarkNotOurs] \<longleftrightarrow>
      po_drop_unmatched p \<and> in_nets4 (fl_src f) ?cs \<and> fl_mark f AND MarkMask \<noteq> MarkBase AND MarkMask" by (cases "?cs = []") auto
  show ?thesis
    unfolding block_chain_def block_named_def block_p2p_def block_rest_def append_assoc Let_def append.append_Cons append.append_Nil clamp run_optional run_optional_last four six bt ports down blocked_def
    by auto
qed

section \<open>A policy as a whole\<close>

text \<open>A forwarded packet: the marking chain at prerouting, then the blocking chain.\<close>

definition forwarded :: "steer_rule list \<times> steer_rule list \<Rightarrow> flow \<Rightarrow> outcome" where
  "forwarded cs f = (case run_chain (fst cs) f of Dropped \<Rightarrow> Dropped | Passes g \<Rightarrow> run_chain (snd cs) g)"

definition chains_give :: "policy \<Rightarrow> flow \<Rightarrow> outcome" where
  "chains_give p f =
     (case steer_means p f of Dropped \<Rightarrow> Dropped | Passes g \<Rightarrow> if blocked p g then Dropped else Passes g)"

lemma built_chains:
  "build_policy p = Inr cs \<Longrightarrow> policy_validate p = None \<and> steer_chain p = Inr (fst cs) \<and> snd cs = block_chain p"
  by (auto simp: build_policy_def split: option.splits sum.splits)

lemma forwarded_means: "build_policy p = Inr cs \<Longrightarrow> forwarded cs f = chains_give p f"
  using built_chains [of p cs]
  by (auto simp: forwarded_def chains_give_def steer_chain_exact block_chain_exact split: outcome.split)

definition ours :: "u32 \<Rightarrow> bool" where
  "ours m \<longleftrightarrow> m AND MarkMask = MarkBase AND MarkMask"

lemma ours_examples: "ours 0x00a70005" "\<not> ours 0" "\<not> ours 0x1000"
  by (simp_all add: ours_def MarkMask_def MarkBase_def)

text \<open>
  What the fields of a policy are for, as policy.go and docs/panel/routing.md have it, apart from the
  chains: what is forbidden does not leave; of the rest, what is not a customer's is left alone; a
  connection keeps the exit it has; a pinned destination leaves by the server's own address whatever else
  the rules say; then the first rule all of whose criteria hold decides; what no rule claims goes to the
  default, or is dropped while the default is down, or leaves by the server's own address.
\<close>

definition customers_packet :: "policy \<Rightarrow> flow \<Rightarrow> bool" where
  "customers_packet p f \<longleftrightarrow> in_nets4 (fl_src f) (v4 (po_customer_nets p))"

definition forbidden :: "policy \<Rightarrow> flow \<Rightarrow> bool" where
  "forbidden p f \<longleftrightarrow>
     (in_nets4 (fl_dst f) (v4 (po_block_addrs p)) \<and> (v4 (po_customer_nets p) = [] \<or> customers_packet p f)) \<or>
     in_nets6 (fl_dst f) (v6 (po_block_addrs p)) \<or>
     (fl_l4 f \<in> {Tcp, Udp} \<and> (po_block_bittorrent p \<and> in_ports (fl_dport f) bittorrent_ports \<or> in_ports (fl_dport f) (po_block_ports p)))"

definition pinned :: "policy \<Rightarrow> flow \<Rightarrow> bool" where
  "pinned p f \<longleftrightarrow> in_nets4 (fl_dst f) (v4 (po_direct_addrs p)) \<or> in_nets6 (fl_dst f) (v6 (po_direct_addrs p))"

definition first_rule :: "policy \<Rightarrow> flow \<Rightarrow> mark_rule option" where
  "first_rule p f = find (\<lambda>r. rule_matches r f) (po_rules p)"

definition marked_as :: "u32 \<Rightarrow> flow \<Rightarrow> flow" where
  "marked_as m f = f\<lparr>fl_mark := m, fl_ct := m\<rparr>"

definition policy_means :: "policy \<Rightarrow> flow \<Rightarrow> outcome" where
  "policy_means p f =
     (if forbidden p f then Dropped
      else if \<not> customers_packet p f then Passes f
      else if ours (fl_ct f) then Passes (f\<lparr>fl_mark := fl_ct f\<rparr>)
      else if pinned p f then Passes f
      else case first_rule p f of
          Some r \<Rightarrow> if mr_drop r then Dropped else if mr_mark r = 0 then Passes f else Passes (marked_as (mr_mark r) f)
        | None \<Rightarrow>
            if po_default_mark p \<noteq> 0 then Passes (marked_as (po_default_mark p) f)
            else if po_drop_unmatched p then Dropped else Passes f)"

text \<open>What a policy sends by the server's own address although the default is a hop, by a pin or by a rule.\<close>

definition sent_direct :: "policy \<Rightarrow> flow \<Rightarrow> bool" where
  "sent_direct p f \<longleftrightarrow> customers_packet p f \<and> \<not> ours (fl_ct f) \<and>
     (pinned p f \<or> (\<exists>r. first_rule p f = Some r \<and> \<not> mr_drop r \<and> mr_mark r = 0))"

definition marks_ours :: "policy \<Rightarrow> bool" where
  "marks_ours p \<longleftrightarrow> (\<forall>r \<in> set (po_rules p). mr_mark r = 0 \<or> ours (mr_mark r)) \<and> (po_default_mark p = 0 \<or> ours (po_default_mark p))"

lemma blocked_split: "blocked p f \<longleftrightarrow> forbidden p f \<or> po_drop_unmatched p \<and> customers_packet p f \<and> \<not> ours (fl_mark f)"
  by (auto simp: blocked_def forbidden_def customers_packet_def ours_def)

lemma forbidden_marks [simp]:
  "forbidden p (f\<lparr>fl_mark := m\<rparr>) = forbidden p f" "forbidden p (f\<lparr>fl_ct := m\<rparr>) = forbidden p f"
  "customers_packet p (f\<lparr>fl_mark := m\<rparr>) = customers_packet p f" "customers_packet p (f\<lparr>fl_ct := m\<rparr>) = customers_packet p f"
  by (simp_all add: forbidden_def customers_packet_def)

lemma chains_give_means:
  assumes "is4 (fl_src f)" "marks_ours p" "\<not> ours (fl_mark f)" "\<not> (po_drop_unmatched p \<and> sent_direct p f)"
  shows "chains_give p f = policy_means p f"
proof (cases "customers_packet p f")
  case False
  then have "steer_means p f = Passes f" using assms(1) by (auto simp: steer_means_def customers_packet_def)
  then show ?thesis using False by (simp add: chains_give_def policy_means_def blocked_split)
next
  case True
  then have c: "v4 (po_customer_nets p) \<noteq> []" by (auto simp: customers_packet_def)
  have s: "steer_means p f =
      (if ours (fl_ct f) then Passes (f\<lparr>fl_mark := fl_ct f\<rparr>) else if pinned p f then Passes f
       else case first_rule p f of Some r \<Rightarrow> rule_outcome r f
        | None \<Rightarrow> Passes (if po_default_mark p = 0 then f else marked_as (po_default_mark p) f))"
    using c True by (simp add: steer_means_def customers_packet_def ours_def pinned_def first_rule_def marked_as_def cong: option.case_cong)
  show ?thesis
  proof (cases "ours (fl_ct f) \<or> pinned p f")
    case fixed: True
    then show ?thesis
      using True assms(4) by (auto simp: chains_give_def s policy_means_def blocked_split sent_direct_def)
  next
    case False
    show ?thesis
    proof (cases "first_rule p f")
      case None
      then show ?thesis
        using False True assms(2,3) by (auto simp: chains_give_def s policy_means_def blocked_split marks_ours_def marked_as_def)
    next
      case (Some r)
      then have "r \<in> set (po_rules p)" unfolding first_rule_def by (metis find_Some_iff nth_mem)
      then have "mr_mark r = 0 \<or> ours (mr_mark r)" using assms(2) by (simp add: marks_ours_def)
      then show ?thesis
        using Some False True assms(4)
        by (auto simp: chains_give_def s policy_means_def blocked_split rule_outcome_def marked_as_def sent_direct_def)
    qed
  qed
qed

text \<open>
  C19. What becomes of an IPv4 packet that comes without a mark of the panel's under the chains built from
  a policy, whose marks are the panel's, is what the policy means, save for one case: while the default
  exit is down, what the policy sends by the server's own address is dropped (pinned_dropped and
  direct_rule_dropped below).
\<close>

theorem policy_exact:
  assumes "build_policy p = Inr cs" "marks_ours p" "is4 (fl_src f)" "\<not> ours (fl_mark f)"
    and "\<not> (po_drop_unmatched p \<and> sent_direct p f)"
  shows "forwarded cs f = policy_means p f"
  unfolding forwarded_means [OF assms(1)] by (rule chains_give_means [OF assms(3,2,4,5)])

lemma steer_means_marked:
  assumes "steer_means p f = Passes g" "is4 (fl_src f)" "in_nets4 (fl_src f) (v4 (po_customer_nets p))"
    and "\<And>r. r \<in> set (po_rules p) \<Longrightarrow> mr_mark r = 0 \<or> ours (mr_mark r)"
    and "po_default_mark p = 0 \<or> ours (po_default_mark p)"
  shows "g = f \<or> ours (fl_mark g) \<and> fl_ct g = fl_mark g"
proof (cases "find (\<lambda>r. rule_matches r f) (po_rules p)")
  case None
  then show ?thesis using assms by (auto simp: steer_means_def Let_def ours_def split: if_splits)
next
  case (Some r)
  then have "r \<in> set (po_rules p)" by (metis find_Some_iff nth_mem)
  then have "mr_mark r = 0 \<or> ours (mr_mark r)" by (rule assms(4))
  then show ?thesis using Some assms(1,2,3,5) by (auto simp: steer_means_def Let_def ours_def rule_outcome_def split: if_splits)
qed

lemma steer_means_source: "steer_means p f = Passes g \<Longrightarrow> fl_src g = fl_src f \<and> fl_dst g = fl_dst f"
  by (auto simp: steer_means_def Let_def rule_outcome_def split: if_splits option.splits)

text \<open>
  C20. While the default exit is down, a customer's IPv4 packet of a new connection that comes without a mark
  of the panel's, and that no pin and no rule claims, is dropped: it is not sent from the server's own address.
\<close>

theorem fails_closed:
  assumes "build_policy p = Inr cs" "po_drop_unmatched p" "po_default_mark p = 0"
    and "customers_packet p f" "\<not> ours (fl_ct f)" "\<not> ours (fl_mark f)" "\<not> pinned p f" "first_rule p f = None"
  shows "forwarded cs f = Dropped"
proof -
  have "steer_means p f = Passes f"
    using assms(3-8) by (auto simp: steer_means_def Let_def customers_packet_def ours_def pinned_def first_rule_def split: if_splits)
  then show ?thesis
    unfolding forwarded_means [OF assms(1)] chains_give_def using assms(2,4,6) by (simp add: blocked_split)
qed

text \<open>C21. A connection stays on the exit it started on: once a customer's packet was marked for a hop, later
  packets of the connection carry the same mark under every policy that still knows the customer.\<close>

theorem flow_keeps_exit:
  assumes "build_policy p = Inr cs" "forwarded cs f = Passes g" "g \<noteq> f" "in_nets4 (fl_src f) (v4 (po_customer_nets p))"
    and "\<And>r. r \<in> set (po_rules p) \<Longrightarrow> mr_mark r = 0 \<or> ours (mr_mark r)" "po_default_mark p = 0 \<or> ours (po_default_mark p)"
    and "build_policy q = Inr ds" "in_nets4 (fl_src h) (v4 (po_customer_nets q))" "fl_ct h = fl_ct g"
    and "forwarded ds h = Passes k"
  shows "fl_mark k = fl_mark g \<and> ours (fl_mark g)"
proof -
  have four: "is4 (fl_src f)" using assms(4) by (simp add: in_nets4_def)
  obtain x where x: "steer_means p f = Passes x" "g = x"
    using assms(2) unfolding forwarded_means [OF assms(1)] chains_give_def by (auto split: outcome.splits if_splits)
  then have g: "ours (fl_mark g)" "fl_ct g = fl_mark g"
    using steer_means_marked [OF x(1) four assms(4,5,6)] assms(3) by auto
  have ne: "v4 (po_customer_nets q) \<noteq> []" using assms(8) by auto
  obtain y where y: "steer_means q h = Passes y" "k = y"
    using assms(10) unfolding forwarded_means [OF assms(7)] chains_give_def by (auto split: outcome.splits if_splits)
  have "y = h\<lparr>fl_mark := fl_ct h\<rparr>"
    using y(1) ne assms(8,9) g by (simp add: steer_means_def Let_def ours_def)
  then show ?thesis using y(2) assms(9) g by simp
qed

section \<open>Which policies have a program\<close>

definition rule_usable :: "mark_rule \<Rightarrow> bool" where
  "rule_usable r \<longleftrightarrow> \<not> rule_empty r \<and> (mr_protocol r = '''' \<or> protocol_l4 (mr_protocol r) \<noteq> None) \<and>
     (\<forall>p \<in> set (mr_ports r @ mr_source_ports r). range_valid p) \<and>
     (mr_protocol r = ''icmp'' \<longrightarrow> mr_ports r = [] \<and> mr_source_ports r = [])"

lemma single_rule_usable: "rule_usable r \<Longrightarrow> \<exists>rs. single_rule r = Inr rs"
  by (auto simp: rule_usable_def single_rule_def list_ex_iff)

lemma usable_parts:
  "rule_usable r \<Longrightarrow> mr_inbounds r \<noteq> [] \<Longrightarrow> rule_usable (r\<lparr>mr_inbound_nets := []\<rparr>)"
  "rule_usable r \<Longrightarrow> mr_inbound_nets r \<noteq> [] \<Longrightarrow> rule_usable (r\<lparr>mr_inbounds := []\<rparr>)"
  "rule_usable r \<Longrightarrow> ps \<noteq> [] \<Longrightarrow> rule_usable (r\<lparr>mr_addrs := ps\<rparr>)"
  by (auto simp: rule_usable_def rule_empty_def)

lemma mark_rule_usable: "rule_usable r \<Longrightarrow> \<exists>rs. mark_rule_rules r = Inr rs"
proof (induction r rule: mark_rule_rules.induct)
  case (1 r)
  have ne: "\<not> rule_empty r" using "1.prems" by (simp add: rule_usable_def)
  show ?case
  proof (cases "mr_inbounds r \<noteq> [] \<and> mr_inbound_nets r \<noteq> []")
    case True
    obtain xs ys where "mark_rule_rules (r\<lparr>mr_inbound_nets := []\<rparr>) = Inr xs" "mark_rule_rules (r\<lparr>mr_inbounds := []\<rparr>) = Inr ys"
      using "1.IH"(1,2) [OF ne True] usable_parts(1,2) [OF "1.prems"] True by blast
    then show ?thesis using ne True by (subst mark_rule_rules.simps) (simp add: both_of_def)
  next
    case one: False
    show ?thesis
    proof (cases "v4 (mr_addrs r) \<noteq> [] \<and> v6 (mr_addrs r) \<noteq> []")
      case True
      obtain xs ys where "mark_rule_rules (r\<lparr>mr_addrs := v4 (mr_addrs r)\<rparr>) = Inr xs" "mark_rule_rules (r\<lparr>mr_addrs := v6 (mr_addrs r)\<rparr>) = Inr ys"
        using "1.IH"(3,4) [OF ne one True] usable_parts(3) [OF "1.prems"] True by blast
      then show ?thesis using ne one True by (subst mark_rule_rules.simps) (auto simp add: both_of_def)
    next
      case False
      then show ?thesis using ne one single_rule_usable [OF "1.prems"] by (subst mark_rule_rules.simps) auto
    qed
  qed
qed

lemma mark_rules_usable: "list_all rule_usable rs \<Longrightarrow> \<exists>xs. mark_rules rs = Inr xs"
proof (induction rs)
  case (Cons r rs)
  then obtain xs ys where "mark_rule_rules r = Inr xs" "mark_rules rs = Inr ys" using mark_rule_usable by fastforce
  then show ?case by (simp add: both_of_def)
qed simp

text \<open>C22. A policy is refused only for a hop whose mark is another program's, a port range that is none, or a
  rule that asks for nothing, for a protocol the router does not know, or for ports of ICMP.\<close>

theorem policy_built:
  assumes "\<And>h. h \<in> set (po_hops p) \<Longrightarrow> hp_enabled h \<Longrightarrow> hp_mark h = 0 \<or> ours (hp_mark h)"
    and "list_all range_valid (po_block_ports p)" "list_all rule_usable (po_rules p)"
  shows "\<exists>cs. build_policy p = Inr cs"
proof -
  have "policy_validate p = None"
    using assms(1,2) by (auto simp: policy_validate_def ours_def list_ex_iff list_all_iff)
  moreover obtain ms where "mark_rules (po_rules p) = Inr ms" using mark_rules_usable [OF assms(3)] by blast
  ultimately show ?thesis by (auto simp: build_policy_def steer_chain_def Let_def both_of_def)
qed

section \<open>What the text of the program says, line by line\<close>

definition range_text :: "port_range \<Rightarrow> string" where
  "range_text r = (if pr_from r = pr_to r then dec (unat (pr_from r)) else dec (unat (pr_from r)) @ ''-'' @ dec (unat (pr_to r)))"

definition port_list :: "port_range list \<Rightarrow> string" where
  "port_list rs = join '', '' (sort (map range_text rs))"

definition prefix_list :: "(prefix \<Rightarrow> string) \<Rightarrow> prefix list \<Rightarrow> string" where
  "prefix_list show ps = join '', '' (sort (map show ps))"

definition quoted_list :: "string list \<Rightarrow> string" where
  "quoted_list ns = join '', '' (map quoted (sort ns))"

fun nets_text :: "(prefix \<Rightarrow> string) \<Rightarrow> nets \<Rightarrow> string" where
  "nets_text show (Listed ps) = ''{ '' @ prefix_list show ps @ '' }''"
| "nets_text show (Named n _) = ''@'' @ n"

fun l4_text :: "l4 \<Rightarrow> string" where
  "l4_text Tcp = ''tcp''"
| "l4_text Udp = ''udp''"
| "l4_text Icmp = ''icmp''"
| "l4_text OtherL4 = ''''"

definition hex_mark :: "u32 \<Rightarrow> string" where
  "hex_mark m = ''0x'' @ hex8 m"

fun match_text :: "(prefix \<Rightarrow> string) \<Rightarrow> match \<Rightarrow> string" where
  "match_text show (Saddr n) = ''ip saddr '' @ nets_text show n"
| "match_text show (NotSaddr n) = ''ip saddr != '' @ nets_text show n"
| "match_text show (Daddr4 n) = ''ip daddr '' @ nets_text show n"
| "match_text show (Daddr6 n) = ''ip6 daddr '' @ nets_text show n"
| "match_text show (Iif ns) = ''iifname { '' @ quoted_list ns @ '' }''"
| "match_text show (L4 p) = ''meta l4proto '' @ l4_text p"
| "match_text show TcpUdp = ''meta l4proto { tcp, udp }''"
| "match_text show (Sport rs) = ''th sport { '' @ port_list rs @ '' }''"
| "match_text show (Dport rs) = ''th dport { '' @ port_list rs @ '' }''"
| "match_text show CtOurs = ''ct mark and '' @ hex_mark MarkMask @ '' == '' @ hex_mark (MarkBase AND MarkMask)"
| "match_text show MarkNotOurs = ''meta mark and '' @ hex_mark MarkMask @ '' != '' @ hex_mark (MarkBase AND MarkMask)"
| "match_text show (Oif n) = ''oifname '' @ quoted n"
| "match_text show (NotUid u) = ''meta skuid != '' @ int_text u"
| "match_text show CtReply = ''ct direction reply''"
| "match_text show (Oifs ns) = ''oifname { '' @ quoted_list ns @ '' }''"
| "match_text show FibLocal = ''fib daddr type local''"
| "match_text show (PortOf p n) = l4_text p @ '' dport '' @ dec (unat n)"
| "match_text show IkeMarker = ''@th,64,32 0''"

fun action_text :: "action \<Rightarrow> string" where
  "action_text AcceptIt = ''accept''"
| "action_text DropIt = ''counter drop''"
| "action_text (MarkAccept m) = ''meta mark set '' @ hex_mark m @ '' ct mark set meta mark accept''"
| "action_text (MarkOnly m) = ''meta mark set '' @ hex_mark m @ '' ct mark set meta mark''"
| "action_text RestoreAccept = ''meta mark set ct mark accept''"
| "action_text ClampMss = ''tcp flags syn tcp option maxseg size set rt mtu''"

definition rule_line :: "(prefix \<Rightarrow> string) \<Rightarrow> steer_rule \<Rightarrow> string" where
  "rule_line show r = line (tab @ tab @ join '' '' (map (match_text show) (fst r) @ [action_text (snd r)]))"

definition write_set :: "(prefix \<Rightarrow> string) \<Rightarrow> string \<Rightarrow> string \<Rightarrow> prefix list \<Rightarrow> string" where
  "write_set show name typ es =
     line (tab @ ''set '' @ name @ '' {'') @ line (tab @ tab @ ''type '' @ typ) @ line (tab @ tab @ ''flags interval'') @
     (if es \<noteq> [] then line (tab @ tab @ ''elements = { '' @ prefix_list show es @ '' }'') else []) @ line (tab @ ''}'')"

definition steer_rules_text :: "(prefix \<Rightarrow> string) \<Rightarrow> steer_rule list \<Rightarrow> string" where
  "steer_rules_text show rs = concat (map (rule_line show) rs)"

definition steer_chain_text :: "string \<Rightarrow> string \<Rightarrow> string \<Rightarrow> string" where
  "steer_chain_text name hook body =
     [CHR 0x0A] @ line (tab @ ''chain '' @ name @ '' {'') @ line (tab @ tab @ ''type '' @ hook @ ''; policy accept;'') @ body @ line (tab @ ''}'')"

definition block_text :: "(prefix \<Rightarrow> string) \<Rightarrow> policy \<Rightarrow> string" where
  "block_text show p =
     steer_chain_text ''wui_block'' ''filter hook forward priority -10''
       (steer_rules_text show ([([], ClampMss)] @ block_named p) @
        (if po_block_bittorrent p then line (tab @ tab @ ''# peer-to-peer on its default ports; see the note in the panel'') else []) @
        steer_rules_text show (block_p2p p @ block_rest p))"

definition panel_text :: "(prefix \<Rightarrow> string) \<Rightarrow> policy \<Rightarrow> string" where
  "panel_text show p =
     (if po_panel_mark p = 0 \<or> po_panel_uid p < 0 then []
      else write_set show ''panel_direct4'' ''ipv4_addr'' (v4 (po_panel_exclude p)) @
        write_set show ''panel_direct6'' ''ipv6_addr'' (v6 (po_panel_exclude p)) @
        steer_chain_text ''wui_panel'' ''route hook output priority -150'' (steer_rules_text show (panel_chain p)))"

definition steer_counter_name :: "u32 \<Rightarrow> string" where
  "steer_counter_name m = ''ob_'' @ hex8 m"

definition counted_hops :: "policy \<Rightarrow> hop list" where
  "counted_hops p = filter (\<lambda>h. hp_enabled h \<and> hp_mark h \<noteq> 0) (sort_key hp_mark (po_hops p))"

definition counters_text :: "policy \<Rightarrow> string" where
  "counters_text p =
     (if po_no_counters p \<or> counted_hops p = [] then []
      else [CHR 0x0A] @ concat (map (\<lambda>h. line (tab @ ''counter '' @ steer_counter_name (hp_mark h) @ '' { }'')) (counted_hops p)) @
        steer_chain_text ''wui_account'' ''filter hook forward priority -9''
          (concat (map (\<lambda>h. line (tab @ tab @ ''meta mark '' @ hex_mark (hp_mark h) @ '' counter name '' @ quoted (steer_counter_name (hp_mark h)))) (counted_hops p))))"

definition policy_ruleset :: "(prefix \<Rightarrow> string) \<Rightarrow> policy \<Rightarrow> policy_error + string" where
  "policy_ruleset show p =
     (case build_policy p of
        Inl e \<Rightarrow> Inl e
      | Inr (steer, block) \<Rightarrow> Inr (
          line ''add table inet wui_policy'' @ line ''delete table inet wui_policy'' @ line ''table inet wui_policy {'' @
          write_set show ''blocked4'' ''ipv4_addr'' (v4 (po_block_addrs p)) @ write_set show ''blocked6'' ''ipv6_addr'' (v6 (po_block_addrs p)) @
          write_set show ''direct4'' ''ipv4_addr'' (v4 (po_direct_addrs p)) @ write_set show ''direct6'' ''ipv6_addr'' (v6 (po_direct_addrs p)) @
          write_set show ''customers4'' ''ipv4_addr'' (v4 (po_customer_nets p)) @
          block_text show p @
          steer_chain_text ''wui_steer'' ''filter hook prerouting priority -150'' (steer_rules_text show steer) @
          (if v4 (po_customer_nets p) = [] then [] else panel_text show p) @ counters_text p @ line ''}''))"

text \<open>The panel's own new connections, but for those to the ends of the hops.\<close>

definition panel_marked :: "policy \<Rightarrow> flow \<Rightarrow> bool" where
  "panel_marked p f \<longleftrightarrow> fl_oif f \<noteq> ''lo'' \<and> fl_uid f = po_panel_uid p \<and> \<not> fl_reply f \<and>
     \<not> in_nets4 (fl_dst f) (v4 (po_panel_exclude p)) \<and> \<not> in_nets6 (fl_dst f) (v6 (po_panel_exclude p))"

text \<open>Of what leaves the server itself only the panel's own connections are marked, never an answer to a
  connection made to it nor what goes to the end of a hop, and a marked connection keeps its mark.\<close>

lemma panel_exact:
  "run_chain (panel_chain p) f =
     Passes (if \<not> panel_marked p f then f
       else if ours (fl_ct f) then f\<lparr>fl_mark := fl_ct f\<rparr> else f\<lparr>fl_mark := po_panel_mark p, fl_ct := po_panel_mark p\<rparr>)"
proof -
  let ?d4 = "v4 (po_panel_exclude p)" and ?d6 = "v6 (po_panel_exclude p)"
  have "run_chain ((if ?d4 \<noteq> [] then [([Daddr4 (Named ''panel_direct4'' ?d4)], AcceptIt)] else []) @
      (if ?d6 \<noteq> [] then [([Daddr6 (Named ''panel_direct6'' ?d6)], AcceptIt)] else []) @ rest) f =
      (if in_nets4 (fl_dst f) ?d4 \<or> in_nets6 (fl_dst f) ?d6 then Passes f else run_chain rest f)" for rest
    by (cases "?d4 = []"; cases "?d6 = []") simp_all
  then show ?thesis by (simp add: panel_chain_def panel_marked_def ours_def Let_def)
qed

section \<open>Three things the comments do not say\<close>

text \<open>
  ip saddr != @customers4 asks for IPv4 first, so it lets nothing of IPv6 go: an IPv6 packet of anything
  else on the machine gets the default mark.
\<close>

lemma others_ipv6_marked:
  assumes "steer_chain p = Inr rs" "v4 (po_customer_nets p) \<noteq> []" "po_rules p = []" "po_direct_addrs p = []" "po_default_mark p \<noteq> 0"
    and "fl_src f = V6 a" "\<not> ours (fl_ct f)"
  shows "run_chain rs f = Passes (f\<lparr>fl_mark := po_default_mark p, fl_ct := po_default_mark p\<rparr>)"
  using assms by (simp add: steer_chain_exact steer_means_def ours_def v4_def [of "[]"] v6_def [of "[]"])

text \<open>A destination pinned to the server's own address is dropped with the rest while the default exit is down.\<close>

lemma pinned_dropped:
  assumes "build_policy p = Inr cs" "po_drop_unmatched p" "in_nets4 (fl_src f) (v4 (po_customer_nets p))"
    and "in_nets4 (fl_dst f) (v4 (po_direct_addrs p))" "\<not> ours (fl_mark f)" "\<not> ours (fl_ct f)"
  shows "forwarded cs f = Dropped"
proof -
  have "v4 (po_customer_nets p) \<noteq> []" "is4 (fl_src f)" using assms(3) by (auto simp: in_nets4_def)
  then have "steer_means p f = Passes f" using assms(3,4,6) by (simp add: steer_means_def Let_def ours_def)
  then show ?thesis
    unfolding forwarded_means [OF assms(1)] chains_give_def using assms(2,3,5) by (simp add: blocked_def ours_def)
qed

text \<open>And so is what a rule sends there, though a rule has claimed it.\<close>

lemma direct_rule_dropped:
  assumes "build_policy p = Inr cs" "po_drop_unmatched p" "customers_packet p f"
    and "first_rule p f = Some r" "\<not> mr_drop r" "mr_mark r = 0" "\<not> ours (fl_mark f)" "\<not> ours (fl_ct f)"
  shows "forwarded cs f = Dropped"
proof -
  have "v4 (po_customer_nets p) \<noteq> []" using assms(3) by (auto simp: customers_packet_def)
  then have "steer_means p f = Passes f"
    using assms(3-8) by (auto simp: steer_means_def Let_def ours_def customers_packet_def first_rule_def rule_outcome_def)
  then show ?thesis
    unfolding forwarded_means [OF assms(1)] chains_give_def using assms(2,3,7) by (simp add: blocked_split)
qed

text \<open>
  A rule for customers or for a tunnel's subnet whose destinations are IPv6 is written with ip saddr and
  ip6 daddr in one rule. No packet is of both families, and nft refuses such a rule.
\<close>

lemma both_families_in_one_rule:
  assumes "mr_sources r \<noteq> []" "v6 (mr_addrs r) \<noteq> []"
  shows "Saddr (Listed (v4 (mr_sources r))) \<in> set (match_list r) \<and> Daddr6 (Listed (v6 (mr_addrs r))) \<in> set (match_list r)"
proof -
  have "mr_addrs r \<noteq> []" using assms(2) by (auto simp: v6_def)
  then show ?thesis using assms by (simp add: match_list_def)
qed

section \<open>A policy and its packets\<close>

definition one_net :: "u32 \<Rightarrow> int \<Rightarrow> prefix list" where
  "one_net a b = [\<lparr>p_addr = V4 a, p_bits = b\<rparr>]"

definition web_rule :: mark_rule where
  "web_rule = \<lparr>mr_mark = 0x00a70005, mr_drop = False, mr_addrs = [], mr_ports = [\<lparr>pr_from = 443, pr_to = 443\<rparr>], mr_protocol = ''tcp'',
     mr_sources = [], mr_source_ports = [], mr_inbounds = [], mr_inbound_nets = []\<rparr>"

definition web_policy :: policy where
  "web_policy = \<lparr>po_block_addrs = one_net 0x0A000000 8, po_direct_addrs = [], po_block_bittorrent = True, po_block_ports = [\<lparr>pr_from = 25, pr_to = 25\<rparr>],
     po_default_mark = 0, po_drop_unmatched = True, po_rules = [web_rule], po_panel_mark = 0, po_panel_uid = 0, po_panel_exclude = [],
     po_no_counters = False, po_hops = [\<lparr>hp_tag = ''x'', hp_mark = 0x00a70005, hp_table = 47005, hp_device = ''wg1'', hp_nexthops = [], hp_enabled = True\<rparr>],
     po_customer_nets = one_net 0x0A630000 24, po_tunnel_devices = [''wg0''], po_redirects = []\<rparr>"

definition web_flow :: "u16 \<Rightarrow> flow" where
  "web_flow p = \<lparr>fl_src = V4 0x0A630002, fl_dst = V4 0x01010101, fl_l4 = Tcp, fl_sport = 40000, fl_dport = p, fl_iif = ''wg0'', fl_oif = '''',
     fl_uid = -1, fl_reply = False, fl_mark = 0, fl_ct = 0,
     fl_local = False, fl_ike_marker = False\<rparr>"

definition web_chains :: "steer_rule list \<times> steer_rule list" where
  "web_chains = (case build_policy web_policy of Inr cs \<Rightarrow> cs | Inl _ \<Rightarrow> ([], []))"

lemma web_built: "build_policy web_policy = Inr web_chains"
  by code_simp

lemma web_forwarded: "forwarded web_chains (web_flow 443) = Passes ((web_flow 443)\<lparr>fl_mark := 0x00a70005, fl_ct := 0x00a70005\<rparr>)"
  by code_simp

lemma web_customer: "in_nets4 (fl_src (web_flow p)) (v4 (po_customer_nets web_policy))"
  by code_simp

theorem policy_exact_witness: "forwarded web_chains (web_flow 443) = policy_means web_policy (web_flow 443) \<and>
  policy_means web_policy (web_flow 443) = Passes (marked_as 0x00a70005 (web_flow 443))"
proof
  show "forwarded web_chains (web_flow 443) = policy_means web_policy (web_flow 443)"
  proof (rule policy_exact [OF web_built])
    have "first_rule web_policy (web_flow 443) = Some web_rule" "\<not> pinned web_policy (web_flow 443)" "mr_mark web_rule \<noteq> 0" by code_simp+
    then show "\<not> (po_drop_unmatched web_policy \<and> sent_direct web_policy (web_flow 443))" by (simp add: sent_direct_def)
  qed code_simp+
  show "policy_means web_policy (web_flow 443) = Passes (marked_as 0x00a70005 (web_flow 443))" by code_simp
qed

theorem fails_closed_witness: "forwarded web_chains (web_flow 80) = Dropped"
  by (rule fails_closed [OF web_built]) code_simp+

lemma web_rules_ours: "r \<in> set (po_rules web_policy) \<Longrightarrow> mr_mark r = 0 \<or> ours (mr_mark r)"
  by (simp add: web_policy_def web_rule_def ours_examples)

lemma web_default: "po_default_mark web_policy = 0 \<or> ours (po_default_mark web_policy)"
  by (simp add: web_policy_def)

text \<open>The rule is gone; the connection's next packet still leaves by the hop.\<close>

theorem flow_keeps_exit_witness:
  "\<exists>ds k. build_policy (web_policy\<lparr>po_rules := []\<rparr>) = Inr ds \<and> forwarded ds ((web_flow 443)\<lparr>fl_ct := 0x00a70005\<rparr>) = Passes k \<and>
     fl_mark k = 0x00a70005 \<and> ours (fl_mark k)"
proof -
  let ?q = "web_policy\<lparr>po_rules := []\<rparr>" and ?h = "(web_flow 443)\<lparr>fl_ct := 0x00a70005\<rparr>"
  define ds where "ds = (case build_policy ?q of Inr cs \<Rightarrow> cs | Inl _ \<Rightarrow> ([], []))"
  define k where "k = (case forwarded ds ?h of Passes k \<Rightarrow> k | Dropped \<Rightarrow> ?h)"
  have b: "build_policy ?q = Inr ds" unfolding ds_def by code_simp
  have f: "forwarded ds ?h = Passes k" unfolding k_def ds_def by code_simp
  have "in_nets4 (fl_src ?h) (v4 (po_customer_nets ?q))" by code_simp
  from flow_keeps_exit [OF web_built web_forwarded _ web_customer web_rules_ours web_default b this _ f]
  have "fl_mark k = 0x00a70005 \<and> ours (0x00a70005)" by (simp add: web_flow_def)
  with b f show ?thesis by auto
qed

theorem policy_built_witness: "\<exists>cs. build_policy (web_policy\<lparr>po_hops := [], po_drop_unmatched := False\<rparr>) = Inr cs"
proof (rule policy_built)
  show "list_all range_valid (po_block_ports (web_policy\<lparr>po_hops := [], po_drop_unmatched := False\<rparr>))" by code_simp
  show "list_all rule_usable (po_rules (web_policy\<lparr>po_hops := [], po_drop_unmatched := False\<rparr>))" by code_simp
qed simp

end
