(* ===== verification/Masq.thy ===== *)
theory Masq imports Steer "HOL-Library.Product_Lexorder" begin

text \<open>
  The table wui_nat (internal/routing/nat.go): the source of what leaves a tunnel is rewritten to the
  server's, and a tunnel's own port is sent to the port its daemon holds.
\<close>

section \<open>The chains\<close>

datatype nat_action = Leave | Masquerade | RedirectTo u16

type_synonym nat_rule = "match list \<times> nat_action"

fun run_nat :: "nat_rule list \<Rightarrow> flow \<Rightarrow> nat_action" where
  "run_nat [] f = Leave"
| "run_nat ((ms, act) # rs) f = (if list_all (\<lambda>m. matches m f) ms then act else run_nat rs f)"

definition only_v4 :: "(prefix \<Rightarrow> string) \<Rightarrow> prefix list \<Rightarrow> prefix list" where
  "only_v4 show ps = sort_key show (filter (\<lambda>p. is4 (p_addr p)) ps)"

definition sort_redirects :: "port_redirect list \<Rightarrow> port_redirect list" where
  "sort_redirects rs = sort_key (\<lambda>r. (rd_proto r, rd_from r, \<not> rd_marked r)) rs"

definition redirect_proto :: "string \<Rightarrow> l4" where
  "redirect_proto s = (if s = ''tcp'' then Tcp else if s = ''udp'' then Udp else OtherL4)"

definition redirect_rule :: "prefix list \<Rightarrow> bool \<Rightarrow> port_redirect \<Rightarrow> nat_rule list" where
  "redirect_rule v4s fib r =
     (if rd_proto r \<noteq> ''tcp'' \<and> rd_proto r \<noteq> ''udp'' \<or> rd_from r = 0 \<or> rd_to r = 0 \<or> rd_from r = rd_to r then []
      else if \<not> fib \<and> v4s = [] then []
      else if rd_marked r \<and> rd_proto r \<noteq> ''udp'' then []
      else [([if fib then FibLocal else NotSaddr (Listed v4s), PortOf (redirect_proto (rd_proto r)) (rd_from r)] @
             (if rd_marked r then [IkeMarker] else []), RedirectTo (rd_to r))])"

definition redirect_rules :: "prefix list \<Rightarrow> bool \<Rightarrow> port_redirect list \<Rightarrow> nat_rule list" where
  "redirect_rules v4s fib rs = concat (map (redirect_rule v4s fib) (sort_redirects rs))"

definition masquerade_rules :: "prefix list \<Rightarrow> string list \<Rightarrow> nat_rule list" where
  "masquerade_rules v4s tunnels =
     (if v4s = [] then []
      else (if tunnels \<noteq> [] then [([Oifs tunnels], Leave)] else []) @
        [([Daddr4 (Listed v4s)], Leave), ([Saddr (Listed v4s)], Masquerade)])"

section \<open>The program\<close>

fun nat_action_text :: "nat_action \<Rightarrow> string" where
  "nat_action_text Leave = ''return''"
| "nat_action_text Masquerade = ''counter masquerade''"
| "nat_action_text (RedirectTo p) = ''counter redirect to :'' @ dec (unat p)"

definition nat_line :: "(prefix \<Rightarrow> string) \<Rightarrow> nat_rule \<Rightarrow> string" where
  "nat_line show r = line (tab @ tab @ join '' '' (map (match_text show) (fst r) @ [nat_action_text (snd r)]))"

definition write_redirects :: "(prefix \<Rightarrow> string) \<Rightarrow> port_redirect list \<Rightarrow> prefix list \<Rightarrow> bool \<Rightarrow> string" where
  "write_redirects show rs v4s fib =
     (if rs = [] then []
      else line (tab @ ''chain prerouting {'') @ line (tab @ tab @ ''type nat hook prerouting priority dstnat; policy accept;'') @
        concat (map (nat_line show) (redirect_rules v4s fib rs)) @ line (tab @ ''}''))"

definition build_nat :: "(prefix \<Rightarrow> string) \<Rightarrow> bool \<Rightarrow> policy \<Rightarrow> string" where
  "build_nat show fib p =
     (let v4s = only_v4 show (po_customer_nets p) in
      line ''add table ip wui_nat'' @ line ''delete table ip wui_nat'' @ line ''table ip wui_nat {'' @
      write_redirects show (po_redirects p) v4s fib @
      line (tab @ ''chain postrouting {'') @ line (tab @ tab @ ''type nat hook postrouting priority srcnat; policy accept;'') @
      concat (map (nat_line show) (masquerade_rules v4s (po_tunnel_devices p))) @
      line (tab @ ''}'') @ line ''}'')"

section \<open>What is rewritten\<close>

lemma only_v4_nets: "in_nets4 a (only_v4 show ps) \<longleftrightarrow> is4 a \<and> (\<exists>p \<in> set ps. is4 (p_addr p) \<and> contains p a)"
  by (auto simp: in_nets4_def only_v4_def list_ex_iff)

text \<open>The source of a packet is rewritten exactly when it comes from a tunnel's subnet and goes neither to a
  tunnel's device nor to an address of one.\<close>

lemma masquerade_exact:
  "run_nat (masquerade_rules (only_v4 show nets) tunnels) f =
     (if in_nets4 (fl_src f) (only_v4 show nets) \<and> \<not> in_nets4 (fl_dst f) (only_v4 show nets) \<and> fl_oif f \<notin> set tunnels
      then Masquerade else Leave)"
  by (cases "only_v4 show nets = []"; cases "tunnels = []") (simp_all add: masquerade_rules_def)

definition redirect_usable :: "port_redirect \<Rightarrow> bool" where
  "redirect_usable r \<longleftrightarrow> (rd_proto r = ''tcp'' \<or> rd_proto r = ''udp'') \<and> rd_from r \<noteq> 0 \<and> rd_to r \<noteq> 0 \<and> rd_from r \<noteq> rd_to r \<and>
     (rd_marked r \<longrightarrow> rd_proto r = ''udp'')"

definition redirect_takes :: "port_redirect \<Rightarrow> flow \<Rightarrow> bool" where
  "redirect_takes r f \<longleftrightarrow> redirect_usable r \<and> fl_l4 f = redirect_proto (rd_proto r) \<and> fl_dport f = rd_from r \<and>
     (rd_marked r \<longrightarrow> fl_ike_marker f)"

definition for_server :: "prefix list \<Rightarrow> bool \<Rightarrow> flow \<Rightarrow> bool" where
  "for_server v4s fib f \<longleftrightarrow> (if fib then fl_local f else v4s \<noteq> [] \<and> is4 (fl_src f) \<and> \<not> in_nets4 (fl_src f) v4s)"

lemma redirect_rule_run:
  "run_nat (redirect_rule v4s fib r @ rest) f =
     (if for_server v4s fib f \<and> redirect_takes r f then RedirectTo (rd_to r) else run_nat rest f)"
proof -
  have pick: "run_nat ((if c1 then [] else if c2 then [] else if c3 then [] else [(ms, RedirectTo t)]) @ rest) f =
      (if \<not> c1 \<and> \<not> c2 \<and> \<not> c3 \<and> list_all (\<lambda>m. matches m f) ms then RedirectTo t else run_nat rest f)" for c1 c2 c3 ms t
    by simp
  show ?thesis unfolding redirect_rule_def pick
    by (intro if_cong refl) (auto simp: for_server_def redirect_takes_def redirect_usable_def)
qed

lemma redirects_run:
  "run_nat (concat (map (redirect_rule v4s fib) rs)) f =
     (case find (\<lambda>r. for_server v4s fib f \<and> redirect_takes r f) rs of Some r \<Rightarrow> RedirectTo (rd_to r) | None \<Rightarrow> Leave)"
  by (induction rs) (simp_all add: redirect_rule_run)

lemma redirect_proto_inj:
  "redirect_takes r f \<Longrightarrow> redirect_takes q f \<Longrightarrow> rd_proto q = rd_proto r \<and> rd_from q = rd_from r"
  by (auto simp: redirect_takes_def redirect_usable_def redirect_proto_def split: if_splits)

lemma sorted_before:
  assumes "sorted (map k xs)" "i < length xs" "j < length xs" "k (xs ! j) < k (xs ! i)"
  shows "j < i"
proof (rule ccontr)
  assume "\<not> j < i"
  then have "map k xs ! i \<le> map k xs ! j" using assms(1,3) by (intro sorted_nth_mono) auto
  then show False using assms(2-4) by simp
qed

text \<open>C23. What arrives for a tunnel's own port goes to its daemon's port, and the flows that open with the marker
  of IKE behind NAT to theirs, in whatever order the tunnels come; nothing else is redirected.\<close>

theorem redirect_exact:
  fixes v4s fib rs f
  defines "result \<equiv> run_nat (redirect_rules v4s fib rs) f"
  shows "if for_server v4s fib f \<and> (\<exists>r \<in> set rs. redirect_takes r f)
    then (\<exists>r \<in> set rs. redirect_takes r f \<and> result = RedirectTo (rd_to r) \<and>
      (rd_marked r \<longleftrightarrow> (\<exists>q \<in> set rs. redirect_takes q f \<and> rd_marked q)))
    else result = Leave"
proof (cases "find (\<lambda>r. for_server v4s fib f \<and> redirect_takes r f) (sort_redirects rs)")
  case None
  then have "result = Leave" by (simp add: result_def redirect_rules_def redirects_run)
  moreover have "\<not> (for_server v4s fib f \<and> (\<exists>r \<in> set rs. redirect_takes r f))"
    using None by (auto simp: find_None_iff sort_redirects_def)
  ultimately show ?thesis by simp
next
  case (Some r)
  let ?ss = "sort_redirects rs" and ?key = "\<lambda>r. (rd_proto r, rd_from r, \<not> rd_marked r)"
  obtain i where i: "i < length ?ss" "r = ?ss ! i" "for_server v4s fib f \<and> redirect_takes r f"
    and first: "\<forall>j < i. \<not> (for_server v4s fib f \<and> redirect_takes (?ss ! j) f)"
    using Some by (auto simp: find_Some_iff)
  have r: "r \<in> set rs" using i(1,2) nth_mem [OF i(1)] by (simp add: sort_redirects_def)
  have "rd_marked r" if q: "q \<in> set rs" "redirect_takes q f" "rd_marked q" for q
  proof (rule ccontr)
    assume um: "\<not> rd_marked r"
    have "q \<in> set ?ss" using q(1) by (simp add: sort_redirects_def)
    then obtain j where j: "j < length ?ss" "?ss ! j = q" by (auto simp: in_set_conv_nth)
    have "?key q < ?key r" using redirect_proto_inj [of r f q] i(3) q(2,3) um by simp
    then have "?key (?ss ! j) < ?key (?ss ! i)" unfolding j(2) i(2) [symmetric] .
    moreover have "sorted (map ?key ?ss)" by (simp add: sort_redirects_def)
    ultimately have "j < i" by (intro sorted_before [OF _ i(1) j(1)])
    then show False using first i(3) q(2) j(2) by blast
  qed
  then have "rd_marked r \<longleftrightarrow> (\<exists>q \<in> set rs. redirect_takes q f \<and> rd_marked q)" using r i(3) by blast
  moreover have "result = RedirectTo (rd_to r)" using Some by (simp add: result_def redirect_rules_def redirects_run)
  ultimately have "\<exists>r \<in> set rs. redirect_takes r f \<and> result = RedirectTo (rd_to r) \<and>
      (rd_marked r \<longleftrightarrow> (\<exists>q \<in> set rs. redirect_takes q f \<and> rd_marked q))" using r i(3) by blast
  moreover have "for_server v4s fib f \<and> (\<exists>r \<in> set rs. redirect_takes r f)" using r i(3) by blast
  ultimately show ?thesis by (subst if_P)
qed

text \<open>Two tunnels on one port: IKE behind NAT goes to 4500, plain IKE to 500.\<close>

definition ike_redirects :: "port_redirect list" where
  "ike_redirects = [\<lparr>rd_proto = ''udp'', rd_from = 600, rd_to = 500, rd_marked = False\<rparr>, \<lparr>rd_proto = ''udp'', rd_from = 600, rd_to = 4500, rd_marked = True\<rparr>]"

definition ike_flow :: "bool \<Rightarrow> flow" where
  "ike_flow m = (web_flow 600)\<lparr>fl_l4 := Udp, fl_local := True, fl_ike_marker := m\<rparr>"

lemma ike_split:
  "run_nat (redirect_rules [] True ike_redirects) (ike_flow True) = RedirectTo 4500"
  "run_nat (redirect_rules [] True ike_redirects) (ike_flow False) = RedirectTo 500"
  by code_simp+

end
