(* ===== verification/Plan.thy ===== *)
theory Plan imports Masq Keys "HOL-Library.AList" begin

text \<open>
  Marks and routing tables of the ways out (internal/routing/plan.go) and the applier that puts a policy
  into the kernel (applier_linux.go, internal/nftstate), as one system of the applier's memory and the
  part of the kernel it writes: the rules and tables of ip, and two nftables tables.
\<close>

section \<open>Marks and tables\<close>

definition TableBase :: int where "TableBase = 47000"

definition allocate_mark :: "u64 \<Rightarrow> (u32 \<times> int) option" where
  "allocate_mark i = (if i = 0 \<or> i > 0xFFF0 then None else Some (MarkBase OR ucast i, TableBase + uint i))"

definition owns_mark :: "u32 \<Rightarrow> bool" where
  "owns_mark m \<longleftrightarrow> m AND MarkMask = MarkBase AND MarkMask \<and> m AND NOT MarkMask \<noteq> 0"

definition owns_table :: "int \<Rightarrow> bool" where
  "owns_table t \<longleftrightarrow> t > TableBase \<and> t \<le> TableBase + 0xFFF0"

definition rule_priority :: "u32 \<Rightarrow> int" where
  "rule_priority m = 20000 + uint (m AND NOT MarkMask)"

text \<open>A balancer's id among those of the outbounds (internal/egress/routing.go).\<close>

definition balancer_mark_id :: "u64 \<Rightarrow> u64" where
  "balancer_mark_id i = 0x8000 + i"

section \<open>The plan\<close>

datatype ip_cmd =
    RuleDel u32 int | RouteFlush int | RouteFloor int
  | RouteDev int string | RouteNexthops int "string list" | RuleAdd u32 int int

fun ip_args :: "ip_cmd \<Rightarrow> string list" where
  "ip_args (RuleDel m t) = [''rule'', ''del'', ''fwmark'', hex_mark m, ''table'', int_text t]"
| "ip_args (RouteFlush t) = [''route'', ''flush'', ''table'', int_text t]"
| "ip_args (RouteFloor t) = [''route'', ''replace'', ''unreachable'', ''default'', ''metric'', ''4294967295'', ''table'', int_text t]"
| "ip_args (RouteDev t d) = [''route'', ''replace'', ''default'', ''table'', int_text t, ''dev'', d]"
| "ip_args (RouteNexthops t ds) =
     [''route'', ''replace'', ''default'', ''table'', int_text t] @ concat (map (\<lambda>d. [''nexthop'', ''dev'', d, ''weight'', ''1'']) ds)"
| "ip_args (RuleAdd m t p) = [''rule'', ''add'', ''fwmark'', hex_mark m, ''table'', int_text t, ''priority'', int_text p]"

record statement =
  st_cmd :: ip_cmd
  st_tolerant :: bool

definition strict :: "ip_cmd \<Rightarrow> statement" where
  "strict c = \<lparr>st_cmd = c, st_tolerant = False\<rparr>"

definition hop_owned :: "hop \<Rightarrow> bool" where
  "hop_owned h \<longleftrightarrow> hp_mark h \<noteq> 0 \<and> owns_mark (hp_mark h) \<and> owns_table (hp_table h)"

definition hop_leads :: "hop \<Rightarrow> bool" where
  "hop_leads h \<longleftrightarrow> hp_enabled h \<and> (hp_device h \<noteq> '''' \<or> hp_nexthops h \<noteq> [])"

definition hop_removes :: "hop \<Rightarrow> ip_cmd list" where
  "hop_removes h =
     (if \<not> hop_owned h then []
      else RuleDel (hp_mark h) (hp_table h) # (if hop_leads h then [] else [RouteFlush (hp_table h)]))"

definition hop_route :: "hop \<Rightarrow> ip_cmd" where
  "hop_route h = (if hp_nexthops h \<noteq> [] then RouteNexthops (hp_table h) (hp_nexthops h) else RouteDev (hp_table h) (hp_device h))"

definition hop_adds :: "hop \<Rightarrow> statement list" where
  "hop_adds h =
     (if \<not> hop_owned h \<or> \<not> hop_leads h then []
      else [strict (RouteFloor (hp_table h)), \<lparr>st_cmd = hop_route h, st_tolerant = True\<rparr>,
        strict (RuleAdd (hp_mark h) (hp_table h) (rule_priority (hp_mark h)))])"

definition build_plan :: "hop list \<Rightarrow> ip_cmd list \<times> statement list" where
  "build_plan hops =
     (let sorted = sort_key hp_mark hops in (concat (map hop_removes sorted), concat (map hop_adds sorted)))"

section \<open>The kernel's rules and tables\<close>

text \<open>
  Rules are asked in the order of their priority, those of one priority in the order they came. A table
  holds at most one default route and, below it, the floor that refuses. The kernel takes a route only
  through devices that are up, and drops every route that names a device which goes.
\<close>

record ip_rule =
  ru_prio :: int
  ru_mark :: "u32 option"
  ru_table :: int

record router_kernel =
  rk_rules :: "ip_rule list"
  rk_floor :: "int \<Rightarrow> bool"
  rk_via :: "int \<Rightarrow> string list"
  rk_devs :: "string list"
  rk_policy :: "string option"
  rk_nat :: "string option"

datatype verdict = Leaves "string list" | Refused | NoRoute

definition table_verdict :: "router_kernel \<Rightarrow> int \<Rightarrow> verdict" where
  "table_verdict k t = (if rk_via k t \<noteq> [] then Leaves (rk_via k t) else if rk_floor k t then Refused else NoRoute)"

definition rule_for :: "u32 \<Rightarrow> ip_rule \<Rightarrow> bool" where
  "rule_for m r \<longleftrightarrow> ru_mark r = None \<or> ru_mark r = Some m"

fun look_up :: "router_kernel \<Rightarrow> ip_rule list \<Rightarrow> u32 \<Rightarrow> verdict" where
  "look_up k [] m = NoRoute"
| "look_up k (r # rs) m = (if rule_for m r \<and> table_verdict k (ru_table r) \<noteq> NoRoute then table_verdict k (ru_table r) else look_up k rs m)"

definition route_of :: "router_kernel \<Rightarrow> u32 \<Rightarrow> verdict" where
  "route_of k m = look_up k (rk_rules k) m"

definition rule_is :: "u32 \<Rightarrow> int \<Rightarrow> ip_rule \<Rightarrow> bool" where
  "rule_is m t r \<longleftrightarrow> ru_mark r = Some m \<and> ru_table r = t"

fun drop_rule :: "u32 \<Rightarrow> int \<Rightarrow> ip_rule list \<Rightarrow> ip_rule list" where
  "drop_rule m t [] = []"
| "drop_rule m t (r # rs) = (if rule_is m t r then rs else r # drop_rule m t rs)"

fun put_rule :: "ip_rule \<Rightarrow> ip_rule list \<Rightarrow> ip_rule list" where
  "put_rule r [] = [r]"
| "put_rule r (x # xs) = (if ru_prio x \<le> ru_prio r then x # put_rule r xs else r # x # xs)"

definition set_via :: "int \<Rightarrow> string list \<Rightarrow> router_kernel \<Rightarrow> router_kernel" where
  "set_via t ds k = k\<lparr>rk_via := (rk_via k)(t := ds)\<rparr>"

fun exec_ip :: "ip_cmd \<Rightarrow> router_kernel \<Rightarrow> router_kernel option" where
  "exec_ip (RuleDel m t) k = (if list_ex (rule_is m t) (rk_rules k) then Some (k\<lparr>rk_rules := drop_rule m t (rk_rules k)\<rparr>) else None)"
| "exec_ip (RouteFlush t) k = Some (set_via t [] (k\<lparr>rk_floor := (rk_floor k)(t := False)\<rparr>))"
| "exec_ip (RouteFloor t) k = Some (k\<lparr>rk_floor := (rk_floor k)(t := True)\<rparr>)"
| "exec_ip (RouteDev t d) k = (if d \<in> set (rk_devs k) then Some (set_via t [d] k) else None)"
| "exec_ip (RouteNexthops t ds) k = (if set ds \<subseteq> set (rk_devs k) then Some (set_via t ds k) else None)"
| "exec_ip (RuleAdd m t p) k =
     (let r = \<lparr>ru_prio = p, ru_mark = Some m, ru_table = t\<rparr> in
      if r \<in> set (rk_rules k) then None else Some (k\<lparr>rk_rules := put_rule r (rk_rules k)\<rparr>))"

text \<open>What ip rule show prints, a table by its name where it has one, and RuleMarks reading it.\<close>

definition rule_text :: "(int \<Rightarrow> string) \<Rightarrow> ip_rule \<Rightarrow> string" where
  "rule_text name r =
     int_text (ru_prio r) @ '':'' @ tab @
     join '' '' ([''from'', ''all''] @ (case ru_mark r of None \<Rightarrow> [] | Some m \<Rightarrow> [''fwmark'', ''0x'' @ id_hex (unat m)]) @
       [''lookup'', name (ru_table r)])"

definition rule_show :: "(int \<Rightarrow> string) \<Rightarrow> router_kernel \<Rightarrow> string" where
  "rule_show name k = concat (map (\<lambda>r. line (rule_text name r)) (rk_rules k))"

text \<open>The last word after each key, a key being any but the last word.\<close>

fun word_after :: "string \<Rightarrow> string \<Rightarrow> string list \<Rightarrow> string" where
  "word_after key acc (a # b # ws) = word_after key (if a = key then b else acc) (b # ws)"
| "word_after key acc ws = acc"

text \<open>Sscanf with 0x%x: the digits after 0x, as many as there are, of 64 bits.\<close>

definition scan_hex :: "string \<Rightarrow> nat option" where
  "scan_hex s =
     (if take 2 s = ''0x'' then
        let ds = takeWhile is_hex (drop 2 s) in if ds = [] \<or> unhex ds \<ge> 2 ^ 64 then None else Some (unhex ds)
      else None)"

definition line_mark :: "string \<Rightarrow> (u32 \<times> string) option" where
  "line_mark l =
     (let f = split_words l; mark = word_after ''fwmark'' '''' f; table = word_after ''lookup'' '''' f in
      if mark = '''' \<or> table = '''' then None
      else case scan_hex (hd (split_on CHR ''/'' mark)) of None \<Rightarrow> None | Some n \<Rightarrow> Some (of_nat n, table))"

definition rule_marks :: "string \<Rightarrow> (u32 \<times> string) list" where
  "rule_marks out = AList.clearjunk (rev (List.map_filter line_mark (split_on CHR 0x0A out)))"

section \<open>The applier\<close>

text \<open>
  What its tools do this time: which programs nft takes, which ip commands fail whatever they are about,
  and whether the rules and the tables can be listed.
\<close>

record tools =
  tl_nft :: "string \<Rightarrow> bool"
  tl_fails :: "ip_cmd \<Rightarrow> bool"
  tl_rules :: bool
  tl_tables :: bool

datatype apply_error = BadPolicy policy_error | PolicyRefused | NatRefused | IpFailed ip_cmd

record applier =
  al_applied :: string
  al_nat :: string
  al_pruned :: string
  al_plan :: string
  al_err :: "apply_error option"
  al_ready :: bool

definition new_applier :: applier where
  "new_applier = \<lparr>al_applied = [], al_nat = [], al_pruned = [], al_plan = [], al_err = None, al_ready = False\<rparr>"

definition try_ip :: "tools \<Rightarrow> ip_cmd \<Rightarrow> router_kernel \<Rightarrow> router_kernel option" where
  "try_ip w c k = (if tl_fails w c then None else exec_ip c k)"

fun run_loose :: "tools \<Rightarrow> ip_cmd list \<Rightarrow> router_kernel \<Rightarrow> router_kernel" where
  "run_loose w [] k = k"
| "run_loose w (c # cs) k = run_loose w cs (case try_ip w c k of None \<Rightarrow> k | Some k' \<Rightarrow> k')"

fun run_adds :: "tools \<Rightarrow> statement list \<Rightarrow> bool \<Rightarrow> router_kernel \<Rightarrow> apply_error option \<times> bool \<times> router_kernel" where
  "run_adds w [] down k = (None, down, k)"
| "run_adds w (s # ss) down k =
     (case try_ip w (st_cmd s) k of
        Some k' \<Rightarrow> run_adds w ss down k'
      | None \<Rightarrow> if st_tolerant s then run_adds w ss True k else (Some (IpFailed (st_cmd s)), down, k))"

definition prune_cmds :: "hop list \<Rightarrow> u32 \<times> string \<Rightarrow> ip_cmd list" where
  "prune_cmds hops e =
     (case atoi (snd e) of
        None \<Rightarrow> []
      | Some t \<Rightarrow> if \<not> owns_table t \<or> \<not> owns_mark (fst e) \<or> fst e \<in> set (map hp_mark hops) then []
          else [RuleDel (fst e) t, RouteFlush t])"

definition prune_rules :: "(int \<Rightarrow> string) \<Rightarrow> tools \<Rightarrow> hop list \<Rightarrow> router_kernel \<Rightarrow> router_kernel" where
  "prune_rules name w hops k =
     (if tl_rules w then run_loose w (concat (map (prune_cmds hops) (rule_marks (rule_show name k)))) k else k)"

definition hops_fingerprint :: "hop list \<Rightarrow> string" where
  "hops_fingerprint hops = ''hops:'' @ join '','' (sort (map (\<lambda>h. hex8 (hp_mark h)) hops))"

definition plan_fingerprint :: "statement list \<Rightarrow> string" where
  "plan_fingerprint adds = concat (map (\<lambda>s. line (join '' '' (ip_args (st_cmd s)))) adds)"

definition add_present :: "(u32 \<times> string) list \<Rightarrow> string list \<Rightarrow> bool" where
  "add_present have args =
     (if length args < 6 \<or> args ! 0 \<noteq> ''rule'' \<or> args ! 2 \<noteq> ''fwmark'' then True
      else case scan_hex (args ! 3) of
          None \<Rightarrow> True
        | Some n \<Rightarrow> (case map_of have (of_nat n) of None \<Rightarrow> '''' | Some t \<Rightarrow> t) = args ! 5)"

definition rules_present :: "(int \<Rightarrow> string) \<Rightarrow> tools \<Rightarrow> statement list \<Rightarrow> router_kernel \<Rightarrow> bool" where
  "rules_present name w adds k =
     (tl_rules w \<longrightarrow> list_all (\<lambda>s. add_present (rule_marks (rule_show name k)) (ip_args (st_cmd s))) adds)"

definition has_table :: "tools \<Rightarrow> string option \<Rightarrow> bool" where
  "has_table w t \<longleftrightarrow> \<not> tl_tables w \<or> t \<noteq> None"

definition apply_nat :: "(prefix \<Rightarrow> string) \<Rightarrow> tools \<Rightarrow> policy \<Rightarrow> applier \<times> router_kernel \<Rightarrow> apply_error option \<times> applier \<times> router_kernel" where
  "apply_nat show w p s =
     (let (a, k) = s; script = build_nat show True p; plain = build_nat show False p in
      if script = al_nat a \<and> has_table w (rk_nat k) then (None, a, k)
      else if tl_nft w script then (None, a\<lparr>al_nat := script\<rparr>, k\<lparr>rk_nat := Some script\<rparr>)
      else if po_redirects p = [] \<or> plain = script \<or> \<not> tl_nft w plain then (Some NatRefused, a, k)
      else (None, a\<lparr>al_nat := script\<rparr>, k\<lparr>rk_nat := Some plain\<rparr>))"

text \<open>From the plan on: what no longer has a hop is swept, then the plan is run unless it is there already.\<close>

definition apply_plan :: "(int \<Rightarrow> string) \<Rightarrow> tools \<Rightarrow> hop list \<Rightarrow> applier \<times> router_kernel \<Rightarrow> apply_error option \<times> applier \<times> router_kernel" where
  "apply_plan name w hops s =
     (let (a, k) = s; (removes, adds) = build_plan hops; fp = plan_fingerprint adds; key = hops_fingerprint hops;
        k1 = (if key \<noteq> al_pruned a then prune_rules name w hops k else k); a1 = a\<lparr>al_pruned := key\<rparr> in
      if fp = al_plan a \<and> rules_present name w adds k1 then (None, a1, k1)
      else case run_adds w adds False (run_loose w removes k1) of
          (Some e, _, k2) \<Rightarrow> (Some e, a1\<lparr>al_err := Some e, al_plan := []\<rparr>, k2)
        | (None, down, k2) \<Rightarrow> (None, a1\<lparr>al_plan := (if down then [] else fp), al_ready := True, al_err := None\<rparr>, k2))"

definition apply_policy :: "(prefix \<Rightarrow> string) \<Rightarrow> (int \<Rightarrow> string) \<Rightarrow> tools \<Rightarrow> policy \<Rightarrow> applier \<times> router_kernel \<Rightarrow> apply_error option \<times> applier \<times> router_kernel" where
  "apply_policy show name w p s =
     (case policy_ruleset show p of
        Inl e \<Rightarrow> (Some (BadPolicy e), s)
      | Inr script \<Rightarrow>
          let (a, k) = s; same = script = al_applied a \<and> has_table w (rk_policy k) in
          if \<not> same \<and> \<not> tl_nft w script then (Some PolicyRefused, s)
          else case apply_nat show w p (if same then s else (a\<lparr>al_applied := script\<rparr>, k\<lparr>rk_policy := Some script\<rparr>)) of
              (Some e, s') \<Rightarrow> (Some e, s')
            | (None, s') \<Rightarrow> apply_plan name w (po_hops p) s')"

definition teardown :: "tools \<Rightarrow> hop list \<Rightarrow> applier \<times> router_kernel \<Rightarrow> apply_error option \<times> applier \<times> router_kernel" where
  "teardown w hops s =
     (let (a, k) = s;
        k1 = run_loose w (concat (map (\<lambda>h. if owns_mark (hp_mark h) \<and> owns_table (hp_table h)
          then [RuleDel (hp_mark h) (hp_table h), RouteFlush (hp_table h)] else []) hops)) k in
      if rk_policy k1 \<noteq> None \<and> \<not> tl_nft w ''delete table inet wui_policy'' then (Some PolicyRefused, a, k1)
      else (None, a\<lparr>al_applied := [], al_plan := [], al_ready := False\<rparr>, k1\<lparr>rk_policy := None\<rparr>))"

section \<open>Marks\<close>

lemma mark_constants [simp]: "MarkBase AND MarkMask = MarkBase" "MarkBase AND NOT MarkMask = 0"
  by (simp_all add: MarkBase_def MarkMask_def)

definition table_of :: "u32 \<Rightarrow> int" where
  "table_of m = TableBase + uint (m AND NOT MarkMask)"

definition own_rule :: "u32 \<Rightarrow> ip_rule" where
  "own_rule m = \<lparr>ru_prio = rule_priority m, ru_mark = Some m, ru_table = table_of m\<rparr>"

lemma mark_parts: "(m :: u32) = (m AND MarkMask) OR (m AND NOT MarkMask)"
  by (rule bit_eqI) (auto simp: bit_simps)

lemma table_of_inj: "owns_mark m \<Longrightarrow> owns_mark n \<Longrightarrow> table_of m = table_of n \<longleftrightarrow> m = n"
proof
  assume o: "owns_mark m" "owns_mark n" and "table_of m = table_of n"
  then have "m AND NOT MarkMask = n AND NOT MarkMask" by (simp add: table_of_def word_uint_eq_iff)
  then show "m = n" using o mark_parts [of m] mark_parts [of n] by (simp add: owns_mark_def)
qed simp

lemma small_id_bits:
  assumes "(i :: u64) \<le> 0xFFF0"
  shows "uint i \<le> 0xFFF0" "(ucast i :: u32) AND MarkMask = 0" "uint (ucast i :: u32) = uint i"
proof -
  show b: "uint i \<le> 0xFFF0" using assms by (simp add: word_le_def)
  have t: "uint (ucast i :: u32) = uint i mod 2 ^ 32" by (simp add: unsigned_ucast_eq take_bit_eq_mod)
  then show u: "uint (ucast i :: u32) = uint i" using b by (simp add: mod_pos_pos_trivial)
  have small: "\<not> bit (ucast i :: u32) n" if "16 \<le> n" for n
  proof -
    have "uint i < 2 ^ 16" using b by simp
    then have "take_bit 16 (uint i) = uint i" by (simp add: take_bit_int_eq_self_iff)
    then have "\<not> bit (uint i) n" using that by (metis bit_take_bit_iff not_le)
    then show ?thesis by (simp add: bit_simps)
  qed
  show "(ucast i :: u32) AND MarkMask = 0"
  proof (rule bit_eqI)
    fix n
    have "\<not> bit MarkMask n" if "n < 16"
    proof -
      have "MarkMask = push_bit 16 0xFF" by (simp add: MarkMask_def)
      then have "bit MarkMask n = bit (push_bit 16 (0xFF :: u32)) n" by (rule arg_cong)
      then show ?thesis using that by (simp only: bit_push_bit_iff) simp
    qed
    then show "bit ((ucast i :: u32) AND MarkMask) n \<longleftrightarrow> bit (0 :: u32) n" using small [of n] by (cases "n < 16") (auto simp: bit_and_iff)
  qed
qed

text \<open>Every outbound's id has a mark and a table of its own, both the panel's, and every id above the bound is
  refused.\<close>

lemma marks_apart:
  assumes "allocate_mark i = Some (m, t)" "allocate_mark j = Some (n, u)"
  shows "owns_mark m \<and> owns_table t \<and> t = table_of m \<and> rule_priority m = 20000 + uint i \<and> (m = n \<longleftrightarrow> i = j) \<and> (t = u \<longleftrightarrow> i = j)"
proof -
  have one: "owns_mark m \<and> owns_table t \<and> t = table_of m \<and> rule_priority m = 20000 + uint i \<and> t = TableBase + uint i"
    if a: "allocate_mark i = Some (m, t)" for i m t
  proof -
    have i: "i \<noteq> 0" "i \<le> 0xFFF0" and m: "m = MarkBase OR ucast i" and t: "t = TableBase + uint i"
      using a by (auto simp: allocate_mark_def split: if_splits)
    note b = small_id_bits [OF i(2)]
    have low: "m AND NOT MarkMask = ucast i"
    proof -
      have "ucast i AND NOT MarkMask = (ucast i :: u32)" using mark_parts [of "ucast i"] b(2) by simp
      then show ?thesis unfolding m by (simp add: bit.conj_disj_distrib2)
    qed
    have hi: "m AND MarkMask = MarkBase AND MarkMask" unfolding m using b(2) by (simp add: bit.conj_disj_distrib2)
    have "uint i \<noteq> 0" using i(1) by (simp add: uint_0_iff)
    then have pos: "0 < uint i" using uint_ge_0 [of i] by linarith
    then have "(ucast i :: u32) \<noteq> 0" using b(3) by (metis less_irrefl unsigned_0)
    then show ?thesis using hi low b(1,3) pos by (simp add: owns_mark_def owns_table_def table_of_def rule_priority_def t)
  qed
  note m = one [OF assms(1)] and n = one [OF assms(2)]
  have t: "t = TableBase + uint i" "u = TableBase + uint j" using m n by blast+
  have tu: "t = u \<longleftrightarrow> i = j" by (simp add: t word_uint_eq_iff)
  then show ?thesis using m n table_of_inj [of m n] by auto
qed

section \<open>What the rules say of themselves\<close>

definition marked :: "u32 \<Rightarrow> ip_rule list \<Rightarrow> ip_rule list" where
  "marked m rs = filter (\<lambda>r. ru_mark r = Some m) rs"

lemma id_hex_read: "unhex (id_hex n) = n \<and> list_all is_hex (id_hex n) \<and> id_hex n \<noteq> [] \<and> (\<forall>c \<in> set (id_hex n). \<not> go_space c \<and> c \<noteq> CHR ''/'')"
proof (induction n rule: id_hex.induct)
  case (1 n)
  have c: "is_hex (id_hex_char d) \<and> hex_val (id_hex_char d) = d \<and> \<not> go_space (id_hex_char d) \<and> id_hex_char d \<noteq> CHR ''/''" if "d < 16" for d
  proof -
    have "of_char (id_hex_char d) \<noteq> (47 :: nat)" using that by (simp add: id_hex_char_def)
    then have "id_hex_char d \<noteq> CHR ''/''" by auto
    then show ?thesis using that by (auto simp: id_hex_char_def is_hex_def char_range_def hex_val_def go_space_def Let_def)
  qed
  show ?case
  proof (cases "n < 16")
    case True
    then show ?thesis using c [OF True] by (subst (1 2 3 4) id_hex.simps) (simp add: unhex_def)
  next
    case False
    then show ?thesis using "1.IH" [OF False] c [of "n mod 16"] by (subst (1 2 3 4) id_hex.simps) auto
  qed
qed

lemma scan_mark: "scan_hex (hd (split_on CHR ''/'' (''0x'' @ id_hex (unat (m :: u32))))) = Some (unat m)"
proof -
  have "unat m < 2 ^ LENGTH(32)" by (rule unsigned_less)
  then have u: "unat m < 2 ^ 64" by simp
  have one: "split_on CHR ''/'' (''0x'' @ id_hex (unat m)) = [''0x'' @ id_hex (unat m)]"
    using id_hex_read [of "unat m"] by (intro split_on_plain) auto
  have tw: "takeWhile is_hex (id_hex (unat m)) = id_hex (unat m)"
    using id_hex_read [of "unat m"] by (simp add: takeWhile_eq_all_conv list_all_iff)
  show ?thesis unfolding one using id_hex_read [of "unat m"] u by (simp add: scan_hex_def Let_def tw)
qed

lemma scan_hex_mark: "scan_hex (hex_mark m) = Some (unat m)"
proof -
  have "unat m < 2 ^ LENGTH(32)" by (rule unsigned_less)
  then have u: "unat m < 2 ^ 64" by simp
  have tw: "takeWhile is_hex (hex8 m) = hex8 m" using hex8_chars [of _ m] by (simp add: takeWhile_eq_all_conv)
  have "hex8 m \<noteq> []" using length_hex8 [of m] by force
  then show ?thesis using u by (simp add: scan_hex_def hex_mark_def Let_def tw)
qed

lemma int_text_word: "word_text (int_text n)" "CHR '':'' \<notin> set (int_text n)"
proof -
  have d: "\<not> go_space c \<and> c \<noteq> CHR '':''" if "c \<in> set (dec k)" for c k
    using dec_digits [of k] that by (auto simp: list_all_iff is_digit_def go_space_def)
  show "word_text (int_text n)" using d [of _ "nat n"] d [of _ "nat (- n)"] by (auto simp: int_text_def word_text_def go_space_def)
  show "CHR '':'' \<notin> set (int_text n)" using d [of _ "nat n"] d [of _ "nat (- n)"] by (auto simp: int_text_def)
qed

lemma word_text_append: "word_text u \<Longrightarrow> word_text v \<Longrightarrow> word_text (u @ v)"
  by (auto simp: word_text_def)

lemma rule_fields:
  assumes "word_text (name (ru_table r))"
  shows "split_words (rule_text name r) = (int_text (ru_prio r) @ '':'') # ''from'' # ''all'' #
    (case ru_mark r of None \<Rightarrow> [] | Some m \<Rightarrow> [''fwmark'', ''0x'' @ id_hex (unat m)]) @ [''lookup'', name (ru_table r)]"
proof -
  let ?ws = "[''from'', ''all''] @ (case ru_mark r of None \<Rightarrow> [] | Some m \<Rightarrow> [''fwmark'', ''0x'' @ id_hex (unat m)]) @ [''lookup'', name (ru_table r)]"
  have h: "word_text (''0x'' @ id_hex n)" for n using id_hex_read [of n] by (auto simp: word_text_def go_space_def)
  have "list_all word_text ?ws" using assms h by (auto simp: word_text_def go_space_def split: option.split)
  then have j: "split_words (join '' '' ?ws) = ?ws" by (rule fields_join)
  have t: "rule_text name r = (int_text (ru_prio r) @ '':'') @ CHR 0x09 # join '' '' ?ws" by (simp add: rule_text_def tab_def)
  have "word_text (int_text (ru_prio r) @ '':'')" using int_text_word(1) by (intro word_text_append) (auto simp: word_text_def go_space_def)
  moreover have "go_space CHR 0x09" by (simp add: go_space_def)
  ultimately show ?thesis unfolding t fields_cut [OF \<open>word_text (int_text (ru_prio r) @ '':'')\<close> \<open>go_space CHR 0x09\<close>] j by simp
qed

lemma line_mark_rule:
  assumes "word_text (name (ru_table r))"
  shows "line_mark (rule_text name r) = map_option (\<lambda>m. (m, name (ru_table r))) (ru_mark r)"
proof -
  let ?p = "int_text (ru_prio r) @ '':''"
  have p: "?p \<noteq> ''fwmark''" "?p \<noteq> ''lookup''"
    by (rule notI, drule arg_cong [of _ _ last], simp)+
  show ?thesis
  proof (cases "ru_mark r")
    case None
    then show ?thesis unfolding line_mark_def Let_def rule_fields [of name r, OF assms] using p by simp
  next
    case (Some m)
    then show ?thesis unfolding line_mark_def Let_def rule_fields [of name r, OF assms] using p scan_mark [of m] assms by (simp add: word_text_def)
  qed
qed

lemma word_no_newline: "word_text w \<Longrightarrow> CHR 0x0A \<notin> set w"
  by (auto simp: word_text_def go_space_def)

lemma join_no_newline: "\<forall>w \<in> set ws. CHR 0x0A \<notin> set w \<Longrightarrow> CHR 0x0A \<notin> set (join '' '' ws)"
  by (induction ws rule: induct_list012) auto

lemma rule_text_no_newline:
  assumes "word_text (name (ru_table r))"
  shows "CHR 0x0A \<notin> set (rule_text name r)"
proof -
  have "CHR 0x0A \<notin> set (int_text (ru_prio r))" by (rule word_no_newline [OF int_text_word(1)])
  moreover have h: "CHR 0x0A \<notin> set (id_hex n)" for n
  proof
    assume "CHR 0x0A \<in> set (id_hex n)"
    then have "\<not> go_space CHR 0x0A" using id_hex_read [of n] by blast
    then show False by (simp add: go_space_def)
  qed
  moreover have "CHR 0x0A \<notin> set (join '' '' ([''from'', ''all''] @
      (case ru_mark r of None \<Rightarrow> [] | Some m \<Rightarrow> [''fwmark'', ''0x'' @ id_hex (unat m)]) @ [''lookup'', name (ru_table r)]))"
    using word_no_newline [OF assms] h by (intro join_no_newline) (auto split: option.splits)
  ultimately show ?thesis by (simp add: rule_text_def tab_def del: join.simps)
qed

lemma map_filter_append: "List.map_filter f (xs @ ys) = List.map_filter f xs @ List.map_filter f ys"
  by (simp add: List.map_filter_def)

lemma last_marked:
  "map_of (rev (List.map_filter (\<lambda>r. map_option (\<lambda>m. (m, name (ru_table r))) (ru_mark r)) rs)) m =
    (if marked m rs = [] then None else Some (name (ru_table (last (marked m rs)))))"
  by (induction rs rule: rev_induct) (simp_all add: marked_def map_filter_append map_filter_simps split: option.split)

text \<open>The map that RuleMarks reads: each mark with the table of the last rule that asks for it.\<close>

lemma rule_marks_exact:
  assumes "\<And>t. word_text (name t)"
  shows "map_of (rule_marks (rule_show name k)) m =
    (if marked m (rk_rules k) = [] then None else Some (name (ru_table (last (marked m (rk_rules k))))))"
proof -
  let ?rs = "rk_rules k"
  have "split_on CHR 0x0A (concat (map line (map (rule_text name) ?rs))) = map (rule_text name) ?rs @ [[]]"
    by (rule split_lines) (simp add: rule_text_no_newline assms)
  moreover have "line_mark [] = None" by (simp add: line_mark_def split_words_def Let_def)
  moreover have "List.map_filter line_mark (map (rule_text name) rs @ [[]]) =
      List.map_filter (\<lambda>r. map_option (\<lambda>m. (m, name (ru_table r))) (ru_mark r)) rs" for rs
    by (induction rs) (simp_all add: map_filter_simps line_mark_rule assms calculation(2) split: option.split)
  ultimately have "List.map_filter line_mark (split_on CHR 0x0A (rule_show name k)) =
      List.map_filter (\<lambda>r. map_option (\<lambda>m. (m, name (ru_table r))) (ru_mark r)) ?rs"
    by (simp add: rule_show_def comp_def)
  then have "map_of (rule_marks (rule_show name k)) m =
      map_of (rev (List.map_filter (\<lambda>r. map_option (\<lambda>m. (m, name (ru_table r))) (ru_mark r)) ?rs)) m"
    by (simp add: rule_marks_def map_of_clearjunk)
  also have "\<dots> = (if marked m ?rs = [] then None else Some (name (ru_table (last (marked m ?rs)))))"
    by (rule last_marked)
  finally show ?thesis .
qed

end
