(* ===== verification/Router.thy ===== *)
theory Router imports Plan begin

text \<open>
  What the applier of Plan keeps in the kernel: the rules and tables of its own marks and nothing of
  anyone else's, and, after an Apply without an error, no way for what is marked for a hop but that hop
  or a refusal. It also shows where this fails.
\<close>

section \<open>The panel's own part of the kernel\<close>

text \<open>
  A rule is the panel's when its mark and its table both are; all others are not, also one that somebody
  else has made for a mark of the panel's. Of the kernel in general nothing is asked where the rules and
  tables of others are concerned; that nobody but the panel has rules for its marks (ours_ok) is asked
  where it comes to what the panel's own rules do.
\<close>

definition panel_rule :: "ip_rule \<Rightarrow> bool" where
  "panel_rule r \<longleftrightarrow> (case ru_mark r of None \<Rightarrow> False | Some m \<Rightarrow> owns_mark m \<and> owns_table (ru_table r))"

definition others :: "ip_rule list \<Rightarrow> ip_rule list" where
  "others rs = filter (\<lambda>r. \<not> panel_rule r) rs"

definition ours_ok :: "ip_rule list \<Rightarrow> bool" where
  "ours_ok rs \<longleftrightarrow> (\<forall>m. owns_mark m \<longrightarrow> marked m rs = [] \<or> marked m rs = [own_rule m])"

definition kernel_ok :: "router_kernel \<Rightarrow> bool" where
  "kernel_ok k \<longleftrightarrow> sorted (map ru_prio (rk_rules k)) \<and> ours_ok (rk_rules k)"

definition same_others :: "router_kernel \<Rightarrow> router_kernel \<Rightarrow> bool" where
  "same_others k k' \<longleftrightarrow> others (rk_rules k') = others (rk_rules k) \<and> rk_devs k' = rk_devs k \<and>
     (\<forall>t. \<not> owns_table t \<longrightarrow> rk_via k' t = rk_via k t \<and> rk_floor k' t = rk_floor k t)"

fun cmd_ours :: "ip_cmd \<Rightarrow> bool" where
  "cmd_ours (RuleDel m t) = (owns_mark m \<and> owns_table t)"
| "cmd_ours (RouteFlush t) = owns_table t"
| "cmd_ours (RouteFloor t) = owns_table t"
| "cmd_ours (RouteDev t d) = owns_table t"
| "cmd_ours (RouteNexthops t ds) = owns_table t"
| "cmd_ours (RuleAdd m t p) = (owns_mark m \<and> owns_table t \<and> t = table_of m \<and> p = rule_priority m)"

text \<open>A command that is about the panel's marks and tables, whichever of them go together.\<close>

fun cmd_owned :: "ip_cmd \<Rightarrow> bool" where
  "cmd_owned (RuleDel m t) = (owns_mark m \<and> owns_table t)"
| "cmd_owned (RouteFlush t) = owns_table t"
| "cmd_owned (RouteFloor t) = owns_table t"
| "cmd_owned (RouteDev t d) = owns_table t"
| "cmd_owned (RouteNexthops t ds) = owns_table t"
| "cmd_owned (RuleAdd m t p) = (owns_mark m \<and> owns_table t)"

lemma ours_owned: "cmd_ours c \<Longrightarrow> cmd_owned c"
  by (cases c) auto

text \<open>Whether a command may change the rules of a mark or the table.\<close>

fun touches :: "u32 \<Rightarrow> int \<Rightarrow> ip_cmd \<Rightarrow> bool" where
  "touches m t (RuleDel n u) = (n = m)"
| "touches m t (RouteFlush u) = (u = t)"
| "touches m t (RouteFloor u) = (u = t)"
| "touches m t (RouteDev u d) = (u = t)"
| "touches m t (RouteNexthops u ds) = (u = t)"
| "touches m t (RuleAdd n u p) = (n = m)"

definition seen :: "u32 \<Rightarrow> int \<Rightarrow> router_kernel \<Rightarrow> ip_rule list \<times> bool \<times> string list" where
  "seen m t k = (marked m (rk_rules k), rk_floor k t, rk_via k t)"

lemma marked_drop: "marked m (drop_rule n t rs) = (if m = n then drop_rule n t (marked m rs) else marked m rs)"
  by (induction rs) (auto simp: marked_def rule_is_def)

lemma marked_put: "marked m (put_rule r rs) = (if ru_mark r = Some m then put_rule r (marked m rs) else marked m rs)"
  if "\<not> (ru_mark r = Some m \<and> marked m rs \<noteq> [])"
  using that by (induction rs) (auto simp: marked_def split: if_splits)

lemma others_drop: "owns_mark m \<Longrightarrow> owns_table t \<Longrightarrow> others (drop_rule m t rs) = others rs"
  by (induction rs) (auto simp: others_def rule_is_def panel_rule_def)

lemma others_put: "panel_rule r \<Longrightarrow> others (put_rule r rs) = others rs"
  by (induction rs) (auto simp: others_def)

lemma set_put [simp]: "set (put_rule r rs) = insert r (set rs)"
  by (induction rs) auto

lemma set_drop: "set (drop_rule m t rs) \<subseteq> set rs"
  by (induction rs) auto

lemma sorted_put: "sorted (map ru_prio rs) \<Longrightarrow> sorted (map ru_prio (put_rule r rs))"
  by (induction rs) auto

lemma sorted_drop: "sorted (map ru_prio rs) \<Longrightarrow> sorted (map ru_prio (drop_rule m t rs))"
proof (induction rs)
  case (Cons r rs)
  then show ?case using set_drop [of m t rs] by auto
qed simp

lemma own_rule_simps [simp]: "ru_mark (own_rule m) = Some m" "ru_table (own_rule m) = table_of m" "ru_prio (own_rule m) = rule_priority m"
  by (simp_all add: own_rule_def)

lemma ours_drop: "ours_ok rs \<Longrightarrow> ours_ok (drop_rule m t rs)"
proof -
  have "drop_rule m t xs = [] \<or> drop_rule m t xs = [own_rule m]" if "xs = [] \<or> xs = [own_rule m]" for xs
    using that by (cases "rule_is m t (own_rule m)") auto
  then show "ours_ok rs \<Longrightarrow> ours_ok (drop_rule m t rs)" unfolding ours_ok_def marked_drop by simp
qed

lemma ours_put:
  assumes "ours_ok rs" "own_rule m \<notin> set rs" "owns_mark m"
  shows "ours_ok (put_rule (own_rule m) rs) \<and> marked m rs = []"
proof -
  have e: "marked m rs = []"
  proof (rule ccontr)
    assume "marked m rs \<noteq> []"
    then have "marked m rs = [own_rule m]" using assms(1,3) by (auto simp: ours_ok_def)
    then have "own_rule m \<in> set (marked m rs)" by simp
    then show False using assms(2) by (simp add: marked_def)
  qed
  have "marked n (put_rule (own_rule m) rs) = (if n = m then [own_rule m] else marked n rs)" for n
    using e by (subst marked_put) auto
  then show ?thesis using assms(1) e by (simp add: ours_ok_def)
qed

lemma same_others_refl [simp]: "same_others k k"
  by (simp add: same_others_def)

lemma same_others_trans: "same_others a b \<Longrightarrow> same_others b c \<Longrightarrow> same_others a c"
  by (simp add: same_others_def)

text \<open>Such commands change nothing of others', whatever stands in the kernel.\<close>

lemma exec_ip_others: "exec_ip c k = Some k' \<Longrightarrow> cmd_owned c \<Longrightarrow> same_others k k'"
  by (cases c) (auto simp: same_others_def set_via_def others_drop others_put panel_rule_def Let_def split: if_splits)

lemma run_loose_others: "list_all cmd_owned cs \<Longrightarrow> same_others k (run_loose w cs k)"
proof (induction cs arbitrary: k)
  case (Cons c cs)
  have "same_others k k1" if "try_ip w c k = Some k1" for k1
    using that exec_ip_others [of c k k1] Cons.prems by (simp add: try_ip_def split: if_splits)
  then show ?case using Cons same_others_trans by (fastforce split: option.split)
qed simp

lemma run_adds_others:
  "run_adds w ss down k = (e, d, k') \<Longrightarrow> list_all (\<lambda>s. cmd_owned (st_cmd s)) ss \<Longrightarrow> same_others k k'"
proof (induction ss arbitrary: k down)
  case (Cons s ss)
  show ?case
  proof (cases "try_ip w (st_cmd s) k")
    case None
    then show ?thesis using Cons.prems Cons.IH [of True k] by (auto split: if_splits)
  next
    case (Some k1)
    then have "same_others k k1"
      using exec_ip_others [of "st_cmd s" k k1] Cons.prems by (simp add: try_ip_def split: if_splits)
    then show ?thesis using Some Cons.prems Cons.IH [of down k1] same_others_trans [of k k1 k'] by simp
  qed
qed simp

lemma plan_owned: "list_all cmd_owned (fst (build_plan hops)) \<and> list_all (\<lambda>s. cmd_owned (st_cmd s)) (snd (build_plan hops))"
  by (auto simp: build_plan_def Let_def list_all_iff hop_removes_def hop_adds_def strict_def hop_route_def hop_owned_def split: if_splits)

lemma prune_owned: "list_all cmd_owned (prune_cmds hops e)"
  by (auto simp: prune_cmds_def split: option.split)

lemma prune_others: "same_others k (prune_rules name w hops k)"
proof -
  have "list_all cmd_owned (concat (map (prune_cmds hops) (rule_marks (rule_show name k))))"
    using prune_owned by (simp add: list_all_iff)
  then show ?thesis using run_loose_others by (simp add: prune_rules_def)
qed

lemma exec_ip_ours:
  assumes "exec_ip c k = Some k'" "cmd_ours c" "kernel_ok k"
  shows "kernel_ok k' \<and> same_others k k'"
proof (rule conjI [OF _ exec_ip_others [OF assms(1) ours_owned [OF assms(2)]]], cases c)
  case (RuleAdd m t p)
  then have k': "k' = k\<lparr>rk_rules := put_rule (own_rule m) (rk_rules k)\<rparr>" "own_rule m \<notin> set (rk_rules k)" "owns_mark m"
    using assms(1,2) by (auto simp: Let_def own_rule_def split: if_splits)
  then show "kernel_ok k'" using assms(3) ours_put [of "rk_rules k" m] sorted_put [of "rk_rules k" "own_rule m"]
    by (simp add: kernel_ok_def)
qed (use assms in \<open>auto simp: kernel_ok_def set_via_def ours_drop sorted_drop split: if_splits\<close>)

lemma exec_ip_frame: "exec_ip c k = Some k' \<Longrightarrow> \<not> touches m t c \<Longrightarrow> seen m t k' = seen m t k"
proof (cases c)
  case (RuleAdd n u p)
  moreover assume "exec_ip c k = Some k'" "\<not> touches m t c"
  ultimately show ?thesis by (auto simp: seen_def Let_def marked_put split: if_splits)
qed (auto simp: seen_def set_via_def marked_drop split: if_splits)

lemma run_loose_ours:
  "kernel_ok k \<Longrightarrow> list_all cmd_ours cs \<Longrightarrow> kernel_ok (run_loose w cs k) \<and> same_others k (run_loose w cs k)"
proof (induction cs arbitrary: k)
  case (Cons c cs)
  have "kernel_ok k1 \<and> same_others k k1" if "try_ip w c k = Some k1" for k1
    using that exec_ip_ours [of c k k1] Cons.prems by (simp add: try_ip_def split: if_splits)
  then show ?case using Cons same_others_trans by (fastforce split: option.split)
qed simp

lemma run_loose_frame: "\<forall>c \<in> set cs. \<not> touches m t c \<Longrightarrow> seen m t (run_loose w cs k) = seen m t k"
proof (induction cs arbitrary: k)
  case (Cons c cs)
  have "seen m t k1 = seen m t k" if "try_ip w c k = Some k1" for k1
    using that exec_ip_frame [of c k k1 m t] Cons.prems by (simp add: try_ip_def split: if_splits)
  then show ?case using Cons by (simp split: option.split)
qed simp

lemma run_adds_ours:
  "run_adds w ss down k = (e, d, k') \<Longrightarrow> kernel_ok k \<Longrightarrow> list_all (\<lambda>s. cmd_ours (st_cmd s)) ss \<Longrightarrow> kernel_ok k' \<and> same_others k k'"
proof (induction ss arbitrary: k down)
  case (Cons s ss)
  show ?case
  proof (cases "try_ip w (st_cmd s) k")
    case None
    then show ?thesis using Cons.prems Cons.IH [of True k] by (auto split: if_splits)
  next
    case (Some k1)
    then have "kernel_ok k1 \<and> same_others k k1"
      using exec_ip_ours [of "st_cmd s" k k1] Cons.prems by (simp add: try_ip_def split: if_splits)
    then show ?thesis using Some Cons.prems Cons.IH [of down k1] same_others_trans [of k k1 k'] by simp
  qed
qed simp

section \<open>Hops\<close>

definition hop_devs :: "hop \<Rightarrow> string list" where
  "hop_devs h = (if hp_nexthops h \<noteq> [] then hp_nexthops h else [hp_device h])"

text \<open>The hops a policy names: their marks and tables as AllocateMark gives them, each once.\<close>

definition hops_ok :: "hop list \<Rightarrow> bool" where
  "hops_ok hops \<longleftrightarrow> distinct (map hp_mark hops) \<and>
     (\<forall>h \<in> set hops. hop_owned h \<and> hp_table h = table_of (hp_mark h) \<and> (hop_leads h \<longrightarrow> list_all word_text (hop_devs h)))"

definition hop_seen :: "hop \<Rightarrow> router_kernel \<Rightarrow> ip_rule list \<times> bool \<times> string list" where
  "hop_seen h k = seen (hp_mark h) (hp_table h) k"

lemma hops_ok_owned: "hops_ok hops \<Longrightarrow> h \<in> set hops \<Longrightarrow> hop_owned h \<and> owns_mark (hp_mark h) \<and> owns_table (hp_table h) \<and> hp_table h = table_of (hp_mark h)"
  by (auto simp: hops_ok_def hop_owned_def)

lemma hop_removes_touch: "c \<in> set (hop_removes h) \<Longrightarrow> touches m t c \<Longrightarrow> m = hp_mark h \<or> t = hp_table h"
  by (auto simp: hop_removes_def split: if_splits)

lemma hop_adds_touch: "s \<in> set (hop_adds h) \<Longrightarrow> touches m t (st_cmd s) \<Longrightarrow> m = hp_mark h \<or> t = hp_table h"
  by (auto simp: hop_adds_def strict_def hop_route_def split: if_splits)

lemma hops_apart:
  assumes "hops_ok hops" "h \<in> set hops" "g \<in> set hops" "h \<noteq> g"
  shows "hp_mark h \<noteq> hp_mark g \<and> hp_table h \<noteq> hp_table g"
proof -
  have "hp_mark h \<noteq> hp_mark g" using assms unfolding hops_ok_def distinct_map inj_on_def by blast
  then show ?thesis using hops_ok_owned [OF assms(1,2)] hops_ok_owned [OF assms(1,3)] table_of_inj by auto
qed

lemma hop_cmds_ours: "hops_ok hops \<Longrightarrow> h \<in> set hops \<Longrightarrow> list_all cmd_ours (hop_removes h) \<and> list_all (\<lambda>s. cmd_ours (st_cmd s)) (hop_adds h)"
  using hops_ok_owned [of hops h] by (auto simp add: hop_removes_def hop_adds_def strict_def hop_route_def)

lemma set_sorted_hops [simp]: "set (sort_key hp_mark hops) = set hops"
  by simp

lemma plan_ours:
  assumes "hops_ok hops"
  shows "list_all cmd_ours (fst (build_plan hops)) \<and> list_all (\<lambda>s. cmd_ours (st_cmd s)) (snd (build_plan hops))"
  using hop_cmds_ours [OF assms] by (auto simp: build_plan_def Let_def list_all_iff)

text \<open>What one hop's additions do, when the whole ends without an error.\<close>

lemma try_ip_fails: "try_ip w c k = None \<longleftrightarrow> tl_fails w c \<or> exec_ip c k = None"
  by (simp add: try_ip_def)

lemma hop_route_exec:
  assumes "hop_leads h"
  shows "exec_ip (hop_route h) k = (if set (hop_devs h) \<subseteq> set (rk_devs k) then Some (set_via (hp_table h) (hop_devs h) k) else None)"
  using assms by (simp add: hop_route_def hop_devs_def)

lemma hop_adds_run:
  assumes "run_adds w (hop_adds h @ ss) down k = (None, d, k')" "hop_owned h" "hop_leads h" "hp_table h = table_of (hp_mark h)" "kernel_ok k"
  obtains k1 down1 where "run_adds w ss down1 k1 = (None, d, k')" "kernel_ok k1" "same_others k k1"
    "hop_seen h k1 = ([own_rule (hp_mark h)], True,
      if \<not> tl_fails w (hop_route h) \<and> set (hop_devs h) \<subseteq> set (rk_devs k) then hop_devs h else rk_via k (hp_table h))"
    "\<And>m t. m \<noteq> hp_mark h \<Longrightarrow> t \<noteq> hp_table h \<Longrightarrow> seen m t k1 = seen m t k"
proof -
  let ?m = "hp_mark h" and ?t = "hp_table h"
  let ?k1 = "k\<lparr>rk_floor := (rk_floor k)(?t := True)\<rparr>"
  let ?k2 = "if \<not> tl_fails w (hop_route h) \<and> set (hop_devs h) \<subseteq> set (rk_devs k) then set_via ?t (hop_devs h) ?k1 else ?k1"
  let ?k3 = "?k2\<lparr>rk_rules := put_rule (own_rule ?m) (rk_rules k)\<rparr>"
  have own: "owns_mark ?m" "owns_table ?t" using assms(2) by (auto simp: hop_owned_def)
  have r2: "rk_rules ?k2 = rk_rules k" "rk_floor ?k2 ?t" by (simp_all add: set_via_def)
  have adds: "hop_adds h = [strict (RouteFloor ?t), \<lparr>st_cmd = hop_route h, st_tolerant = True\<rparr>, strict (RuleAdd ?m ?t (rule_priority ?m))]"
    using assms(2,3) by (simp add: hop_adds_def)
  obtain d1 where one: "run_adds w (\<lparr>st_cmd = hop_route h, st_tolerant = True\<rparr> # strict (RuleAdd ?m ?t (rule_priority ?m)) # ss) d1 ?k1 = (None, d, k')"
    using assms(1) unfolding adds by (simp add: try_ip_def strict_def split: if_splits)
  obtain d2 where two: "run_adds w (strict (RuleAdd ?m ?t (rule_priority ?m)) # ss) d2 ?k2 = (None, d, k')"
  proof (cases "\<not> tl_fails w (hop_route h) \<and> set (hop_devs h) \<subseteq> set (rk_devs k)")
    case True
    then have "try_ip w (hop_route h) ?k1 = Some ?k2" by (simp add: try_ip_def hop_route_exec [OF assms(3)])
    then show ?thesis using one that by simp
  next
    case False
    then have "try_ip w (hop_route h) ?k1 = None" by (auto simp: try_ip_def hop_route_exec [OF assms(3)])
    then show ?thesis using one that False by simp
  qed
  have fresh: "own_rule ?m \<notin> set (rk_rules k)" and three: "run_adds w ss d2 ?k3 = (None, d, k')"
    using two assms(4) unfolding run_adds.simps(2) strict_def statement.simps try_ip_def exec_ip.simps Let_def own_rule_def [symmetric] r2(1)
    by (auto simp: own_rule_def split: if_splits)
  have put: "ours_ok (put_rule (own_rule ?m) (rk_rules k))" "marked ?m (rk_rules k) = []"
    using ours_put [OF _ fresh own(1)] assms(5) by (auto simp: kernel_ok_def)
  show thesis
  proof (rule that [OF three])
    show "kernel_ok ?k3" using put(1) assms(5) sorted_put by (simp add: kernel_ok_def)
    show "same_others k ?k3" using own others_put [of "own_rule ?m"] assms(4) by (simp add: same_others_def set_via_def panel_rule_def)
    show "hop_seen h ?k3 = ([own_rule ?m], True, if \<not> tl_fails w (hop_route h) \<and> set (hop_devs h) \<subseteq> set (rk_devs k) then hop_devs h else rk_via k ?t)"
      using put(2) by (simp add: hop_seen_def seen_def marked_put set_via_def)
    show "seen m t ?k3 = seen m t k" if "m \<noteq> ?m" "t \<noteq> ?t" for m t
      using that by (simp add: seen_def marked_put set_via_def)
  qed
qed

definition hop_done :: "tools \<Rightarrow> router_kernel \<Rightarrow> hop \<Rightarrow> ip_rule list \<times> bool \<times> string list" where
  "hop_done w k h = ([own_rule (hp_mark h)], True,
     if \<not> tl_fails w (hop_route h) \<and> set (hop_devs h) \<subseteq> set (rk_devs k) then hop_devs h else rk_via k (hp_table h))"

lemma hop_adds_none: "\<not> hop_leads h \<Longrightarrow> hop_adds h = []"
  by (simp add: hop_adds_def)

lemma adds_run:
  assumes "run_adds w (concat (map hop_adds hs)) down k = (None, d, k')" "hops_ok hops" "set hs \<subseteq> set hops" "distinct hs" "kernel_ok k"
  shows "(\<forall>h \<in> set hs. hop_leads h \<longrightarrow> hop_seen h k' = hop_done w k h) \<and>
    (\<forall>m t. (\<forall>h \<in> set hs. hop_leads h \<longrightarrow> m \<noteq> hp_mark h \<and> t \<noteq> hp_table h) \<longrightarrow> seen m t k' = seen m t k)"
  using assms
proof (induction hs arbitrary: down k)
  case (Cons g hs)
  have g: "g \<in> set hops" "g \<notin> set hs" and hs: "set hs \<subseteq> set hops" "distinct hs" using Cons.prems by auto
  note own = hops_ok_owned [OF Cons.prems(2) g(1)]
  show ?case
  proof (cases "hop_leads g")
    case False
    then show ?thesis using Cons.IH [OF _ Cons.prems(2) hs Cons.prems(5), of down] Cons.prems(1) by (simp add: hop_adds_none)
  next
    case True
    have a: "run_adds w (hop_adds g @ concat (map hop_adds hs)) down k = (None, d, k')" using Cons.prems(1) by simp
    have ow: "hop_owned g" "hp_table g = table_of (hp_mark g)" using own by blast+
    obtain k1 down1 where r: "run_adds w (concat (map hop_adds hs)) down1 k1 = (None, d, k')" and ok: "kernel_ok k1" "same_others k k1"
      and gk: "hop_seen g k1 = hop_done w k g" and fr: "\<And>m t. m \<noteq> hp_mark g \<Longrightarrow> t \<noteq> hp_table g \<Longrightarrow> seen m t k1 = seen m t k"
      by (rule hop_adds_run [OF a ow(1) True ow(2) Cons.prems(5), folded hop_done_def]) (rule that)
    have apart: "hp_mark h \<noteq> hp_mark g \<and> hp_table h \<noteq> hp_table g" if "h \<in> set hs" for h
      using hops_apart [OF Cons.prems(2), of h g] that g hs by blast
    note ih = Cons.IH [OF r Cons.prems(2) hs ok(1)]
    have "hop_seen g k' = hop_seen g k1" using ih apart unfolding hop_seen_def by metis
    moreover have "hop_done w k1 h = hop_done w k h" if "h \<in> set hs" for h
      using fr [of "hp_mark h" "hp_table h"] apart [OF that] ok(2) by (simp add: hop_done_def seen_def same_others_def)
    moreover have "seen m t k' = seen m t k" if "\<forall>h \<in> set (g # hs). hop_leads h \<longrightarrow> m \<noteq> hp_mark h \<and> t \<noteq> hp_table h" for m t
      using ih fr [of m t] that True by simp
    ultimately show ?thesis using ih gk by simp
  qed
qed simp

section \<open>Sweeping what has no hop\<close>

text \<open>A table of the panel's goes by its number, and no other table by such a number.\<close>

definition names_ok :: "(int \<Rightarrow> string) \<Rightarrow> bool" where
  "names_ok name \<longleftrightarrow> (\<forall>t. word_text (name t)) \<and> (\<forall>t u. atoi (name t) = Some u \<and> owns_table u \<longrightarrow> u = t) \<and>
     (\<forall>t. owns_table t \<longrightarrow> name t = int_text t)"

lemma rule_marks_entry:
  assumes "e \<in> set (rule_marks (rule_show name k))" "\<And>t. word_text (name t)" "kernel_ok k" "owns_mark (fst e)"
  shows "snd e = name (table_of (fst e))"
proof -
  have "map_of (rule_marks (rule_show name k)) (fst e) = Some (snd e)"
    using assms(1) by (simp add: rule_marks_def)
  then have "marked (fst e) (rk_rules k) \<noteq> [] \<and> snd e = name (ru_table (last (marked (fst e) (rk_rules k))))"
    unfolding rule_marks_exact [OF assms(2)] by (auto split: if_splits)
  moreover have "marked (fst e) (rk_rules k) = [] \<or> marked (fst e) (rk_rules k) = [own_rule (fst e)]"
    using assms(3,4) by (simp add: kernel_ok_def ours_ok_def)
  ultimately show ?thesis by auto
qed

lemma prune_cmd:
  assumes "names_ok name" "kernel_ok k" "e \<in> set (rule_marks (rule_show name k))" "c \<in> set (prune_cmds hops e)"
  obtains m where "owns_mark m" "owns_table (table_of m)" "m \<notin> set (map hp_mark hops)" "c = RuleDel m (table_of m) \<or> c = RouteFlush (table_of m)"
proof -
  obtain t where t: "atoi (snd e) = Some t" "owns_table t" "owns_mark (fst e)" "fst e \<notin> set (map hp_mark hops)" "c = RuleDel (fst e) t \<or> c = RouteFlush t"
    using assms(4) by (cases "atoi (snd e)") (auto simp: prune_cmds_def split: if_splits)
  have "snd e = name (table_of (fst e))"
    using assms(1) t(3) by (intro rule_marks_entry [OF assms(3) _ assms(2)]) (auto simp: names_ok_def)
  then have "t = table_of (fst e)" using assms(1) t(1,2) unfolding names_ok_def by metis
  then show thesis using t that by blast
qed

lemma prune_keeps:
  assumes "names_ok name" "kernel_ok k" "hops_ok hops"
  shows "kernel_ok (prune_rules name w hops k) \<and> same_others k (prune_rules name w hops k)"
    and "h \<in> set hops \<Longrightarrow> hop_seen h (prune_rules name w hops k) = hop_seen h k"
proof -
  let ?cs = "concat (map (prune_cmds hops) (rule_marks (rule_show name k)))"
  have c: "\<exists>m. owns_mark m \<and> owns_table (table_of m) \<and> m \<notin> set (map hp_mark hops) \<and> (c = RuleDel m (table_of m) \<or> c = RouteFlush (table_of m))"
    if "c \<in> set ?cs" for c
    using that prune_cmd [OF assms(1,2)] by auto metis
  have "list_all cmd_ours ?cs" unfolding list_all_iff
  proof
    fix c assume "c \<in> set ?cs"
    then show "cmd_ours c" using c [of c] by auto
  qed
  then show "kernel_ok (prune_rules name w hops k) \<and> same_others k (prune_rules name w hops k)"
    using run_loose_ours [OF assms(2)] assms(2) by (simp add: prune_rules_def)
  show "hop_seen h (prune_rules name w hops k) = hop_seen h k" if h: "h \<in> set hops"
  proof -
    have "\<not> touches (hp_mark h) (hp_table h) c" if cc: "c \<in> set ?cs" for c
    proof -
      obtain m where m: "owns_mark m" "m \<notin> set (map hp_mark hops)" "c = RuleDel m (table_of m) \<or> c = RouteFlush (table_of m)"
        using c [OF cc] by blast
      then have "m \<noteq> hp_mark h" using h by auto
      moreover have "table_of m \<noteq> hp_table h"
        using calculation hops_ok_owned [OF assms(3) h] table_of_inj [OF m(1)] by auto
      ultimately show ?thesis using m(3) by auto
    qed
    then show ?thesis using run_loose_frame [of ?cs "hp_mark h" "hp_table h"] by (simp add: prune_rules_def hop_seen_def)
  qed
qed

section \<open>Running the plan\<close>

lemma run_loose_append: "run_loose w (as @ bs) k = run_loose w bs (run_loose w as k)"
  by (induction as arbitrary: k) simp_all

lemma removes_run:
  assumes "\<And>c. \<not> tl_fails w c" "hops_ok hops" "distinct hs" "set hs \<subseteq> set hops" "kernel_ok k" "h \<in> set hs"
  shows "marked (hp_mark h) (rk_rules (run_loose w (concat (map hop_removes hs)) k)) = []"
    and "\<not> hop_leads h \<Longrightarrow> hop_seen h (run_loose w (concat (map hop_removes hs)) k) = ([], False, [])"
proof -
  obtain as bs where split: "hs = as @ h # bs" using assms(6) by (meson split_list)
  have hh: "h \<in> set hops" using assms(4,6) by blast
  note own = hops_ok_owned [OF assms(2) hh]
  let ?m = "hp_mark h" and ?t = "hp_table h"
  let ?k1 = "run_loose w (concat (map hop_removes as)) k"
  have "list_all cmd_ours (concat (map hop_removes as))"
    using hop_cmds_ours [OF assms(2)] assms(4) split by (auto simp: list_all_iff)
  then have ok: "kernel_ok ?k1" using run_loose_ours [OF assms(5)] by blast
  have gone: "marked ?m (drop_rule ?m ?t (rk_rules ?k1)) = []"
    using ok own by (auto simp: marked_drop kernel_ok_def ours_ok_def rule_is_def)
  have none: "marked ?m (rk_rules ?k1) = []" if "\<not> list_ex (rule_is ?m ?t) (rk_rules ?k1)"
  proof (rule ccontr)
    assume "marked ?m (rk_rules ?k1) \<noteq> []"
    then have "marked ?m (rk_rules ?k1) = [own_rule ?m]" using ok own by (auto simp: kernel_ok_def ours_ok_def)
    then have "own_rule ?m \<in> set (filter (\<lambda>r. ru_mark r = Some ?m) (rk_rules ?k1))" by (simp add: marked_def)
    then show False using that own by (auto simp: list_ex_iff rule_is_def)
  qed
  have rem: "hop_removes h = RuleDel ?m ?t # (if hop_leads h then [] else [RouteFlush ?t])" using own by (simp add: hop_removes_def)
  have here: "marked ?m (rk_rules (run_loose w (hop_removes h) ?k1)) = []"
    "\<not> hop_leads h \<Longrightarrow> hop_seen h (run_loose w (hop_removes h) ?k1) = ([], False, [])"
    unfolding rem using assms(1) gone none by (auto simp: try_ip_def hop_seen_def seen_def set_via_def)
  have after: "\<not> touches ?m ?t c" if c: "c \<in> set (concat (map hop_removes bs))" for c
  proof -
    obtain g where g: "g \<in> set bs" "c \<in> set (hop_removes g)" using c by auto
    have "h \<noteq> g" "g \<in> set hops" using g(1) assms(3,4) split by auto
    then have "hp_mark h \<noteq> hp_mark g \<and> hp_table h \<noteq> hp_table g" using hops_apart [OF assms(2) hh] by blast
    then show ?thesis using g(2) by (auto simp: hop_removes_def split: if_splits)
  qed
  have whole: "run_loose w (concat (map hop_removes hs)) k = run_loose w (concat (map hop_removes bs)) (run_loose w (hop_removes h) ?k1)"
    by (simp add: split run_loose_append)
  have frame: "seen ?m ?t (run_loose w (concat (map hop_removes bs)) (run_loose w (hop_removes h) ?k1)) = seen ?m ?t (run_loose w (hop_removes h) ?k1)"
    by (rule run_loose_frame) (use after in blast)
  show "marked ?m (rk_rules (run_loose w (concat (map hop_removes hs)) k)) = []"
    using here(1) frame unfolding whole by (simp add: seen_def)
  show "hop_seen h (run_loose w (concat (map hop_removes hs)) k) = ([], False, [])" if "\<not> hop_leads h"
    using here(2) [OF that] frame unfolding whole by (simp add: hop_seen_def)
qed

text \<open>The plan as a whole, when it ends without an error.\<close>

lemma plan_run:
  assumes "hops_ok hops" "kernel_ok k" "run_adds w (snd (build_plan hops)) False (run_loose w (fst (build_plan hops)) k) = (None, d, k')"
  shows "h \<in> set hops \<Longrightarrow> hop_leads h \<Longrightarrow> hop_seen h k' = hop_done w (run_loose w (fst (build_plan hops)) k) h"
    and "h \<in> set hops \<Longrightarrow> \<not> hop_leads h \<Longrightarrow> (\<And>c. \<not> tl_fails w c) \<Longrightarrow> hop_seen h k' = ([], False, [])"
proof -
  let ?hs = "sort_key hp_mark hops" and ?k1 = "run_loose w (fst (build_plan hops)) k"
  have plan: "fst (build_plan hops) = concat (map hop_removes ?hs)" "snd (build_plan hops) = concat (map hop_adds ?hs)"
    by (simp_all add: build_plan_def Let_def)
  have d: "distinct ?hs" "set ?hs \<subseteq> set hops" using assms(1) by (auto simp: hops_ok_def distinct_map)
  have ok: "kernel_ok ?k1" using run_loose_ours [OF assms(2)] plan_ours [OF assms(1)] by blast
  note adds = adds_run [OF assms(3) [unfolded plan(2)] assms(1) d(2,1) ok]
  show "hop_seen h k' = hop_done w ?k1 h" if "h \<in> set hops" "hop_leads h" using adds that by simp
  show "hop_seen h k' = ([], False, [])" if h: "h \<in> set hops" "\<not> hop_leads h" "\<And>c. \<not> tl_fails w c"
  proof -
    have "hp_mark h \<noteq> hp_mark g \<and> hp_table h \<noteq> hp_table g" if "g \<in> set ?hs" "hop_leads g" for g
      using hops_apart [OF assms(1) h(1), of g] that h(2) by auto
    then have "hop_seen h k' = hop_seen h ?k1" using adds unfolding hop_seen_def by blast
    also have "\<dots> = ([], False, [])" unfolding plan(1)
      by (rule removes_run(2) [OF h(3) assms(1) d assms(2) _ h(2)]) (use h(1) in simp)
    finally show ?thesis .
  qed
qed

section \<open>The fingerprint of a plan\<close>

lemma hex_mark_word: "word_text (hex_mark m)"
  using hex8_chars [of _ m] by (auto simp: word_text_def hex_mark_def go_space_def)

lemma literal_words: "word_text ''rule''" "word_text ''del''" "word_text ''add''" "word_text ''fwmark''" "word_text ''table''" "word_text ''priority''"
  "word_text ''route''" "word_text ''replace''" "word_text ''unreachable''" "word_text ''default''" "word_text ''metric''" "word_text ''4294967295''"
  "word_text ''dev''" "word_text ''nexthop''" "word_text ''weight''" "word_text ''1''"
  by (simp_all add: word_text_def go_space_def)

lemma plan_args_words:
  assumes "hops_ok hops" "s \<in> set (snd (build_plan hops))"
  shows "list_all word_text (ip_args (st_cmd s))"
proof -
  obtain h where h: "h \<in> set hops" "s \<in> set (hop_adds h)" using assms(2) by (auto simp: build_plan_def Let_def)
  then have l: "hop_leads h" by (auto simp: hop_adds_def split: if_splits)
  then have d: "list_all word_text (hop_devs h)" using assms(1) h(1) by (auto simp: hops_ok_def)
  have "list_all word_text (ip_args (hop_route h))"
    using d by (auto simp: hop_route_def hop_devs_def list_all_iff int_text_word literal_words)
  then show ?thesis using h(2) by (auto simp: hop_adds_def strict_def int_text_word hex_mark_word literal_words split: if_splits)
qed

lemma fingerprint_args:
  assumes "hops_ok hops" "hops_ok hops'" "plan_fingerprint (snd (build_plan hops)) = plan_fingerprint (snd (build_plan hops'))"
  shows "map (\<lambda>s. ip_args (st_cmd s)) (snd (build_plan hops)) = map (\<lambda>s. ip_args (st_cmd s)) (snd (build_plan hops'))"
proof -
  let ?ls = "\<lambda>hops. map (\<lambda>s. join '' '' (ip_args (st_cmd s))) (snd (build_plan hops))"
  have "\<forall>l \<in> set (?ls hops). CHR 0x0A \<notin> set l" if "hops_ok hops" for hops
  proof
    fix l assume "l \<in> set (?ls hops)"
    then obtain s where s: "s \<in> set (snd (build_plan hops))" "l = join '' '' (ip_args (st_cmd s))" by auto
    have "\<forall>w \<in> set (ip_args (st_cmd s)). CHR 0x0A \<notin> set w"
      using plan_args_words [OF that s(1)] word_no_newline by (auto simp: list_all_iff)
    then show "CHR 0x0A \<notin> set l" unfolding s(2) by (rule join_no_newline)
  qed
  then have "?ls hops = ?ls hops'"
    using lines_inj [of "?ls hops" "?ls hops'"] assms by (simp add: plan_fingerprint_def comp_def)
  then have e: "map split_words (?ls hops) = map split_words (?ls hops')" by (rule arg_cong)
  have w: "map split_words (?ls hops) = map (\<lambda>s. ip_args (st_cmd s)) (snd (build_plan hops))" if "hops_ok hops" for hops
    using plan_args_words [OF that] by (simp add: fields_join)
  show ?thesis using e unfolding w [OF assms(1)] w [OF assms(2)] .
qed

lemma hop_add_in: "hops_ok hops \<Longrightarrow> h \<in> set hops \<Longrightarrow> hop_leads h \<Longrightarrow>
    strict (RuleAdd (hp_mark h) (hp_table h) (rule_priority (hp_mark h))) \<in> set (snd (build_plan hops))"
  using hops_ok_owned [of hops h] by (auto simp: build_plan_def Let_def hop_adds_def intro!: bexI [of _ h])

lemma fingerprint_leads:
  assumes "hops_ok hops" "hops_ok hops'" "plan_fingerprint (snd (build_plan hops)) = plan_fingerprint (snd (build_plan hops'))"
    and "h \<in> set hops" "hop_leads h"
  obtains h' where "h' \<in> set hops'" "hop_leads h'" "hp_mark h' = hp_mark h" "hp_table h' = hp_table h"
proof -
  let ?m = "hp_mark h" and ?t = "hp_table h"
  let ?args = "ip_args (RuleAdd ?m ?t (rule_priority ?m))"
  have "?args \<in> set (map (\<lambda>s. ip_args (st_cmd s)) (snd (build_plan hops)))"
    using hop_add_in [OF assms(1,4,5)] by (force simp: strict_def)
  then obtain s h' where s: "s \<in> set (hop_adds h')" "h' \<in> set hops'" "ip_args (st_cmd s) = ?args"
    unfolding fingerprint_args [OF assms(1-3)] by (auto simp: build_plan_def Let_def)
  then have l: "hop_leads h'" and "hex_mark (hp_mark h') = hex_mark ?m"
    by (auto simp: hop_adds_def strict_def hop_route_def split: if_splits)
  then have "hp_mark h' = ?m" by (simp add: hex_mark_def)
  moreover have "hp_table h' = ?t"
    using hops_ok_owned [OF assms(1,4)] hops_ok_owned [OF assms(2) s(2)] calculation by simp
  ultimately show thesis using that s(2) l by blast
qed

lemma no_plan_no_leads: "hops_ok hops \<Longrightarrow> plan_fingerprint (snd (build_plan hops)) = [] \<Longrightarrow> h \<in> set hops \<Longrightarrow> \<not> hop_leads h"
  using hop_add_in [of hops h] by (auto simp: plan_fingerprint_def line_def)

lemma present_rule:
  assumes "rules_present name w (snd (build_plan hops)) k" "tl_rules w" "names_ok name" "kernel_ok k" "hops_ok hops" "h \<in> set hops" "hop_leads h"
  shows "marked (hp_mark h) (rk_rules k) = [own_rule (hp_mark h)]"
proof -
  let ?m = "hp_mark h"
  have "add_present (rule_marks (rule_show name k)) (ip_args (RuleAdd ?m (hp_table h) (rule_priority ?m)))"
    using assms(1,2) hop_add_in [OF assms(5-7)] by (auto simp: rules_present_def list_all_iff strict_def)
  moreover have "int_text (hp_table h) \<noteq> ''''" using int_text_word(1) [of "hp_table h"] by (simp add: word_text_def)
  ultimately have "map_of (rule_marks (rule_show name k)) ?m \<noteq> None"
    by (auto simp: add_present_def scan_hex_mark split: option.splits)
  moreover have "\<And>t. word_text (name t)" using assms(3) by (simp add: names_ok_def)
  ultimately have "marked ?m (rk_rules k) \<noteq> []" using rule_marks_exact [of name k ?m] by (auto split: if_splits)
  then show ?thesis using assms(4) hops_ok_owned [OF assms(5,6)] by (auto simp: kernel_ok_def ours_ok_def)
qed

section \<open>Applying, again and again\<close>

definition applier_ok :: "applier \<times> router_kernel \<Rightarrow> bool" where
  "applier_ok s \<longleftrightarrow> kernel_ok (snd s) \<and> (al_plan (fst s) \<noteq> [] \<longrightarrow>
     (\<exists>hops. hops_ok hops \<and> al_plan (fst s) = plan_fingerprint (snd (build_plan hops)) \<and>
       (\<forall>h \<in> set hops. hop_leads h \<longrightarrow> rk_floor (snd s) (hp_table h))))"

text \<open>A hop is in place: its rule is the one of its mark, and its table has its floor.\<close>

definition hop_in :: "router_kernel \<Rightarrow> hop \<Rightarrow> bool" where
  "hop_in k h \<longleftrightarrow> marked (hp_mark h) (rk_rules k) = [own_rule (hp_mark h)] \<and> rk_floor k (hp_table h)"

lemma apply_plan_cases:
  assumes "apply_plan name w hops (a, k) = (e, a', k')"
  defines "k1 \<equiv> (if hops_fingerprint hops \<noteq> al_pruned a then prune_rules name w hops k else k)"
    and "fp \<equiv> plan_fingerprint (snd (build_plan hops))"
  obtains (same) "fp = al_plan a" "rules_present name w (snd (build_plan hops)) k1" "e = None" "al_plan a' = al_plan a" "k' = k1"
  | (run) d where "run_adds w (snd (build_plan hops)) False (run_loose w (fst (build_plan hops)) k1) = (e, d, k')"
      "al_plan a' = (if e = None \<and> \<not> d then fp else [])"
proof -
  let ?adds = "snd (build_plan hops)" and ?a1 = "a\<lparr>al_pruned := hops_fingerprint hops\<rparr>"
  let ?run = "run_adds w ?adds False (run_loose w (fst (build_plan hops)) k1)"
  obtain e2 d k2 where r: "?run = (e2, d, k2)" by (metis prod_cases3)
  obtain rm ad where bp: "build_plan hops = (rm, ad)" by (metis surj_pair)
  note r' = r [unfolded bp fst_conv snd_conv]
  have u: "(e, a', k') = (if fp = al_plan a \<and> rules_present name w ?adds k1 then (None, ?a1, k1)
      else case (e2, d, k2) of
          (Some e, _, k2) \<Rightarrow> (Some e, ?a1\<lparr>al_err := Some e, al_plan := []\<rparr>, k2)
        | (None, down, k2) \<Rightarrow> (None, ?a1\<lparr>al_plan := (if down then [] else fp), al_ready := True, al_err := None\<rparr>, k2))"
    unfolding assms(1) [symmetric] apply_plan_def Let_def prod.case fp_def bp fst_conv snd_conv k1_def [symmetric] r' ..
  show thesis
  proof (cases "fp = al_plan a \<and> rules_present name w ?adds k1")
    case True
    then show thesis using u same by simp
  next
    case False
    note u' = u [unfolded if_not_P [OF False]]
    show thesis
    proof (cases e2)
      case None
      show thesis by (rule run [of d]) (use u' r None in simp_all)
    next
      case (Some x)
      show thesis by (rule run [of d]) (use u' r Some in simp_all)
    qed
  qed
qed

lemma apply_plan_others:
  assumes "apply_plan name w hops (a, k) = (e, a', k')"
  shows "same_others k k'"
proof -
  define k1 where "k1 = (if hops_fingerprint hops \<noteq> al_pruned a then prune_rules name w hops k else k)"
  have k1: "same_others k k1" using prune_others by (simp add: k1_def)
  from assms show ?thesis
  proof (cases rule: apply_plan_cases)
    case same
    then show ?thesis using k1 by (simp add: k1_def)
  next
    case (run d)
    note r = run(1) [folded k1_def]
    have "same_others k1 (run_loose w (fst (build_plan hops)) k1)" using run_loose_others plan_owned by blast
    moreover have "same_others (run_loose w (fst (build_plan hops)) k1) k'" using run_adds_others [OF r] plan_owned by blast
    ultimately show ?thesis using k1 same_others_trans by blast
  qed
qed

lemma apply_policy_others:
  assumes "apply_policy pfx name w p (a, k) = (e, a', k')"
  shows "same_others k k'"
proof (cases "policy_ruleset pfx p")
  case (Inl x)
  then show ?thesis using assms by (simp add: apply_policy_def)
next
  case (Inr script)
  let ?same = "script = al_applied a \<and> has_table w (rk_policy k)"
  define s0 where "s0 = (if ?same then (a, k) else (a\<lparr>al_applied := script\<rparr>, k\<lparr>rk_policy := Some script\<rparr>))"
  obtain e1 a1 k1 where n: "apply_nat pfx w p s0 = (e1, a1, k1)" by (metis prod_cases3)
  have "same_others k (snd s0)" by (simp add: s0_def same_others_def)
  moreover have "same_others (snd s0) k1"
    using n by (cases s0) (auto simp: apply_nat_def Let_def same_others_def split: if_splits)
  moreover have "k' = k \<or> k' = k1 \<or> apply_plan name w (po_hops p) (a1, k1) = (e, a', k')"
    using assms Inr n unfolding apply_policy_def Let_def s0_def by (auto split: option.splits if_splits)
  ultimately show ?thesis using apply_plan_others [of name w "po_hops p" a1 k1 e a' k'] same_others_trans same_others_refl by metis
qed

lemma teardown_others:
  assumes "teardown w hops (a, k) = (e, a', k')"
  shows "same_others k k'"
proof -
  let ?cs = "concat (map (\<lambda>h. if owns_mark (hp_mark h) \<and> owns_table (hp_table h)
      then [RuleDel (hp_mark h) (hp_table h), RouteFlush (hp_table h)] else []) hops)"
  have "list_all cmd_owned ?cs" by (auto simp: list_all_iff)
  from run_loose_others [OF this] show ?thesis
    using assms by (auto simp: teardown_def Let_def same_others_def split: if_splits)
qed

lemma apply_plan_keeps:
  assumes "apply_plan name w hops (a, k) = (e, a', k')" "applier_ok (a, k)" "hops_ok hops" "names_ok name"
  shows "applier_ok (a', k') \<and> same_others k k' \<and>
    (e = None \<and> tl_rules w \<longrightarrow> (\<forall>h \<in> set hops. hop_leads h \<longrightarrow> hop_in k' h))"
proof -
  define k1 where "k1 = (if hops_fingerprint hops \<noteq> al_pruned a then prune_rules name w hops k else k)"
  have ok: "kernel_ok k" using assms(2) by (simp add: applier_ok_def)
  have ok1: "kernel_ok k1" "same_others k k1" "\<And>h. h \<in> set hops \<Longrightarrow> hop_seen h k1 = hop_seen h k"
    using prune_keeps [OF assms(4) ok assms(3)] ok by (auto simp: k1_def)
  from assms(1) show ?thesis
  proof (cases rule: apply_plan_cases)
    case same
    note same = same [folded k1_def]
    have "rk_floor k1 (hp_table h)" if h: "h \<in> set hops" "hop_leads h" for h
    proof -
      have ne: "al_plan a \<noteq> []" using no_plan_no_leads [OF assms(3) _ h(1)] h(2) same(1) by auto
      then obtain old where old: "hops_ok old" "al_plan a = plan_fingerprint (snd (build_plan old))" "\<forall>g \<in> set old. hop_leads g \<longrightarrow> rk_floor k (hp_table g)"
        using assms(2) by (auto simp: applier_ok_def)
      obtain g where "g \<in> set old" "hop_leads g" "hp_table g = hp_table h"
        using fingerprint_leads [OF assms(3) old(1) _ h] same(1) old(2) by metis
      then show ?thesis using old(3) ok1(3) [OF h(1)] by (auto simp: hop_seen_def seen_def)
    qed
    moreover have "marked (hp_mark h) (rk_rules k1) = [own_rule (hp_mark h)]" if "h \<in> set hops" "hop_leads h" "tl_rules w" for h
      by (rule present_rule [OF same(2) that(3) assms(4) ok1(1) assms(3) that(1,2)])
    ultimately show ?thesis using same ok1 assms(3) by (auto simp: applier_ok_def hop_in_def)
  next
    case (run d)
    note run = run [folded k1_def]
    let ?k2 = "run_loose w (fst (build_plan hops)) k1"
    have k2: "kernel_ok ?k2 \<and> same_others k1 ?k2" using run_loose_ours [OF ok1(1)] plan_ours [OF assms(3)] by blast
    have k': "kernel_ok k'" "same_others k k'"
      using run_adds_ours [OF run(1)] k2 plan_ours [OF assms(3)] ok1(2) same_others_trans by blast+
    have "hop_in k' h" if "e = None" "h \<in> set hops" "hop_leads h" for h
      using plan_run(1) [OF assms(3) ok1(1) _ that(2,3)] run(1) that(1) by (simp add: hop_in_def hop_seen_def seen_def hop_done_def)
    then show ?thesis using k' run(2) assms(3) by (auto simp: applier_ok_def hop_in_def split: if_splits)
  qed
qed

text \<open>The two nftables tables are beside this.\<close>

lemma applier_ok_fields:
  "applier_ok (a\<lparr>al_applied := x\<rparr>, k\<lparr>rk_policy := y\<rparr>) = applier_ok (a, k)"
  "applier_ok (a\<lparr>al_nat := x\<rparr>, k\<lparr>rk_nat := y\<rparr>) = applier_ok (a, k)"
  by (simp_all add: applier_ok_def kernel_ok_def)

lemma same_others_fields [simp]:
  "same_others k (k\<lparr>rk_policy := y\<rparr>)" "same_others k (k\<lparr>rk_nat := y\<rparr>)"
  by (simp_all add: same_others_def)

lemma apply_nat_keeps:
  assumes "apply_nat pfx w p (a, k) = (e, a', k')"
  shows "applier_ok (a', k') = applier_ok (a, k) \<and> same_others k k'"
  using assms by (auto simp: apply_nat_def Let_def applier_ok_fields split: if_splits)

lemma apply_policy_keeps:
  assumes "apply_policy pfx name w p (a, k) = (e, a', k')" "applier_ok (a, k)" "hops_ok (po_hops p)" "names_ok name"
  shows "applier_ok (a', k') \<and> same_others k k' \<and>
    (e = None \<and> tl_rules w \<longrightarrow> (\<forall>h \<in> set (po_hops p). hop_leads h \<longrightarrow> hop_in k' h))"
proof (cases "policy_ruleset pfx p")
  case (Inl x)
  then show ?thesis using assms by (auto simp: apply_policy_def)
next
  case (Inr script)
  let ?same = "script = al_applied a \<and> has_table w (rk_policy k)"
  show ?thesis
  proof (cases "\<not> ?same \<and> \<not> tl_nft w script")
    case True
    then show ?thesis using assms Inr by (auto simp add: apply_policy_def)
  next
    case False
    define s0 where "s0 = (if ?same then (a, k) else (a\<lparr>al_applied := script\<rparr>, k\<lparr>rk_policy := Some script\<rparr>))"
    obtain e1 a1 k1 where n: "apply_nat pfx w p s0 = (e1, a1, k1)" by (metis prod_cases3)
    have s0: "applier_ok (fst s0, snd s0)" "same_others k (snd s0)"
      using assms(2) by (auto simp: s0_def applier_ok_fields)
    have k1: "applier_ok (a1, k1)" "same_others k k1"
      using apply_nat_keeps [of _ w p "fst s0" "snd s0"] n s0 same_others_trans by auto
    have r: "(e, a', k') = (case e1 of Some x \<Rightarrow> (Some x, a1, k1) | None \<Rightarrow> apply_plan name w (po_hops p) (a1, k1))"
      using assms(1) Inr False n unfolding apply_policy_def Let_def s0_def by (auto split: option.splits)
    show ?thesis
    proof (cases e1)
      case None
      then have "apply_plan name w (po_hops p) (a1, k1) = (e, a', k')" using r by simp
      note keeps = apply_plan_keeps [OF this k1(1) assms(3,4)]
      then have "same_others k k'" using k1(2) same_others_trans by blast
      then show ?thesis using keeps by blast
    next
      case (Some x)
      then show ?thesis using r k1 by simp
    qed
  qed
qed

section \<open>Every run\<close>

text \<open>
  Between two calls of Apply devices come and go, others change what is theirs, and may take the panel's
  rules and tables of nftables away; the panel may be started again.
\<close>

definition devices_now :: "string list \<Rightarrow> router_kernel \<Rightarrow> router_kernel" where
  "devices_now ds k = k\<lparr>rk_devs := ds, rk_via := (\<lambda>t. if set (rk_via k t) \<subseteq> set ds then rk_via k t else [])\<rparr>"

definition others_change :: "router_kernel \<Rightarrow> router_kernel \<Rightarrow> bool" where
  "others_change k k' \<longleftrightarrow> sorted (map ru_prio (rk_rules k')) \<and> rk_devs k' = rk_devs k \<and>
     (\<forall>m. owns_mark m \<longrightarrow> marked m (rk_rules k') = [] \<or> marked m (rk_rules k') = marked m (rk_rules k)) \<and>
     (\<forall>t. owns_table t \<longrightarrow> rk_via k' t = rk_via k t \<and> rk_floor k' t = rk_floor k t)"

inductive router_run :: "(prefix \<Rightarrow> string) \<Rightarrow> (int \<Rightarrow> string) \<Rightarrow> applier \<times> router_kernel \<Rightarrow> bool" for pfx name where
  started: "kernel_ok k \<Longrightarrow> router_run pfx name (new_applier, k)"
| applied: "router_run pfx name (a, k) \<Longrightarrow> hops_ok (po_hops p) \<Longrightarrow> apply_policy pfx name w p (a, k) = (e, a', k') \<Longrightarrow> router_run pfx name (a', k')"
| devices: "router_run pfx name (a, k) \<Longrightarrow> router_run pfx name (a, devices_now ds k)"
| others_did: "router_run pfx name (a, k) \<Longrightarrow> others_change k k' \<Longrightarrow> router_run pfx name (a, k')"
| restarted: "router_run pfx name (a, k) \<Longrightarrow> router_run pfx name (new_applier, k)"

inductive_cases router_runE: "router_run pfx name (a, k)"

lemma others_change_ok:
  assumes "others_change k k'" "applier_ok (a, k)"
  shows "applier_ok (a, k')"
proof -
  have "marked m (rk_rules k') = [] \<or> marked m (rk_rules k') = [own_rule m]" if "owns_mark m" for m
  proof -
    have "marked m (rk_rules k) = [] \<or> marked m (rk_rules k) = [own_rule m]"
      using assms(2) that by (simp add: applier_ok_def kernel_ok_def ours_ok_def)
    moreover have "marked m (rk_rules k') = [] \<or> marked m (rk_rules k') = marked m (rk_rules k)"
      using assms(1) that by (simp add: others_change_def)
    ultimately show ?thesis by auto
  qed
  then have "kernel_ok k'" using assms(1) by (simp add: kernel_ok_def ours_ok_def others_change_def)
  moreover have fl: "rk_floor k' (hp_table h) = rk_floor k (hp_table h)" if "hops_ok hops" "h \<in> set hops" for h hops
    using hops_ok_owned [OF that] assms(1) unfolding others_change_def by blast
  ultimately show ?thesis using assms(2) by (auto simp: applier_ok_def)
qed

lemma router_run_ok: "router_run pfx name s \<Longrightarrow> names_ok name \<Longrightarrow> applier_ok s"
proof (induction rule: router_run.induct)
  case (applied a k p w e a' k')
  then show ?case using apply_policy_keeps by blast
next
  case (others_did a k k')
  then show ?case using others_change_ok by blast
qed (auto simp: applier_ok_def new_applier_def kernel_ok_def devices_now_def)

lemma look_up_first:
  assumes "\<And>x. x \<in> set pre \<Longrightarrow> rule_for m x \<Longrightarrow> table_verdict k (ru_table x) = NoRoute" "rule_for m r" "table_verdict k (ru_table r) \<noteq> NoRoute"
  shows "look_up k (pre @ r # post) m = table_verdict k (ru_table r)"
  using assms by (induction pre) auto

text \<open>No rule for every packet comes before the one of the mark with a route in its table.\<close>

definition asked_first :: "router_kernel \<Rightarrow> u32 \<Rightarrow> bool" where
  "asked_first k m \<longleftrightarrow> list_all (\<lambda>r. ru_mark r = None \<and> ru_prio r \<le> rule_priority m \<longrightarrow> table_verdict k (ru_table r) = NoRoute) (rk_rules k)"

lemma hop_route_of:
  assumes "kernel_ok k" "hop_in k h" "hp_table h = table_of (hp_mark h)" "asked_first k (hp_mark h)"
  shows "route_of k (hp_mark h) = (if rk_via k (hp_table h) \<noteq> [] then Leaves (rk_via k (hp_table h)) else Refused)"
proof -
  let ?m = "hp_mark h" and ?rs = "rk_rules k"
  have one: "filter (\<lambda>r. ru_mark r = Some ?m) ?rs = [own_rule ?m]" using assms(2) by (simp add: hop_in_def marked_def)
  then have "own_rule ?m \<in> set (filter (\<lambda>r. ru_mark r = Some ?m) ?rs)" by simp
  then have "own_rule ?m \<in> set ?rs" by simp
  then obtain pre post where sp: "?rs = pre @ own_rule ?m # post" "own_rule ?m \<notin> set pre" by (meson split_list_first)
  have v: "table_verdict k (hp_table h) = (if rk_via k (hp_table h) \<noteq> [] then Leaves (rk_via k (hp_table h)) else Refused)"
    using assms(2) by (simp add: table_verdict_def hop_in_def)
  have "table_verdict k (ru_table x) = NoRoute" if x: "x \<in> set pre" "rule_for ?m x" for x
  proof -
    have "x \<in> set ?rs" using x(1) sp(1) by simp
    moreover have "ru_mark x \<noteq> Some ?m"
    proof
      assume "ru_mark x = Some ?m"
      then have "x \<in> set (filter (\<lambda>r. ru_mark r = Some ?m) ?rs)" using \<open>x \<in> set ?rs\<close> by simp
      then show False using sp(2) x(1) unfolding one by simp
    qed
    moreover have "ru_prio x \<le> rule_priority ?m"
      using assms(1) x(1) unfolding kernel_ok_def sp(1) by (simp add: sorted_append)
    ultimately show ?thesis using assms(4) x(2) by (auto simp: asked_first_def list_all_iff rule_for_def)
  qed
  then have "look_up k ?rs ?m = table_verdict k (table_of ?m)"
    using look_up_first [of pre ?m k "own_rule ?m" post] v assms(3) unfolding sp(1) by (simp add: rule_for_def)
  then show ?thesis using v assms(3) by (simp add: route_of_def)
qed

text \<open>
  The rule of a hop is asked before the main table's, which the kernel asks at 32766: so it is for every
  outbound whose id is below 12766. Before that nobody else has a rule for every packet in a table with a
  default route, or in one of the panel's: of the kernel's own only the local table stands there.
\<close>

definition before_main :: "hop \<Rightarrow> bool" where
  "before_main h \<longleftrightarrow> rule_priority (hp_mark h) < 32766"

definition clear_before_main :: "router_kernel \<Rightarrow> bool" where
  "clear_before_main k \<longleftrightarrow> list_all (\<lambda>r. ru_mark r = None \<and> ru_prio r < 32766 \<longrightarrow>
     \<not> owns_table (ru_table r) \<and> table_verdict k (ru_table r) = NoRoute) (rk_rules k)"

lemma outbound_before_main:
  "allocate_mark i = Some (m, t) \<Longrightarrow> i < 12766 \<Longrightarrow> hp_mark h = m \<Longrightarrow> before_main h"
  using marks_apart [of i m t i m t] by (simp add: before_main_def word_less_def)

lemma clear_asked_first:
  assumes "same_others k k'" "clear_before_main k" "before_main h"
  shows "asked_first k' (hp_mark h)"
  unfolding asked_first_def list_all_iff
proof (intro ballI impI, elim conjE)
  fix r assume r: "r \<in> set (rk_rules k')" "ru_mark r = None" "ru_prio r \<le> rule_priority (hp_mark h)"
  then have "r \<in> set (others (rk_rules k'))" by (simp add: others_def panel_rule_def)
  then have k: "r \<in> set (rk_rules k)" using assms(1) by (simp add: same_others_def) (simp add: others_def)
  have "ru_prio r < 32766" using r(3) assms(3) by (simp add: before_main_def)
  then have "\<not> owns_table (ru_table r)" "table_verdict k (ru_table r) = NoRoute"
    using assms(2) k r(2) by (auto simp: clear_before_main_def list_all_iff)
  then show "table_verdict k' (ru_table r) = NoRoute"
    using assms(1) unfolding same_others_def table_verdict_def by metis
qed

text \<open>
  C16. In every run in which nobody but the panel has rules for its marks, after an Apply without an error
  in which the rules could be listed, what is marked for a hop of an outbound whose rule is asked before the
  main table's leaves through what the table of the hop names or is refused, when nobody else has a rule
  with a default route there: it never falls through to the server's own routes.
\<close>

theorem never_leaks:
  assumes "router_run pfx name (a, k)" "names_ok name" "hops_ok (po_hops p)" "tl_rules w"
    and "apply_policy pfx name w p (a, k) = (None, a', k')"
    and "h \<in> set (po_hops p)" "hop_leads h" "before_main h" "clear_before_main k"
  shows "route_of k' (hp_mark h) = (if rk_via k' (hp_table h) \<noteq> [] then Leaves (rk_via k' (hp_table h)) else Refused)"
proof -
  have ok: "applier_ok (a', k')" "hop_in k' h"
    using apply_policy_keeps [OF assms(5) router_run_ok [OF assms(1,2)] assms(3,2)] assms(4,6,7) by auto
  have "asked_first k' (hp_mark h)"
    by (rule clear_asked_first [OF apply_policy_others [OF assms(5)] assms(9,8)])
  then show ?thesis using ok hops_ok_owned [OF assms(3,6)] by (intro hop_route_of) (auto simp: applier_ok_def)
qed

text \<open>
  C18. Whatever stands in the kernel, whatever marks and tables the hops of a policy name and whatever
  fails, no Apply and no Teardown changes a rule of which not both the mark and the table are the panel's,
  the order of such rules, or a table that is not the panel's.
\<close>

theorem others_untouched:
  assumes "(e, a', k') \<in> {apply_policy pfx name w p (a, k), teardown w hops (a, k)}"
  shows "others (rk_rules k') = others (rk_rules k) \<and> (owns_table t \<or> rk_via k' t = rk_via k t \<and> rk_floor k' t = rk_floor k t)"
proof -
  have "apply_policy pfx name w p (a, k) = (e, a', k') \<or> teardown w hops (a, k) = (e, a', k')" using assms by auto
  then have "same_others k k'" using apply_policy_others teardown_others by blast
  then show ?thesis by (auto simp: same_others_def)
qed

section \<open>When nothing fails\<close>

lemma adds_succeed:
  assumes "\<And>c. \<not> tl_fails w c" "hops_ok hops" "set hs \<subseteq> set hops" "distinct hs" "\<forall>h \<in> set hs. marked (hp_mark h) (rk_rules k) = []"
  shows "\<exists>d k'. run_adds w (concat (map hop_adds hs)) down k = (None, d, k')"
  using assms(3-)
proof (induction hs arbitrary: down k)
  case (Cons g hs)
  let ?m = "hp_mark g"
  have g: "g \<in> set hops" "g \<notin> set hs" and hs: "set hs \<subseteq> set hops" "distinct hs" using Cons.prems by auto
  note own = hops_ok_owned [OF assms(2) g(1)]
  show ?case
  proof (cases "hop_leads g")
    case False
    then show ?thesis using Cons.IH [OF hs, of k down] Cons.prems(3) by (simp add: hop_adds_none)
  next
    case True
    have fresh: "own_rule ?m \<notin> set (rk_rules k)"
    proof
      assume "own_rule ?m \<in> set (rk_rules k)"
      then have "own_rule ?m \<in> set (marked ?m (rk_rules k))" by (simp add: marked_def)
      then show False using Cons.prems(3) by simp
    qed
    have three: "\<exists>d k'. run_adds w (strict (RuleAdd ?m (hp_table g) (rule_priority ?m)) # concat (map hop_adds hs)) down2 k2 = (None, d, k')"
      if "rk_rules k2 = rk_rules k" for down2 k2
    proof -
      have "\<forall>h \<in> set hs. marked (hp_mark h) (put_rule (own_rule ?m) (rk_rules k)) = []"
      proof
        fix h assume h: "h \<in> set hs"
        then have "hp_mark h \<noteq> ?m" using hops_apart [OF assms(2), of h g] g hs by blast
        then show "marked (hp_mark h) (put_rule (own_rule ?m) (rk_rules k)) = []" using Cons.prems(3) h by (simp add: marked_put)
      qed
      then have "\<exists>d k'. run_adds w (concat (map hop_adds hs)) down2 (k2\<lparr>rk_rules := put_rule (own_rule ?m) (rk_rules k)\<rparr>) = (None, d, k')"
        by (intro Cons.IH [OF hs]) simp
      moreover have "exec_ip (RuleAdd ?m (hp_table g) (rule_priority ?m)) k2 = Some (k2\<lparr>rk_rules := put_rule (own_rule ?m) (rk_rules k)\<rparr>)"
        using fresh own that by (simp add: own_rule_def)
      ultimately show ?thesis using assms(1) by (simp add: strict_def try_ip_def del: exec_ip.simps)
    qed
    have adds: "hop_adds g = [strict (RouteFloor (hp_table g)), \<lparr>st_cmd = hop_route g, st_tolerant = True\<rparr>, strict (RuleAdd ?m (hp_table g) (rule_priority ?m))]"
      using own True by (simp add: hop_adds_def)
    let ?k1 = "k\<lparr>rk_floor := (rk_floor k)(hp_table g := True)\<rparr>"
    have "\<exists>d k'. run_adds w (\<lparr>st_cmd = hop_route g, st_tolerant = True\<rparr> # strict (RuleAdd ?m (hp_table g) (rule_priority ?m)) # concat (map hop_adds hs)) down ?k1 = (None, d, k')"
      using three [of "set_via (hp_table g) (hop_devs g) ?k1" down] three [of ?k1 True] assms(1)
      by (simp add: try_ip_def hop_route_exec [OF True] set_via_def)
    then show ?thesis using assms(1) by (simp add: adds strict_def try_ip_def del: run_adds.simps(2)) (simp add: try_ip_def assms(1) strict_def)
  qed
qed simp

lemma plan_succeeds:
  assumes "\<And>c. \<not> tl_fails w c" "hops_ok hops" "kernel_ok k"
  shows "\<exists>d k'. run_adds w (snd (build_plan hops)) down (run_loose w (fst (build_plan hops)) k) = (None, d, k')"
proof -
  let ?hs = "sort_key hp_mark hops"
  have d: "distinct ?hs" "set ?hs \<subseteq> set hops" using assms(2) by (auto simp: hops_ok_def distinct_map)
  have "\<forall>h \<in> set ?hs. marked (hp_mark h) (rk_rules (run_loose w (concat (map hop_removes ?hs)) k)) = []"
    using removes_run(1) [OF assms(1,2) d assms(3)] by blast
  then show ?thesis using adds_succeed [OF assms(1,2) d(2,1)] by (simp add: build_plan_def Let_def)
qed

lemma apply_nat_taken:
  assumes "\<And>x. tl_nft w x"
  obtains a1 k1 where "apply_nat pfx w p (a, k) = (None, a1, k1)" "al_plan a1 = al_plan a" "applier_ok (a1, k1) = applier_ok (a, k)" "same_others k k1"
proof (cases "build_nat pfx True p = al_nat a \<and> has_table w (rk_nat k)")
  case True
  show thesis by (rule that [of a k]) (use True in \<open>simp_all add: apply_nat_def Let_def\<close>)
next
  case False
  have "apply_nat pfx w p (a, k) = (None, a\<lparr>al_nat := build_nat pfx True p\<rparr>, k\<lparr>rk_nat := Some (build_nat pfx True p)\<rparr>)"
    unfolding apply_nat_def Let_def prod.case if_not_P [OF False] by (simp add: assms)
  then show thesis by (rule that) (simp_all add: applier_ok_fields)
qed

lemma apply_policy_taken:
  assumes "\<And>x. tl_nft w x" "policy_ruleset pfx p = Inr script"
  obtains a1 k1 where "apply_policy pfx name w p (a, k) = apply_plan name w (po_hops p) (a1, k1)" "al_plan a1 = al_plan a"
    "applier_ok (a1, k1) = applier_ok (a, k)" "same_others k k1"
proof -
  let ?same = "script = al_applied a \<and> has_table w (rk_policy k)"
  define a0 where "a0 = (if ?same then a else a\<lparr>al_applied := script\<rparr>)"
  define k0 where "k0 = (if ?same then k else k\<lparr>rk_policy := Some script\<rparr>)"
  obtain a1 k1 where n: "apply_nat pfx w p (a0, k0) = (None, a1, k1)" "al_plan a1 = al_plan a0" "applier_ok (a1, k1) = applier_ok (a0, k0)" "same_others k0 k1"
    by (rule apply_nat_taken [OF assms(1)])
  have z: "(if ?same then (a, k) else (a\<lparr>al_applied := script\<rparr>, k\<lparr>rk_policy := Some script\<rparr>)) = (a0, k0)"
    by (simp add: a0_def k0_def)
  have c: "\<not> (\<not> ?same \<and> \<not> tl_nft w script)" using assms(1) by blast
  have "apply_policy pfx name w p (a, k) = apply_plan name w (po_hops p) (a1, k1)"
    unfolding apply_policy_def assms(2) sum.case Let_def prod.case if_not_P [OF c] z n(1) option.case ..
  moreover have "al_plan a0 = al_plan a" "applier_ok (a0, k0) = applier_ok (a, k)" "same_others k k0"
    by (simp_all add: a0_def k0_def applier_ok_fields)
  ultimately show thesis using that n(2-4) same_others_trans by metis
qed

lemma fresh_plan_installs:
  assumes "router_run pfx name (a, k)" "names_ok name" "hops_ok (po_hops p)" "policy_ruleset pfx p = Inr script"
    and "\<And>c. \<not> tl_fails w c" "\<And>x. tl_nft w x" "plan_fingerprint (snd (build_plan (po_hops p))) \<noteq> al_plan a"
  shows "\<exists>a' k'. apply_policy pfx name w p (a, k) = (None, a', k') \<and>
    (\<forall>h \<in> set (po_hops p). if hop_leads h
       then set (hop_devs h) \<subseteq> set (rk_devs k) \<and> before_main h \<and> clear_before_main k \<longrightarrow> route_of k' (hp_mark h) = Leaves (hop_devs h)
       else hop_seen h k' = ([], False, []))"
proof -
  let ?hops = "po_hops p"
  obtain a1 k1 where a: "apply_policy pfx name w p (a, k) = apply_plan name w ?hops (a1, k1)" "al_plan a1 = al_plan a"
    and ok: "applier_ok (a1, k1)" "same_others k k1"
    using apply_policy_taken [OF assms(6,4)] router_run_ok [OF assms(1,2)] by metis
  obtain e a' k' where r: "apply_plan name w ?hops (a1, k1) = (e, a', k')" by (metis prod_cases3)
  define k2 where "k2 = (if hops_fingerprint ?hops \<noteq> al_pruned a1 then prune_rules name w ?hops k1 else k1)"
  have k1: "kernel_ok k1" using ok(1) by (simp add: applier_ok_def)
  have k2: "kernel_ok k2" "same_others k1 k2" using prune_keeps(1) [OF assms(2) k1 assms(3)] k1 by (simp_all add: k2_def)
  obtain d where d: "run_adds w (snd (build_plan ?hops)) False (run_loose w (fst (build_plan ?hops)) k2) = (e, d, k')"
    using r assms(7) a(2) by (cases rule: apply_plan_cases) (auto simp: k2_def)
  then have e: "e = None" using plan_succeeds [OF assms(5,3) k2(1), of False] by auto
  note pr = plan_run [OF assms(3) k2(1) d [unfolded e]]
  have k': "kernel_ok k'" using apply_plan_keeps [OF r ok(1) assms(3,2)] by (auto simp: applier_ok_def)
  have devs: "rk_devs (run_loose w (fst (build_plan ?hops)) k2) = rk_devs k"
    using run_loose_ours [OF k2(1)] plan_ours [OF assms(3)] k2(2) ok(2) by (auto simp: same_others_def)
  have "route_of k' (hp_mark h) = Leaves (hop_devs h)"
    if h: "h \<in> set ?hops" "hop_leads h" "set (hop_devs h) \<subseteq> set (rk_devs k)" "before_main h" "clear_before_main k" for h
  proof -
    have "apply_policy pfx name w p (a, k) = (e, a', k')" using a(1) r by simp
    then have asked: "asked_first k' (hp_mark h)"
      by (rule clear_asked_first [OF apply_policy_others h(5,4)])
    have "hop_seen h k' = ([own_rule (hp_mark h)], True, hop_devs h)"
      using pr(1) [OF h(1,2)] h(3) devs assms(5) by (simp add: hop_done_def)
    then have i: "hop_in k' h" "rk_via k' (hp_table h) = hop_devs h" by (simp_all add: hop_in_def hop_seen_def seen_def)
    have "hp_table h = table_of (hp_mark h)" using hops_ok_owned [OF assms(3) h(1)] by blast
    moreover have "hop_devs h \<noteq> []" by (simp add: hop_devs_def)
    ultimately show ?thesis using hop_route_of [OF k' i(1) _ asked] i(2) by simp
  qed
  then have "apply_policy pfx name w p (a, k) = (None, a', k') \<and> (\<forall>h \<in> set ?hops. if hop_leads h
       then set (hop_devs h) \<subseteq> set (rk_devs k) \<and> before_main h \<and> clear_before_main k \<longrightarrow> route_of k' (hp_mark h) = Leaves (hop_devs h)
       else hop_seen h k' = ([], False, []))"
    using a(1) r e pr(2) [OF _ _ assms(5)] by auto
  then show ?thesis by blast
qed

text \<open>
  C17. In every run in which nobody but the panel has rules for its marks, an Apply in which nothing fails
  and whose plan is not the one remembered (that of hops that are all off is taken for it where none is, as
  disabled_hops_kept below shows) ends without an error. What is marked for a hop whose devices are up then
  leaves through them, when its rule is asked before the main table's and nobody else's rule with a default
  route is asked before that; and of a hop that is off neither the rule nor a route is left.
\<close>

theorem apply_installs:
  assumes "router_run pfx name (a, k)" "names_ok name" "hops_ok (po_hops p)" "policy_ruleset pfx p = Inr script"
    and "\<And>c. \<not> tl_fails w c" "\<And>x. tl_nft w x" "plan_fingerprint (snd (build_plan (po_hops p))) \<noteq> al_plan a"
  shows "\<exists>a' k'. apply_policy pfx name w p (a, k) = (None, a', k') \<and>
    (\<forall>h \<in> set (po_hops p). if hop_leads h
       then set (hop_devs h) \<subseteq> set (rk_devs k) \<and> before_main h \<and> clear_before_main k \<longrightarrow> route_of k' (hp_mark h) = Leaves (hop_devs h)
       else hop_seen h k' = ([], False, []))"
  by (rule fresh_plan_installs [OF assms])

section \<open>Where a hop is not reached\<close>

text \<open>The rule of a mark above the main table's, which has a route for everything, is never asked.\<close>

lemma late_rule_unused:
  assumes "kernel_ok k" "owns_mark m" "r \<in> set (rk_rules k)" "ru_mark r = None" "table_verdict k (ru_table r) = Leaves ds" "ru_prio r < rule_priority m"
    and "\<And>x. x \<in> set (rk_rules k) \<Longrightarrow> ru_mark x = None \<Longrightarrow> x \<noteq> r \<Longrightarrow> ru_prio x \<le> ru_prio r \<Longrightarrow> table_verdict k (ru_table x) = NoRoute"
  shows "route_of k m = Leaves ds"
proof -
  obtain pre post where sp: "rk_rules k = pre @ r # post" "r \<notin> set pre" using assms(3) by (meson split_list_first)
  have "table_verdict k (ru_table x) = NoRoute" if x: "x \<in> set pre" "rule_for m x" for x
  proof -
    have p: "ru_prio x \<le> ru_prio r" using assms(1) x(1) unfolding kernel_ok_def sp(1) by (simp add: sorted_append)
    have "ru_mark x \<noteq> Some m"
    proof
      assume xm: "ru_mark x = Some m"
      then have "x \<in> set (marked m (rk_rules k))" using x(1) sp(1) by (simp add: marked_def)
      then have "x = own_rule m" using assms(1,2) by (auto simp: kernel_ok_def ours_ok_def)
      then show False using p assms(6) by simp
    qed
    moreover have "x \<in> set (rk_rules k)" using sp(1) x(1) by simp
    moreover have "x \<noteq> r" using sp(2) x(1) by blast
    ultimately show ?thesis using assms(7) p x(2) unfolding rule_for_def by blast
  qed
  then show ?thesis using look_up_first [of pre m k r post] assms(4,5) by (simp add: route_of_def sp(1) rule_for_def)
qed

text \<open>That is the case for every balancer: its id begins at 0x8000, its rule's priority above 52768, and the main
  table is asked at 32766.\<close>

lemma balancers_come_late:
  assumes "allocate_mark (balancer_mark_id i) = Some (m, t)" "i \<le> 0x7FF0"
  shows "owns_mark m \<and> 32766 < rule_priority m"
proof -
  have "uint i \<le> 0x7FF0" using assms(2) by (simp add: word_le_def)
  then have "uint (balancer_mark_id i) = 0x8000 + uint i" by (simp add: balancer_mark_id_def uint_word_ariths mod_pos_pos_trivial)
  then have "owns_mark m" "rule_priority m = 52768 + uint i" using marks_apart [OF assms(1) assms(1)] by simp_all
  moreover have "0 \<le> uint i" by (rule uint_ge_0)
  ultimately show ?thesis by linarith
qed

text \<open>
  After an Apply in which some hop was down, or one that failed, or the first one, no plan is remembered,
  and a plan that adds nothing is taken for it: the rules and tables of hops that have been turned off since
  stay.
\<close>

lemma disabled_hops_kept:
  assumes "names_ok name" "kernel_ok k" "hops_ok hops" "\<And>h. h \<in> set hops \<Longrightarrow> \<not> hop_leads h" "al_plan a = []" "h \<in> set hops"
  obtains a' k' where "apply_plan name w hops (a, k) = (None, a', k')" "hop_seen h k' = hop_seen h k"
proof -
  obtain e a' k' where r: "apply_plan name w hops (a, k) = (e, a', k')" by (metis prod_cases3)
  have n: "snd (build_plan hops) = []" using assms(4) by (simp add: build_plan_def Let_def hop_adds_none)
  have s: "rules_present name w (snd (build_plan hops)) k2" "plan_fingerprint (snd (build_plan hops)) = al_plan a" for k2
    using n assms(5) by (simp_all add: rules_present_def plan_fingerprint_def)
  let ?k1 = "if hops_fingerprint hops \<noteq> al_pruned a then prune_rules name w hops k else k"
  have "apply_plan name w hops (a, k) = (None, a\<lparr>al_pruned := hops_fingerprint hops\<rparr>, ?k1)"
    using s(1) s(2) by (simp add: apply_plan_def Let_def split_beta)
  moreover have "hop_seen h ?k1 = hop_seen h k" using prune_keeps(2) [OF assms(1-3,6)] by simp
  ultimately show thesis by (rule that)
qed

text \<open>
  A hop's device that goes and comes back, as that of a hop whose process is started again does, has taken its
  route with it. The plan is the one remembered and the rules are there, so it is not run: what is marked for the
  hop is refused until the plan changes.
\<close>

lemma restarted_hop_refused:
  assumes "plan_fingerprint (snd (build_plan hops)) = al_plan a" "hops_fingerprint hops = al_pruned a" "rules_present name w (snd (build_plan hops)) k"
    and "kernel_ok k" "hop_in k h" "hp_table h = table_of (hp_mark h)" "asked_first k (hp_mark h)" "rk_via k (hp_table h) = []"
  shows "\<exists>a'. apply_plan name w hops (a, k) = (None, a', k)" "route_of k (hp_mark h) = Refused"
  using assms(1-3) hop_route_of [OF assms(4-7)] assms(8) by (simp_all add: apply_plan_def Let_def split_beta)

section \<open>A server with one hop\<close>

definition web_tools :: tools where
  "web_tools = \<lparr>tl_nft = (\<lambda>_. True), tl_fails = (\<lambda>_. False), tl_rules = True, tl_tables = True\<rparr>"

definition web_kernel :: router_kernel where
  "web_kernel = \<lparr>rk_rules = [\<lparr>ru_prio = 0, ru_mark = None, ru_table = 255\<rparr>, \<lparr>ru_prio = 32766, ru_mark = None, ru_table = 254\<rparr>],
     rk_floor = (\<lambda>_. False), rk_via = (\<lambda>t. if t = 254 then [''eth0''] else []), rk_devs = [''eth0'', ''wg1''], rk_policy = None, rk_nat = None\<rparr>"

definition web_prefix :: "prefix \<Rightarrow> string" where "web_prefix p = ''10.99.0.0/24''"

lemma names_int_text: "names_ok int_text"
proof -
  have a: "u = t" if u: "atoi (int_text t) = Some u" for t u
  proof (cases "t < 0")
    case True
    then show ?thesis using u dec_digits [of "nat (- t)"] by (auto simp: atoi_def int_text_def Let_def split: if_splits)
  next
    case False
    have ds: "list_all is_digit (dec (nat t))" by (rule dec_digits)
    moreover have "dec (nat t) \<noteq> []" by simp
    ultimately have h: "is_digit (hd (dec (nat t)))" by (cases "dec (nat t)") auto
    then have "hd (dec (nat t)) \<noteq> CHR ''-''" "hd (dec (nat t)) \<noteq> CHR ''+''" by (auto simp: is_digit_def)
    then show ?thesis using u False ds by (auto simp: atoi_def int_text_def Let_def split: if_splits)
  qed
  then show ?thesis by (auto simp: names_ok_def int_text_word)
qed

lemma web_run: "router_run web_prefix int_text (new_applier, web_kernel)"
proof (rule started)
  have "marked m (rk_rules web_kernel) = []" for m by (simp add: marked_def web_kernel_def)
  then show "kernel_ok web_kernel" by (simp add: kernel_ok_def ours_ok_def) (simp add: web_kernel_def)
qed

lemma web_hops: "hops_ok (po_hops web_policy)"
proof -
  have "word_text ''wg1''" by (simp add: word_text_def go_space_def)
  moreover have "hop_owned h \<and> hp_table h = table_of (hp_mark h) \<and> hop_devs h = [''wg1'']" if "h \<in> set (po_hops web_policy)" for h
    using that by (simp add: web_policy_def hop_owned_def owns_mark_def owns_table_def table_of_def TableBase_def MarkBase_def MarkMask_def hop_devs_def)
  ultimately show ?thesis by (simp add: hops_ok_def) (simp add: web_policy_def)
qed

definition web_applied :: "apply_error option \<times> applier \<times> router_kernel" where
  "web_applied = apply_policy web_prefix int_text web_tools web_policy (new_applier, web_kernel)"

definition web_hop :: hop where
  "web_hop = hd (po_hops web_policy)"

lemma web_hop_in: "web_hop \<in> set (po_hops web_policy)" "hop_leads web_hop"
  by (simp_all add: web_hop_def web_policy_def hop_leads_def)

lemma web_ruleset: "\<exists>script. policy_ruleset web_prefix web_policy = Inr script"
  by (simp add: policy_ruleset_def web_built split: prod.split)

lemma web_fresh: "plan_fingerprint (snd (build_plan (po_hops web_policy))) \<noteq> al_plan new_applier"
  using no_plan_no_leads [OF web_hops _ web_hop_in(1)] web_hop_in(2) by (auto simp: new_applier_def)

lemma web_tools_good: "\<not> tl_fails web_tools c" "tl_nft web_tools x" "tl_rules web_tools"
  by (simp_all add: web_tools_def)

lemma web_clear: "before_main web_hop" "clear_before_main web_kernel"
  by code_simp+

lemma web_applied_done:
  obtains a' k' where "apply_policy web_prefix int_text web_tools web_policy (new_applier, web_kernel) = (None, a', k')"
proof -
  obtain script where sc: "policy_ruleset web_prefix web_policy = Inr script" using web_ruleset by blast
  show thesis
    using fresh_plan_installs [OF web_run names_int_text web_hops sc web_tools_good(1,2) web_fresh] that by blast
qed

theorem never_leaks_witness:
  "\<exists>a' k'. apply_policy web_prefix int_text web_tools web_policy (new_applier, web_kernel) = (None, a', k') \<and>
     route_of k' (hp_mark web_hop) = (if rk_via k' (hp_table web_hop) \<noteq> [] then Leaves (rk_via k' (hp_table web_hop)) else Refused)"
proof -
  obtain a' k' where r: "apply_policy web_prefix int_text web_tools web_policy (new_applier, web_kernel) = (None, a', k')"
    by (rule web_applied_done)
  show ?thesis using r never_leaks [OF web_run names_int_text web_hops web_tools_good(3) r web_hop_in web_clear] by blast
qed

text \<open>A policy whose hop names the server's own table, and a mark that is not the panel's: nothing is done.\<close>

definition foreign_policy :: policy where
  "foreign_policy = web_policy\<lparr>po_hops := [\<lparr>hp_tag = ''x'', hp_mark = 1, hp_table = 254, hp_device = ''wg1'', hp_nexthops = [], hp_enabled = False\<rparr>]\<rparr>"

theorem others_untouched_witness:
  "others (rk_rules (snd (snd (apply_policy web_prefix int_text web_tools foreign_policy (new_applier, web_kernel))))) = others (rk_rules web_kernel) \<and>
   rk_via (snd (snd (apply_policy web_prefix int_text web_tools foreign_policy (new_applier, web_kernel)))) 254 = [''eth0'']"
proof -
  obtain e a' k' where r: "apply_policy web_prefix int_text web_tools foreign_policy (new_applier, web_kernel) = (e, a', k')" by (metis prod_cases3)
  have "\<not> owns_table 254" by (simp add: owns_table_def TableBase_def)
  then show ?thesis
    using others_untouched [where e = e and a' = a' and k' = k' and pfx = web_prefix and name = int_text and w = web_tools
      and p = foreign_policy and a = new_applier and k = web_kernel and t = 254] r
    by (simp add: r) (simp add: web_kernel_def)
qed

theorem apply_installs_witness:
  "\<exists>a' k'. apply_policy web_prefix int_text web_tools web_policy (new_applier, web_kernel) = (None, a', k') \<and>
    (\<forall>h \<in> set (po_hops web_policy). if hop_leads h
       then set (hop_devs h) \<subseteq> set (rk_devs web_kernel) \<and> before_main h \<and> clear_before_main web_kernel \<longrightarrow> route_of k' (hp_mark h) = Leaves (hop_devs h)
       else hop_seen h k' = ([], False, []))"
proof -
  obtain script where sc: "policy_ruleset web_prefix web_policy = Inr script" using web_ruleset by blast
  show ?thesis by (rule apply_installs [OF web_run names_int_text web_hops sc web_tools_good(1,2) web_fresh])
qed

end
