(* ===== verification/Spans.thy ===== *)
theory Spans imports Texts "HOL-Library.Product_Lexorder" "HOL-Library.Multiset" begin

text \<open>
  Where a credential is used from (internal/reconciler/sharing.go): the host of an endpoint, the hosts that
  are relays, and how many addresses were in use at one moment. Reading an address and splitting host and
  port (package net) are parameters.
\<close>

section \<open>Hosts and relays\<close>

text \<open>net.SplitHostPort, and whether a host is a loopback address.\<close>

record net_lib =
  nl_split :: "string \<Rightarrow> (string \<times> string) option"
  nl_loopback :: "string \<Rightarrow> bool"

definition host_of :: "net_lib \<Rightarrow> string \<Rightarrow> string" where
  "host_of net endpoint =
     (let e = trim_space endpoint in
      if e = '''' then ''''
      else case nl_split net e of
          Some (host, _) \<Rightarrow> if nl_loopback net host then e else host
        | None \<Rightarrow> e)"

definition relay_min_clients :: nat where "relay_min_clients = 5"

text \<open>The customers seen from a host; a map from accounts to endpoints is a list of pairs.\<close>

definition clients_of_host :: "net_lib \<Rightarrow> (nat \<times> string) list \<Rightarrow> (nat \<Rightarrow> nat) \<Rightarrow> string \<Rightarrow> nat set" where
  "clients_of_host net seen client_of host = client_of ` fst ` set (filter (\<lambda>(_, e). host_of net e = host) seen)"

definition relay_hosts :: "net_lib \<Rightarrow> (nat \<times> string) list \<Rightarrow> (nat \<Rightarrow> nat) \<Rightarrow> string \<Rightarrow> bool" where
  "relay_hosts net seen client_of host \<longleftrightarrow> host \<noteq> '''' \<and> relay_min_clients \<le> card (clients_of_host net seen client_of host)"

record endpoint_row =
  er_account :: nat
  er_addr :: string
  er_first :: instant
  er_last :: instant
  er_hits :: int

definition endpoint_addr :: "net_lib \<Rightarrow> (string \<Rightarrow> bool) \<Rightarrow> string \<Rightarrow> string" where
  "endpoint_addr net relays endpoint =
     (let host = host_of net endpoint in if relays host then trim_space endpoint else host)"

definition seen_rows :: "net_lib \<Rightarrow> (nat \<times> string) list \<Rightarrow> (nat \<Rightarrow> nat) \<Rightarrow> instant \<Rightarrow> endpoint_row list" where
  "seen_rows net seen client_of now =
     map (\<lambda>(i, a). \<lparr>er_account = i, er_addr = a, er_first = now, er_last = now, er_hits = 1\<rparr>)
       (filter (\<lambda>(_, a). a \<noteq> '''') (map (\<lambda>(i, e). (i, endpoint_addr net (relay_hosts net seen client_of) e)) seen))"

text \<open>The upsert of one row on (account_id, addr), and of all of them in one statement.\<close>

fun upsert_row :: "instant \<Rightarrow> endpoint_row list \<Rightarrow> endpoint_row \<Rightarrow> endpoint_row list" where
  "upsert_row now [] r = [r]"
| "upsert_row now (x # xs) r =
     (if er_account x = er_account r \<and> er_addr x = er_addr r then x\<lparr>er_last := now, er_hits := er_hits x + 1\<rparr> # xs
      else x # upsert_row now xs r)"

definition record_endpoints :: "net_lib \<Rightarrow> (nat \<times> string) list \<Rightarrow> (nat \<Rightarrow> nat) \<Rightarrow> instant \<Rightarrow> endpoint_row list \<Rightarrow> endpoint_row list" where
  "record_endpoints net seen client_of now db =
     (if seen = [] then db
      else foldl (upsert_row now) db (sort_key er_account (seen_rows net seen client_of now)))"

definition endpoint_retention :: duration where "endpoint_retention = 30 * 24 * 3600 * second"

definition prune_endpoints :: "instant \<Rightarrow> endpoint_row list \<Rightarrow> endpoint_row list" where
  "prune_endpoints now db = filter (\<lambda>r. \<not> er_last r < now - endpoint_retention) db"

section \<open>The most at one moment\<close>

record span =
  sp_addr :: string
  sp_first :: instant
  sp_last :: instant

fun same_host :: "net_lib \<Rightarrow> span list \<Rightarrow> string \<Rightarrow> bool" where
  "same_host net [] host = True"
| "same_host net (s # ss) host =
     (case nl_split net (sp_addr s) of
        None \<Rightarrow> False
      | Some (h, _) \<Rightarrow> if host = '''' then same_host net ss h else if h \<noteq> host then False else same_host net ss host)"

definition one_host :: "net_lib \<Rightarrow> span list \<Rightarrow> bool" where
  "one_host net ss = (if length ss < 2 then False else same_host net ss '''')"

definition span_edges :: "span list \<Rightarrow> (instant \<times> int) list" where
  "span_edges ss = concat (map (\<lambda>s. [(sp_first s, 1), (sp_last s, -1)]) ss)"

fun sweep_edges :: "(instant \<times> int) list \<Rightarrow> int \<Rightarrow> int \<Rightarrow> int" where
  "sweep_edges [] n most = most"
| "sweep_edges (e # es) n most = (let n = n + snd e in sweep_edges es n (if n > most then n else most))"

definition concurrent :: "span list \<Rightarrow> int" where
  "concurrent ss = sweep_edges (sort (span_edges ss)) 0 0"

definition sharing_threshold :: int where "sharing_threshold = 3"

text \<open>The report's rule: addresses of one host count only as far as they overlap.\<close>

definition suspect :: "net_lib \<Rightarrow> span list \<Rightarrow> bool" where
  "suspect net ss \<longleftrightarrow> \<not> (one_host net ss \<and> concurrent ss < sharing_threshold)"

text \<open>
  An address is in use from its first sighting to its last, both included. What the sweep counts at a
  moment are the spans that began and have not ended, an end taking effect before a start at the same
  instant.
\<close>

definition in_use :: "span list \<Rightarrow> instant \<Rightarrow> int" where
  "in_use ss t = int (length (filter (\<lambda>s. sp_first s \<le> t \<and> t \<le> sp_last s) ss))"

definition counted_at :: "span list \<Rightarrow> instant \<Rightarrow> int" where
  "counted_at ss t = int (length (filter (\<lambda>s. sp_first s \<le> t \<and> t < sp_last s) ss))"

lemma sweep_reached: "sweep_edges es n most = most \<or> (\<exists>k \<le> length es. sweep_edges es n most = n + sum_list (map snd (take k es)))"
proof (induction es arbitrary: n most)
  case (Cons e es)
  let ?n = "n + snd e"
  consider "sweep_edges es ?n (if ?n > most then ?n else most) = (if ?n > most then ?n else most)"
    | k where "k \<le> length es" "sweep_edges es ?n (if ?n > most then ?n else most) = ?n + sum_list (map snd (take k es))"
    using Cons.IH [of ?n "if ?n > most then ?n else most"] by blast
  then show ?case
  proof cases
    case 1
    then show ?thesis by (auto simp: Let_def intro: exI [of _ "Suc 0"])
  next
    case 2
    then have "sweep_edges (e # es) n most = n + sum_list (map snd (take (Suc k) (e # es)))" by (simp add: Let_def)
    then show ?thesis using 2(1) by (metis Suc_le_mono length_Cons)
  qed
qed simp

lemma sweep_above: "most \<le> sweep_edges es n most \<and> (k \<le> length es \<and> 0 < k \<longrightarrow> n + sum_list (map snd (take k es)) \<le> sweep_edges es n most)"
proof (induction es arbitrary: n most k)
  case (Cons e es)
  let ?n = "n + snd e" and ?m = "if n + snd e > most then n + snd e else most"
  have ih: "?m \<le> sweep_edges es ?n ?m" "\<And>j. j \<le> length es \<Longrightarrow> 0 < j \<Longrightarrow> ?n + sum_list (map snd (take j es)) \<le> sweep_edges es ?n ?m"
    using Cons.IH [of ?m ?n] by blast+
  have s: "sweep_edges (e # es) n most = sweep_edges es ?n ?m" by (simp add: Let_def)
  have "most \<le> sweep_edges es ?n ?m" using ih(1) by (auto split: if_splits)
  moreover have "n + sum_list (map snd (take k (e # es))) \<le> sweep_edges es ?n ?m" if "k \<le> length (e # es)" "0 < k"
  proof (cases "k = 1")
    case True
    then show ?thesis using ih(1) by (auto split: if_splits)
  next
    case False
    then obtain j where "k = Suc j" "0 < j" "j \<le> length es" using \<open>k \<le> length (e # es)\<close> \<open>0 < k\<close> by (cases k) auto
    then show ?thesis using ih(2) [of j] by (simp add: add.assoc)
  qed
  ultimately show ?case unfolding s by blast
qed simp

lemma sum_sorted: "sum_list (map f (sort xs)) = (sum_list (map f xs) :: int)"
  by (metis mset_map mset_sort sum_mset_sum_list)

lemma counted_edges:
  assumes "\<forall>s \<in> set ss. sp_first s \<le> sp_last s"
  shows "counted_at ss t = sum_list (map snd (filter (\<lambda>e. fst e \<le> t) (span_edges ss)))"
  using assms by (induction ss) (auto simp: counted_at_def span_edges_def)

lemma counted_sorted:
  assumes "\<forall>s \<in> set ss. sp_first s \<le> sp_last s"
  shows "counted_at ss t = sum_list (map snd (filter (\<lambda>e. fst e \<le> t) (sort (span_edges ss))))"
  unfolding counted_edges [OF assms] filter_sort sum_sorted ..

lemma sorted_fst_prefix: "sorted es \<Longrightarrow> filter (\<lambda>e :: instant \<times> int. fst e \<le> t) es = takeWhile (\<lambda>e. fst e \<le> t) es"
proof (induction es)
  case (Cons e es)
  have "filter (\<lambda>x. fst x \<le> t) es = []" if "\<not> fst e \<le> t"
  proof -
    have "\<not> fst x \<le> t" if "x \<in> set es" for x
    proof -
      have "e \<le> x" using Cons.prems that by simp
      then have "fst e \<le> fst x" by (auto simp: less_eq_prod_def)
      then show ?thesis using \<open>\<not> fst e \<le> t\<close> by linarith
    qed
    then show ?thesis by (simp add: filter_empty_conv)
  qed
  then show ?case using Cons by simp
qed simp

lemma counted_prefix:
  assumes "\<forall>s \<in> set ss. sp_first s \<le> sp_last s"
  obtains k where "k \<le> length (sort (span_edges ss))" "counted_at ss t = sum_list (map snd (take k (sort (span_edges ss))))"
proof -
  let ?es = "sort (span_edges ss)"
  have "counted_at ss t = sum_list (map snd (takeWhile (\<lambda>e. fst e \<le> t) ?es))"
    unfolding counted_sorted [OF assms] by (simp add: sorted_fst_prefix)
  then have "counted_at ss t = sum_list (map snd (take (length (takeWhile (\<lambda>e. fst e \<le> t) ?es)) ?es))"
    by (simp only: takeWhile_eq_take [symmetric])
  then show thesis using that length_takeWhile_le by blast
qed

lemma prefix_reached:
  assumes "\<forall>s \<in> set ss. sp_first s \<le> sp_last s" "k \<le> length (sort (span_edges ss))"
  shows "sum_list (map snd (take k (sort (span_edges ss)))) \<le> 0 \<or>
    (\<exists>s \<in> set ss. sum_list (map snd (take k (sort (span_edges ss)))) \<le> counted_at ss (sp_first s))"
  using assms(2)
proof (induction k)
  case (Suc k)
  let ?es = "sort (span_edges ss)"
  have k: "k < length ?es" using Suc.prems by simp
  let ?e = "?es ! k"
  have sum: "sum_list (map snd (take (Suc k) ?es)) = sum_list (map snd (take k ?es)) + snd ?e"
    by (simp add: take_Suc_conv_app_nth [OF k])
  have "?e \<in> set (span_edges ss)" using nth_mem [OF k] by simp
  then obtain s where s: "s \<in> set ss" "?e = (sp_first s, 1) \<or> ?e = (sp_last s, -1)" by (auto simp: span_edges_def)
  from s(2) show ?case
  proof
    assume e: "?e = (sp_last s, -1)"
    then show ?thesis using Suc.IH Suc.prems sum by fastforce
  next
    assume e: "?e = (sp_first s, 1)"
    let ?t = "sp_first s"
    have le: "fst x \<le> ?t" if "x \<in> set (take (Suc k) ?es)" for x
    proof -
      obtain i where i: "i \<le> k" "x = ?es ! i" using \<open>x \<in> set (take (Suc k) ?es)\<close> k by (auto simp: in_set_conv_nth less_Suc_eq_le)
      then have "x \<le> ?e" using k sorted_nth_mono [of ?es i k] by simp
      then show ?thesis using e by (auto simp: less_eq_prod_def)
    qed
    have ge: "0 \<le> snd x" if "x \<in> set (filter (\<lambda>e. fst e \<le> ?t) (drop (Suc k) ?es))" for x
    proof -
      have "x \<in> set (drop (Suc k) ?es)" using that by simp
      then obtain j where j: "j < length (drop (Suc k) ?es)" "drop (Suc k) ?es ! j = x" by (auto simp only: in_set_conv_nth)
      then have i: "k \<le> Suc k + j" "Suc k + j < length ?es" "x = ?es ! (Suc k + j)" by auto
      then have "?e \<le> x" using sorted_nth_mono [of ?es k "Suc k + j"] by simp
      then show ?thesis using e that by (auto simp: less_eq_prod_def)
    qed
    have f: "filter (\<lambda>e. fst e \<le> ?t) (take (Suc k) ?es) = take (Suc k) ?es" by (rule filter_True) (use le in blast)
    have "counted_at ss ?t = sum_list (map snd (filter (\<lambda>e. fst e \<le> ?t) (take (Suc k) ?es @ drop (Suc k) ?es)))"
      unfolding counted_sorted [OF assms(1)] by simp
    also have "\<dots> = sum_list (map snd (take (Suc k) ?es)) + sum_list (map snd (filter (\<lambda>e. fst e \<le> ?t) (drop (Suc k) ?es)))"
      unfolding filter_append map_append sum_list_append f ..
    finally have eq: "counted_at ss ?t = sum_list (map snd (take (Suc k) ?es)) + sum_list (map snd (filter (\<lambda>e. fst e \<le> ?t) (drop (Suc k) ?es)))" .
    have "0 \<le> sum_list (map snd (filter (\<lambda>e. fst e \<le> ?t) (drop (Suc k) ?es)))"
    proof (rule sum_list_nonneg)
      fix d assume "d \<in> set (map snd (filter (\<lambda>e. fst e \<le> ?t) (drop (Suc k) ?es)))"
      then obtain x where "x \<in> set (filter (\<lambda>e. fst e \<le> ?t) (drop (Suc k) ?es))" "d = snd x" unfolding set_map by blast
      then show "0 \<le> d" using ge by blast
    qed
    then have "sum_list (map snd (take (Suc k) ?es)) \<le> counted_at ss ?t" using eq by simp
    then show ?thesis using s(1) by blast
  qed
qed simp

lemma concurrent_most:
  assumes "\<forall>s \<in> set ss. sp_first s \<le> sp_last s"
  shows "counted_at ss t \<le> concurrent ss \<and> (concurrent ss = 0 \<or> (\<exists>s \<in> set ss. counted_at ss (sp_first s) = concurrent ss))"
proof -
  let ?es = "sort (span_edges ss)"
  have up: "counted_at ss t \<le> concurrent ss" for t
  proof -
    obtain k where k: "k \<le> length ?es" "counted_at ss t = sum_list (map snd (take k ?es))" by (rule counted_prefix [OF assms])
    then show ?thesis using sweep_above [of 0 ?es 0 k] by (cases "k = 0") (auto simp: concurrent_def)
  qed
  have "concurrent ss = 0 \<or> (\<exists>s \<in> set ss. counted_at ss (sp_first s) = concurrent ss)"
    using sweep_reached [of ?es 0 0]
  proof
    assume "\<exists>k \<le> length ?es. sweep_edges ?es 0 0 = 0 + sum_list (map snd (take k ?es))"
    then obtain k where k: "k \<le> length ?es" "concurrent ss = sum_list (map snd (take k ?es))" by (auto simp: concurrent_def)
    have "0 \<le> concurrent ss" using sweep_above [of 0 ?es 0 0] by (simp add: concurrent_def)
    then show ?thesis using prefix_reached [OF assms k(1)] up k(2) by (metis dual_order.antisym)
  qed (simp add: concurrent_def)
  then show ?thesis using up by blast
qed

text \<open>Those a moment is the last sighting of.\<close>

definition last_at :: "span list \<Rightarrow> instant \<Rightarrow> int" where
  "last_at ss t = int (length (filter (\<lambda>s. sp_last s = t) ss))"

lemma counted_less_last:
  "\<forall>s \<in> set ss. sp_first s \<le> sp_last s \<Longrightarrow> counted_at ss t = in_use ss t - last_at ss t"
  unfolding counted_at_def in_use_def last_at_def by (induction ss) auto

lemma counted_none: "\<exists>t. counted_at ss t = 0"
proof -
  have "\<exists>t. \<forall>s \<in> set ss. t < sp_first s"
  proof (induction ss)
    case (Cons s ss)
    then obtain t where "\<forall>s \<in> set ss. t < sp_first s" by blast
    then show ?case by (intro exI [of _ "min t (sp_first s - 1)"]) auto
  qed simp
  then obtain t where "\<forall>s \<in> set ss. t < sp_first s" by blast
  then show ?thesis by (intro exI [of _ t]) (auto simp: counted_at_def filter_empty_conv)
qed

text \<open>
  C14. The sweep gives, over all moments, the greatest number of addresses in use - from the first
  sighting to the last, both included - less those the moment is the last sighting of. Of flows seen
  once only it makes nothing, as single_sightings below shows.
\<close>

theorem concurrent_exact:
  assumes "\<forall>s \<in> set ss. sp_first s \<le> sp_last s"
  shows "(\<exists>t. concurrent ss = in_use ss t - last_at ss t) \<and> (\<forall>t. in_use ss t - last_at ss t \<le> concurrent ss)"
  unfolding counted_less_last [OF assms, symmetric]
  using concurrent_most [OF assms] counted_none [of ss] by metis

definition three_flows :: "span list" where
  "three_flows = [\<lparr>sp_addr = ''1.2.3.4:1'', sp_first = 0, sp_last = 10\<rparr>, \<lparr>sp_addr = ''1.2.3.4:2'', sp_first = 5, sp_last = 20\<rparr>,
     \<lparr>sp_addr = ''1.2.3.4:3'', sp_first = 10, sp_last = 12\<rparr>]"

theorem concurrent_exact_witness: "in_use three_flows 7 - last_at three_flows 7 \<le> concurrent three_flows \<and> concurrent three_flows = 2"
proof
  show "in_use three_flows 7 - last_at three_flows 7 \<le> concurrent three_flows"
    using concurrent_exact [of three_flows] by (auto simp: three_flows_def)
  show "concurrent three_flows = 2" by code_simp
qed

text \<open>
  A flow seen in one tick only has its last sighting at its first, and counts for nothing: any number of
  them in use at once are not suspect.
\<close>

lemma single_sightings:
  assumes "\<forall>s \<in> set ss. sp_last s = sp_first s"
  shows "concurrent ss = 0" "(\<forall>s \<in> set ss. sp_first s = t) \<Longrightarrow> in_use ss t = int (length ss)"
proof -
  have "counted_at ss t = 0" for t using assms by (auto simp: counted_at_def filter_empty_conv)
  then show "concurrent ss = 0" using concurrent_most [of ss] assms by fastforce
  show "(\<forall>s \<in> set ss. sp_first s = t) \<Longrightarrow> in_use ss t = int (length ss)"
    using assms by (simp add: in_use_def)
qed

end
