(* ===== verification/Devices.thy ===== *)
theory Devices imports Spans "HOL-Library.AList" begin

text \<open>
  Holding a customer to the connections of their plan (internal/reconciler/concurrency.go): what is seen of
  each credential, what other servers report, and who is held off. The mutex makes each operation one step.
  A map the code iterates over is a list of pairs; Go does not say in which order it goes through one.
\<close>

section \<open>What is remembered\<close>

definition active_window :: duration where "active_window = 75 * second"
definition hold_for :: duration where "hold_for = 120 * second"
definition remote_ttl :: duration where "remote_ttl = 30 * second"
definition panel_silence :: duration where "panel_silence = 45 * second"

record session_act =
  sa_bytes :: u64
  sa_first :: instant
  sa_last :: instant

record activity =
  av_bytes :: u64
  av_moved :: instant
  av_since :: instant
  av_addr :: string
  av_flips :: int
  av_flip_at :: instant
  av_addrs :: "(string \<times> instant) list"
  av_sessions :: "(string \<times> session_act) list"

record remote_session =
  rs_connections :: int
  rs_since :: instant
  rs_addrs :: "string list"

record remote_report =
  rp_at :: instant
  rp_sessions :: "(nat \<times> remote_session) list"

datatype event = Connected nat string string | Disconnected nat string string duration

record devices =
  dv_acts :: "(nat \<times> activity) list"
  dv_held :: "nat \<Rightarrow> instant option"
  dv_remote :: "nat \<Rightarrow> remote_report option"
  dv_node_of :: "nat \<Rightarrow> nat"
  dv_origin_of :: "nat \<Rightarrow> nat"
  dv_client_of :: "(nat \<times> nat) list"
  dv_name_of :: "nat \<Rightarrow> string"
  dv_events :: "event list"
  dv_panel_heard :: instant

definition new_devices :: devices where
  "new_devices = \<lparr>dv_acts = [], dv_held = (\<lambda>_. None), dv_remote = (\<lambda>_. None), dv_node_of = (\<lambda>_. 0), dv_origin_of = (\<lambda>_. 0),
     dv_client_of = [], dv_name_of = (\<lambda>_. ''''), dv_events = [], dv_panel_heard = 0\<rparr>"

definition take_events :: "devices \<Rightarrow> event list \<times> devices" where
  "take_events c = (dv_events c, c\<lparr>dv_events := []\<rparr>)"

section \<open>Readings\<close>

record stat =
  st_account :: nat
  st_rx :: u64
  st_tx :: u64
  st_endpoint :: string

definition where_from :: "string \<Rightarrow> string" where
  "where_from endpoint = trim_space endpoint"

definition first_act :: "u64 \<Rightarrow> string \<Rightarrow> activity" where
  "first_act bytes addr = \<lparr>av_bytes = bytes, av_moved = 0, av_since = 0, av_addr = addr, av_flips = 0, av_flip_at = 0, av_addrs = [], av_sessions = []\<rparr>"

text \<open>The part of moved that is about the address.\<close>

definition act_from :: "activity \<Rightarrow> string \<Rightarrow> instant \<Rightarrow> activity" where
  "act_from a host now =
     (if host = '''' then a
      else
        let a1 = (if av_addr a \<noteq> '''' \<and> host \<noteq> av_addr a
              then a\<lparr>av_flips := (if time_sub now (av_flip_at a) > active_window then 0 else av_flips a) + 1, av_flip_at := now\<rparr>
              else a)
        in a1\<lparr>av_addr := host, av_addrs := AList.update host now (av_addrs a1)\<rparr>)"

definition act_moved :: "activity \<Rightarrow> string \<Rightarrow> instant \<Rightarrow> activity" where
  "act_moved a host now =
     (let was_live = time_sub now (av_moved a) < active_window;
          a1 = a\<lparr>av_moved := now\<rparr>;
          a2 = (if was_live then a1 else a1\<lparr>av_since := now, av_flips := 0\<rparr>);
          a3 = act_from a2 host now
      in a3\<lparr>av_addrs := filter (\<lambda>(h, t). \<not> time_sub now t \<ge> active_window) (av_addrs a3)\<rparr>)"

definition moved_event :: "devices \<Rightarrow> nat \<Rightarrow> activity \<Rightarrow> string \<Rightarrow> instant \<Rightarrow> event list" where
  "moved_event c i a host now =
     (if time_sub now (av_moved a) < active_window then [] else [Connected i (dv_name_of c i) host])"

definition put_act :: "nat \<Rightarrow> activity \<Rightarrow> devices \<Rightarrow> devices" where
  "put_act i a c = c\<lparr>dv_acts := AList.update i a (dv_acts c)\<rparr>"

definition devices_moved :: "devices \<Rightarrow> nat \<Rightarrow> activity \<Rightarrow> string \<Rightarrow> instant \<Rightarrow> devices" where
  "devices_moved c i a host now = put_act i (act_moved a host now) (c\<lparr>dv_events := dv_events c @ moved_event c i a host now\<rparr>)"

definition observe_one :: "devices \<Rightarrow> stat \<Rightarrow> instant \<Rightarrow> devices" where
  "observe_one c s now =
     (let i = st_account s; bytes = st_rx s + st_tx s in
      case map_of (dv_acts c) i of
        None \<Rightarrow> put_act i (first_act bytes (where_from (st_endpoint s))) c
      | Some a0 \<Rightarrow>
          let a = a0\<lparr>av_sessions := []\<rparr> in
          if bytes = av_bytes a then put_act i a c
          else if bytes < av_bytes a then put_act i (a\<lparr>av_bytes := bytes\<rparr>) c
          else devices_moved c i (a\<lparr>av_bytes := bytes\<rparr>) (where_from (st_endpoint s)) now)"

text \<open>One of several sessions: what is followed of it, and whether it is the newest that moved.\<close>

definition follow_session :: "bool \<Rightarrow> instant \<Rightarrow> stat \<Rightarrow> (string \<times> session_act) list \<times> string \<Rightarrow> (string \<times> session_act) list \<times> string" where
  "follow_session first now s st =
     (let (ss, newest) = st; key = st_endpoint s; bytes = st_rx s + st_tx s in
      case map_of ss key of
        None \<Rightarrow> (AList.update key \<lparr>sa_bytes = bytes, sa_first = 0, sa_last = 0\<rparr> ss, newest)
      | Some sa \<Rightarrow>
          if bytes > sa_bytes sa \<and> \<not> first then
            let sa1 = sa\<lparr>sa_first := (if is_zero (sa_first sa) then now else sa_first sa), sa_last := now\<rparr>;
                ss1 = AList.update key sa1 ss;
                newest1 = (if newest = '''' \<or> sa_first sa1 > (case map_of ss1 newest of Some n \<Rightarrow> sa_first n | None \<Rightarrow> 0) then key else newest)
            in (AList.update key (sa1\<lparr>sa_bytes := bytes\<rparr>) ss1, newest1)
          else (AList.update key (sa\<lparr>sa_bytes := bytes\<rparr>) ss, newest))"

definition observe_sessions :: "devices \<Rightarrow> nat \<Rightarrow> stat list \<Rightarrow> instant \<Rightarrow> devices" where
  "observe_sessions c i stats now =
     (let first = (map_of (dv_acts c) i = None);
          a = (case map_of (dv_acts c) i of None \<Rightarrow> first_act 0 '''' | Some a \<Rightarrow> a);
          (ss, newest) = fold (follow_session first now) stats (av_sessions a, '''');
          kept = filter (\<lambda>(key, _). key \<in> set (map st_endpoint stats)) ss;
          a1 = a\<lparr>av_sessions := kept, av_bytes := sum_list (map (\<lambda>s. st_rx s + st_tx s) stats)\<rparr>
      in if newest = '''' then put_act i a1 c
         else
           let c1 = devices_moved c i a1 (where_from newest) now;
               a2 = act_moved a1 (where_from newest) now;
               a3 = fold (\<lambda>(key, sa) a. if \<not> is_zero (sa_last sa) \<and> time_sub now (sa_last sa) < active_window \<and> where_from key \<noteq> ''''
                   then a\<lparr>av_addrs := AList.update (where_from key) (sa_last sa) (av_addrs a)\<rparr> else a) kept a2
           in put_act i a3 c1)"

definition observe :: "devices \<Rightarrow> stat list \<Rightarrow> instant \<Rightarrow> devices" where
  "observe c stats now =
     fold (\<lambda>i c. case filter (\<lambda>s. st_account s = i) stats of
         [] \<Rightarrow> c
       | [s] \<Rightarrow> observe_one c s now
       | ss \<Rightarrow> observe_sessions c i ss now) (firsts {} (map st_account stats)) c"

section \<open>Records\<close>

record device_account =
  da_id :: nat
  da_client :: nat
  da_node :: nat
  da_origin :: nat
  da_name :: string

definition gone_quiet :: "activity \<Rightarrow> instant \<Rightarrow> bool" where
  "gone_quiet a now \<longleftrightarrow> \<not> is_zero (av_since a) \<and> \<not> is_zero (av_moved a) \<and> time_sub now (av_moved a) \<ge> active_window"

definition remember :: "devices \<Rightarrow> device_account list \<Rightarrow> (nat \<Rightarrow> string) \<Rightarrow> nat \<Rightarrow> instant \<Rightarrow> devices" where
  "remember c accounts client_names local_node now =
     (let node_of = (\<lambda>a. if da_node a = local_node then 0 else da_node a);
          known = (\<lambda>f d i. case map_of (rev (map (\<lambda>a. (da_id a, f a)) accounts)) i of Some v \<Rightarrow> v | None \<Rightarrow> d);
          client_of = AList.clearjunk (rev (map (\<lambda>a. (da_id a, da_client a)) accounts));
          name_of = (\<lambda>i. case map_of (rev (map (\<lambda>a. (da_id a, client_names (da_client a) @ '' / '' @ da_name a)) accounts)) i of Some v \<Rightarrow> v | None \<Rightarrow> '''');
          gone = concat (map (\<lambda>(i, a). if gone_quiet a now then [Disconnected i (name_of i) (av_addr a) (time_sub (av_moved a) (av_since a))] else []) (dv_acts c));
          acts = map (\<lambda>(i, a). (i, if gone_quiet a now then a\<lparr>av_since := 0, av_moved := 0\<rparr> else a)) (dv_acts c)
      in c\<lparr>dv_node_of := known node_of 0, dv_origin_of := known da_origin 0, dv_client_of := client_of, dv_name_of := name_of,
           dv_events := dv_events c @ gone,
           dv_acts := filter (\<lambda>(i, _). map_of client_of i \<noteq> None) acts,
           dv_held := (\<lambda>i. if map_of acts i \<noteq> None \<and> map_of client_of i = None then None else dv_held c i)\<rparr>)"

section \<open>How many devices\<close>

definition session_spans :: "activity \<Rightarrow> instant \<Rightarrow> span list" where
  "session_spans a now = map (\<lambda>(key, sa). \<lparr>sp_addr = key, sp_first = sa_first sa, sp_last = sa_last sa\<rparr>)
     (filter (\<lambda>(_, sa). \<not> (is_zero (sa_first sa) \<or> time_sub now (sa_last sa) \<ge> active_window)) (av_sessions a))"

definition overlapping :: "activity \<Rightarrow> instant \<Rightarrow> int" where
  "overlapping a now = (let spans = session_spans a now in if length spans < 2 then int (length spans) else concurrent spans)"

definition connections :: "activity option \<Rightarrow> instant \<Rightarrow> int" where
  "connections act now =
     (case act of
        None \<Rightarrow> 0
      | Some a \<Rightarrow>
          if time_sub now (av_moved a) \<ge> active_window then 0
          else
            let n = (if av_flips a \<ge> 2 \<and> time_sub now (av_flip_at a) < active_window \<and> length (av_addrs a) > 1 then int (length (av_addrs a)) else 1);
                m = overlapping a now
            in if m > n then m else n)"

definition live_addrs :: "activity \<Rightarrow> instant \<Rightarrow> string list" where
  "live_addrs a now = sort (map fst (filter (\<lambda>(h, t). time_sub now t < active_window) (av_addrs a)))"

definition device_lookup :: "devices \<Rightarrow> nat \<Rightarrow> instant \<Rightarrow> (int \<times> instant) option" where
  "device_lookup c i now =
     (if dv_node_of c i \<noteq> 0 then
        (case dv_remote c (dv_node_of c i) of
           None \<Rightarrow> None
         | Some rep \<Rightarrow>
             if time_sub now (rp_at rep) > remote_ttl then None
             else case map_of (rp_sessions rep) i of
                 None \<Rightarrow> None
               | Some s \<Rightarrow> if rs_connections s = 0 then None else Some (rs_connections s, rs_since s))
      else
        let n = connections (map_of (dv_acts c) i) now in
        if n = 0 then None else Some (n, (case map_of (dv_acts c) i of Some a \<Rightarrow> av_since a | None \<Rightarrow> 0)))"

section \<open>Between servers\<close>

record node_session =
  ns_origin :: nat
  ns_connections :: int
  ns_age :: int
  ns_addrs :: "string list"

text \<open>A duration over time.Second, which Go rounds towards zero.\<close>

definition whole_seconds :: "duration \<Rightarrow> int" where
  "whole_seconds d = (if d < 0 then - ((- d) div second) else d div second)"

definition set_remote :: "devices \<Rightarrow> nat \<Rightarrow> node_session list \<Rightarrow> instant \<Rightarrow> devices" where
  "set_remote c node sessions now =
     c\<lparr>dv_remote := (dv_remote c)(node \<mapsto> \<lparr>rp_at = now,
         rp_sessions = AList.clearjunk (rev (map (\<lambda>s. (ns_origin s, \<lparr>rs_connections = ns_connections s, rs_since = now - wrap64 (ns_age s * second), rs_addrs = ns_addrs s\<rparr>))
           (filter (\<lambda>s. \<not> (ns_origin s = 0 \<or> ns_connections s \<le> 0)) sessions)))\<rparr>)\<rparr>"

definition node_sessions :: "devices \<Rightarrow> instant \<Rightarrow> node_session list" where
  "node_sessions c now =
     sort_key ns_origin (map (\<lambda>(i, a). \<lparr>ns_origin = dv_origin_of c i, ns_connections = connections (Some a) now,
         ns_age = whole_seconds (time_sub now (av_since a)), ns_addrs = live_addrs a now\<rparr>)
       (filter (\<lambda>(i, a). dv_origin_of c i \<noteq> 0 \<and> connections (Some a) now \<noteq> 0) (dv_acts c)))"

section \<open>Holds\<close>

definition hold :: "devices \<Rightarrow> nat \<Rightarrow> instant \<Rightarrow> devices" where
  "hold c i until =
     (case dv_held c i of
        Some cur \<Rightarrow> if cur > until then c else c\<lparr>dv_held := (dv_held c)(i \<mapsto> until)\<rparr>
      | None \<Rightarrow> c\<lparr>dv_held := (dv_held c)(i \<mapsto> until)\<rparr>)"

definition is_held :: "devices \<Rightarrow> nat \<Rightarrow> instant \<Rightarrow> bool" where
  "is_held c i now = (case dv_held c i of Some until \<Rightarrow> now < until | None \<Rightarrow> False)"

definition holds_now :: "devices \<Rightarrow> instant \<Rightarrow> nat \<Rightarrow> instant option" where
  "holds_now c now i = (if is_held c i now then dv_held c i else None)"

definition held_off :: "devices \<Rightarrow> nat \<Rightarrow> instant \<Rightarrow> bool \<times> devices" where
  "held_off c i now =
     (case dv_held c i of
        None \<Rightarrow> (False, c)
      | Some until \<Rightarrow>
          if now > until then
            (False, (c\<lparr>dv_held := (dv_held c)(i := None), dv_acts := AList.map_entry i (\<lambda>a. a\<lparr>av_moved := 0\<rparr>) (dv_acts c)\<rparr>))
          else (True, c))"

definition panel_spoke :: "devices \<Rightarrow> instant \<Rightarrow> devices" where
  "panel_spoke c now = c\<lparr>dv_panel_heard := now\<rparr>"

definition panel_silent :: "devices \<Rightarrow> instant \<Rightarrow> bool" where
  "panel_silent c now \<longleftrightarrow> is_zero (dv_panel_heard c) \<or> time_sub now (dv_panel_heard c) > panel_silence"

record live_device =
  lv_acc :: device_account
  lv_n :: int
  lv_since :: instant

record held_account =
  ha_acc :: device_account
  ha_client :: nat
  ha_until :: instant
  ha_node :: nat

definition live_devices :: "devices \<Rightarrow> device_account list \<Rightarrow> instant \<Rightarrow> live_device list" where
  "live_devices c accs now =
     concat (map (\<lambda>a. if is_held c (da_id a) now then []
       else case device_lookup c (da_id a) now of None \<Rightarrow> [] | Some (n, since) \<Rightarrow> [\<lparr>lv_acc = a, lv_n = n, lv_since = since\<rparr>]) accs)"

text \<open>Oldest first; those that are over.\<close>

fun over_limit :: "int \<Rightarrow> int \<Rightarrow> live_device list \<Rightarrow> live_device list" where
  "over_limit limit kept [] = []"
| "over_limit limit kept (l # ls) =
     (if lv_n l = 1 \<and> kept + 1 \<le> limit then over_limit limit (kept + 1) ls else l # over_limit limit kept ls)"

definition enforce_limit :: "devices \<Rightarrow> nat \<Rightarrow> int \<Rightarrow> device_account list \<Rightarrow> instant \<Rightarrow> held_account list \<times> devices" where
  "enforce_limit c client limit accs now =
     (if limit \<le> 0 then ([], c)
      else
        let lives = live_devices c accs now in
        if sum_list (map lv_n lives) \<le> limit then ([], c)
        else
          let over = over_limit limit 0 (sort_key (\<lambda>l. (lv_since l, da_id (lv_acc l))) lives); until = now + hold_for in
          (map (\<lambda>l. \<lparr>ha_acc = lv_acc l, ha_client = client, ha_until = until, ha_node = dv_node_of c (da_id (lv_acc l))\<rparr>) over,
           c\<lparr>dv_held := fold (\<lambda>l h. h(da_id (lv_acc l) \<mapsto> until)) over (dv_held c)\<rparr>))"

section \<open>For the list and the counters\<close>

definition connections_now :: "devices \<Rightarrow> nat list \<Rightarrow> instant \<Rightarrow> nat \<Rightarrow> int" where
  "connections_now c clients now client =
     (if client \<in> set clients then
        sum_list (map (\<lambda>(i, _). case device_lookup c i now of Some (n, _) \<Rightarrow> n | None \<Rightarrow> 0)
          (filter (\<lambda>(i, cl). cl = client \<and> \<not> is_held c i now) (dv_client_of c)))
      else 0)"

definition live_clients :: "devices \<Rightarrow> instant \<Rightarrow> nat list" where
  "live_clients c now =
     sort (firsts {} (map snd (filter (\<lambda>(i, _). \<not> is_held c i now \<and> device_lookup c i now \<noteq> None) (dv_client_of c))))"

section \<open>The limit is kept, and the oldest with it\<close>

text \<open>Credentials in use at the hundredth second: their accounts, since when, and with how many sessions side by side.\<close>

definition example_account :: "nat \<Rightarrow> device_account" where
  "example_account i = \<lparr>da_id = i, da_client = 7, da_node = 0, da_origin = i + 50, da_name = ''phone''\<rparr>"

definition example_act :: "nat \<Rightarrow> int \<Rightarrow> activity" where
  "example_act since n = (first_act 9 ''192.0.2.1:7'')\<lparr>av_moved := 99 * second, av_since := int since * second,
     av_sessions := map (\<lambda>k. (replicate (nat k) CHR ''x'', \<lparr>sa_bytes = 1, sa_first = 50 * second, sa_last = 99 * second\<rparr>)) [1..n]\<rparr>"

definition example_devices :: "(nat \<times> nat \<times> int) list \<Rightarrow> devices" where
  "example_devices ls = new_devices\<lparr>dv_acts := map (\<lambda>(i, since, n). (i, example_act since n)) ls, dv_origin_of := (\<lambda>i. i + 50)\<rparr>"

lemmas example_defs = example_devices_def example_act_def example_account_def new_devices_def first_act_def
  enforce_limit_def live_devices_def device_lookup_def connections_def overlapping_def session_spans_def concurrent_def span_edges_def
  is_held_def time_sub_def active_window_def hold_for_def max_duration_def min_duration_def Let_def upto_rec1

definition lv_id :: "live_device \<Rightarrow> nat" where
  "lv_id l = da_id (lv_acc l)"

definition lv_key :: "live_device \<Rightarrow> instant \<times> nat" where
  "lv_key l = (lv_since l, lv_id l)"

lemma over_subset: "set (over_limit limit kept ls) \<subseteq> set ls"
  by (induction ls arbitrary: kept) auto

lemma over_rest:
  assumes "distinct (map lv_id ls)" "kept \<le> limit"
  shows "sum_list (map lv_n (filter (\<lambda>l. lv_id l \<notin> lv_id ` set (over_limit limit kept ls)) ls)) \<le> limit - kept"
  using assms
proof (induction ls arbitrary: kept)
  case (Cons l ls)
  have fresh: "lv_id l \<notin> lv_id ` set (over_limit limit k ls)" for k
    using Cons.prems(1) over_subset [of limit k ls] by auto
  show ?case
  proof (cases "lv_n l = 1 \<and> kept + 1 \<le> limit")
    case True
    then show ?thesis using Cons.IH [of "kept + 1"] Cons.prems fresh [of "kept + 1"] by simp
  next
    case False
    have "filter (\<lambda>x. lv_id x \<notin> lv_id ` set (l # over_limit limit kept ls)) (l # ls) =
        filter (\<lambda>x. lv_id x \<notin> lv_id ` set (over_limit limit kept ls)) ls"
      using Cons.prems(1) by (auto intro!: filter_cong simp: image_iff)
    moreover have "over_limit limit kept (l # ls) = l # over_limit limit kept ls" unfolding over_limit.simps if_not_P [OF False] ..
    ultimately show ?thesis using Cons.IH [of kept] Cons.prems by simp
  qed
qed simp

lemma held_after:
  assumes "enforce_limit c client limit accs now = (held, c')" "limit < sum_list (map lv_n (live_devices c accs now))" "0 < limit"
  defines "over \<equiv> over_limit limit 0 (sort_key lv_key (live_devices c accs now))"
  shows "dv_held c' i = (if i \<in> lv_id ` set over then Some (now + hold_for) else dv_held c i)"
    and "device_lookup c' i now = device_lookup c i now" and "map ha_acc held = map lv_acc over"
proof -
  have f: "fold (\<lambda>l h. h(lv_id l \<mapsto> u)) ls h i = (if i \<in> lv_id ` set ls then Some u else h i)" for ls h u
    by (induction ls arbitrary: h) auto
  have e: "(\<lambda>l. (lv_since l, da_id (lv_acc l))) = lv_key" "(\<lambda>l h. h(da_id (lv_acc l) \<mapsto> now + hold_for)) = (\<lambda>l h. h(lv_id l \<mapsto> now + hold_for))"
    by (simp_all add: lv_key_def lv_id_def fun_eq_iff)
  have c': "c' = c\<lparr>dv_held := fold (\<lambda>l h. h(lv_id l \<mapsto> now + hold_for)) over (dv_held c)\<rparr>" and h: "map ha_acc held = map lv_acc over"
    using assms(1-3) by (auto simp: enforce_limit_def Let_def over_def e comp_def split: if_splits)
  show "dv_held c' i = (if i \<in> lv_id ` set over then Some (now + hold_for) else dv_held c i)" unfolding c' by (simp add: f)
  show "device_lookup c' i now = device_lookup c i now" unfolding c' by (simp add: device_lookup_def Let_def)
  show "map ha_acc held = map lv_acc over" by (rule h)
qed

lemma live_devices_after:
  assumes "\<And>i. device_lookup c' i now = device_lookup c i now"
    and "\<And>i. dv_held c' i = (if i \<in> ids then Some (now + hold_for) else dv_held c i)"
  shows "live_devices c' accs now = filter (\<lambda>l. lv_id l \<notin> ids) (live_devices c accs now)"
proof -
  have "is_held c' i now \<longleftrightarrow> i \<in> ids \<or> is_held c i now" for i
    using assms(2) [of i] by (auto simp: is_held_def hold_for_def)
  then show ?thesis unfolding live_devices_def
    by (induction accs) (auto simp: assms(1) lv_id_def split: option.split)
qed

lemma live_devices_ids: "distinct (map da_id accs) \<Longrightarrow> distinct (map lv_id (live_devices c accs now))"
proof -
  have one: "lv_id ` set (live_devices c [a] now) \<subseteq> {da_id a}" "distinct (map lv_id (live_devices c [a] now))" for a
    by (auto simp: live_devices_def lv_id_def split: option.splits)
  have apart: "A \<subseteq> {x} \<Longrightarrow> B \<subseteq> C \<Longrightarrow> x \<notin> C \<Longrightarrow> A \<inter> B = {}" for A B C :: "nat set" and x
    by blast
  have cons: "live_devices c (a # accs) now = live_devices c [a] now @ live_devices c accs now" for a accs
    by (simp add: live_devices_def)
  have s: "lv_id ` set (live_devices c accs now) \<subseteq> da_id ` set accs" for accs
  proof (induction accs)
    case (Cons a accs)
    then show ?case using one(1) [of a] unfolding cons [of a accs] by auto
  qed (simp add: live_devices_def)
  assume "distinct (map da_id accs)"
  then show ?thesis
  proof (induction accs)
    case (Cons a accs)
    have "lv_id ` set (live_devices c [a] now) \<inter> lv_id ` set (live_devices c accs now) = {}"
      by (rule apart [OF one(1) s]) (use Cons.prems in simp)
    then show ?case using Cons one(2) [of a] unfolding cons [of a accs] by simp
  qed (simp add: live_devices_def)
qed

lemma sum_sort_key: "sum_list (map f (filter P (sort_key k xs))) = (sum_list (map f (filter P xs)) :: int)"
  by (metis filter_sort mset_map mset_sort sum_mset_sum_list)

text \<open>C10. When a customer's credentials carry more than the plan allows, on whatever servers, what is left after
  enforcing it is within the plan.\<close>

theorem limit_kept:
  assumes "enforce_limit c client limit accs now = (held, c')" "0 < limit" "distinct (map da_id accs)"
  shows "sum_list (map lv_n (live_devices c' accs now)) \<le> limit"
proof (cases "limit < sum_list (map lv_n (live_devices c accs now))")
  case False
  then show ?thesis using assms(1,2) by (simp add: enforce_limit_def split: if_splits)
next
  case True
  let ?ls = "live_devices c accs now"
  let ?over = "over_limit limit 0 (sort_key lv_key ?ls)"
  note h = held_after [OF assms(1) True assms(2)]
  have "live_devices c' accs now = filter (\<lambda>l. lv_id l \<notin> lv_id ` set ?over) ?ls"
    by (rule live_devices_after [OF h(2,1)])
  moreover have "sum_list (map lv_n (filter (\<lambda>l. lv_id l \<notin> lv_id ` set ?over) (sort_key lv_key ?ls))) \<le> limit - 0"
  proof (rule over_rest)
    have "mset (map lv_id (sort_key lv_key ?ls)) = mset (map lv_id ?ls)" by simp
    then show "distinct (map lv_id (sort_key lv_key ?ls))"
      using live_devices_ids [OF assms(3), of c now] by (metis mset_eq_imp_distinct_iff)
  qed (use assms(2) in simp)
  ultimately show ?thesis by (simp add: sum_sort_key)
qed

theorem limit_kept_witness:
  "sum_list (map lv_n (live_devices (snd (enforce_limit (example_devices [(1, 3, 0), (2, 1, 0)]) 7 1 [example_account 1, example_account 2] (100 * second)))
     [example_account 1, example_account 2] (100 * second))) \<le> 1 \<and>
   map (da_id \<circ> ha_acc) (fst (enforce_limit (example_devices [(1, 3, 0), (2, 1, 0)]) 7 1 [example_account 1, example_account 2] (100 * second))) = [1]"
  by (rule conjI, rule limit_kept [OF prod.collapse [symmetric]]) (simp_all add: example_defs)

text \<open>A credential with several connections at once is never kept, old as it may be and wide as the plan may be.\<close>

lemma several_never_kept:
  "map (da_id \<circ> ha_acc) (fst (enforce_limit (example_devices [(1, 1, 2), (2, 3, 0), (3, 5, 0)]) 7 3
     (map example_account [1, 2, 3]) (100 * second))) = [1]"
  by (simp add: example_defs)

definition single_kept :: "live_device list \<Rightarrow> live_device \<Rightarrow> bool" where
  "single_kept over k \<longleftrightarrow> lv_n k = 1 \<and> lv_id k \<notin> lv_id ` set over"

lemma over_single:
  assumes "l \<in> set (over_limit limit kept ls)" "lv_n l = 1" "kept \<le> limit" "distinct (map lv_id ls)"
  shows "\<exists>pre post. ls = pre @ l # post \<and> limit - kept \<le> int (length (filter (single_kept (over_limit limit kept ls)) pre))"
  using assms
proof (induction ls arbitrary: kept)
  case (Cons x ls)
  show ?case
  proof (cases "lv_n x = 1 \<and> kept + 1 \<le> limit")
    case True
    then have o: "over_limit limit kept (x # ls) = over_limit limit (kept + 1) ls" by simp
    obtain pre post where p: "ls = pre @ l # post" "limit - (kept + 1) \<le> int (length (filter (single_kept (over_limit limit (kept + 1) ls)) pre))"
      using Cons.IH [of "kept + 1"] Cons.prems True by auto
    have "lv_id x \<notin> lv_id ` set (over_limit limit (kept + 1) ls)"
      using Cons.prems(4) over_subset [of limit "kept + 1" ls] by auto
    then have "single_kept (over_limit limit (kept + 1) ls) x" using True by (simp add: single_kept_def)
    then show ?thesis unfolding o using p by (intro exI [of _ "x # pre"] exI [of _ post]) simp
  next
    case False
    have o: "over_limit limit kept (x # ls) = x # over_limit limit kept ls" unfolding over_limit.simps if_not_P [OF False] ..
    show ?thesis
    proof (cases "l = x")
      case True
      then show ?thesis using False Cons.prems by (intro exI [of _ "[]"] exI [of _ ls]) auto
    next
      case no: False
      then obtain pre post where p: "ls = pre @ l # post" "limit - kept \<le> int (length (filter (single_kept (over_limit limit kept ls)) pre))"
        using Cons.IH [of kept] Cons.prems o by auto
      have "lv_id k \<noteq> lv_id x" if "k \<in> set pre" for k using that p(1) Cons.prems(4) by (auto simp: image_iff)
      then have "filter (single_kept (x # over_limit limit kept ls)) pre = filter (single_kept (over_limit limit kept ls)) pre"
        by (intro filter_cong refl) (simp add: single_kept_def)
      then have "limit - kept \<le> int (length (filter (single_kept (over_limit limit kept (x # ls))) (x # pre)))"
        using p(2) unfolding o by simp
      then show ?thesis using p(1) by (intro exI [of _ "x # pre"] exI [of _ post]) simp
    qed
  qed
qed simp

lemma sorted_lv_ids: "distinct (map da_id accs) \<Longrightarrow> distinct (map lv_id (sort_key lv_key (live_devices c accs now)))"
proof -
  have "mset (map lv_id (sort_key lv_key (live_devices c accs now))) = mset (map lv_id (live_devices c accs now))" by simp
  then show "distinct (map da_id accs) \<Longrightarrow> ?thesis" using live_devices_ids [of accs c now] by (metis mset_eq_imp_distinct_iff)
qed

lemma live_device_lookup: "l \<in> set (live_devices c accs now) \<Longrightarrow> device_lookup c (lv_id l) now = Some (lv_n l, lv_since l) \<and> lv_acc l \<in> set accs"
  by (auto simp: live_devices_def lv_id_def split: if_splits option.splits)

text \<open>C11. A device with a single connection is held off only when as many single connections as the plan allows are
  older than it and stay; on a tie the lower id is the older.\<close>

theorem oldest_kept:
  assumes "enforce_limit c client limit accs now = (held, c')" "0 < limit" "distinct (map da_id accs)"
    and "h \<in> set held" "device_lookup c (da_id (ha_acc h)) now = Some (1, since)"
  shows "limit \<le> int (length (filter (\<lambda>l. lv_n l = 1 \<and> (lv_since l, lv_id l) < (since, da_id (ha_acc h))) (live_devices c' accs now)))"
proof -
  let ?ls = "live_devices c accs now" and ?hid = "da_id (ha_acc h)"
  let ?ss = "sort_key lv_key ?ls"
  let ?over = "over_limit limit 0 ?ss"
  have big: "limit < sum_list (map lv_n ?ls)" using assms(1,2,4) by (auto simp: enforce_limit_def Let_def split: if_splits)
  note after = held_after [OF assms(1) big assms(2)]
  have d: "distinct (map lv_id ?ss)" by (rule sorted_lv_ids [OF assms(3)])
  have "ha_acc h \<in> set (map ha_acc held)" using assms(4) by simp
  then obtain l where l: "l \<in> set ?over" "lv_acc l = ha_acc h" unfolding after(3) by auto
  have "l \<in> set ?ls" using l(1) over_subset [of limit 0 ?ss] by auto
  then have n: "lv_n l = 1" "lv_since l = since" "lv_id l = ?hid"
    using live_device_lookup [of l c accs now] assms(5) l(2) by (simp_all add: lv_id_def)
  obtain pre post where p: "?ss = pre @ l # post" "limit - 0 \<le> int (length (filter (single_kept ?over) pre))"
    using over_single [OF l(1) n(1) _ d] assms(2) by auto
  have older: "(lv_since k, lv_id k) < (since, ?hid)" if "k \<in> set pre" for k
  proof -
    have "sorted (map lv_key ?ss)" by simp
    then have "lv_key k \<le> lv_key l" using that unfolding p(1) by (simp add: sorted_append)
    moreover have "lv_id k \<noteq> lv_id l" using d that unfolding p(1) by (auto simp: image_iff)
    ultimately show ?thesis using n by (auto simp: lv_key_def)
  qed
  let ?P = "\<lambda>k. lv_n k = 1 \<and> (lv_since k, lv_id k) < (since, ?hid)"
  have "filter (single_kept ?over) pre = filter (\<lambda>k. single_kept ?over k \<and> ?P k) pre"
    by (intro filter_cong refl) (use older in \<open>auto simp: single_kept_def\<close>)
  then have "length (filter (single_kept ?over) pre) \<le> length (filter (\<lambda>k. single_kept ?over k \<and> ?P k) ?ss)" unfolding p(1) by simp
  also have "\<dots> = length (filter (\<lambda>k. single_kept ?over k \<and> ?P k) ?ls)"
    by (simp add: filter_sort)
  also have "\<dots> = length (filter ?P (live_devices c' accs now))"
    unfolding live_devices_after [OF after(2,1)] filter_filter
    by (intro arg_cong [of _ _ length] filter_cong refl) (auto simp: single_kept_def)
  finally show ?thesis using p(2) by simp
qed

theorem oldest_kept_witness:
  "1 \<le> int (length (filter (\<lambda>l. lv_n l = 1 \<and> (lv_since l, lv_id l) < (3 * second, 1))
     (live_devices (snd (enforce_limit (example_devices [(1, 3, 0), (2, 1, 0)]) 7 1 [example_account 1, example_account 2] (100 * second)))
       [example_account 1, example_account 2] (100 * second))))"
proof -
  let ?r = "enforce_limit (example_devices [(1, 3, 0), (2, 1, 0)]) 7 1 [example_account 1, example_account 2] (100 * second)"
  let ?h = "\<lparr>ha_acc = example_account 1, ha_client = 7, ha_until = 220 * second, ha_node = 0\<rparr>"
  have "1 \<le> int (length (filter (\<lambda>l. lv_n l = 1 \<and> (lv_since l, lv_id l) < (3 * second, da_id (ha_acc ?h)))
     (live_devices (snd ?r) [example_account 1, example_account 2] (100 * second))))"
    by (rule oldest_kept [OF prod.collapse [symmetric], where h = ?h]) (simp_all add: example_defs)
  then show ?thesis by (simp add: example_account_def)
qed

section \<open>From a node to its panel\<close>

text \<open>C13. What a node reports of a live credential is what its panel counts while the report is believed: as many
  connections, and as old to the second on the panel's clock.\<close>

theorem report_reaches_panel:
  assumes "(j, a) \<in> set (dv_acts d)" "0 < connections (Some a) t" "dv_origin_of d j = i" "i \<noteq> 0"
    and "distinct (map (dv_origin_of d \<circ> fst) (filter (\<lambda>(j, a). dv_origin_of d j \<noteq> 0) (dv_acts d)))"
    and "dv_node_of c i = n" "n \<noteq> 0" "now \<le> at" "at - now \<le> remote_ttl" "av_since a \<le> t" "t - av_since a \<le> max_duration"
  shows "device_lookup (set_remote c n (node_sessions d t) now) i at =
    Some (connections (Some a) t, now - (t - av_since a) div second * second)"
proof -
  let ?P = "\<lambda>(j, a). dv_origin_of d j \<noteq> 0 \<and> connections (Some a) t \<noteq> 0"
  let ?f = "\<lambda>(i, a). \<lparr>ns_origin = dv_origin_of d i, ns_connections = connections (Some a) t,
         ns_age = whole_seconds (time_sub t (av_since a)), ns_addrs = live_addrs a t\<rparr>"
  let ?s = "?f (j, a)"
  let ?g = "\<lambda>s. (ns_origin s, \<lparr>rs_connections = ns_connections s, rs_since = now - wrap64 (ns_age s * second), rs_addrs = ns_addrs s\<rparr>)"
  let ?ss = "filter (\<lambda>s. \<not> (ns_origin s = 0 \<or> ns_connections s \<le> 0)) (node_sessions d t)"
  have in_s: "?s \<in> set ?ss" using assms(1-4) by (auto simp: node_sessions_def intro!: image_eqI [of _ _ "(j, a)"])
  have "distinct (map ns_origin (map ?f (filter ?P (dv_acts d))))"
  proof -
    have e: "map ns_origin (map ?f (filter ?P (dv_acts d))) = map (dv_origin_of d \<circ> fst) (filter ?P (filter (\<lambda>(j, a). dv_origin_of d j \<noteq> 0) (dv_acts d)))"
      by (simp add: comp_def case_prod_unfold conj_commute)
    show ?thesis unfolding e by (rule distinct_map_filter [OF assms(5)])
  qed
  then have "distinct (map ns_origin (node_sessions d t))"
    unfolding node_sessions_def by (metis (no_types, lifting) mset_eq_imp_distinct_iff mset_map mset_sort)
  then have d: "distinct (map fst (rev (map ?g ?ss)))"
    by (simp add: rev_map [symmetric] comp_def distinct_map_filter)
  have "(i, snd (?g ?s)) \<in> set (rev (map ?g ?ss))" using in_s assms(3) by force
  then have "map_of (rev (map ?g ?ss)) i = Some (snd (?g ?s))" using map_of_is_SomeI [OF d] by blast
  moreover have "time_sub at now \<le> remote_ttl"
    using assms(8,9) by (auto simp: time_sub_def remote_ttl_def max_duration_def min_duration_def)
  moreover have "wrap64 (whole_seconds (time_sub t (av_since a)) * second) = (t - av_since a) div second * second"
  proof -
    have t: "time_sub t (av_since a) = t - av_since a" using assms(10,11) by (auto simp: time_sub_def max_duration_def min_duration_def)
    have "(t - av_since a) div second * second = (t - av_since a) - (t - av_since a) mod second" by (rule minus_mod_eq_div_mult [symmetric])
    moreover have "0 \<le> (t - av_since a) mod second" by simp
    moreover have "0 \<le> (t - av_since a) div second * second" using assms(10) by (simp add: pos_imp_zdiv_nonneg_iff)
    ultimately have "(t - av_since a) div second * second \<le> t - av_since a" "0 \<le> (t - av_since a) div second * second" by linarith+
    then show ?thesis using assms(10,11) by (simp add: t whole_seconds_def wrap64_def max_duration_def)
  qed
  ultimately show ?thesis using assms(2,6,7) by (simp add: device_lookup_def set_remote_def map_of_clearjunk)
qed

theorem report_reaches_panel_witness:
  "device_lookup (set_remote (new_devices\<lparr>dv_node_of := (\<lambda>_. 4)\<rparr>) 4 (node_sessions (example_devices [(1, 3, 0), (2, 1, 2)]) (100 * second)) (500 * second)) 52 (505 * second) =
     Some (2, 401 * second)"
proof -
  have "device_lookup (set_remote (new_devices\<lparr>dv_node_of := (\<lambda>_. 4)\<rparr>) 4 (node_sessions (example_devices [(1, 3, 0), (2, 1, 2)]) (100 * second)) (500 * second)) 52 (505 * second) =
     Some (connections (Some (example_act 1 2)) (100 * second), 500 * second - (100 * second - av_since (example_act 1 2)) div second * second)"
    by (rule report_reaches_panel [where j = 2]) (simp_all add: example_defs remote_ttl_def)
  then show ?thesis by (simp add: example_defs)
qed

section \<open>One credential over time\<close>

text \<open>What a reading makes of what is known of its credential.\<close>

definition read_act :: "activity option \<Rightarrow> stat \<Rightarrow> instant \<Rightarrow> activity" where
  "read_act act s now =
     (let bytes = st_rx s + st_tx s; host = where_from (st_endpoint s) in
      case act of
        None \<Rightarrow> first_act bytes host
      | Some a0 \<Rightarrow>
          let a = a0\<lparr>av_sessions := []\<rparr> in
          if bytes = av_bytes a then a
          else if bytes < av_bytes a then a\<lparr>av_bytes := bytes\<rparr>
          else act_moved (a\<lparr>av_bytes := bytes\<rparr>) host now)"

lemma observe_one_acts:
  "map_of (dv_acts (observe_one c s now)) i =
    (if i = st_account s then Some (read_act (map_of (dv_acts c) i) s now) else map_of (dv_acts c) i)"
  by (simp add: observe_one_def read_act_def Let_def put_act_def devices_moved_def update_conv' split: option.split)

lemma observe_singles:
  assumes "distinct (map st_account stats)"
  shows "observe c stats now = fold (\<lambda>s c. observe_one c s now) stats c"
proof -
  let ?F = "\<lambda>i c. case filter (\<lambda>s. st_account s = i) stats of [] \<Rightarrow> c | [s] \<Rightarrow> observe_one c s now | ss \<Rightarrow> observe_sessions c i ss now"
  have one: "filter (\<lambda>x. st_account x = st_account s) xs = [s]" if "distinct (map st_account xs)" "s \<in> set xs" for s xs
    using that by (induction xs) (auto simp: filter_empty_conv image_iff)
  have "fold ?F (map st_account xs) c = fold (\<lambda>s c. observe_one c s now) xs c" if "set xs \<subseteq> set stats" for xs
    using that by (induction xs arbitrary: c) (simp_all add: one [OF assms])
  then show ?thesis using assms by (simp add: observe_def firsts_id)
qed

lemma observe_acts:
  assumes "distinct (map st_account stats)"
  shows "map_of (dv_acts (observe c stats now)) i =
    (case find (\<lambda>s. st_account s = i) stats of None \<Rightarrow> map_of (dv_acts c) i | Some s \<Rightarrow> Some (read_act (map_of (dv_acts c) i) s now))"
proof -
  have none: "find (\<lambda>s. st_account s = i) xs = None" if "i \<notin> st_account ` set xs" for xs
    using that by (auto simp: find_None_iff)
  show ?thesis unfolding observe_singles [OF assms] using assms
  proof (induction stats arbitrary: c)
    case (Cons a xs)
    then show ?case by (cases "st_account a = i") (auto simp: observe_one_acts none split: option.split)
  qed simp
qed

text \<open>Ticks, and the readings of one credential in them.\<close>

type_synonym tick = "stat list \<times> instant"

definition ticks_run :: "devices \<Rightarrow> tick list \<Rightarrow> devices" where
  "ticks_run c ts = fold (\<lambda>(stats, now) c. observe c stats now) ts c"

definition readings :: "nat \<Rightarrow> tick list \<Rightarrow> (stat \<times> instant) list" where
  "readings i ts = List.map_filter (\<lambda>(stats, now). map_option (\<lambda>s. (s, now)) (find (\<lambda>s. st_account s = i) stats)) ts"

definition act_after :: "(stat \<times> instant) list \<Rightarrow> activity option" where
  "act_after rs = fold (\<lambda>(s, now) act. Some (read_act act s now)) rs None"

lemma ticks_act:
  assumes "\<forall>(stats, now) \<in> set ts. distinct (map st_account stats)"
  shows "map_of (dv_acts (ticks_run new_devices ts)) i = act_after (readings i ts)"
proof -
  have "map_of (dv_acts (ticks_run c ts)) i = fold (\<lambda>(s, now) act. Some (read_act act s now)) (readings i ts) (map_of (dv_acts c) i)" for c
    using assms
    by (induction ts arbitrary: c) (auto simp: ticks_run_def readings_def map_filter_simps observe_acts split: option.split)
  then show ?thesis by (simp add: act_after_def new_devices_def)
qed

fun addr_changes :: "string list \<Rightarrow> int" where
  "addr_changes (x # y # xs) = (if x \<noteq> y then 1 else 0) + addr_changes (y # xs)"
| "addr_changes _ = 0"

lemma addr_changes_snoc: "addr_changes (xs @ [y]) = addr_changes xs + (if xs \<noteq> [] \<and> last xs \<noteq> y then 1 else 0)"
  by (induction xs rule: addr_changes.induct) auto

definition reading_host :: "stat \<times> instant \<Rightarrow> string" where
  "reading_host r = where_from (st_endpoint (fst r))"

lemma act_from_flips:
  assumes "av_flips a + (if av_addr a \<noteq> h then 1 else 0) \<le> n + (if h \<noteq> y then 1 else 0)" "0 \<le> av_flips a" "av_addr a \<noteq> ''''" "y \<noteq> ''''"
    and "av_flips a + (if av_addr a \<noteq> h then 1 else 0) \<le> n"
  shows "av_flips (act_from a y now) \<le> n + (if h \<noteq> y then 1 else 0) \<and> 0 \<le> av_flips (act_from a y now) \<and> av_addr (act_from a y now) = y"
  using assms by (auto simp: act_from_def Let_def)

lemma act_after_snoc: "act_after (rs @ [r]) = Some (read_act (act_after rs) (fst r) (snd r))"
  by (simp add: act_after_def split_beta)

lemma flips_bounded:
  assumes "rs \<noteq> []" "\<forall>r \<in> set rs. reading_host r \<noteq> ''''"
  shows "\<exists>a. act_after rs = Some a \<and> av_sessions a = [] \<and> av_addr a \<noteq> '''' \<and> 0 \<le> av_flips a \<and>
    av_flips a + (if av_addr a \<noteq> reading_host (last rs) then 1 else 0) \<le> addr_changes (map reading_host rs)"
  using assms
proof (induction rs rule: rev_induct)
  case (snoc r rs)
  let ?y = "reading_host r"
  show ?case
  proof (cases "rs = []")
    case True
    then show ?thesis using snoc.prems by (simp add: act_after_def read_act_def first_act_def reading_host_def Let_def split_beta)
  next
    case False
    then obtain a where a: "act_after rs = Some a" "av_addr a \<noteq> ''''" "0 \<le> av_flips a"
      "av_flips a + (if av_addr a \<noteq> reading_host (last rs) then 1 else 0) \<le> addr_changes (map reading_host rs)"
      using snoc by auto
    let ?n = "addr_changes (map reading_host rs)" and ?h = "reading_host (last rs)"
    let ?bytes = "st_rx (fst r) + st_tx (fst r)" and ?now = "snd r"
    let ?a = "a\<lparr>av_sessions := [], av_bytes := ?bytes\<rparr>"
    have ch: "addr_changes (map reading_host (rs @ [r])) = ?n + (if ?h \<noteq> ?y then 1 else 0)"
      using False by (simp add: addr_changes_snoc last_map)
    have y: "?y \<noteq> ''''" using snoc.prems(2) by simp
    consider (same) "act_after (rs @ [r]) = Some ?a" | (moved) "act_after (rs @ [r]) = Some (act_moved ?a ?y ?now)"
      by (cases "?bytes = av_bytes a"; cases "?bytes < av_bytes a") (auto simp: act_after_snoc a(1) read_act_def reading_host_def Let_def)
    then show ?thesis
    proof cases
      case same
      then show ?thesis using a ch by (auto split: if_splits)
    next
      case moved
      define b where "b = (let a1 = ?a\<lparr>av_moved := ?now\<rparr> in if time_sub ?now (av_moved a) < active_window then a1 else a1\<lparr>av_since := ?now, av_flips := 0\<rparr>)"
      have b: "av_addr b = av_addr a" "0 \<le> av_flips b" "av_flips b \<le> av_flips a" "av_sessions b = []"
        using a(3) by (simp_all add: b_def Let_def)
      have bn: "av_flips b + (if av_addr b \<noteq> ?h then 1 else 0) \<le> ?n" using a(4) b(1,3) by (auto split: if_splits)
      then have "av_flips b + (if av_addr b \<noteq> ?h then 1 else 0) \<le> ?n + (if ?h \<noteq> ?y then 1 else 0)" by auto
      then have f: "av_flips (act_from b ?y ?now) \<le> ?n + (if ?h \<noteq> ?y then 1 else 0)" "0 \<le> av_flips (act_from b ?y ?now)" "av_addr (act_from b ?y ?now) = ?y"
        using act_from_flips [OF _ b(2) _ y bn] a(2) b(1) by auto
      have s: "av_sessions (act_from b ?y ?now) = []" using b(4) by (simp add: act_from_def Let_def)
      have m: "act_moved ?a ?y ?now = (act_from b ?y ?now)\<lparr>av_addrs := filter (\<lambda>(h, t). \<not> time_sub ?now t \<ge> active_window) (av_addrs (act_from b ?y ?now))\<rparr>"
        by (simp add: act_moved_def b_def Let_def)
      show ?thesis using moved f s y unfolding m ch by simp
    qed
  qed
qed simp

text \<open>C12. A credential read once a tick is never counted as two devices before its address has changed twice: a phone
  that goes from one network to another is one.\<close>

theorem one_change_one_device:
  assumes "\<forall>(stats, now) \<in> set ts. distinct (map st_account stats)" "\<forall>r \<in> set (readings i ts). reading_host r \<noteq> ''''"
    and "addr_changes (map reading_host (readings i ts)) \<le> 1"
  shows "connections (map_of (dv_acts (ticks_run new_devices ts)) i) t \<le> 1"
proof (cases "readings i ts = []")
  case True
  then show ?thesis using ticks_act [OF assms(1), of i] by (simp add: act_after_def connections_def)
next
  case False
  obtain a where a: "act_after (readings i ts) = Some a" "av_sessions a = []"
    "av_flips a + (if av_addr a \<noteq> reading_host (last (readings i ts)) then 1 else 0) \<le> addr_changes (map reading_host (readings i ts))"
    using flips_bounded [OF False assms(2)] by blast
  have "av_flips a \<le> 1" using a(3) assms(3) by (simp split: if_splits)
  then show ?thesis using ticks_act [OF assms(1), of i] a(1,2) by (simp add: connections_def Let_def overlapping_def session_spans_def)
qed

theorem one_change_one_device_witness:
  "connections (map_of (dv_acts (ticks_run new_devices
     (map (\<lambda>(n, e). ([\<lparr>st_account = 1, st_rx = n, st_tx = 0, st_endpoint = e\<rparr>], int (unat n) * second))
       [(1, ''a:1''), (2, ''a:1''), (3, ''b:2''), (4, ''b:2'')]))) 1) (4 * second) \<le> 1"
  by (rule one_change_one_device)
    (simp_all add: readings_def map_filter_simps reading_host_def where_from_def trim_space_id go_space_def)

end
