(* ===== verification/Flights.thy ===== *)
theory Flights imports Login begin

text \<open>
  Requests in flight together. A handler that asks for a password or a code takes the throttle's
  lock twice, to ask whether the request has to wait and to count what became of it, and hashes the
  password in between, so the steps of requests served at the same time stand in any order
  (internal/api/auth.go, settings.go). What is shown is what the throttle is worth then. A sign-in asks
  about its address and its account, and counts at both, each under a hold of the lock of its own:
  what lies between two such holds touches the other key only by dropping a record an hour old, so
  they are one step here.
\<close>

section \<open>The two steps\<close>

fun enter_request :: "front \<Rightarrow> instant \<Rightarrow> panel_request \<Rightarrow> answer option \<times> front" where
  "enter_request s now (TotpOff i password code None ok) = (Some LoadError, s)"
| "enter_request s now r =
     (case enter s (keys_of r) now of (wait, s) \<Rightarrow> (if wait > 0 then Some (TooMany wait) else None, s))"

fun decide :: "proofs \<Rightarrow> front \<Rightarrow> instant \<Rightarrow> panel_request \<Rightarrow> answer \<times> front" where
  "decide pf s now (SignIn ip req by_name clock token_ok) = decide_login pf s ip req by_name now clock token_ok"
| "decide pf s now (TotpOff i password code stored ok) =
     (case stored of None \<Rightarrow> (LoadError, s) | Some a \<Rightarrow> decide_totp_disable pf s i password code a now ok)"
| "decide pf s now (PwChange a password ok) = decide_change_password pf s a password now ok"

text \<open>A handler alone is one step after the other.\<close>

lemma panel_step_two:
  "panel_step pf s now r = (case enter_request s now r of (Some a, s) \<Rightarrow> (a, s) | (None, s) \<Rightarrow> decide pf s now r)"
  by (cases "(s, now, r)" rule: enter_request.cases)
    (simp_all add: handle_login_def handle_totp_disable_def handle_change_password_def split: prod.split)

text \<open>
  The requests looked at and not decided yet, with the moment each entered: the handler reads the
  clock once and counts a failure at that reading.
\<close>

record flights =
  fl_front :: front
  fl_pending :: "(nat \<times> instant \<times> panel_request) list"
  fl_next :: nat

definition no_flights :: flights where
  "no_flights = \<lparr>fl_front = new_front, fl_pending = [], fl_next = 0\<rparr>"

datatype flight_event = Enters panel_request | Decides nat

fun flight_step :: "proofs \<Rightarrow> flights \<Rightarrow> instant \<Rightarrow> flight_event \<Rightarrow> exchange list \<times> flights" where
  "flight_step pf u t (Enters r) =
     (case enter_request (fl_front u) t r of
        (Some a, s) \<Rightarrow> ([(t, r, a)], u\<lparr>fl_front := s\<rparr>)
      | (None, s) \<Rightarrow> ([], u\<lparr>fl_front := s, fl_pending := (fl_next u, t, r) # fl_pending u, fl_next := Suc (fl_next u)\<rparr>))"
| "flight_step pf u t (Decides i) =
     (case map_of (fl_pending u) i of
        None \<Rightarrow> ([], u)
      | Some (e, r) \<Rightarrow>
          case decide pf (fl_front u) e r of
            (a, s) \<Rightarrow> ([(e, r, a)], u\<lparr>fl_front := s, fl_pending := filter (\<lambda>x. fst x \<noteq> i) (fl_pending u)\<rparr>))"

text \<open>A run: the answers, each with the moment it was given, and where the run ends.\<close>

fun flight_run :: "proofs \<Rightarrow> flights \<Rightarrow> (instant \<times> flight_event) list \<Rightarrow> (instant \<times> exchange) list \<times> flights" where
  "flight_run pf u [] = ([], u)"
| "flight_run pf u ((t, ev) # evs) =
     (case flight_step pf u t ev of (xs, u) \<Rightarrow>
      case flight_run pf u evs of (ys, u) \<Rightarrow> (map (Pair t) xs @ ys, u))"

text \<open>The requests at a key that are in flight, and the most of them at once in a run.\<close>

definition flying :: "string \<Rightarrow> flights \<Rightarrow> nat set" where
  "flying k u = {i. \<exists>e r. (i, e, r) \<in> set (fl_pending u) \<and> k \<in> set (keys_of r)}"

lemma flying_code [code]:
  "flying k u = set (map fst (filter (\<lambda>(i, e, r). k \<in> set (keys_of r)) (fl_pending u)))"
  by (force simp: flying_def)

fun together :: "proofs \<Rightarrow> string \<Rightarrow> flights \<Rightarrow> (instant \<times> flight_event) list \<Rightarrow> nat" where
  "together pf k u [] = card (flying k u)"
| "together pf k u ((t, ev) # evs) = max (card (flying k u)) (together pf k (snd (flight_step pf u t ev)) evs)"

definition guess_at :: "string \<Rightarrow> exchange \<Rightarrow> bool" where
  "guess_at k e = (case e of (now, r, a) \<Rightarrow> a = WrongProof \<and> k \<in> set (keys_of r))"

definition cleared_at :: "string \<Rightarrow> exchange \<Rightarrow> bool" where
  "cleared_at k e = (case e of (now, r, a) \<Rightarrow> clears a \<and> k \<in> set (keys_of r))"

section \<open>What the steps do to a key's record\<close>

text \<open>A record with no hour gone by since its last failure stays, whatever is done at other keys.\<close>

definition quiet :: "attempt_record \<Rightarrow> instant \<Rightarrow> bool" where
  "quiet r now \<longleftrightarrow> now - ar_last r > forgetAfter"

lemma time_quiet: "time_sub now (ar_last r) > forgetAfter \<longleftrightarrow> quiet r now"
  by (simp only: quiet_def quiet_iff)

lemmas quiet_time = time_quiet [simplified]

lemma not_quiet: "ar_last r = now \<Longrightarrow> \<not> quiet r now"
  by (simp add: quiet_def)

lemma sweep_keeps: "map_of t k = Some r \<Longrightarrow> \<not> quiet r now \<Longrightarrow> map_of (sweep t now) k = Some r"
  by (simp add: sweep_def quiet_time map_of_filter_Some)

lemma retry_keeps: "map_of t k = Some r \<Longrightarrow> \<not> quiet r now \<Longrightarrow> map_of (snd (retry_after t key now)) k = Some r"
  by (auto simp: retry_after_def delete_conv' quiet_time split: option.split)

lemma first_wait_keeps: "map_of t k = Some r \<Longrightarrow> \<not> quiet r now \<Longrightarrow> map_of (snd (first_wait t ks now)) k = Some r"
proof (induction ks arbitrary: t)
  case (Cons key ks)
  obtain w t' where w: "retry_after t key now = (w, t')" by fastforce
  then have "map_of t' k = Some r" using retry_keeps [OF Cons.prems, of key] by simp
  from Cons.IH [OF this Cons.prems(2)] show ?case using \<open>map_of t' k = Some r\<close> w by simp
qed simp

lemma fail_keeps:
  "map_of t k = Some r \<Longrightarrow> \<not> quiet r now \<Longrightarrow> key \<noteq> k \<Longrightarrow> map_of (snd (throttle_fail t key now)) k = Some r"
  by (auto simp: throttle_fail_def Let_def update_conv' intro: sweep_keeps split: option.split)

text \<open>What a failure writes at its key, on top of what is there.\<close>

definition failed_record :: "attempt_record option \<Rightarrow> instant \<Rightarrow> attempt_record" where
  "failed_record old now =
     (let n = (case old of None \<Rightarrow> 0 | Some r \<Rightarrow> if quiet r now then 0 else ar_failures r);
          u = (case old of None \<Rightarrow> 0 | Some r \<Rightarrow> if quiet r now then 0 else ar_until r)
      in \<lparr>ar_failures = n + 1, ar_last = now, ar_until = (if n + 1 \<le> freeAttempts then u else now + wait_of (n + 1))\<rparr>)"

lemma fail_writes: "map_of (snd (throttle_fail t key now)) key = Some (failed_record (map_of t key) now)"
proof -
  define r where "r = (case map_of t key of
      Some r \<Rightarrow> if time_sub now (ar_last r) > forgetAfter then \<lparr>ar_failures = 0, ar_last = 0, ar_until = 0\<rparr> else r
    | None \<Rightarrow> \<lparr>ar_failures = 0, ar_last = 0, ar_until = 0\<rparr>)"
  have f: "failed_record (map_of t key) now = r\<lparr>ar_failures := ar_failures r + 1, ar_last := now,
      ar_until := (if ar_failures r + 1 \<le> freeAttempts then ar_until r else now + wait_of (ar_failures r + 1))\<rparr>"
    unfolding r_def failed_record_def Let_def time_quiet by (cases "map_of t key") auto
  show ?thesis
    unfolding throttle_fail_def r_def [symmetric] Let_def f
    by (auto simp: update_conv' wait_of_earned not_quiet intro!: sweep_keeps)
qed

lemma fold_fail_keeps:
  "map_of t k = Some r \<Longrightarrow> \<not> quiet r now \<Longrightarrow> k \<notin> set ks \<Longrightarrow>
     map_of (fold (\<lambda>k t. snd (throttle_fail t k now)) ks t) k = Some r"
  proof (induction ks arbitrary: t)
  case (Cons key ks)
  then show ?case using fail_keeps [OF Cons.prems(1,2), of key] by auto
qed simp

lemma fold_fail_writes:
  assumes "distinct ks" "k \<in> set ks"
  shows "\<exists>old. map_of (fold (\<lambda>k t. snd (throttle_fail t k now)) ks t) k = Some (failed_record old now) \<and>
    (\<forall>r. map_of t k = Some r \<and> \<not> quiet r now \<longrightarrow> old = Some r)"
  using assms
proof (induction ks arbitrary: t)
  case (Cons key ks)
  let ?t = "snd (throttle_fail t key now)"
  show ?case
  proof (cases "key = k")
    case True
    have "\<not> quiet (failed_record (map_of t k) now) now" by (simp add: failed_record_def not_quiet Let_def)
    with True fold_fail_keeps [OF fail_writes, of t k now now ks] Cons.prems show ?thesis
      by (intro exI [of _ "map_of t k"]) auto
  next
    case False
    with Cons.prems have "distinct ks" "k \<in> set ks" by auto
    from Cons.IH [OF this, of ?t] obtain old where old: "map_of (fold (\<lambda>k t. snd (throttle_fail t k now)) ks ?t) k = Some (failed_record old now)"
      "\<forall>r. map_of ?t k = Some r \<and> \<not> quiet r now \<longrightarrow> old = Some r" by blast
    then show ?thesis using False by (intro exI [of _ old]) (simp add: fail_keeps)
  qed
qed simp

lemma fold_succeed_keeps: "k \<notin> set ks \<Longrightarrow> map_of (fold (\<lambda>k t. succeed t k) ks t) k = map_of t k"
  by (induction ks arbitrary: t) (auto simp: succeed_def delete_conv')

lemma decide_front:
  assumes "decide pf s e r = (a, s')"
  shows "\<exists>s2. fr_throttle s2 = fr_throttle s \<and>
    ((a = WrongProof \<and> s' = fail_keys (keys_of r) e s2) \<or> (clears a \<and> s' = clear_keys (keys_of r) s2) \<or>
     (a \<noteq> WrongProof \<and> \<not> clears a \<and> s' = s2))"
proof (cases r)
  case (SignIn ip req by_name clock ok)
  have "fr_throttle (snd (code_taken pf s adm (lr_code req) e clock)) = fr_throttle s" for adm
    by (rule code_taken_throttle)
  then show ?thesis
    using assms unfolding SignIn
    by (auto simp: decide_login_def Let_def split: lookup.splits if_splits prod.splits) (metis snd_conv)+
next
  case (TotpOff i password code stored ok)
  show ?thesis
  proof (cases stored)
    case None
    then show ?thesis using assms TotpOff by auto
  next
    case (Some adm)
    have "fr_throttle (snd (code_taken pf s adm code e e)) = fr_throttle s" by (rule code_taken_throttle)
    then show ?thesis
      using assms unfolding TotpOff Some
      by (cases "code_taken pf s adm code e e") (auto simp: decide_totp_disable_def Let_def split: if_splits)
  qed
next
  case (PwChange adm password ok)
  then show ?thesis using assms by (auto simp: decide_change_password_def Let_def split: if_splits)
qed

lemma keys_of_distinct: "distinct (keys_of r)"
  by (cases r) (auto simp: ip_key_def user_key_def)

text \<open>What deciding a request does to the record of a key no failure of which is an hour old.\<close>

lemma decide_at:
  assumes d: "decide pf s e r = (a, s')"
  shows "k \<notin> set (keys_of r) \<or> \<not> (a = WrongProof \<or> clears a) \<Longrightarrow> map_of (fr_throttle s) k = Some rec \<Longrightarrow> \<not> quiet rec e \<Longrightarrow>
      map_of (fr_throttle s') k = Some rec"
    and "k \<in> set (keys_of r) \<Longrightarrow> a = WrongProof \<Longrightarrow> \<exists>old. map_of (fr_throttle s') k = Some (failed_record old e) \<and>
      (\<forall>rec. map_of (fr_throttle s) k = Some rec \<and> \<not> quiet rec e \<longrightarrow> old = Some rec)"
proof -
  obtain s2 where s2: "fr_throttle s2 = fr_throttle s"
    "(a = WrongProof \<and> s' = fail_keys (keys_of r) e s2) \<or> (clears a \<and> s' = clear_keys (keys_of r) s2) \<or>
     (a \<noteq> WrongProof \<and> \<not> clears a \<and> s' = s2)"
    using decide_front [OF d] by blast
  show "map_of (fr_throttle s') k = Some rec"
    if "k \<notin> set (keys_of r) \<or> \<not> (a = WrongProof \<or> clears a)" "map_of (fr_throttle s) k = Some rec" "\<not> quiet rec e"
    using s2 that fold_fail_keeps [OF that(2,3), of "keys_of r"]
    by (auto simp: fail_keys_def clear_keys_def fold_succeed_keeps)
  show "\<exists>old. map_of (fr_throttle s') k = Some (failed_record old e) \<and>
      (\<forall>rec. map_of (fr_throttle s) k = Some rec \<and> \<not> quiet rec e \<longrightarrow> old = Some rec)"
    if "k \<in> set (keys_of r)" "a = WrongProof"
    using s2 that fold_fail_writes [OF keys_of_distinct that(1), of e "fr_throttle s"] by (auto simp: fail_keys_def)
qed

text \<open>A request that is looked at met no lock at any of its keys.\<close>

lemma time_sub_pos: "now < t \<Longrightarrow> 0 < time_sub t now"
  by (simp add: time_sub_def min_duration_def max_duration_def)

lemma first_wait_free:
  assumes "fst (first_wait t ks now) \<le> 0" "k \<in> set ks" "map_of t k = Some r" "\<not> quiet r now"
  shows "ar_until r \<le> now"
  using assms
proof (induction ks arbitrary: t)
  case (Cons key ks)
  obtain w t' where w: "retry_after t key now = (w, t')" by fastforce
  have w0: "w \<le> 0" "fst (first_wait t' ks now) \<le> 0" using Cons.prems(1) w by (auto split: if_splits)
  show ?case
  proof (cases "key = k")
    case True
    with w w0(1) Cons.prems(3,4) time_sub_pos [of now "ar_until r"] show ?thesis
      by (auto simp: retry_after_def quiet_time split: if_splits)
  next
    case False
    have "map_of t' k = Some r" using retry_keeps [OF Cons.prems(3,4), of key] w by simp
    with Cons.IH [OF w0(2) _ this Cons.prems(4)] Cons.prems(2) False show ?thesis by auto
  qed
qed simp

lemma enter_request_at:
  assumes "enter_request s now r = (x, s')" "map_of (fr_throttle s) k = Some rec" "\<not> quiet rec now"
  shows "map_of (fr_throttle s') k = Some rec" "x = None \<Longrightarrow> k \<in> set (keys_of r) \<Longrightarrow> ar_until rec \<le> now"
proof -
  have "(x, s') = (Some LoadError, s) \<or> (x = (if fst (first_wait (fr_throttle s) (keys_of r) now) > 0
      then Some (TooMany (fst (first_wait (fr_throttle s) (keys_of r) now))) else None) \<and>
      s' = s\<lparr>fr_throttle := snd (first_wait (fr_throttle s) (keys_of r) now)\<rparr>)"
    using assms(1) by (cases "(s, now, r)" rule: enter_request.cases) (auto simp: enter_def split: prod.splits simp del: first_wait.simps)
  then show "map_of (fr_throttle s') k = Some rec" "x = None \<Longrightarrow> k \<in> set (keys_of r) \<Longrightarrow> ar_until rec \<le> now"
    using assms(2,3) first_wait_keeps [OF assms(2,3), of "keys_of r"] first_wait_free [of "fr_throttle s" "keys_of r" now k rec]
    by (auto split: if_splits)
qed

section \<open>Rounds of guesses\<close>

text \<open>How long a request may be in the deciding: four seconds.\<close>

abbreviation (input) grace :: duration where "grace \<equiv> 4 * second"

text \<open>
  The guesses at a key come in rounds: a guess begins one when it entered after the failure that
  began the last. What else fails in a round was in flight when it began, so a round is no longer
  than the most requests in flight together, and between two rounds lies the wait the failures so
  far have earned, less the time a request may take. The least time the first j rounds take:
\<close>

definition rounds_take :: "nat \<Rightarrow> duration" where
  "rounds_take j = (\<Sum>i\<in>{1..<j}. max 0 (wait_of i - grace))"

lemma rounds_take_Suc: "0 < j \<Longrightarrow> rounds_take (Suc j) = rounds_take j + max 0 (wait_of j - grace)"
  by (simp add: rounds_take_def)

lemma rounds_take_1 [simp]: "rounds_take (Suc 0) = 0"
  by (simp add: rounds_take_def)

lemma rounds_take_mono: "i \<le> j \<Longrightarrow> rounds_take i \<le> rounds_take j"
  unfolding rounds_take_def by (rule sum_mono2) auto

lemma rounds_take_14: "rounds_take 14 = 3598 * second"
proof -
  have "rounds_take 14 = sum_list (map (\<lambda>i. max 0 (wait_of i - grace)) [1..<14])"
    unfolding rounds_take_def set_upt [symmetric] by (rule sum_list_distinct_conv_sum_set [symmetric]) simp
  also have "\<dots> = 3598 * second" by (simp add: wait_of_def upt_rec)
  finally show ?thesis .
qed

text \<open>
  The key's record after j rounds, the last begun at F: no fewer failures than rounds, and locked
  until the wait of j failures from F, but for the grace.
\<close>

definition hot :: "nat \<Rightarrow> instant \<Rightarrow> attempt_record option \<Rightarrow> bool" where
  "hot j F rec \<longleftrightarrow> j = 0 \<or> (\<exists>r. rec = Some r \<and> j \<le> ar_failures r \<and> F - grace \<le> ar_last r \<and>
     (freeAttempts < ar_failures r \<longrightarrow> F - grace + wait_of j \<le> ar_until r))"

definition fresh_ids :: "flights \<Rightarrow> bool" where
  "fresh_ids u \<longleftrightarrow> distinct (map fst (fl_pending u)) \<and> (\<forall>x \<in> set (fl_pending u). fst x < fl_next u)"

text \<open>
  What holds after c guesses in j rounds: those of the round still in flight (st) have room in it,
  and every other request in flight at the key entered after the lock.
\<close>

definition rounds_inv :: "nat \<Rightarrow> string \<Rightarrow> instant \<Rightarrow> instant \<Rightarrow> flights \<Rightarrow> nat \<Rightarrow> nat \<Rightarrow> instant \<Rightarrow> nat set \<Rightarrow> bool" where
  "rounds_inv n k T t u c j F st \<longleftrightarrow>
     fresh_ids u \<and> (\<forall>(i, e, r) \<in> set (fl_pending u). e \<le> t) \<and>
     st \<subseteq> flying k u \<and> c + card st \<le> n * j \<and> hot j F (map_of (fr_throttle (fl_front u)) k) \<and>
     (0 < j \<longrightarrow> T + rounds_take j \<le> F \<and> F \<le> t \<and>
       (\<forall>(i, e, r) \<in> set (fl_pending u). k \<in> set (keys_of r) \<and> i \<notin> st \<longrightarrow> F - grace + wait_of j \<le> e))"

lemma finite_flying: "finite (flying k u)"
proof -
  have "flying k u \<subseteq> fst ` set (fl_pending u)" by (force simp: flying_def)
  then show ?thesis by (rule finite_subset) simp
qed

lemma hot_not_quiet: "hot j F (Some r) \<Longrightarrow> 0 < j \<Longrightarrow> e \<le> F - grace + forgetAfter \<Longrightarrow> \<not> quiet r e"
  by (auto simp: hot_def quiet_def)

lemma hot_some: "hot j F rec \<Longrightarrow> 0 < j \<Longrightarrow> \<exists>r. rec = Some r"
  by (auto simp: hot_def)

text \<open>A failure at the key keeps it hot, and one of a new round begins it.\<close>

lemma hot_failed:
  assumes "hot j F (map_of t k)" "0 < j \<Longrightarrow> T + rounds_take j \<le> F \<and> e \<le> T + forgetAfter - grace \<and> F \<le> f"
    and "\<forall>rec. map_of t k = Some rec \<and> \<not> quiet rec e \<longrightarrow> old = Some rec" and "f - grace \<le> e"
  shows "hot j F (Some (failed_record old e))" "hot (Suc j) f (Some (failed_record old e))"
proof -
  have n: "j \<le> ar_failures (failed_record old e) - 1 \<and> 1 \<le> ar_failures (failed_record old e)"
  proof (cases "j = 0")
    case False
    then obtain r where r: "map_of t k = Some r" "j \<le> ar_failures r" using assms(1) by (auto simp: hot_def)
    have "0 \<le> rounds_take j" using rounds_take_mono [of 1 j] False by simp
    then have "\<not> quiet r e"
      using False assms(1,2) r by (intro hot_not_quiet [of j F]) auto
    with r assms(3) have "old = Some r" by blast
    with \<open>\<not> quiet r e\<close> r(2) show ?thesis by (simp add: failed_record_def Let_def)
  qed (simp add: failed_record_def Let_def)
  have f: "ar_last (failed_record old e) = e"
    "freeAttempts < ar_failures (failed_record old e) \<Longrightarrow> ar_until (failed_record old e) = e + wait_of (ar_failures (failed_record old e))"
    by (auto simp: failed_record_def Let_def)
  have "wait_of j \<le> wait_of (ar_failures (failed_record old e))" "wait_of (Suc j) \<le> wait_of (ar_failures (failed_record old e))"
    using n by (auto intro: wait_of_mono)
  then show "hot j F (Some (failed_record old e))" "hot (Suc j) f (Some (failed_record old e))"
    using n f assms(2,4) unfolding hot_def by auto
qed

lemma enter_rounds:
  assumes inv: "rounds_inv n k T t0 u c j F st" and t: "t0 \<le> t" "t \<le> T + forgetAfter - grace"
    and st: "flight_step pf u t (Enters r) = (xs, u')"
  shows "rounds_inv n k T t u' c j F st \<and> filter (guess_at k) xs = []"
proof -
  obtain x s where e: "enter_request (fl_front u) t r = (x, s)" by fastforce
  have hot: "hot j F (map_of (fr_throttle (fl_front u)) k)" using inv by (simp add: rounds_inv_def)
  have keep: "hot j F (map_of (fr_throttle s) k) \<and> (0 < j \<and> x = None \<and> k \<in> set (keys_of r) \<longrightarrow> F - grace + wait_of j \<le> t)"
  proof (cases "j = 0")
    case False
    then obtain rec where rec: "map_of (fr_throttle (fl_front u)) k = Some rec" using hot_some [OF hot] by auto
    have T: "T + rounds_take j \<le> F" "F \<le> t" using inv t(1) False by (auto simp: rounds_inv_def)
    have "0 \<le> rounds_take j" using rounds_take_mono [of 1 j] False by simp
    then have nq: "\<not> quiet rec t" using hot rec False t(2) T by (intro hot_not_quiet [of j F]) auto
    note at = enter_request_at [OF e rec nq]
    have "F - grace + wait_of j \<le> t" if "x = None" "k \<in> set (keys_of r)"
    proof (cases "freeAttempts < ar_failures rec")
      case True
      then show ?thesis using at(2) [OF that] hot rec False by (auto simp: hot_def)
    next
      case False2: False
      then have "wait_of j = 0" using hot rec False by (auto simp: hot_def wait_of_def)
      then show ?thesis using T by simp
    qed
    then show ?thesis using at(1) hot rec by simp
  qed (simp add: hot_def)
  show ?thesis
  proof (cases x)
    case None
    with st e have u': "u' = u\<lparr>fl_front := s, fl_pending := (fl_next u, t, r) # fl_pending u, fl_next := Suc (fl_next u)\<rparr>" "xs = []"
      by auto
    have "flying k u \<subseteq> flying k u'" by (auto simp: flying_def u')
    then show ?thesis
      using inv keep None t(1) unfolding rounds_inv_def fresh_ids_def u' by (fastforce simp: less_Suc_eq)
  next
    case (Some a)
    with st e have u': "u' = u\<lparr>fl_front := s\<rparr>" "xs = [(t, r, a)]" by auto
    have "a \<noteq> WrongProof" using e Some
      by (cases "(fl_front u, t, r)" rule: enter_request.cases) (auto split: prod.splits if_splits)
    moreover have "flying k u' = flying k u" by (simp add: flying_def u')
    ultimately show ?thesis
      using inv keep t(1) unfolding rounds_inv_def fresh_ids_def u' by (fastforce simp: guess_at_def)
  qed
qed

lemma flying_decided:
  assumes "fresh_ids u" "map_of (fl_pending u) i = Some (e, r)"
  shows "flying k (u\<lparr>fl_front := s, fl_pending := filter (\<lambda>x. fst x \<noteq> i) (fl_pending u)\<rparr>) = flying k u - {i}"
    "i \<in> flying k u \<longleftrightarrow> k \<in> set (keys_of r)"
proof -
  show "flying k (u\<lparr>fl_front := s, fl_pending := filter (\<lambda>x. fst x \<noteq> i) (fl_pending u)\<rparr>) = flying k u - {i}"
    by (auto simp: flying_def)
  have "(i, e', r') \<in> set (fl_pending u) \<longleftrightarrow> e' = e \<and> r' = r" for e' r'
    using assms map_of_eq_Some_iff [of "fl_pending u" i "(e', r')"] by (auto simp: fresh_ids_def)
  then show "i \<in> flying k u \<longleftrightarrow> k \<in> set (keys_of r)" by (auto simp: flying_def)
qed

lemma fresh_ids_filter: "fresh_ids u \<Longrightarrow> fresh_ids (u\<lparr>fl_front := s, fl_pending := filter P (fl_pending u)\<rparr>)"
  by (auto simp: fresh_ids_def distinct_map_filter)

lemma decide_rounds:
  assumes inv: "rounds_inv n k T t0 u c j F st" and t: "t0 \<le> t" "T \<le> t" "t \<le> T + forgetAfter - grace"
    and step: "flight_step pf u t (Decides i) = (xs, u')" and n: "card (flying k u) \<le> n"
    and ok: "\<forall>(e, r, a) \<in> set xs. \<not> cleared_at k (e, r, a) \<and> (k \<in> set (keys_of r) \<longrightarrow> t - grace \<le> e)"
  shows "\<exists>j F st. rounds_inv n k T t u' (c + length (filter (guess_at k) xs)) j F st"
proof (cases "map_of (fl_pending u) i")
  case None
  then have "u' = u" "xs = []" using step by auto
  then show ?thesis using inv t(1) unfolding rounds_inv_def by (intro exI [of _ j] exI [of _ F] exI [of _ st]) fastforce
next
  case (Some er)
  obtain e r where er: "er = (e, r)" by fastforce
  obtain a s where d: "decide pf (fl_front u) e r = (a, s)" by fastforce
  let ?p = "filter (\<lambda>x. fst x \<noteq> i) (fl_pending u)"
  have u': "u' = u\<lparr>fl_front := s, fl_pending := ?p\<rparr>" "xs = [(e, r, a)]" using step Some er d by auto
  have fresh: "fresh_ids u" and hot: "hot j F (map_of (fr_throttle (fl_front u)) k)" and sub: "st \<subseteq> flying k u"
    and cnt: "c + card st \<le> n * j" using inv by (auto simp: rounds_inv_def)
  note fly = flying_decided [OF fresh Some [unfolded er], of k]
  have pend: "(i, e, r) \<in> set (fl_pending u)" using Some er by (auto dest: map_of_SomeD)
  then have et: "e \<le> t" using inv t(1) by (auto simp: rounds_inv_def)
  have T: "T + rounds_take j \<le> F" "F \<le> t" "0 \<le> rounds_take j" if "0 < j"
    using inv t(1) that rounds_take_mono [of 1 j] by (auto simp: rounds_inv_def)
  have entered: "\<forall>(i', e', r') \<in> set ?p. e' \<le> t"
    using inv t(1) by (fastforce simp: rounds_inv_def)
  have rest: "0 < j \<longrightarrow> T + rounds_take j \<le> F \<and> F \<le> t \<and>
      (\<forall>(i', e', r') \<in> set ?p. k \<in> set (keys_of r') \<and> i' \<notin> st - {i} \<longrightarrow> F - grace + wait_of j \<le> e')"
    using inv t(1) by (fastforce simp: rounds_inv_def)
  have front: "fl_front u' = s" "fl_pending u' = ?p" by (simp_all add: u')
  show ?thesis
  proof (cases "guess_at k (e, r, a)")
    case False
    have "k \<notin> set (keys_of r) \<or> \<not> (a = WrongProof \<or> clears a)"
      using False ok u'(2) by (auto simp: guess_at_def cleared_at_def)
    note at = decide_at(1) [OF d this]
    have "hot j F (map_of (fr_throttle s) k)"
    proof (cases "j = 0")
      case False
      then obtain rec where rec: "map_of (fr_throttle (fl_front u)) k = Some rec" using hot_some [OF hot] by auto
      have "\<not> quiet rec e" using hot rec False T et t(3) by (intro hot_not_quiet [of j F]) auto
      with at [OF rec] hot rec show ?thesis by simp
    qed (simp add: hot_def)
    moreover have "card (st - {i}) \<le> card st" by (rule card_Diff1_le)
    ultimately have "rounds_inv n k T t u' c j F (st - {i})"
      using cnt sub entered rest fresh_ids_filter [OF fresh] fly(1) unfolding rounds_inv_def front
      by (auto simp: u')
    then show ?thesis using False u'(2) by auto
  next
    case True
    then have g: "a = WrongProof" "k \<in> set (keys_of r)" by (auto simp: guess_at_def)
    then have ge: "t - grace \<le> e" using ok u'(2) by auto
    obtain old where old: "map_of (fr_throttle s) k = Some (failed_record old e)"
      "\<forall>rec. map_of (fr_throttle (fl_front u)) k = Some rec \<and> \<not> quiet rec e \<longrightarrow> old = Some rec"
      using decide_at(2) [OF d g(2,1)] by blast
    have len: "length (filter (guess_at k) xs) = 1" using True u'(2) by simp
    have i: "i \<in> flying k u" using fly(2) g(2) by simp
    have "0 < j \<Longrightarrow> T + rounds_take j \<le> F \<and> e \<le> T + forgetAfter - grace \<and> F \<le> t" using T et t(3) by auto
    note hf = hot_failed [OF hot this old(2) ge]
    show ?thesis
    proof (cases "i \<in> st")
      case True
      have j: "0 < j" using cnt True finite_subset [OF sub finite_flying] by (cases j) auto
      have "card (st - {i}) + 1 = card st"
        using True finite_subset [OF sub finite_flying] by (metis Suc_eq_plus1 card.remove)
      then have "rounds_inv n k T t u' (c + 1) j F (st - {i})"
        using cnt sub entered rest fresh_ids_filter [OF fresh] fly(1) hf(1) T j unfolding rounds_inv_def front old(1)
        by (auto simp: u')
      then show ?thesis using len by auto
    next
      case False
      let ?st = "flying k u - {i}"
      have "card ?st + 1 = card (flying k u)" using i finite_flying by (metis Suc_eq_plus1 card.remove)
      then have "c + 1 + card ?st \<le> n * Suc j" using cnt n by simp
      moreover have "T + rounds_take (Suc j) \<le> t"
      proof (cases "j = 0")
        case False2: False
        then have "F - grace + wait_of j \<le> e" using inv pend False g(2) by (auto simp: rounds_inv_def)
        then show ?thesis using T et False2 by (simp add: rounds_take_Suc)
      qed (use t(2) in simp)
      moreover have "\<forall>(i', e', r') \<in> set ?p. k \<in> set (keys_of r') \<longrightarrow> i' \<in> ?st" by (auto simp: flying_def)
      ultimately have "rounds_inv n k T t u' (c + 1) (Suc j) t ?st"
        using entered fresh_ids_filter [OF fresh] fly(1) hf(2) unfolding rounds_inv_def front old(1)
        by (auto simp: u')
      then show ?thesis using len by auto
    qed
  qed
qed

section \<open>Runs\<close>

text \<open>Every request in flight entered at or before the clock, under a number of its own.\<close>

definition flights_ok :: "instant \<Rightarrow> flights \<Rightarrow> bool" where
  "flights_ok t u \<longleftrightarrow> fresh_ids u \<and> (\<forall>(i, e, r) \<in> set (fl_pending u). e \<le> t)"

lemma flight_step_ok:
  assumes "flights_ok t0 u" "t0 \<le> t"
  shows "flights_ok t (snd (flight_step pf u t ev))"
proof (cases ev)
  case (Enters r)
  obtain x s where "enter_request (fl_front u) t r = (x, s)" by fastforce
  then show ?thesis
    using assms unfolding Enters by (cases x) (fastforce simp: flights_ok_def fresh_ids_def less_Suc_eq)+
next
  case (Decides i)
  show ?thesis
    using assms unfolding Decides
    by (auto 4 3 simp: flights_ok_def fresh_ids_filter split: option.split prod.split)
qed

lemma flight_run_ok:
  "flights_ok t u \<Longrightarrow> sorted_wrt (\<le>) (t # map fst evs) \<Longrightarrow> flights_ok (last (t # map fst evs)) (snd (flight_run pf u evs))"
proof (induction evs arbitrary: t u)
  case (Cons x evs)
  obtain t' ev where x: "x = (t', ev)" by fastforce
  have "flights_ok t' (snd (flight_step pf u t' ev))" using Cons.prems x by (auto intro: flight_step_ok)
  from Cons.IH [OF this] Cons.prems(2) x show ?case by (auto split: prod.splits)
qed simp

lemma rounds_start: "flights_ok t u \<Longrightarrow> rounds_inv n k T t u 0 0 F {}"
  by (simp add: rounds_inv_def flights_ok_def hot_def)

text \<open>The answers in time: no key of theirs cleared, and a request at the key decided in the grace.\<close>

definition in_time :: "string \<Rightarrow> instant \<times> exchange \<Rightarrow> bool" where
  "in_time k x = (case x of (t, e, r, a) \<Rightarrow> k \<in> set (keys_of r) \<longrightarrow> t - grace \<le> e)"

lemma rounds_step:
  assumes inv: "rounds_inv n k T t0 u c j F st" and t: "t0 \<le> t" "T \<le> t" "t \<le> T + forgetAfter - grace"
    and step: "flight_step pf u t ev = (xs, u')" and n: "card (flying k u) \<le> n"
    and ok: "\<forall>x \<in> set xs. \<not> cleared_at k x \<and> in_time k (t, x)"
  shows "\<exists>j F st. rounds_inv n k T t u' (c + length (filter (guess_at k) xs)) j F st"
proof (cases ev)
  case (Enters r)
  show ?thesis using enter_rounds [OF inv t(1,3) step [unfolded Enters]] by auto
next
  case (Decides i)
  show ?thesis
    by (rule decide_rounds [OF inv t step [unfolded Decides] n]) (use ok in \<open>auto simp: in_time_def\<close>)
qed

lemma rounds_run:
  assumes "rounds_inv n k T t u c j F st" "sorted_wrt (\<le>) (t # map fst evs)"
    and "\<forall>x \<in> set evs. T \<le> fst x \<and> fst x \<le> T + forgetAfter - grace" "t \<le> T + forgetAfter - grace \<or> j = 0"
    and "together pf k u evs \<le> n" "flight_run pf u evs = (os, v)"
    and "\<forall>x \<in> set os. \<not> cleared_at k (snd x) \<and> in_time k x"
  shows "\<exists>t j F st. rounds_inv n k T t v (c + length (filter (guess_at k) (map snd os))) j F st \<and>
    (t \<le> T + forgetAfter - grace \<or> j = 0)"
  using assms
proof (induction evs arbitrary: t u c j F st os)
  case Nil
  then show ?case by auto
next
  case (Cons x evs)
  obtain t' ev where x: "x = (t', ev)" by fastforce
  obtain xs u' where step: "flight_step pf u t' ev = (xs, u')" by fastforce
  obtain ys where run: "flight_run pf u' evs = (ys, v)" "os = map (Pair t') xs @ ys"
    using Cons.prems(6) step x by (auto split: prod.splits)
  have b: "t \<le> t'" "T \<le> t'" "t' \<le> T + forgetAfter - grace" using Cons.prems(2,3) x by auto
  have n: "card (flying k u) \<le> n" "together pf k u' evs \<le> n" using Cons.prems(5) x step by auto
  have "\<forall>x \<in> set xs. \<not> cleared_at k x \<and> in_time k (t', x)" using Cons.prems(7) unfolding run(2) by (simp add: ball_Un)
  from rounds_step [OF Cons.prems(1) b step n(1) this]
  obtain j' F' st' where "rounds_inv n k T t' u' (c + length (filter (guess_at k) xs)) j' F' st'" by blast
  from Cons.IH [OF this _ _ _ n(2) run(1)] Cons.prems(2,3,7) x b(3) run(2)
  show ?case by (auto simp: comp_def add.assoc)
qed

section \<open>Properties\<close>

text \<open>
  C25. Requests are served at the same time, their steps in any order. In any window of an hour less
  four seconds in which nobody gets in by a key - an account's, an address's, a session's - while
  at most n requests at it are in flight together and each is decided within four seconds of its
  check, at most thirteen times n guesses at it are looked at, however many are sent, whatever else
  is asked of the panel in between and whatever came before. For requests one after another that is
  thirteen.
\<close>
theorem guesses_bounded:
  assumes "flight_run pf no_flights before = (past, u)" "flight_run pf u hour = (os, v)"
    and "sorted_wrt (\<le>) (map fst (before @ hour))"
    and "\<forall>x \<in> set hour. T \<le> fst x \<and> fst x \<le> T + forgetAfter - grace"
    and "\<forall>x \<in> set os. \<not> cleared_at k (snd x) \<and> in_time k x"
    and "together pf k u hour \<le> n"
  shows "length (filter (guess_at k) (map snd os)) \<le> 13 * n"
proof -
  define t0 where "t0 = (if before @ hour = [] then T else fst (hd (before @ hour)))"
  define t1 where "t1 = last (t0 # map fst before)"
  have s: "sorted_wrt (\<le>) (t0 # map fst (before @ hour))"
    using assms(3) by (cases "before @ hour") (auto simp: t0_def)
  have ok: "flights_ok t1 u"
    using flight_run_ok [of t0 no_flights before pf] s assms(1)
    by (simp add: t1_def flights_ok_def no_flights_def fresh_ids_def sorted_wrt_append)
  have sorted: "sorted_wrt (\<le>) (t1 # map fst hour)"
    using s unfolding t1_def by (cases before rule: rev_cases) (auto simp: sorted_wrt_append)
  obtain t j F st where inv: "rounds_inv n k T t v (length (filter (guess_at k) (map snd os))) j F st"
    and t: "t \<le> T + forgetAfter - grace \<or> j = 0"
    using rounds_run [OF rounds_start [OF ok, where F = T] sorted assms(4) disjI2 [OF refl] assms(6,2,5)] unfolding add_0 by blast
  have "j \<le> 13"
  proof (rule ccontr)
    assume "\<not> j \<le> 13"
    then have "rounds_take 14 \<le> rounds_take j" "0 < j" by (auto intro: rounds_take_mono)
    moreover have "T + rounds_take j \<le> F" "F \<le> t" using inv \<open>0 < j\<close> by (auto simp: rounds_inv_def)
    ultimately show False using t by (simp add: rounds_take_14)
  qed
  then have "n * j \<le> 13 * n" by simp
  moreover have "length (filter (guess_at k) (map snd os)) \<le> n * j" using inv by (simp add: rounds_inv_def)
  ultimately show ?thesis by (rule order_trans [rotated])
qed

text \<open>
  Together is what it costs: twenty guesses that all enter before the first of them is decided are all
  looked at, where one after another six would be.
\<close>

definition toy_together :: "nat \<Rightarrow> (instant \<times> flight_event) list" where
  "toy_together n = replicate n (0, Enters (PwChange toy_admin ''no'' True)) @ map (\<lambda>i. (second, Decides i)) [0..<n]"

lemma guesses_together:
  "length (filter (guess_at ''pwchange:1'') (map snd (fst (flight_run toy_proofs no_flights (toy_together 20))))) = 20"
  by code_simp

lemma toy_together_facts:
  "list_all (\<lambda>x. \<not> cleared_at ''pwchange:1'' (snd x) \<and> in_time ''pwchange:1'' x) (fst (flight_run toy_proofs no_flights (toy_together 3)))"
  "sorted_wrt (\<le>) (map fst (toy_together 3))"
  "list_all (\<lambda>x. 0 \<le> fst x \<and> fst x \<le> 0 + forgetAfter - grace) (toy_together 3)"
  "together toy_proofs ''pwchange:1'' no_flights (toy_together 3) \<le> 3"
  by code_simp+

theorem guesses_bounded_witness:
  "length (filter (guess_at ''pwchange:1'') (map snd (fst (flight_run toy_proofs no_flights (toy_together 3))))) \<le> 39"
  using guesses_bounded [where before = "[]" and u = no_flights and past = "[]" and pf = toy_proofs and hour = "toy_together 3" and T = 0
      and k = "''pwchange:1''" and n = 3 and os = "fst (flight_run toy_proofs no_flights (toy_together 3))" and v = "snd (flight_run toy_proofs no_flights (toy_together 3))"]
    toy_together_facts by (simp add: list_all_iff)

end
