(* ===== verification/Spec2Isabelle.thy ===== *)
theory Spec2Isabelle imports IdSet Allocator Poll LineScan Sse Pptp Replay Radius Enforcer Seal Login BackupTimes Router Devices Flights begin

text \<open>
  W-UI sells access to tunnels. A Go program on a server keeps customers in a database and the kernel
  and the tunnel programs as the database says; what is modelled here is the logic in it that has a
  contract of its own, translated from the Go files under src/internal one function at a time. The
  parts, and the theories that hold them:

  Addresses. Every interface has a subnet and an allocator over a bitset. Bitset: ipam/bitset.go,
  and the contract slot_pool of a pool of numbered slots. Allocator: ipam/allocator.go and pools.go,
  a client of that contract. IdSet: lists of row ids (idset, listfield).

  Customers in the kernel. What the rules ask for becomes a table of nftables objects, written whole
  or changed in place, and the counters in it are drained into the database. Keys: the names of
  objects and their parsing. Enforce: enforce/ruleset.go and incremental.go over the table as nftables
  runs a transaction on it. Enforcer: nftables_linux.go Apply, verify.go, nftjson.go and collect of
  reconciler.go, as one system of the enforcer's memory and the kernel. Traffic: the buffer of
  reconciler/traffic.go and the writes of traffic_batch.go.

  The stealth transports. Chunk: the framing, sealing and padding every transport moves
  (stealth/chunk.go, padding.go, stream.go). Poll: relay bodies and queries (poll.go). LineScan: the
  request line and the cookie (request.go, cookie.go). Sse: answers as server-sent events (sse.go).
  Replay: the rule of the gateway that an opening is spent once (stealthgw/replay.go). Incremental:
  the contract incremental_reader of a reader fed in pieces, which LineScan, Sse and Hdlc each meet.

  PPTP and RADIUS. Hdlc: pppd's framing (pptpd/hdlc.go). Pptp: the GRE header, the control messages,
  the relay of a call and the control loop (gre.go, msg.go, server_linux.go). Radius: the panel's
  RADIUS server with PAP and EAP-MSCHAPv2 (radiusd).

  The panel. Throttle: the table of failed attempts (api/throttle.go). Totp: six-digit codes
  (totp/totp.go). Login: the places a password or a code is asked for (api/auth.go, settings.go).
  Flights: the same with requests served at the same time, each a step where it asks the table and a
  step where it writes. Seal: archives sealed with the operator's password (backup/seal.go).

  Schedules. Calendar: dates and clocks of package time. Schedule: crontab lines and the next moment
  one fires (notify/schedule.go). BackupTimes: when the automatic backup goes (notify/backup.go).

  The ways out. Steer: the chains of the table wui_policy as the rules a packet meets, and their text
  (routing/policy.go). Masq: the table wui_nat (routing/nat.go). Plan: marks, tables and the statements
  for ip (routing/plan.go), and the applier with the part of the kernel it writes (applier_linux.go,
  nftstate). Router: what the applier keeps in the kernel, in every run. Texts: the lines and words these programs are made of and taken apart into.

  Holding customers to their connections. Spans: where a credential is used from, and how many of its
  addresses were in use at one moment (reconciler/sharing.go). Devices: what is seen of each credential
  from tick to tick, what nodes report to the panel, and who is held off (reconciler/concurrency.go).

  How the code is rendered. A struct is a record, a sum of cases a datatype, a Go error a constructor
  of an error type; a method takes the receiver and gives it back updated; a mutex makes an operation
  one step, and what may come between two locks is a step of its own. uint32 and uint64 are words and
  wrap; int and indices whose bounds are proved are natural numbers or integers; bytes are 8-bit words
  and a Go string is a list of bytes or of ASCII characters. A time is a number of nanoseconds, and
  Sub saturates. A map is a function to an option, or an association list when it is iterated over.

  What is a parameter, and what is asked of it. An AEAD opens exactly what its seal gives, which is 16
  bytes longer than the plaintext (aead_laws); for archives, what was sealed under one nonce was not
  sealed under another (nonces_apart), the usual idealisation of an AEAD. Hashes and HMAC are
  functions, of which the lengths are asked where they matter. crypto/rand and the clock are
  arguments. gorm's transaction commits all of its writes or none. nftables runs the commands of a
  transaction in order and refuses it whole when one names what is not there, deletes what is still
  named or adds what is there already (nft_run); of a whole table it takes what is declared before
  what names it (whole_cmds). ip keeps its rules by priority and takes a route only
  through devices that are up (exec_ip). Every hypothesis has a concrete instance in a witness.

  What the groups of lemmas show. Round trips: what one side writes the other reads back, for chunks,
  relay bodies, event streams, frames, GRE packets, codes and archives, however the bytes are cut.
  Exactness: a parser takes exactly the texts of its grammar, an opener exactly what was sealed.
  Safety of runs: no address twice, no opening twice, nobody in without a proof, no started call
  forgotten, no counter lost by a change, a bounded number of guesses an hour. Refinement: the kernel
  holds the table that the rules ask for after every successful Apply; the throttle answers as a tally
  that forgets nothing would; the chains of a policy do to a packet what the policy says, but for
  those sent out directly while nothing unmatched may leave. Conservation: usage submitted is in the
  database or still held.
  Limits: after the plan is enforced what is in use is within it, and the oldest stay.

  Bounds and loops. Loops over data are structural or have a measure (the archive reader: the bytes
  left; the archive writer: the bytes to write; base32: the letters left). No fuel is used. The
  figures of the code are kept: 64 KiB chunks, 4096-byte request lines, 20000-byte EAP packets, windows
  of seconds; where a result needs a bound on a count or a time it is a hypothesis and says so.

  Findings, each with the lemma that shows it. Only the last six-digit code is remembered, so one seen
  works again once the next was used (Login.code_opens_twice). An event stream's data line is not
  held to canonical base64 (Sse.sse_sealed_carriage_returns). The pause of the replay rule after a
  restart is up to eighty seconds (Replay.pause_of_eighty_seconds), and an opening spent above the
  limit, or claimed with an old reading of the clock, can be taken again (Replay.spent_above_limit_forgotten,
  Replay.stale_claim_accepts). Requests sent together are all let to guess before the first wrong one
  counts (Flights.guesses_together). Operators are not charged for
  customers' traffic in one case the comment does not name (Traffic.operators_uncharged).
  A schedule that never fires is given a time all the same (Schedule.impossible_day_answered), and
  a late backup may be followed at once by the next (BackupTimes.late_backup_close). A balancer's rule
  stands after the one of the main table and is never asked (Router.balancers_come_late,
  Router.late_rule_unused). A plan whose hops are all off may be taken for applied when it is not
  (Router.disabled_hops_kept), and a hop whose device went and came back stays refused
  (Router.restarted_hop_refused). IPv6 packets of others get the default mark (Steer.others_ipv6_marked),
  pinned destinations and rules that go out directly are dropped while nothing unmatched may leave
  (Steer.pinned_dropped, Steer.direct_rule_dropped), and a rule may
  ask for both families at once (Steer.both_families_in_one_rule). A credential with several connections
  is held off however old it is and wide as the plan may be (Devices.several_never_kept), and flows seen
  once only count for nothing in the report of shared ones (Spans.single_sightings).

  Not modelled, and why. Handlers and services that turn a request into rows and rows into JSON
  (internal/api but for the sign-in, internal/service, operators, fleet, nodes): what they do is the
  database's work, through gorm. Processes, sockets, files and netlink (internal/backend, egress,
  stealthgw but for the replay rule, nftobj_linux.go): their logic is in what the kernel does. Text of
  configuration files and of the guide, messages to Telegram and mail, the web pages, the command line.
\<close>

end
